(* ===== verification/Prelude.thy ===== *)
theory Prelude
  imports "HOL-Library.Word"
begin

unbundle bit_operations_syntax

section \<open>Shared vocabulary\<close>

text \<open>
  The names the component theories share: the machine integers of the sources, the population
  count and Hamming distance of a word, bit-serial reading of a field, and the generic facts on
  lists and words their proofs rest on.

  Conventions of the whole library.  A \<^verbatim>\<open>std::uintN_t\<close> is an \<open>N word\<close>, so addition, shifts and
  exclusive-or wrap and truncate as in C++; a \<^verbatim>\<open>std::size_t\<close> that only counts or indexes is a
  \<^typ>\<open>nat\<close>, and a \<^verbatim>\<open>std::size_t\<close> whose overflow a routine guards against is a \<open>64 word\<close>.
  A \<^verbatim>\<open>std::span\<close>, \<^verbatim>\<open>std::array\<close> or \<^verbatim>\<open>std::vector\<close> is a list.  A counting \<^verbatim>\<open>for\<close> loop is a
  \<^const>\<open>fold\<close> over its index list with the loop's variables as the accumulator, and a loop with
  an early exit is a recursive function.
\<close>

type_synonym u8 = "8 word"
type_synonym u16 = "16 word"
type_synonym u32 = "32 word"
type_synonym u64 = "64 word"

named_theorems word_bits \<comment> \<open>the bits of the model's word-valued operations\<close>
named_theorems linear_ops \<comment> \<open>operations that commute with exclusive-or\<close>

subsection \<open>Exclusive-or\<close>

lemma xor_cancel [simp]: "a XOR (a XOR b) = b" for a b :: "'a::len word"
  by (simp add: xor.assoc [symmetric])

lemma xor_eq_0 [simp]: "a XOR b = 0 \<longleftrightarrow> a = b" for a b :: "'a::len word"
  by (metis xor.right_neutral xor_cancel xor_self_eq)

lemma xor_same_iff [simp]: "a XOR b = a \<longleftrightarrow> b = 0" "a = a XOR b \<longleftrightarrow> b = 0" for a b :: "'a::len word"
  by (metis xor.right_neutral xor_cancel)+

lemma xor_and_distrib: "(a XOR b) AND c = (a AND c) XOR (b AND c)" for a b c :: "'a::len word"
  by (rule bit_word_eqI) (auto simp: bit_and_iff bit_xor_iff)

lemma bit_two_exp [simp]: "bit (2 ^ n :: 'a::len word) i \<longleftrightarrow> i = n \<and> n < LENGTH('a)"
  by (auto simp: bit_exp_iff)

lemma bit_low_mask [word_bits]: "bit (2 ^ n - 1 :: 'a::len word) i \<longleftrightarrow> i < n \<and> i < LENGTH('a)"
  by (auto simp: bit_mask_iff simp flip: mask_eq_exp_minus_1)

lemma bit_mask_word: "bit (push_bit n 1 - 1 :: 'a::len word) i \<longleftrightarrow> i < n \<and> i < LENGTH('a)"
  by (simp add: bit_low_mask push_bit_of_1)

text \<open>The all-ones literals of the sources, as masks.\<close>

lemma literal_masks:
  "0xF = (mask 4 :: int)" "0x3F = (mask 6 :: int)" "0xFF = (mask 8 :: int)"
  "0x7FF = (mask 11 :: int)" "0xFFF = (mask 12 :: int)" "0x3FFFF = (mask 18 :: int)" "0x7FFFFF = (mask 23 :: int)"
  by (simp_all add: mask_eq_exp_minus_1)

lemma bit_literal_int [word_bits]:
  "bit (0xF :: int) i \<longleftrightarrow> i < 4" "bit (0x3F :: int) i \<longleftrightarrow> i < 6" "bit (0xFF :: int) i \<longleftrightarrow> i < 8"
  "bit (0x7FF :: int) i \<longleftrightarrow> i < 11" "bit (0xFFF :: int) i \<longleftrightarrow> i < 12" "bit (0x3FFFF :: int) i \<longleftrightarrow> i < 18"
  "bit (0x7FFFFF :: int) i \<longleftrightarrow> i < 23"
  unfolding literal_masks by (simp_all only: bit_mask_iff possible_bit_int simp_thms)

lemma bit_literal:
  "bit (0xF :: 'a::len word) i \<longleftrightarrow> i < LENGTH('a) \<and> i < 4"
  "bit (0xFF :: 'a word) i \<longleftrightarrow> i < LENGTH('a) \<and> i < 8"
  by (auto simp: word_bits)

lemma bits_below: "unat w < 2 ^ n \<Longrightarrow> bit w i \<Longrightarrow> i < n" for w :: "'a::len word"
proof (rule ccontr)
  assume "unat w < 2 ^ n" "bit w i" "\<not> i < n"
  then have "bit (unat w) i" by (simp add: bit_unsigned_iff)
  then have "2 ^ i \<le> unat w" by (metis bit_iff_odd div_less even_zero not_le)
  moreover have "(2 :: nat) ^ n \<le> 2 ^ i" using \<open>\<not> i < n\<close> by (intro power_increasing) simp_all
  ultimately show False using \<open>unat w < 2 ^ n\<close> by simp
qed

text \<open>Arithmetic that does not wrap.\<close>

lemma unat_mult_fits: "unat a * unat b < 2 ^ LENGTH('a) \<Longrightarrow> unat (a * b) = unat a * unat b"
  for a b :: "'a::len word"
  by (simp add: unat_word_ariths)

lemma unat_add_fits: "unat a + unat b < 2 ^ LENGTH('a) \<Longrightarrow> unat (a + b) = unat a + unat b"
  for a b :: "'a::len word"
  by (simp add: unat_word_ariths)

subsection \<open>Population count and Hamming distance\<close>

text \<open>\<^verbatim>\<open>std::popcount\<close>: the number of one bits.\<close>

definition popcount :: "'a::len word \<Rightarrow> nat" where
  "popcount w = length (filter (bit w) [0..<LENGTH('a)])"

lemma popcount_card: "popcount w = card {i. bit w i}" for w :: "'a::len word"
proof -
  have "distinct (filter (bit w) [0..<LENGTH('a)])" by simp
  then have "popcount w = card (set (filter (bit w) [0..<LENGTH('a)]))"
    by (simp only: popcount_def distinct_card)
  also have "set (filter (bit w) [0..<LENGTH('a)]) = {i. bit w i}"
    by (auto dest: bit_imp_le_length)
  finally show ?thesis .
qed

lemma finite_bits [simp]: "finite {i. bit w i}" for w :: "'a::len word"
  by (rule finite_subset [of _ "{..<LENGTH('a)}"]) (auto dest: bit_imp_le_length)

lemma popcount_0 [simp]: "popcount 0 = 0"
  by (simp add: popcount_card)

lemma popcount_eq_0_iff [simp]: "popcount w = 0 \<longleftrightarrow> w = 0" for w :: "'a::len word"
  by (auto simp: popcount_card intro: bit_word_eqI)

lemma popcount_le: "popcount w \<le> LENGTH('a)" for w :: "'a::len word"
  by (simp add: popcount_def order_trans [OF length_filter_le])

lemma bits_xor: "{i. bit (a XOR b) i} = ({i. bit a i} - {i. bit b i}) \<union> ({i. bit b i} - {i. bit a i})"
  for a b :: "'a::len word"
  by (auto simp: bit_xor_iff)

lemma popcount_xor:
  "popcount (a XOR b) + 2 * card ({i. bit a i} \<inter> {i. bit b i}) = popcount a + popcount b"
  for a b :: "'a::len word"
proof -
  let ?A = "{i. bit a i}" and ?B = "{i. bit b i}"
  have "card ?A = card (?A - ?B) + card (?A \<inter> ?B)"
    by (metis card_Diff_subset_Int card_mono finite_Int finite_bits inf_le1 le_add_diff_inverse2)
  moreover have "card ?B = card (?B - ?A) + card (?A \<inter> ?B)"
    by (metis card_Diff_subset_Int card_mono finite_Int finite_bits inf_le2 inf_commute le_add_diff_inverse2)
  moreover have "card {i. bit (a XOR b) i} = card (?A - ?B) + card (?B - ?A)"
    unfolding bits_xor by (rule card_Un_disjoint) auto
  ultimately show ?thesis by (simp add: popcount_card)
qed

lemma popcount_xor_le: "popcount (a XOR b) \<le> popcount a + popcount b"
  for a b :: "'a::len word"
  using popcount_xor [of a b] by linarith

lemma even_popcount_xor: "even (popcount (a XOR b)) \<longleftrightarrow> (even (popcount a) \<longleftrightarrow> even (popcount b))"
  for a b :: "'a::len word"
proof -
  have "even (popcount (a XOR b)) \<longleftrightarrow> even (popcount a + popcount b)"
    unfolding popcount_xor [of a b, symmetric] by simp
  then show ?thesis by simp
qed

lemma popcount_one_bit [simp]: "popcount (2 ^ k :: 'a::len word) = (if k < LENGTH('a) then 1 else 0)"
  by (simp add: popcount_card)

lemma popcount_1 [simp]: "popcount (1 :: 'a::len word) = 1"
  using popcount_one_bit [of 0, where 'a = 'a] by simp

text \<open>A word of weight at most one is zero or a single bit.\<close>

lemma popcount_le_1_cases:
  fixes e :: "'a::len word"
  assumes "popcount e \<le> 1"
  obtains "e = 0" | k where "k < LENGTH('a)" "e = 2 ^ k"
proof (cases "e = 0")
  case False
  then obtain k where k: "bit e k" by (metis bit_eqI bit_0_eq bot_apply bot_bool_def)
  have "{i. bit e i} = {k}"
    using assms k card_le_Suc0_iff_eq [OF finite_bits, of e] by (auto simp: popcount_card)
  then have "bit e i \<longleftrightarrow> i = k" for i by auto
  then have "e = 2 ^ k" using bit_imp_le_length [OF k] by (intro bit_word_eqI) auto
  with that(2) bit_imp_le_length [OF k] show thesis by blast
qed

definition hdist :: "'a::len word \<Rightarrow> 'a word \<Rightarrow> nat" where
  "hdist a b = popcount (a XOR b)"

lemma hdist_self [simp]: "hdist a a = 0"
  by (simp add: hdist_def)

lemma hdist_commute: "hdist a b = hdist b a"
  by (simp add: hdist_def xor.commute)

lemma hdist_triangle: "hdist a c \<le> hdist a b + hdist b c"
proof -
  have "a XOR c = (a XOR b) XOR (b XOR c)"
    by (simp add: xor.assoc)
  then show ?thesis by (simp add: hdist_def popcount_xor_le del: xor_cancel)
qed

lemma hdist_eq_0_iff [simp]: "hdist a b = 0 \<longleftrightarrow> a = b"
  by (simp add: hdist_def xor_eq_0)

lemma popcount_ucast:
  fixes w :: "'a::len word"
  assumes "\<And>i. bit w i \<Longrightarrow> i < LENGTH('b)"
  shows "popcount (ucast w :: 'b::len word) = popcount w"
  unfolding popcount_card
  by (rule arg_cong [of _ _ card]) (use assms in \<open>auto simp: bit_ucast_iff dest: bit_imp_le_length\<close>)

text \<open>\<^verbatim>\<open>std::bit_width\<close>: one more than the position of the highest bit, zero for zero.\<close>

definition bit_width :: "'a::len word \<Rightarrow> nat" where
  "bit_width w = length (dropWhile Not (rev (map (bit w) [0..<LENGTH('a)])))"

text \<open>Weight adds up over words with no bit in common.\<close>

lemma popcount_disjoint:
  assumes "\<And>i. \<not> (bit a i \<and> bit b i)"
  shows "popcount (a XOR b) = popcount a + popcount b"
proof -
  have "{i. bit a i} \<inter> {i. bit b i} = {}" using assms by auto
  then show ?thesis using popcount_xor [of a b] by simp
qed

lemma popcount_filter:
  fixes w :: "'a::len word"
  assumes "\<And>i. bit w i \<longleftrightarrow> lo \<le> i \<and> i < lo + n \<and> P (i - lo)"
  shows "popcount w = length (filter P [0..<n])"
proof -
  have "{i. bit w i} = (\<lambda>i. lo + i) ` set (filter P [0..<n])"
  proof (intro set_eqI iffI)
    fix i assume "i \<in> {i. bit w i}"
    then have "lo \<le> i" "i < lo + n" "P (i - lo)" using assms [of i] by simp_all
    then have "i = lo + (i - lo)" "i - lo \<in> set (filter P [0..<n])" by auto
    then show "i \<in> (\<lambda>i. lo + i) ` set (filter P [0..<n])" by (rule image_eqI)
  next
    fix i assume "i \<in> (\<lambda>i. lo + i) ` set (filter P [0..<n])"
    then show "i \<in> {i. bit w i}" by (auto simp: assms)
  qed
  then have "popcount w = card ((\<lambda>i. lo + i) ` set (filter P [0..<n]))"
    by (simp only: popcount_card)
  also have "\<dots> = card (set (filter P [0..<n]))"
    by (rule card_image) (simp add: inj_on_def)
  finally show ?thesis
    by (simp only: distinct_card [OF distinct_filter [OF distinct_upt]])
qed

subsection \<open>Loops that fill a list\<close>

text \<open>A loop over \<open>i < n\<close> that writes slot \<open>a + i\<close>.\<close>

lemma length_fold_update [simp]: "length (fold (\<lambda>i xs. xs[a + i := f i]) is xs) = length xs"
  by (induction "is" arbitrary: xs) simp_all

lemma fold_update_nth:
  "k < length xs \<Longrightarrow> fold (\<lambda>i xs. xs[a + i := f i]) [0..<n] xs ! k =
    (if a \<le> k \<and> k < a + n then f (k - a) else xs ! k)"
  by (induction n) (auto simp: nth_list_update less_Suc_eq)

lemma fold_update_nth_0:
  "k < length xs \<Longrightarrow> fold (\<lambda>i xs. xs[i := f i]) [0..<n] xs ! k = (if k < n then f k else xs ! k)"
  using fold_update_nth [of k xs 0 f n] by simp

text \<open>A loop that writes slot \<open>g i\<close>, for an injective \<open>g\<close>.\<close>

lemma length_fold_scatter [simp]: "length (fold (\<lambda>i xs. xs[g i := f i]) is xs) = length xs"
  by (induction "is" arbitrary: xs) simp_all

lemma fold_scatter_other:
  "(\<And>i. i \<in> set is \<Longrightarrow> g i \<noteq> k) \<Longrightarrow> fold (\<lambda>i xs. xs[g i := f i]) is xs ! k = xs ! k"
  by (induction "is" arbitrary: xs) simp_all

lemma fold_scatter_nth:
  "inj_on g (set is) \<Longrightarrow> i \<in> set is \<Longrightarrow> g i < length xs \<Longrightarrow>
    fold (\<lambda>i xs. xs[g i := f i]) is xs ! g i = f i"
proof (induction "is" arbitrary: xs)
  case (Cons j "is")
  show ?case
  proof (cases "i \<in> set is")
    case True
    with Cons show ?thesis by simp
  next
    case False
    with Cons.prems have "i = j" by simp
    moreover have "g i' \<noteq> g i" if "i' \<in> set is" for i'
      using that False Cons.prems(1,2) inj_onD [OF Cons.prems(1), of i' i] by auto
    ultimately show ?thesis using Cons.prems(3) by (simp add: fold_scatter_other)
  qed
qed simp

text \<open>A loop over \<open>p < n\<close> that writes the \<open>p\<close>-th chunk of \<open>c\<close> slots and nothing else.\<close>

lemma fold_chunks:
  assumes len: "\<And>p xs. length (F p xs) = length xs"
    and out: "\<And>p xs k. p < n \<Longrightarrow> length xs = L \<Longrightarrow> k < L \<Longrightarrow> \<not> (p * c \<le> k \<and> k < p * c + c) \<Longrightarrow> F p xs ! k = xs ! k"
    and chunk: "\<And>p xs j. p < n \<Longrightarrow> length xs = L \<Longrightarrow> j < c \<Longrightarrow> F p xs ! (p * c + j) = G p j"
    and fits: "n * c \<le> L" and xs: "length xs = L"
  shows "length (fold F [0..<n] xs) = L"
    "k < L \<Longrightarrow> fold F [0..<n] xs ! k = (if k < n * c then G (k div c) (k mod c) else xs ! k)"
proof -
  have len_all: "length (fold F is xs) = length xs" for "is" xs
    by (induction "is" arbitrary: xs) (simp_all add: len)
  then show "length (fold F [0..<n] xs) = L" by (simp add: xs)
  have "fold F [0..<m] xs ! k = (if k < m * c then G (k div c) (k mod c) else xs ! k)"
    if "m \<le> n" "k < L" for m
    using that(1)
  proof (induction m)
    case (Suc m)
    let ?ys = "fold F [0..<m] xs"
    have ys: "length ?ys = L" by (simp add: len_all xs)
    show ?case
    proof (cases "m * c \<le> k \<and> k < m * c + c")
      case True
      then have "F m ?ys ! (m * c + (k - m * c)) = G m (k - m * c)"
        using Suc.prems ys by (intro chunk) auto
      moreover have "k div c = m" "k mod c = k - m * c"
        using True by (auto simp: div_nat_eqI mult.commute minus_div_mult_eq_mod [symmetric])
      ultimately show ?thesis using True by simp
    next
      case False
      then have "F m ?ys ! k = ?ys ! k"
        using Suc.prems ys that(2) by (intro out) auto
      moreover have "k < Suc m * c \<longleftrightarrow> k < m * c" using False by auto
      ultimately show ?thesis using Suc by simp
    qed
  qed simp
  from this [of n] show "k < L \<Longrightarrow> fold F [0..<n] xs ! k = (if k < n * c then G (k div c) (k mod c) else xs ! k)"
    by simp
qed

subsection \<open>Loops over a span with a state\<close>

text \<open>
  A loop that reads one element, writes one element and carries local variables: \<open>map_state\<close>, and
  \<open>map_state_opt\<close> for a body that may itself not return (\<^const>\<open>None\<close>).
\<close>

fun map_state :: "('s \<Rightarrow> 'a \<Rightarrow> 'b \<times> 's) \<Rightarrow> 's \<Rightarrow> 'a list \<Rightarrow> 'b list \<times> 's" where
  "map_state f s [] = ([], s)"
| "map_state f s (x # xs) = (let (y, s) = f s x; (ys, s) = map_state f s xs in (y # ys, s))"

fun map_state_opt :: "('s \<Rightarrow> 'a \<Rightarrow> ('b \<times> 's) option) \<Rightarrow> 's \<Rightarrow> 'a list \<Rightarrow> ('b list \<times> 's) option" where
  "map_state_opt f s [] = Some ([], s)"
| "map_state_opt f s (x # xs) =
     (case f s x of
        None \<Rightarrow> None
      | Some (y, s) \<Rightarrow>
          (case map_state_opt f s xs of None \<Rightarrow> None | Some (ys, s) \<Rightarrow> Some (y # ys, s)))"

lemma length_map_state [simp]: "length (fst (map_state f s xs)) = length xs"
  by (induction xs arbitrary: s) (simp_all add: split_beta Let_def)

lemma map_state_append:
  "map_state f s (xs @ ys) =
     (let (us, s) = map_state f s xs; (vs, s) = map_state f s ys in (us @ vs, s))"
  by (induction xs arbitrary: s) (simp_all add: split_beta Let_def)

text \<open>A property of the state that every step keeps, and a simulation of one loop by another.\<close>

lemma map_state_invariant:
  assumes "I s" "\<And>s x. I s \<Longrightarrow> x \<in> set xs \<Longrightarrow> I (snd (f s x))"
  shows "I (snd (map_state f s xs))"
  using assms by (induction xs arbitrary: s) (simp_all add: split_beta Let_def)

lemma map_state_simulate:
  assumes "R s t" "\<And>s t x. R s t \<Longrightarrow> x \<in> set xs \<Longrightarrow> fst (f s x) = fst (g t x) \<and> R (snd (f s x)) (snd (g t x))"
  shows "fst (map_state f s xs) = fst (map_state g t xs) \<and> R (snd (map_state f s xs)) (snd (map_state g t xs))"
  using assms
proof (induction xs arbitrary: s t)
  case (Cons x xs)
  then have "fst (f s x) = fst (g t x)" "R (snd (f s x)) (snd (g t x))" by simp_all
  with Cons.IH [of "snd (f s x)" "snd (g t x)"] Cons.prems(2) show ?case by (simp add: split_beta Let_def)
qed simp

lemma map_state_opt_simulate:
  assumes "R s t" "\<And>s t x. R s t \<Longrightarrow> x \<in> set xs \<Longrightarrow> \<exists>s'. f s x = Some (fst (g t x), s') \<and> R s' (snd (g t x))"
  shows "\<exists>s'. map_state_opt f s xs = Some (fst (map_state g t xs), s') \<and> R s' (snd (map_state g t xs))"
  using assms
proof (induction xs arbitrary: s t)
  case (Cons x xs)
  then obtain s' where s': "f s x = Some (fst (g t x), s')" "R s' (snd (g t x))" by force
  with Cons.IH [of s' "snd (g t x)"] Cons.prems(2)
  obtain s'' where "map_state_opt f s' xs = Some (fst (map_state g (snd (g t x)) xs), s'')"
    "R s'' (snd (map_state g (snd (g t x)) xs))" by force
  with s' show ?case by (simp add: split_beta Let_def)
qed simp

subsection \<open>Conditional sums of words\<close>

text \<open>
  The loops that add a column for every set bit all have the shape of a fold that exclusive-ors
  \<open>f i\<close> into its accumulator when \<open>P i\<close> holds.
\<close>

definition xor_where :: "(nat \<Rightarrow> bool) \<Rightarrow> (nat \<Rightarrow> 'a::len word) \<Rightarrow> nat list \<Rightarrow> 'a word" where
  "xor_where P f is = fold (\<lambda>i p. if P i then p XOR f i else p) is 0"

lemma fold_xor_where:
  "fold (\<lambda>i p. if P i then p XOR f i else p) is a = a XOR xor_where P f is"
proof (induction "is" arbitrary: a)
  case (Cons i "is")
  show ?case
    using Cons.IH [of "a XOR f i"] Cons.IH [of "f i"] Cons.IH [of a] by (simp add: xor.assoc xor_where_def)
qed (simp add: xor_where_def)

lemma xor_where_Nil [simp]: "xor_where P f [] = 0"
  by (simp add: xor_where_def)

lemma xor_where_Cons [simp]:
  "xor_where P f (i # is) = (if P i then f i XOR xor_where P f is else xor_where P f is)"
  using fold_xor_where [of P f "is" "f i"] by (simp add: xor_where_def)

lemma xor_where_cong:
  "(\<And>i. i \<in> set is \<Longrightarrow> P i = Q i) \<Longrightarrow> xor_where P f is = xor_where Q f is"
  by (induction "is") auto

lemma xor_where_xor:
  "xor_where (\<lambda>i. P i = (\<not> Q i)) f is = xor_where P f is XOR xor_where Q f is"
proof (induction "is")
  case (Cons i "is")
  then show ?case by (cases "P i"; cases "Q i") (simp_all add: xor.assoc xor.left_commute)
qed simp

lemma xor_where_single:
  "distinct is \<Longrightarrow> xor_where (\<lambda>i. i = j) f is = (if j \<in> set is then f j else 0)"
  by (induction "is") auto

lemma xor_where_none: "(\<And>i. i \<in> set is \<Longrightarrow> \<not> P i) \<Longrightarrow> xor_where P f is = 0"
  by (induction "is") auto

text \<open>Every word is the sum of its bits, so a linear function is the sum of its values on them.\<close>

lemma bit_xor_where_units:
  "distinct is \<Longrightarrow> bit (xor_where P (\<lambda>i. 2 ^ i :: 'a::len word) is) j \<longleftrightarrow> j \<in> set is \<and> P j \<and> j < LENGTH('a)"
  by (induction "is") (auto simp: bit_xor_iff)

lemma xor_where_linear:
  assumes "\<And>a b. f (a XOR b) = f a XOR f b" "f 0 = 0"
  shows "f (xor_where P g is) = xor_where P (\<lambda>i. f (g i)) is"
  by (induction "is") (simp_all add: assms)

lemma linear_sum:
  fixes f :: "'a::len word \<Rightarrow> 'b::len word"
  assumes "\<And>a b. f (a XOR b) = f a XOR f b" "\<And>i. bit w i \<Longrightarrow> i \<in> set is" "distinct is"
  shows "f w = xor_where (bit w) (\<lambda>i. f (2 ^ i)) is"
proof -
  have "f 0 = 0" using assms(1) [of 0 0] by simp
  have "w = xor_where (bit w) (\<lambda>i. 2 ^ i) is"
    by (rule bit_word_eqI) (use assms in \<open>auto simp: bit_xor_where_units\<close>)
  then have "f w = f (xor_where (bit w) (\<lambda>i. 2 ^ i) is)" by simp
  also have "\<dots> = xor_where (bit w) (\<lambda>i. f (2 ^ i)) is"
    by (rule xor_where_linear [OF assms(1) \<open>f 0 = 0\<close>])
  finally show ?thesis .
qed

end
