(* ===== verification/Hamming.thy ===== *)
theory Hamming
  imports Prelude
begin

section \<open>The shortened Hamming codes\<close>

text \<open>
  \<^verbatim>\<open>fec/Hamming.hpp\<close>: the systematic codes (15,11) and (10,6), each described by its parity columns.
  The record \<open>HammingResult\<close> is the result of a decode; \<open>hammingParity\<close> and \<open>hammingDecode\<close> are the
  templates over a column list, and the four entry points fix the list.  The lemmas show that a
  column list of distinct columns of weight two or more corrects every single error, that (15,11)
  never refuses a word, and which syndromes (10,6) refuses.
\<close>

subsection \<open>The routines\<close>

record HammingResult =
  hinfo :: u16
  herrors :: nat
  hvalid :: bool

definition kHamming1511Columns :: "u8 list" where
  "kHamming1511Columns = [0xF, 0xE, 0xD, 0xC, 0xB, 0xA, 0x9, 0x7, 0x6, 0x5, 0x3]"

definition kHamming1063Columns :: "u8 list" where
  "kHamming1063Columns = [0xE, 0xD, 0xB, 0x7, 0x3, 0xC]"

definition hammingParity :: "u8 list \<Rightarrow> u16 \<Rightarrow> u8" where
  "hammingParity columns info =
     fold (\<lambda>i p. if bit info (length columns - 1 - i) then p XOR columns ! i else p)
       [0..<length columns] 0"

text \<open>The search loop for the column that equals the syndrome: its index, if there is one.\<close>

fun columnIndex :: "u8 list \<Rightarrow> u8 \<Rightarrow> nat option" where
  "columnIndex [] s = None"
| "columnIndex (c # cs) s = (if c = s then Some 0 else map_option Suc (columnIndex cs s))"

definition hammingDecode :: "u8 list \<Rightarrow> u16 \<Rightarrow> u8 \<Rightarrow> HammingResult" where
  "hammingDecode columns info parity =
     (let n = length columns;
          r = info AND (push_bit n 1 - 1);
          syndrome = hammingParity columns r XOR (parity AND 0x0F)
      in if syndrome = 0 then \<lparr>hinfo = r, herrors = 0, hvalid = True\<rparr>
         else case columnIndex columns syndrome of
           Some i \<Rightarrow> \<lparr>hinfo = r XOR push_bit (n - 1 - i) 1, herrors = 1, hvalid = True\<rparr>
         | None \<Rightarrow>
             if syndrome AND (syndrome - 1) = 0 then \<lparr>hinfo = r, herrors = 1, hvalid = True\<rparr>
             else \<lparr>hinfo = r, herrors = 2, hvalid = False\<rparr>)"

definition hamming1511Encode :: "u16 \<Rightarrow> u16" where
  "hamming1511Encode info =
     (let data = info AND 0x07FF
      in push_bit 4 data OR ucast (hammingParity kHamming1511Columns data))"

definition hamming1063Encode :: "u8 \<Rightarrow> u16" where
  "hamming1063Encode info =
     (let data = ucast (info AND 0x3F) :: u16
      in push_bit 4 data OR ucast (hammingParity kHamming1063Columns data))"

definition hamming1511Decode :: "u16 \<Rightarrow> HammingResult" where
  "hamming1511Decode cw =
     hammingDecode kHamming1511Columns (drop_bit 4 cw AND 0x07FF) (ucast (cw AND 0x0F))"

definition hamming1063Decode :: "u16 \<Rightarrow> HammingResult" where
  "hamming1063Decode cw =
     hammingDecode kHamming1063Columns (drop_bit 4 cw AND 0x3F) (ucast (cw AND 0x0F))"

subsection \<open>Parity is linear\<close>

lemma hammingParity_sum:
  "hammingParity cs d = xor_where (\<lambda>i. bit d (length cs - 1 - i)) (\<lambda>i. cs ! i) [0..<length cs]"
  by (simp add: hammingParity_def fold_xor_where)

lemma hammingParity_xor [linear_ops]:
  "hammingParity cs (a XOR b) = hammingParity cs a XOR hammingParity cs b"
  by (simp add: hammingParity_sum bit_xor_iff xor_where_xor)

lemma hammingParity_unit:
  assumes "j < length cs" "length cs \<le> 16"
  shows "hammingParity cs (2 ^ (length cs - Suc j)) = cs ! j"
proof -
  have "hammingParity cs (2 ^ (length cs - Suc j)) = xor_where (\<lambda>i. i = j) (\<lambda>i. cs ! i) [0..<length cs]"
    unfolding hammingParity_sum using assms by (intro xor_where_cong) auto
  then show ?thesis using assms by (simp add: xor_where_single)
qed

subsection \<open>Decoding one error\<close>

lemma columnIndex_nth:
  "distinct cs \<Longrightarrow> i < length cs \<Longrightarrow> columnIndex cs (cs ! i) = Some i"
proof (induction cs arbitrary: i)
  case (Cons c cs)
  then show ?case by (cases i) auto
qed simp

lemma columnIndex_None: "columnIndex cs s = None \<longleftrightarrow> s \<notin> set cs"
  by (induction cs) auto

text \<open>What a code of this kind needs of its columns: distinct, four bits wide, none a unit.\<close>

definition good_columns :: "u8 list \<Rightarrow> bool" where
  "good_columns cs \<longleftrightarrow> distinct cs \<and> length cs \<le> 16 \<and>
     (\<forall>c\<in>set cs. c \<noteq> 0 \<and> c AND 0xF = c \<and> c \<notin> {1, 2, 4, 8})"

lemma len_1511: "length kHamming1511Columns = 11"
  by (simp add: kHamming1511Columns_def)

lemma len_1063: "length kHamming1063Columns = 6"
  by (simp add: kHamming1063Columns_def)

lemma good_1511: "good_columns kHamming1511Columns"
  by (simp add: good_columns_def kHamming1511Columns_def)

lemma good_1063: "good_columns kHamming1063Columns"
  by (simp add: good_columns_def kHamming1063Columns_def)

lemmas good_code = good_1511 good_1063

lemma hammingParity_nibble:
  assumes "good_columns cs"
  shows "hammingParity cs d AND 0xF = hammingParity cs d"
proof -
  have "set is \<subseteq> {..<length cs} \<Longrightarrow> xor_where P (\<lambda>i. cs ! i) is AND 0xF = xor_where P (\<lambda>i. cs ! i) is" for "is" P
    using assms by (induction "is") (auto simp: good_columns_def xor_and_distrib)
  note keep = this
  show ?thesis unfolding hammingParity_sum by (rule keep) auto
qed

lemma hammingDecode_masked:
  "hammingDecode cs (d AND mask (length cs)) p = hammingDecode cs d p"
proof -
  have "(d AND mask (length cs)) AND mask (length cs) = d AND mask (length cs)"
    by (simp add: and.assoc)
  moreover have "push_bit (length cs) 1 - 1 = (mask (length cs) :: u16)"
    by (simp add: mask_eq_exp_minus_1)
  ultimately show ?thesis by (simp only: hammingDecode_def Let_def)
qed

lemma hammingDecode_clean:
  assumes "good_columns cs" "d AND mask (length cs) = d"
  shows "hammingDecode cs d (hammingParity cs d) = \<lparr>hinfo = d, herrors = 0, hvalid = True\<rparr>"
  using assms by (simp add: hammingDecode_def Let_def mask_eq_exp_minus_1 [symmetric] hammingParity_nibble)

lemma hammingDecode_info_error:
  assumes "good_columns cs" "d AND mask (length cs) = d" "j < length cs"
  shows "hammingDecode cs (d XOR 2 ^ (length cs - Suc j)) (hammingParity cs d) =
     \<lparr>hinfo = d, herrors = 1, hvalid = True\<rparr>"
proof -
  let ?e = "2 ^ (length cs - Suc j) :: u16"
  have len: "length cs \<le> 16" and dist: "distinct cs" and nz: "cs ! j \<noteq> 0"
    using assms by (auto simp: good_columns_def)
  have "?e AND mask (length cs) = ?e"
    using assms(3) by (intro bit_word_eqI) (auto simp: bit_and_iff bit_mask_iff)
  then have keep: "(d XOR ?e) AND mask (length cs) = d XOR ?e"
    using assms(2) by (simp add: xor_and_distrib)
  have "hammingParity cs (d XOR ?e) XOR (hammingParity cs d AND 0xF) = cs ! j"
    using assms len by (simp add: hammingParity_xor hammingParity_unit hammingParity_nibble
        xor.commute [of "hammingParity cs d"] xor.assoc)
  then show ?thesis
    using nz dist assms(3) keep
    by (simp add: hammingDecode_def Let_def mask_eq_exp_minus_1 [symmetric] columnIndex_nth xor.assoc
        del: xor_eq_0)
qed

lemma hammingDecode_parity_error:
  assumes "good_columns cs" "d AND mask (length cs) = d" "s \<in> {1, 2, 4, 8}"
  shows "hammingDecode cs d (hammingParity cs d XOR s) = \<lparr>hinfo = d, herrors = 1, hvalid = True\<rparr>"
proof -
  have "s \<notin> set cs" using assms by (auto simp: good_columns_def)
  then have none: "columnIndex cs s = None" by (simp add: columnIndex_None)
  have "s AND 0xF = s" "s \<noteq> 0" "s AND (s - 1) = 0" using assms(3) by auto
  then show ?thesis
    using assms none
    by (simp add: hammingDecode_def Let_def mask_eq_exp_minus_1 [symmetric] hammingParity_nibble xor_and_distrib)
qed

subsection \<open>Codewords\<close>

text \<open>A systematic word taken apart again: the information above the four parity bits.\<close>

lemma systematic_split:
  fixes d :: u16 and p :: u8
  assumes "d AND mask n = d" "n \<le> 12" "p AND 0xF = p"
  shows "drop_bit 4 (push_bit 4 d OR ucast p) = d" "ucast ((push_bit 4 d OR ucast p) AND (0xF :: u16)) = p"
proof -
  have d: "bit d i \<Longrightarrow> i < n" for i
    using assms(1) by (metis bit_and_iff bit_mask_iff)
  have p: "bit p i \<Longrightarrow> i < 4" for i
    using assms(3) by (metis bit_and_iff bit_literal(1))
  show "drop_bit 4 (push_bit 4 d OR ucast p) = d"
    by (rule bit_word_eqI) (use assms(2) d p in \<open>fastforce simp: bit_simps\<close>)
  show "ucast ((push_bit 4 d OR ucast p) AND (0xF :: u16)) = p"
    using p by (auto intro!: bit_word_eqI simp: bit_simps word_bits)
qed

lemma error_split:
  "4 \<le> k \<Longrightarrow> k < 16 \<Longrightarrow> drop_bit 4 (2 ^ k :: u16) = 2 ^ (k - 4)"
  "4 \<le> k \<Longrightarrow> (2 ^ k :: u16) AND 0xF = 0"
  "k < 4 \<Longrightarrow> drop_bit 4 (2 ^ k :: u16) = 0"
  "k < 4 \<Longrightarrow> ucast ((2 ^ k :: u16) AND 0xF) \<in> {1, 2, 4, 8 :: u8}"
proof -
  show "4 \<le> k \<Longrightarrow> k < 16 \<Longrightarrow> drop_bit 4 (2 ^ k :: u16) = 2 ^ (k - 4)"
    by (rule bit_word_eqI) (auto simp: bit_drop_bit_eq)
  show "4 \<le> k \<Longrightarrow> (2 ^ k :: u16) AND 0xF = 0"
    by (rule bit_word_eqI) (auto simp: bit_and_iff word_bits)
  show "k < 4 \<Longrightarrow> drop_bit 4 (2 ^ k :: u16) = 0"
    by (rule bit_word_eqI) (auto simp: bit_drop_bit_eq)
  show "k < 4 \<Longrightarrow> ucast ((2 ^ k :: u16) AND 0xF) \<in> {1, 2, 4, 8 :: u8}"
  proof -
    assume "k < 4"
    then consider "k = 0" | "k = 1" | "k = 2" | "k = 3" by linarith
    then show ?thesis by cases simp_all
  qed
qed

text \<open>Any systematic code on good columns corrects any single wrong bit of its word.\<close>

lemma systematic_corrects:
  fixes e :: u16
  assumes "good_columns cs" "length cs \<le> 12" "d AND mask (length cs) = d"
    and "popcount e \<le> 1" "e AND mask (length cs + 4) = e"
  defines "cw \<equiv> push_bit 4 d OR ucast (hammingParity cs d)"
  shows "hammingDecode cs (drop_bit 4 (cw XOR e)) (ucast ((cw XOR e) AND 0xF)) =
     \<lparr>hinfo = d, herrors = popcount e, hvalid = True\<rparr>"
proof -
  have cw: "drop_bit 4 cw = d" "ucast (cw AND 0xF) = hammingParity cs d"
    unfolding cw_def using systematic_split assms(1-3) hammingParity_nibble by blast+
  then have split: "drop_bit 4 (cw XOR e) = d XOR drop_bit 4 e"
    "ucast ((cw XOR e) AND 0xF) = hammingParity cs d XOR ucast (e AND 0xF)"
    by (simp_all add: drop_bit_xor xor_and_distrib unsigned_xor_eq)
  show ?thesis
    using assms(4)
  proof (cases rule: popcount_le_1_cases)
    case 1
    then show ?thesis using assms split by (simp add: hammingDecode_clean)
  next
    case (2 k)
    have "bit (e AND mask (length cs + 4)) k" unfolding assms(5) using 2 by simp
    then have k: "k < length cs + 4" by (simp add: bit_and_iff bit_mask_iff)
    show ?thesis
    proof (cases "4 \<le> k")
      case True
      define j where "j = length cs - Suc (k - 4)"
      have "k - 4 = length cs - Suc j" "j < length cs" using True k by (auto simp: j_def)
      with True 2 split assms show ?thesis by (simp add: error_split hammingDecode_info_error)
    next
      case False
      then have "ucast (e AND 0xF) \<in> {1, 2, 4, 8 :: u8}" using 2 error_split(4) by simp
      with False 2 split assms show ?thesis
        by (simp add: error_split(3) hammingDecode_parity_error)
    qed
  qed
qed

subsection \<open>What is refused\<close>

lemma nibble_cases:
  fixes s :: u8
  assumes "s AND 0xF = s"
  shows "s \<in> {0, 1, 2, 3, 4, 5, 6, 7, 8, 9, 10, 11, 12, 13, 14, 15}"
proof -
  have "uint s = uint s AND 0xF"
    using arg_cong [OF assms, of uint] by (simp add: unsigned_and_eq)
  also have "\<dots> = uint s mod 16"
    using take_bit_eq_mask [of 4 "uint s"] by (simp add: take_bit_eq_mod mask_eq_exp_minus_1)
  finally have "uint s < 16" by simp
  moreover have "0 \<le> uint s" by simp
  ultimately have "uint s \<in> set [0..15]" by (simp only: set_upto) auto
  then have "word_of_int (uint s) \<in> (word_of_int ` set [0..15] :: u8 set)" by blast
  then show ?thesis by (simp only: word_of_int_uint) (simp add: upto.simps)
qed

text \<open>The syndrome a (10,6) word has in the code.\<close>

definition syndrome1063 :: "u16 \<Rightarrow> u8" where
  "syndrome1063 cw = hammingParity kHamming1063Columns (drop_bit 4 cw AND 0x3F) XOR (ucast (cw AND 0x0F) AND 0x0F)"

lemma hvalid_iff:
  assumes "s = hammingParity cs (d AND mask (length cs)) XOR (p AND 0x0F)"
  shows "hvalid (hammingDecode cs d p) \<longleftrightarrow> s = 0 \<or> s \<in> set cs \<or> s AND (s - 1) = 0"
proof (cases "columnIndex cs s")
  case None
  then show ?thesis
    using assms columnIndex_None [of cs s]
    by (simp add: hammingDecode_def Let_def mask_eq_exp_minus_1 [symmetric] del: xor_eq_0)
next
  case (Some i)
  then have "s \<in> set cs" using columnIndex_None [of cs s] by simp
  with Some show ?thesis
    using assms by (simp add: hammingDecode_def Let_def mask_eq_exp_minus_1 [symmetric] del: xor_eq_0)
qed

subsection \<open>Properties\<close>

text \<open>C17. Both Hamming decoders recover the information of a codeword hit by at most one error, with the
  number of errors.\<close>

theorem hamming_corrects_single_errors:
  assumes "popcount e \<le> 1"
  shows "(e AND 0x7FFF = e \<longrightarrow> hamming1511Decode (hamming1511Encode i XOR e) =
            \<lparr>hinfo = i AND 0x7FF, herrors = popcount e, hvalid = True\<rparr>) \<and>
         (e AND 0x3FF = e \<longrightarrow> hamming1063Decode (hamming1063Encode j XOR e) =
            \<lparr>hinfo = ucast (j AND 0x3F), herrors = popcount e, hvalid = True\<rparr>)"
proof (intro conjI impI)
  note len = len_1511 len_1063
  have mask: "mask 11 = (0x7FF :: u16)" "mask (11 + 4) = (0x7FFF :: u16)"
    "mask 6 = (0x3F :: u16)" "mask (6 + 4) = (0x3FF :: u16)"
    by (simp_all add: mask_eq_exp_minus_1)
  note corrects = systematic_corrects [OF _ _ _ assms]
  note masked = hammingDecode_masked [of kHamming1511Columns] hammingDecode_masked [of kHamming1063Columns]
  have d: "(i AND 0x7FF) AND 0x7FF = i AND 0x7FF" "ucast (j AND 0x3F) AND (0x3F :: u16) = ucast (j AND 0x3F)"
    by (simp_all add: and.assoc unsigned_and_eq)
  show "hamming1511Decode (hamming1511Encode i XOR e) =
      \<lparr>hinfo = i AND 0x7FF, herrors = popcount e, hvalid = True\<rparr>" if "e AND 0x7FFF = e"
    using corrects [OF good_1511, of "i AND 0x7FF"] masked that d
    by (simp only: len mask hamming1511Decode_def hamming1511Encode_def Let_def)
  show "hamming1063Decode (hamming1063Encode j XOR e) =
      \<lparr>hinfo = ucast (j AND 0x3F), herrors = popcount e, hvalid = True\<rparr>" if "e AND 0x3FF = e"
    using corrects [OF good_1063, of "ucast (j AND 0x3F)"] masked that d
    by (simp only: len mask hamming1063Decode_def hamming1063Encode_def Let_def)
qed

theorem hamming_corrects_single_errors_witness:
  "hamming1511Decode (hamming1511Encode 0x5A3 XOR 0x0400) = \<lparr>hinfo = 0x5A3, herrors = 1, hvalid = True\<rparr> \<and>
   hamming1063Decode (hamming1063Encode 0x2A XOR 0x0004) = \<lparr>hinfo = 0x2A, herrors = 1, hvalid = True\<rparr>"
proof -
  have "popcount (0x0400 :: u16) = 1" "popcount (0x0004 :: u16) = 1"
    by code_simp+
  then show ?thesis
    using hamming_corrects_single_errors [of "0x0400" "0x5A3" 0]
      hamming_corrects_single_errors [of "0x0004" 0 "0x2A"] by simp
qed

theorem hamming_validity:
  "hvalid (hamming1511Decode cw) \<and>
   hvalid (hamming1063Decode cw) = (syndrome1063 cw \<notin> {0x5, 0x6, 0x9, 0xA, 0xF})"
proof
  have nib: "good_columns cs \<Longrightarrow> s = hammingParity cs d XOR (p AND 0xF) \<Longrightarrow>
    s \<in> {0, 1, 2, 3, 4, 5, 6, 7, 8, 9, 10, 11, 12, 13, 14, 15}" for cs d p s
    by (rule nibble_cases) (simp add: xor_and_distrib hammingParity_nibble and.assoc)
  define s where "s = hammingParity kHamming1511Columns (drop_bit 4 cw AND 0x7FF AND mask 11) XOR (ucast (cw AND 0xF) AND 0xF)"
  have "hvalid (hamming1511Decode cw) \<longleftrightarrow> s = 0 \<or> s \<in> set kHamming1511Columns \<or> s AND (s - 1) = 0"
    unfolding hamming1511Decode_def by (rule hvalid_iff) (simp add: s_def len_1511 and.assoc)
  then show "hvalid (hamming1511Decode cw)"
    using nib [OF good_1511 s_def] by (auto simp: kHamming1511Columns_def)
  define t where "t = syndrome1063 cw"
  have "mask 6 = (0x3F :: u16)" by (simp add: mask_eq_exp_minus_1)
  then have t: "t = hammingParity kHamming1063Columns (drop_bit 4 cw AND 0x3F AND mask 6) XOR (ucast (cw AND 0xF) AND 0xF)"
    by (simp only: t_def syndrome1063_def and.idem)
  have "hvalid (hamming1063Decode cw) \<longleftrightarrow> t = 0 \<or> t \<in> set kHamming1063Columns \<or> t AND (t - 1) = 0"
    unfolding hamming1063Decode_def by (rule hvalid_iff) (simp add: t len_1063 and.assoc)
  moreover have "x = 0 \<or> x \<in> set kHamming1063Columns \<or> x AND (x - 1) = 0 \<longleftrightarrow> x \<notin> {0x5, 0x6, 0x9, 0xA, 0xF}"
    if "x \<in> {0, 1, 2, 3, 4, 5, 6, 7, 8, 9, 10, 11, 12, 13, 14, 15}" for x
    using that by (elim insertE emptyE) (simp_all add: kHamming1063Columns_def)
  ultimately show "hvalid (hamming1063Decode cw) = (syndrome1063 cw \<notin> {0x5, 0x6, 0x9, 0xA, 0xF})"
    using nib [OF good_1063 t] by (simp only: t_def)
qed

end
