(* ===== verification/Gf2.thy ===== *)
theory Gf2
  imports Prelude
begin

section \<open>Polynomial division over GF(2)\<close>

text \<open>
  \<^verbatim>\<open>fec/Gf2Polynomial.hpp\<close>: the remainder of a polynomial over GF(2) by a generator, both bit
  fields in which bit \<open>i\<close> is the coefficient of \<open>x\<close> to the \<open>i\<close>.  Every cyclic code of the
  library encodes with it and takes its syndromes with it.  The lemmas give its contract: it is
  linear, its result has no bit at or above the degree, and it differs from the dividend by a
  combination of shifted generators.
\<close>

subsection \<open>The routine\<close>

text \<open>One turn of the division loop, at the bit the loop has counted down to.\<close>

definition gf2_step :: "nat \<Rightarrow> u64 \<Rightarrow> nat \<Rightarrow> u64 \<Rightarrow> u64" where
  "gf2_step degree generator b word =
     (if bit word b then word XOR push_bit (b - degree) generator else word)"

definition gf2Remainder :: "u64 \<Rightarrow> nat \<Rightarrow> u64 \<Rightarrow> nat \<Rightarrow> u64" where
  "gf2Remainder word len generator degree =
     fold (gf2_step degree generator) (rev [degree..<len]) word AND (push_bit degree 1 - 1)"

subsection \<open>Linearity\<close>

lemma gf2Remainder_take: 
  "gf2Remainder word len generator degree =
     take_bit degree (fold (gf2_step degree generator) (rev [degree..<len]) word)"
  by (simp add: gf2Remainder_def take_bit_eq_mask mask_eq_exp_minus_1)

lemma gf2_step_xor [linear_ops]:
  "gf2_step d g b (x XOR y) = gf2_step d g b x XOR gf2_step d g b y"
  by (auto simp: gf2_step_def bit_xor_iff xor.assoc xor.left_commute xor.commute)

lemma fold_linear:
  assumes "\<And>b x y. f b (x XOR y) = f b x XOR f b (y :: 'a::len word)"
  shows "fold f bs (x XOR y) = fold f bs x XOR fold f bs y"
  by (induction bs arbitrary: x y) (simp_all add: assms)

lemma gf2Remainder_xor [linear_ops]:
  "gf2Remainder (x XOR y) n g d = gf2Remainder x n g d XOR gf2Remainder y n g d"
  unfolding gf2Remainder_take by (simp add: fold_linear linear_ops take_bit_xor)

lemma gf2Remainder_0 [simp]: "gf2Remainder 0 n g d = 0"
  using gf2Remainder_xor [of 0 0 n g d] by simp

lemma bit_gf2Remainder: "bit (gf2Remainder w n g d) i \<Longrightarrow> i < d"
  by (simp add: gf2Remainder_take bit_take_bit_iff)

subsection \<open>The remainder law\<close>

text \<open>The combination of shifted generators that a list of shifts names.\<close>

definition gf2_multiple :: "u64 \<Rightarrow> nat list \<Rightarrow> u64" where
  "gf2_multiple g ks = fold (\<lambda>k acc. acc XOR push_bit k g) ks 0"

lemma fold_xor_acc: "fold (\<lambda>k acc. acc XOR f k) ks a = a XOR fold (\<lambda>k acc. acc XOR f k) ks (0 :: 'a::len word)"
proof (induction ks arbitrary: a)
  case (Cons k ks)
  show ?case using Cons.IH [of "a XOR f k"] Cons.IH [of "f k"] by (simp add: xor.assoc)
qed simp

lemma gf2_multiple_Cons: "gf2_multiple g (k # ks) = push_bit k g XOR gf2_multiple g ks"
  by (simp add: gf2_multiple_def fold_xor_acc [of _ _ "push_bit k g"])

lemma gf2_step_clears:
  assumes "bit g d" "\<And>i. d < i \<Longrightarrow> \<not> bit g i" "d \<le> b" "\<And>i. b < i \<Longrightarrow> \<not> bit w i" "b \<le> i"
  shows "\<not> bit (gf2_step d g b w) i"
proof (cases "i = b")
  case True
  with assms show ?thesis
    by (auto simp: gf2_step_def bit_xor_iff bit_push_bit_iff dest: bit_imp_le_length)
next
  case False
  with assms have "\<not> bit w i" "\<not> bit g (i - (b - d))" by auto
  then show ?thesis by (simp add: gf2_step_def bit_xor_iff bit_push_bit_iff)
qed

lemma gf2_fold_division:
  assumes "bit g d" "\<And>i. d < i \<Longrightarrow> \<not> bit g i"
  shows "(\<And>i. n \<le> i \<Longrightarrow> \<not> bit w i) \<Longrightarrow> d \<le> n \<Longrightarrow>
    \<exists>ks. set ks \<subseteq> {..<n - d} \<and> w = fold (gf2_step d g) (rev [d..<n]) w XOR gf2_multiple g ks
      \<and> (\<forall>i\<ge>d. \<not> bit (fold (gf2_step d g) (rev [d..<n]) w) i)"
proof (induction n arbitrary: w)
  case 0
  then show ?case by (intro exI [of _ "[]"]) (auto simp: gf2_multiple_def)
next
  case (Suc n)
  show ?case
  proof (cases "d = Suc n")
    case True
    with Suc.prems show ?thesis by (intro exI [of _ "[]"]) (auto simp: gf2_multiple_def)
  next
    case False
    with Suc.prems have dn: "d \<le> n" by simp
    let ?w = "gf2_step d g n w"
    have clear: "\<And>i. n \<le> i \<Longrightarrow> \<not> bit ?w i"
      using Suc.prems(1) by (intro gf2_step_clears [OF assms dn]) auto
    obtain ks where ks: "set ks \<subseteq> {..<n - d}"
      "?w = fold (gf2_step d g) (rev [d..<n]) ?w XOR gf2_multiple g ks"
      "\<forall>i\<ge>d. \<not> bit (fold (gf2_step d g) (rev [d..<n]) ?w) i"
      using Suc.IH [OF clear dn] by blast
    have unroll: "fold (gf2_step d g) (rev [d..<Suc n]) w = fold (gf2_step d g) (rev [d..<n]) ?w"
      using dn by simp
    let ?ks = "if bit w n then (n - d) # ks else ks"
    have "w = fold (gf2_step d g) (rev [d..<n]) ?w XOR gf2_multiple g ?ks"
    proof (cases "bit w n")
      case True
      then have "w = ?w XOR push_bit (n - d) g"
        by (simp add: gf2_step_def xor.assoc)
      also have "\<dots> = fold (gf2_step d g) (rev [d..<n]) ?w XOR (gf2_multiple g ks XOR push_bit (n - d) g)"
        using ks(2) by (simp only: xor.assoc [symmetric])
      also have "gf2_multiple g ks XOR push_bit (n - d) g = gf2_multiple g ?ks"
        using True by (simp only: if_True gf2_multiple_Cons xor.commute)
      finally show ?thesis .
    next
      case False
      with ks(2) show ?thesis by (simp add: gf2_step_def)
    qed
    moreover have "set ?ks \<subseteq> {..<Suc n - d}"
      using ks(1) dn by auto
    ultimately show ?thesis using ks(3) unroll by (intro exI [of _ ?ks]) simp
  qed
qed

lemma gf2Remainder_division:
  assumes "bit g d" "\<And>i. d < i \<Longrightarrow> \<not> bit g i" "\<And>i. n \<le> i \<Longrightarrow> \<not> bit w i" "d \<le> n"
  shows "\<exists>ks. set ks \<subseteq> {..<n - d} \<and> w = gf2Remainder w n g d XOR gf2_multiple g ks"
proof -
  let ?r = "fold (gf2_step d g) (rev [d..<n]) w"
  obtain ks where ks: "set ks \<subseteq> {..<n - d}" "w = ?r XOR gf2_multiple g ks" "\<forall>i\<ge>d. \<not> bit ?r i"
    using gf2_fold_division [OF assms] by blast
  have "gf2Remainder w n g d = ?r"
    unfolding gf2Remainder_take by (rule bit_word_eqI) (use ks(3) in \<open>auto simp: bit_take_bit_iff not_le\<close>)
  with ks show ?thesis by auto
qed

text \<open>A word already below the degree is its own remainder.\<close>

lemma gf2_fold_idle:
  "(\<And>b. b \<in> set bs \<Longrightarrow> \<not> bit w b) \<Longrightarrow> fold (gf2_step d g) bs w = w"
  by (induction bs) (simp_all add: gf2_step_def)

lemma gf2Remainder_small:
  assumes "\<And>i. d \<le> i \<Longrightarrow> \<not> bit w i"
  shows "gf2Remainder w n g d = w"
proof -
  have "fold (gf2_step d g) (rev [d..<n]) w = w"
    by (rule gf2_fold_idle) (auto simp: assms)
  moreover have "take_bit d w = w"
    by (rule bit_word_eqI) (use assms not_le in \<open>auto simp: bit_take_bit_iff\<close>)
  ultimately show ?thesis by (simp add: gf2Remainder_take)
qed

lemma gf2Remainder_idem [simp]: "gf2Remainder (gf2Remainder w n g d) m g d = gf2Remainder w n g d"
  by (rule gf2Remainder_small) (auto dest: bit_gf2Remainder)

text \<open>The systematic word of every encoder: dividend and remainder together have remainder zero.\<close>

lemma gf2Remainder_systematic: "gf2Remainder (w XOR gf2Remainder w n g d) n g d = 0"
  by (simp add: linear_ops)

end
