(* ===== verification/LinearCode.thy ===== *)
theory LinearCode
  imports Gf2
begin

section \<open>Minimum distance of a systematic cyclic code\<close>

text \<open>
  What the Golay and BCH decoders rely on.  \<open>code_ok d rows\<close> is an executable check over the parity
  rows of a systematic code (one row per information bit) that no nonempty selection of rows gives a
  word lighter than \<open>d\<close>; \<open>light_free\<close> is its search, cut off as soon as the selected information
  bits alone reach the weight.  The locale \<open>cyclic_code\<close> is the interface: a length, a generator and
  its degree that pass the check.  Inside it the distance between two words of remainder zero, and
  the uniqueness of a light error pattern with a given syndrome, are proved once; each code
  interprets it in its own theory.
\<close>

subsection \<open>The check\<close>

function weight_ge :: "nat \<Rightarrow> int \<Rightarrow> bool" where
  "weight_ge d x =
     (if d = 0 then True else if x \<le> 0 then False else weight_ge (if odd x then d - 1 else d) (x div 2))"
  by pat_completeness auto
termination
  by (relation "measure (\<lambda>(d, x). nat x)") auto

declare weight_ge.simps [simp del]

lemma weight_ge_simps [simp]:
  "weight_ge 0 x" "weight_ge (Suc d) 0 = False" "weight_ge (Suc d) 1 = (d = 0)"
  "weight_ge (Suc d) (numeral (num.Bit0 n)) = weight_ge (Suc d) (numeral n)"
  "weight_ge (Suc d) (numeral (num.Bit1 n)) = weight_ge d (numeral n)"
  by (subst weight_ge.simps; simp add: weight_ge.simps [of d 0])+

fun light_free :: "nat \<Rightarrow> int list \<Rightarrow> int \<Rightarrow> bool" where
  "light_free 0 rows acc = True"
| "light_free (Suc d) [] acc = weight_ge (Suc d) acc"
| "light_free (Suc d) (r # rows) acc = (light_free (Suc d) rows acc \<and> light_free d rows (acc XOR r))"

fun code_ok :: "nat \<Rightarrow> int list \<Rightarrow> bool" where
  "code_ok d [] = True"
| "code_ok d (r # rows) = (light_free (d - 1) rows r \<and> code_ok d rows)"

subsection \<open>Its meaning\<close>

lemma popcount_half: "popcount w = (if odd w then 1 else 0) + popcount (drop_bit 1 w)"
  for w :: "'a::len word"
proof -
  let ?S = "Suc ` {i. bit (drop_bit 1 w) i}"
  have "{i. bit w i} = (if odd w then {0} else {}) \<union> ?S"
  proof (intro set_eqI iffI)
    fix i assume i: "i \<in> {i. bit w i}"
    then show "i \<in> (if odd w then {0} else {}) \<union> ?S"
      by (cases i) (auto simp: bit_drop_bit_eq bit_0)
  qed (auto simp: bit_drop_bit_eq bit_0 split: if_splits)
  moreover have "card ?S = card {i. bit (drop_bit 1 w) i}"
    by (rule card_image) simp
  moreover have "0 \<notin> ?S" "finite ?S" by auto
  ultimately show ?thesis by (simp add: popcount_card)
qed

lemma weight_ge_popcount: "weight_ge d (uint w) \<Longrightarrow> d \<le> popcount w"
  for w :: "'a::len word"
proof (induction d "uint w" arbitrary: w rule: weight_ge.induct)
  case (1 d w)
  show ?case
  proof (cases "d = 0")
    case False
    have div: "uint w div 2 = uint (drop_bit 1 w)"
    proof -
      have "uint (drop_bit 1 w) = drop_bit 1 (uint w)"
        by (rule bit_eqI) (auto simp: bit_simps simp del: drop_bit_of_1 dest: bit_imp_le_length)
      then show ?thesis by (simp add: drop_bit_eq_div)
    qed
    have "weight_ge d (uint w) = (if d = 0 then True else if uint w \<le> 0 then False
        else weight_ge (if odd (uint w) then d - 1 else d) (uint w div 2))"
      by (rule weight_ge.simps)
    with "1.prems" False have pos: "\<not> uint w \<le> 0"
      and step: "weight_ge (if odd (uint w) then d - 1 else d) (uint (drop_bit 1 w))"
      unfolding div by (metis (full_types))+
    have "(if odd (uint w) then d - 1 else d) \<le> popcount (drop_bit 1 w)"
      using "1.hyps" [OF False pos div step] by simp
    moreover have "odd (uint w) = odd w"
      by (metis bit_0 bit_uint_iff len_gt_0)
    ultimately show ?thesis
      using popcount_half [of w] False by (auto split: if_splits)
  qed simp
qed

lemma light_free_weight:
  fixes f :: "nat \<Rightarrow> 'a::len word"
  assumes "light_free d (map (\<lambda>i. uint (f i)) is) (uint a)"
  shows "d \<le> length (filter P is) + popcount (a XOR xor_where P f is)"
  using assms
proof (induction "is" arbitrary: d a)
  case Nil
  then show ?case by (cases d) (auto dest: weight_ge_popcount)
next
  case (Cons i "is")
  show ?case
  proof (cases d)
    case (Suc n)
    with Cons.prems have "light_free (Suc n) (map (\<lambda>i. uint (f i)) is) (uint a)"
      "light_free n (map (\<lambda>i. uint (f i)) is) (uint (a XOR f i))"
      by (simp_all add: unsigned_xor_eq)
    from this [THEN Cons.IH] Suc show ?thesis by (simp add: xor.assoc)
  qed simp
qed

lemma code_ok_weight:
  fixes f :: "nat \<Rightarrow> 'a::len word"
  assumes "code_ok d (map (\<lambda>i. uint (f i)) is)" "\<exists>i\<in>set is. P i"
  shows "d \<le> length (filter P is) + popcount (xor_where P f is)"
  using assms
proof (induction "is")
  case (Cons i "is")
  show ?case
  proof (cases "P i")
    case True
    from Cons.prems have "light_free (d - 1) (map (\<lambda>i. uint (f i)) is) (uint (f i))" by simp
    from light_free_weight [OF this, of P] True show ?thesis by simp
  next
    case False
    with Cons show ?thesis by auto
  qed
qed simp

subsection \<open>The interface of a cyclic code\<close>

locale cyclic_code =
  fixes len deg :: nat and gen :: u64 and dist :: nat
  assumes deg_le: "deg \<le> len" and len_le: "len \<le> 64"
    and rows_ok: "code_ok dist (map (\<lambda>i. uint (gf2Remainder (2 ^ (deg + i)) len gen deg)) [0..<len - deg])"
begin

lemma light_codeword:
  assumes "gf2Remainder w len gen deg = 0" "\<And>i. bit w i \<Longrightarrow> i < len" "w \<noteq> 0"
  shows "dist \<le> popcount w"
proof -
  define k where "k = len - deg"
  define info where "info = (\<lambda>i. bit w (deg + i))"
  define row where "row = (\<lambda>i. gf2Remainder (2 ^ (deg + i)) len gen deg)"
  let ?low = "take_bit deg w" and ?high = "w XOR take_bit deg w"
  have high: "bit ?high i \<longleftrightarrow> deg \<le> i \<and> i < deg + k \<and> info (i - deg)" for i
    using assms(2) [of i] deg_le by (auto simp: bit_xor_iff bit_take_bit_iff k_def info_def)
  have low: "bit ?low i \<Longrightarrow> i < deg" for i by (simp add: bit_take_bit_iff)
  have "gf2Remainder ?low len gen deg = ?low"
    by (rule gf2Remainder_small) (use low not_le in blast)
  moreover have "gf2Remainder ?high len gen deg XOR gf2Remainder ?low len gen deg = 0"
    using assms(1) gf2Remainder_xor [of ?high ?low len gen deg] by (simp add: xor.assoc)
  ultimately have "?low = gf2Remainder ?high len gen deg" by simp
  also have "\<dots> = xor_where (bit ?high) (\<lambda>i. gf2Remainder (2 ^ i) len gen deg) (map (\<lambda>i. deg + i) [0..<k])"
  proof (rule linear_sum)
    fix i assume "bit ?high i"
    then have "deg \<le> i" "i < deg + k" by (simp_all only: high)
    then show "i \<in> set (map (\<lambda>i. deg + i) [0..<k])"
      by (auto intro!: image_eqI [of _ _ "i - deg"])
  qed (simp_all add: gf2Remainder_xor distinct_map inj_on_def)
  also have "\<dots> = xor_where info row [0..<k]"
  proof -
    have "xor_where P g (map (\<lambda>i. deg + i) js) = xor_where (\<lambda>i. P (deg + i)) (\<lambda>i. g (deg + i)) js" for P js and g :: "nat \<Rightarrow> u64"
      by (induction js) auto
    moreover have "xor_where (\<lambda>i. bit ?high (deg + i)) row [0..<k] = xor_where info row [0..<k]"
      by (rule xor_where_cong) (simp add: high)
    ultimately show ?thesis by (simp only: row_def)
  qed
  finally have low_sum: "?low = xor_where info row [0..<k]" .
  have "popcount w = popcount (?high XOR ?low)" by (simp add: xor.assoc)
  also have "\<dots> = popcount ?high + popcount ?low"
    by (rule popcount_disjoint) (metis high low not_le)
  also have "popcount ?high = length (filter info [0..<k])"
    by (rule popcount_filter [of _ deg]) (simp only: high)
  finally have weight: "popcount w = length (filter info [0..<k]) + popcount (xor_where info row [0..<k])"
    by (simp only: low_sum)
  have "\<exists>i\<in>set [0..<k]. info i"
  proof (rule ccontr)
    assume none: "\<not> ?thesis"
    then have "xor_where info row [0..<k] = 0" by (intro xor_where_none) auto
    then have "?low = 0" by (simp only: low_sum)
    moreover from none have "?high = 0" by (intro bit_word_eqI) (auto simp only: high, auto)
    ultimately show False using assms(3) by simp
  qed
  then show ?thesis
    using code_ok_weight [of dist row "[0..<k]" info] rows_ok unfolding weight row_def k_def by simp
qed

text \<open>Two words of remainder zero are equal or at least the distance apart.\<close>

lemma codewords_apart:
  assumes "gf2Remainder a len gen deg = 0" "gf2Remainder b len gen deg = 0"
    and "\<And>i. bit a i \<Longrightarrow> i < len" "\<And>i. bit b i \<Longrightarrow> i < len" "a \<noteq> b"
  shows "dist \<le> hdist a b"
  unfolding hdist_def
proof (rule light_codeword)
  show "gf2Remainder (a XOR b) len gen deg = 0" using assms by (simp add: gf2Remainder_xor)
  show "a XOR b \<noteq> 0" using assms by simp
  show "bit (a XOR b) i \<Longrightarrow> i < len" for i using assms(3,4) by (auto simp: bit_xor_iff)
qed

text \<open>A syndrome names at most one error pattern lighter than half the distance.\<close>

lemma light_pattern_unique:
  assumes "gf2Remainder e len gen deg = gf2Remainder e' len gen deg"
    and "\<And>i. bit e i \<Longrightarrow> i < len" "\<And>i. bit e' i \<Longrightarrow> i < len"
    and "popcount e + popcount e' < dist"
  shows "e = e'"
proof (rule ccontr)
  assume "e \<noteq> e'"
  have "dist \<le> popcount (e XOR e')"
  proof (rule light_codeword)
    show "gf2Remainder (e XOR e') len gen deg = 0" using assms(1) by (simp add: gf2Remainder_xor)
    show "e XOR e' \<noteq> 0" using \<open>e \<noteq> e'\<close> by simp
    show "bit (e XOR e') i \<Longrightarrow> i < len" for i using assms(2,3) by (auto simp: bit_xor_iff)
  qed
  then show False using popcount_xor_le [of e e'] assms(4) by simp
qed

end

end
