(* ===== verification/Golay.thy ===== *)
theory Golay
  imports LinearCode
begin

section \<open>The binary Golay codes\<close>

text \<open>
  \<^verbatim>\<open>fec/Golay.hpp\<close>: the cyclic code (23,12), its extension (24,12) by an overall parity bit and the
  shortened form (18,6), with one table decoder behind all three.  \<open>GolayCosetTable\<close> is the table of
  coset leaders the sources build at compile time by enumerating every error pattern of weight three
  or less; the lemmas show that the enumeration meets each of the 2048 syndromes exactly once, and
  from that, that the decoders correct every pattern of up to three errors and that the extended
  form refuses every pattern of four.
\<close>

subsection \<open>The routines\<close>

definition kGolayGenerator :: u32 where
  "kGolayGenerator = 0xC75"

definition kGolayInfoBits :: nat where
  "kGolayInfoBits = 12"

definition kGolayParityBits :: nat where
  "kGolayParityBits = 11"

definition kGolayCorrectable :: nat where
  "kGolayCorrectable = 3"

definition golaySyndrome :: "u32 \<Rightarrow> u32" where
  "golaySyndrome word =
     ucast (gf2Remainder (ucast (word AND 0x7FFFFF)) 23 (ucast kGolayGenerator) kGolayParityBits)"

definition golay23Encode :: "u16 \<Rightarrow> u32" where
  "golay23Encode info =
     (let shifted = push_bit kGolayParityBits (ucast info AND 0x0FFF :: u32)
      in shifted OR golaySyndrome shifted)"

definition golay24Encode :: "u16 \<Rightarrow> u32" where
  "golay24Encode info =
     (let cw23 = golay23Encode info
      in push_bit 1 cw23 OR (word_of_nat (popcount cw23) AND 1))"

definition golay18Encode :: "u8 \<Rightarrow> u32" where
  "golay18Encode info = golay24Encode (ucast (info AND 0x3F))"

text \<open>The table: a leader for each syndrome and how often each slot was written.\<close>

record GolayCosetTable =
  leader :: "u32 list"
  written :: "u8 list"

definition place :: "u32 \<Rightarrow> GolayCosetTable \<Rightarrow> GolayCosetTable" where
  "place pattern t =
     (let s = unat (golaySyndrome pattern)
      in t\<lparr>leader := (leader t)[s := pattern], written := (written t)[s := written t ! s + 1]\<rparr>)"

text \<open>The patterns in the order the three nested loops place them.\<close>

definition golayPatterns :: "u32 list" where
  "golayPatterns =
     0 # concat (map (\<lambda>a. push_bit a 1 #
           concat (map (\<lambda>b. (push_bit a 1 OR push_bit b 1) #
             map (\<lambda>c. push_bit a 1 OR push_bit b 1 OR push_bit c 1) [Suc b..<23]) [Suc a..<23])) [0..<23])"

definition buildGolayCosetTable :: GolayCosetTable where
  "buildGolayCosetTable =
     fold place golayPatterns \<lparr>leader = replicate 2048 0, written = replicate 2048 0\<rparr>"

definition golayCosetTableIsBijective :: bool where
  "golayCosetTableIsBijective \<longleftrightarrow> list_all (\<lambda>n. n = 1) (written buildGolayCosetTable)"

record GolayResult =
  ginfo :: u16
  gerrors :: nat
  gvalid :: bool

definition golay23Decode :: "u32 \<Rightarrow> GolayResult" where
  "golay23Decode cw =
     (let word = cw AND 0x7FFFFF;
          correction = leader buildGolayCosetTable ! unat (golaySyndrome word)
      in \<lparr>ginfo = ucast (drop_bit kGolayParityBits (word XOR correction) AND 0x0FFF),
          gerrors = popcount correction, gvalid = True\<rparr>)"

definition golay24Decode :: "u32 \<Rightarrow> GolayResult" where
  "golay24Decode cw =
     (let word = drop_bit 1 cw AND 0x7FFFFF;
          overall = cw AND 0x1;
          correction = leader buildGolayCosetTable ! unat (golaySyndrome word);
          corrected = word XOR correction;
          inner = popcount correction;
          parityOk = (word_of_nat (popcount corrected) AND 1 = overall);
          errors = inner + (if parityOk then 0 else 1)
      in \<lparr>ginfo = ucast (drop_bit kGolayParityBits corrected AND 0x0FFF),
          gerrors = errors, gvalid = errors \<le> kGolayCorrectable\<rparr>)"

definition golay18Decode :: "u32 \<Rightarrow> GolayResult" where
  "golay18Decode cw =
     (let r = golay24Decode (cw AND 0x3FFFF);
          r' = (if ginfo r AND 0x0FC0 \<noteq> 0
                then r\<lparr>gvalid := False, gerrors := kGolayCorrectable + 1\<rparr> else r)
      in r'\<lparr>ginfo := ginfo r' AND 0x3F\<rparr>)"

subsection \<open>The generator gives distance seven\<close>

lemma golay_indices:
  "[0..<12] = [0, 1, 2, 3, 4, 5, 6, 7, 8, 9, 10, 11]"
  "rev [11..<23] = [22, 21, 20, 19, 18, 17, 16, 15, 14, 13, 12, 11]"
  by (simp_all add: upt_rec)

definition golayUnits :: "u64 list" where
  "golayUnits = [0x800, 0x1000, 0x2000, 0x4000, 0x8000, 0x10000, 0x20000, 0x40000, 0x80000, 0x100000,
     0x200000, 0x400000]"

lemma golay_units: "map (\<lambda>i. 2 ^ (11 + i) :: u64) [0..<12] = golayUnits"
  by (simp add: golay_indices golayUnits_def)

lemma golay_rows:
  "map (\<lambda>i. uint (gf2Remainder (2 ^ (11 + i)) 23 0xC75 11)) [0..<12] =
     [1141, 1183, 1355, 1763, 435, 870, 1740, 493, 986, 1972, 797, 1594]" (is "?rows = _")
proof -
  have "?rows = map (\<lambda>w. uint (gf2Remainder w 23 0xC75 11)) (map (\<lambda>i. 2 ^ (11 + i)) [0..<12])"
    unfolding list.map_comp comp_def ..
  also have "\<dots> = map (\<lambda>w. uint (gf2Remainder w 23 0xC75 11)) golayUnits"
    by (simp only: golay_units)
  also have "\<dots> = [1141, 1183, 1355, 1763, 435, 870, 1740, 493, 986, 1972, 797, 1594]"
    unfolding golayUnits_def list.map
    by (simp add: gf2Remainder_def gf2_step_def golay_indices)
  finally show ?thesis .
qed

interpretation golay: cyclic_code 23 11 "0xC75" 7
proof
  show "code_ok 7 (map (\<lambda>i. uint (gf2Remainder (2 ^ (11 + i)) 23 0xC75 11)) [0..<23 - 11])"
    using golay_rows by (simp add: eval_nat_numeral)
qed simp_all

subsection \<open>Syndromes\<close>

lemma golaySyndrome_xor [linear_ops]:
  "golaySyndrome (a XOR b) = golaySyndrome a XOR golaySyndrome b"
  by (simp add: golaySyndrome_def xor_and_distrib unsigned_xor_eq gf2Remainder_xor)

text \<open>The words of the code's length.\<close>

definition fits23 :: "u32 \<Rightarrow> bool" where
  "fits23 w \<longleftrightarrow> (\<forall>i. bit w i \<longrightarrow> i < 23)"

lemma fits23_and: "fits23 (w AND 0x7FFFFF)"
  by (auto simp: fits23_def bit_and_iff word_bits)

lemma and_fits23: "fits23 w \<Longrightarrow> w AND 0x7FFFFF = w"
  by (rule bit_word_eqI) (auto simp: fits23_def bit_and_iff word_bits)

lemma fits23_iff: "fits23 w \<longleftrightarrow> w AND 0x7FFFFF = w"
  using and_fits23 [of w] fits23_and [of w] by (auto simp del: fits23_and)

lemma fits23_xor: "fits23 a \<Longrightarrow> fits23 b \<Longrightarrow> fits23 (a XOR b)"
  by (auto simp: fits23_def bit_xor_iff)

lemma golaySyndrome_gf2:
  "fits23 w \<Longrightarrow> golaySyndrome w = ucast (gf2Remainder (ucast w) 23 0xC75 11)"
  by (simp add: golaySyndrome_def and_fits23 kGolayGenerator_def kGolayParityBits_def)

lemma ucast_syndrome:
  "fits23 w \<Longrightarrow> ucast (golaySyndrome w) = gf2Remainder (ucast w) 23 0xC75 11"
  unfolding golaySyndrome_gf2
  by (rule bit_word_eqI) (auto simp: bit_ucast_iff dest: bit_gf2Remainder)

lemma golaySyndrome_bits: "bit (golaySyndrome w) i \<Longrightarrow> i < 11"
  by (auto simp: golaySyndrome_def bit_ucast_iff kGolayParityBits_def dest: bit_gf2Remainder)

lemma golaySyndrome_bound: "unat (golaySyndrome w) < 2048"
proof -
  have "take_bit 11 (golaySyndrome w) = golaySyndrome w"
    by (rule bit_word_eqI) (use golaySyndrome_bits in \<open>auto simp: bit_take_bit_iff\<close>)
  then have "unat (golaySyndrome w) = take_bit 11 (unat (golaySyndrome w))"
    by (metis unsigned_take_bit_eq)
  also have "\<dots> < 2 ^ 11" by (rule take_bit_nat_less_exp)
  finally show ?thesis by simp
qed

lemma golay_light_unique:
  assumes "golaySyndrome e = golaySyndrome e'" "fits23 e" "fits23 e'" "popcount e + popcount e' < 7"
  shows "e = e'"
proof -
  have "(ucast e :: u64) = ucast e'"
  proof (rule golay.light_pattern_unique)
    show "gf2Remainder (ucast e) 23 0xC75 11 = gf2Remainder (ucast e') 23 0xC75 11"
      using assms(1) by (simp only: ucast_syndrome [OF assms(2), symmetric] ucast_syndrome [OF assms(3), symmetric])
    show "popcount (ucast e :: u64) + popcount (ucast e' :: u64) < 7"
      using assms(4) by (simp add: popcount_ucast less_trans [OF bit_imp_le_length])
  qed (use assms(2,3) in \<open>auto simp: bit_ucast_iff fits23_def\<close>)
  then have "bit (ucast e :: u64) i = bit (ucast e' :: u64) i" for i by simp
  then have "i < 64 \<longrightarrow> bit e i = bit e' i" for i by (auto simp: bit_ucast_iff)
  then show ?thesis by (intro bit_word_eqI) auto
qed

lemma golay_light_syndrome:
  "golaySyndrome w = 0 \<Longrightarrow> fits23 w \<Longrightarrow> popcount w < 7 \<Longrightarrow> w = 0"
  using golay_light_unique [of w 0] by (simp add: fits23_def golaySyndrome_def)

subsection \<open>Codewords\<close>

lemma golaySyndrome_small:
  assumes "\<And>i. bit w i \<Longrightarrow> i < 11"
  shows "golaySyndrome w = w"
proof -
  have fits: "fits23 w" unfolding fits23_def by (meson assms less_trans numeral_less_iff semiring_norm)
  have "gf2Remainder (ucast w) 23 0xC75 11 = (ucast w :: u64)"
    by (rule gf2Remainder_small) (use assms in \<open>auto simp: bit_ucast_iff not_less [symmetric]\<close>)
  then show ?thesis
    by (simp add: golaySyndrome_gf2 [OF fits]) (rule bit_word_eqI, auto simp: bit_ucast_iff)
qed

definition golayInfo :: "u16 \<Rightarrow> u32" where
  "golayInfo info = push_bit kGolayParityBits (ucast info AND 0x0FFF)"

lemma bit_golayInfo [word_bits]: "bit (golayInfo info) i \<longleftrightarrow> 11 \<le> i \<and> i < 23 \<and> bit info (i - 11)"
  unfolding golayInfo_def kGolayParityBits_def bit_push_bit_iff bit_and_iff bit_ucast_iff
  by (auto simp: word_bits dest: bit_imp_le_length)

lemma golay23Encode_xor: "golay23Encode info = golayInfo info XOR golaySyndrome (golayInfo info)"
  unfolding golay23Encode_def Let_def golayInfo_def [symmetric]
  by (rule bit_word_eqI) (auto simp: bit_or_iff bit_xor_iff word_bits dest: golaySyndrome_bits)

lemma golay23Encode_fits: "fits23 (golay23Encode info)"
  by (auto simp: fits23_def golay23Encode_xor bit_xor_iff word_bits dest: golaySyndrome_bits)

lemma golay23Encode_syndrome [simp]: "golaySyndrome (golay23Encode info) = 0"
  by (simp add: golay23Encode_xor golaySyndrome_xor golaySyndrome_small golaySyndrome_bits)

lemma golay23Encode_info:
  "ucast (drop_bit kGolayParityBits (golay23Encode info) AND 0x0FFF) = info AND 0x0FFF"
  by (rule bit_word_eqI)
     (auto simp: bit_ucast_iff bit_and_iff bit_drop_bit_eq bit_xor_iff golay23Encode_xor kGolayParityBits_def
        word_bits dest: golaySyndrome_bits)

subsection \<open>The table of coset leaders\<close>

lemma fits23_subset: "fits23 e \<longleftrightarrow> {i. bit e i} \<subseteq> {..<23}"
  by (auto simp: fits23_def)

lemma bit_push_one: "bit (push_bit n 1 :: u32) i \<longleftrightarrow> i = n \<and> n < 32"
  by (auto simp: bit_push_bit_iff bit_1_iff)

lemma golayPatterns_light: "e \<in> set golayPatterns \<Longrightarrow> fits23 e \<and> popcount e \<le> 3"
proof -
  assume "e \<in> set golayPatterns"
  then consider "e = 0" | a where "e = push_bit a 1" "a < 23"
    | a b where "e = push_bit a 1 OR push_bit b 1" "a < 23" "b < 23"
    | a b c where "e = push_bit a 1 OR push_bit b 1 OR push_bit c 1" "a < 23" "b < 23" "c < 23"
    unfolding golayPatterns_def by (auto simp del: push_bit_of_1)
  then obtain xs where "{i. bit e i} = set xs" "length xs \<le> 3" "set xs \<subseteq> {..<23}"
  proof cases
    case 1 then show thesis by (intro that [of "[]"]) auto
  next
    case (2 a) then show thesis
      by (intro that [of "[a]"]) (auto simp: bit_push_one simp del: push_bit_of_1)
  next
    case (3 a b) then show thesis
      by (intro that [of "[a, b]"]) (auto simp: bit_push_one bit_or_iff simp del: push_bit_of_1)
  next
    case (4 a b c) then show thesis
      by (intro that [of "[a, b, c]"]) (auto simp: bit_push_one bit_or_iff simp del: push_bit_of_1)
  qed
  then show ?thesis
    using card_length [of xs] by (simp add: fits23_subset popcount_card)
qed

lemma golayPatterns_all:
  assumes "fits23 e" "popcount e \<le> 3"
  shows "e \<in> set golayPatterns"
proof -
  define xs where "xs = sorted_list_of_set {i. bit e i}"
  have xs: "set xs = {i. bit e i}" "sorted xs" "distinct xs" "length xs \<le> 3"
    using assms(2) by (simp_all add: xs_def popcount_card)
  have bnd: "i \<in> set xs \<Longrightarrow> i < 23" for i using assms(1) by (auto simp: xs(1) fits23_def)
  have bits: "bit e i \<longleftrightarrow> i \<in> set xs" for i by (simp add: xs(1))
  consider "xs = []" | a where "xs = [a]" | a b where "xs = [a, b]" | a b c where "xs = [a, b, c]"
    using xs(4) by (cases xs rule: remdups_adj.cases; cases "tl (tl xs)"; auto)
  then show ?thesis
  proof cases
    case 1
    then have "e = 0" by (intro bit_word_eqI) (simp add: bits)
    then show ?thesis by (simp add: golayPatterns_def)
  next
    case (2 a)
    then have "e = push_bit a 1" using bnd
      by (intro bit_word_eqI) (auto simp: bits bit_push_one simp del: push_bit_of_1)
    then show ?thesis using bnd [of a] 2
      by (simp add: golayPatterns_def del: push_bit_of_1) fastforce
  next
    case (3 a b)
    then have "e = push_bit a 1 OR push_bit b 1" using bnd
      by (intro bit_word_eqI) (auto simp: bits bit_push_one bit_or_iff simp del: push_bit_of_1)
    moreover have "a < b" "b < 23" using 3 xs bnd by auto
    ultimately show ?thesis
      by (simp add: golayPatterns_def del: push_bit_of_1) fastforce
  next
    case (4 a b c)
    then have "e = push_bit a 1 OR push_bit b 1 OR push_bit c 1" using bnd
      by (intro bit_word_eqI) (auto simp: bits bit_push_one bit_or_iff simp del: push_bit_of_1)
    moreover have "a < b" "b < c" "c < 23" using 4 xs bnd by auto
    ultimately show ?thesis
      by (simp add: golayPatterns_def del: push_bit_of_1) fastforce
  qed
qed

lemma set_golayPatterns: "set golayPatterns = {e. fits23 e \<and> popcount e \<le> 3}"
  using golayPatterns_light golayPatterns_all by blast

lemma card_light_words: "card {e. fits23 e \<and> popcount e = k} = 23 choose k"
proof -
  let ?S = "{B. B \<subseteq> {..<23::nat} \<and> card B = k}"
  have "bij_betw (\<lambda>e :: u32. {i. bit e i}) {e. fits23 e \<and> popcount e = k} ?S"
  proof (rule bij_betw_imageI)
    show "inj_on (\<lambda>e :: u32. {i. bit e i}) {e. fits23 e \<and> popcount e = k}"
      by (rule inj_onI, rule bit_word_eqI) blast
    show "(\<lambda>e :: u32. {i. bit e i}) ` {e. fits23 e \<and> popcount e = k} = ?S"
    proof (intro equalityI subsetI)
      fix B assume "B \<in> ?S"
      moreover define e :: u32 where "e = xor_where (\<lambda>i. i \<in> B) (\<lambda>i. 2 ^ i) [0..<23]"
      ultimately have "{i. bit e i} = B" by (auto simp: bit_xor_where_units)
      with \<open>B \<in> ?S\<close> show "B \<in> (\<lambda>e :: u32. {i. bit e i}) ` {e. fits23 e \<and> popcount e = k}"
        by (intro image_eqI [of _ _ e]) (auto simp: fits23_subset popcount_card)
    qed (auto simp: fits23_subset popcount_card)
  qed
  then have "card {e. fits23 e \<and> popcount e = k} = card ?S" by (rule bij_betw_same_card)
  then show ?thesis by (simp add: n_subsets)
qed

lemma finite_words [simp]: "finite (A :: 'a::len word set)"
  by (rule finite_subset [OF subset_UNIV]) simp

lemma card_golayPatterns: "card (set golayPatterns) = 2048"
proof -
  let ?W = "\<lambda>k. {e. fits23 e \<and> popcount e = k}"
  have "set golayPatterns = (\<Union>k\<in>{..3}. ?W k)" by (auto simp: set_golayPatterns)
  also have "card \<dots> = (\<Sum>k\<in>{..3}. card (?W k))" by (rule card_UN_disjoint) auto
  also have "\<dots> = (\<Sum>k\<in>{..3}. 23 choose k)" by (simp only: card_light_words)
  also have "\<dots> = (23 choose 0) + (23 choose 1) + (23 choose 2) + (23 choose 3)"
    by (simp only: numeral_3_eq_3 numeral_2_eq_2 One_nat_def sum.atMost_Suc atMost_0)
       (simp only: sum.insert finite.emptyI finite_atMost empty_iff simp_thms sum.empty add_0_right)
  also have "\<dots> = 2048"
    using Suc_times_binomial_eq [of 22 2] by (simp add: choose_two)
  finally show ?thesis .
qed

lemma length_golayPatterns: "length golayPatterns = 2048"
  by (simp add: golayPatterns_def length_concat comp_def upt_rec)

lemma distinct_golayPatterns: "distinct golayPatterns"
  by (rule card_distinct) (simp only: card_golayPatterns length_golayPatterns)

text \<open>The syndromes of the patterns are the numbers below 2048, each once.\<close>

abbreviation golaySlot :: "u32 \<Rightarrow> nat" where
  "golaySlot e \<equiv> unat (golaySyndrome e)"

lemma golaySlot_eq: "golaySlot a = golaySlot b \<Longrightarrow> golaySyndrome a = golaySyndrome b"
  by (rule unsigned_word_eqI)

lemma golaySlot_inj: "inj_on golaySlot (set golayPatterns)"
  by (rule inj_onI) (auto simp: set_golayPatterns intro: golay_light_unique dest: golaySlot_eq)

lemma distinct_slots: "distinct (map golaySlot golayPatterns)"
  by (simp add: distinct_map distinct_golayPatterns golaySlot_inj)

lemma set_slots: "set (map golaySlot golayPatterns) = {..<2048}"
proof (rule card_subset_eq)
  show "set (map golaySlot golayPatterns) \<subseteq> {..<2048}" using golaySyndrome_bound by auto
  have "card (set (map golaySlot golayPatterns)) = length (map golaySlot golayPatterns)"
    by (rule distinct_card [OF distinct_slots])
  then show "card (set (map golaySlot golayPatterns)) = card {..<2048::nat}"
    by (simp only: length_map length_golayPatterns card_lessThan)
qed simp

lemma place_simps [simp]:
  "leader (place p t) = (leader t)[golaySlot p := p]"
  "written (place p t) = (written t)[golaySlot p := written t ! golaySlot p + 1]"
  by (simp_all add: place_def Let_def)

lemma place_lengths [simp]:
  "length (leader (fold place ps t)) = length (leader t)"
  "length (written (fold place ps t)) = length (written t)"
  by (induction ps arbitrary: t) simp_all

lemma leader_untouched:
  "s \<notin> set (map golaySlot ps) \<Longrightarrow> leader (fold place ps t) ! s = leader t ! s"
  "s \<notin> set (map golaySlot ps) \<Longrightarrow> written (fold place ps t) ! s = written t ! s"
  by (induction ps arbitrary: t) auto

lemma leader_placed:
  assumes "distinct (map golaySlot ps)" "e \<in> set ps" "length (leader t) = 2048" "length (written t) = 2048"
  shows "leader (fold place ps t) ! golaySlot e = e"
    "written (fold place ps t) ! golaySlot e = written t ! golaySlot e + 1"
  using assms
proof (induction ps arbitrary: t)
  case (Cons p ps)
  note slot = golaySyndrome_bound [of p]
  case 1
  with Cons.IH(1) [of "place p t"] slot show ?case
    by (cases "e = p") (auto simp: leader_untouched)
  case 2
  then have "golaySlot p \<notin> golaySlot ` set ps" "e \<noteq> p \<Longrightarrow> e \<in> set ps" by auto
  then have "e \<noteq> p \<Longrightarrow> golaySlot e \<noteq> golaySlot p"
    using imageI [of e "set ps" golaySlot] by metis
  with 2 Cons.IH(2) [of "place p t"] slot show ?case
    by (cases "e = p") (auto simp: leader_untouched)
qed auto

lemma golay_leader:
  assumes "fits23 e" "popcount e \<le> 3"
  shows "leader buildGolayCosetTable ! golaySlot e = e"
  unfolding buildGolayCosetTable_def
  by (rule leader_placed(1)) (use assms in \<open>simp_all add: distinct_slots golayPatterns_all\<close>)

text \<open>Every syndrome has a leader of weight three or less: the code is perfect.\<close>

lemma golay_leader_of:
  obtains e where "fits23 e" "popcount e \<le> 3" "golaySyndrome e = golaySyndrome w"
    "leader buildGolayCosetTable ! golaySlot w = e"
proof -
  have "golaySlot w \<in> set (map golaySlot golayPatterns)"
    using golaySyndrome_bound [of w] by (simp only: set_slots lessThan_iff)
  then obtain e where e: "e \<in> set golayPatterns" "golaySlot e = golaySlot w" by auto
  then have "golaySyndrome e = golaySyndrome w" by (intro golaySlot_eq)
  with that [of e] golay_leader [of e] golayPatterns_light [OF e(1)] e(2) show thesis by simp
qed

text \<open>C13. The compile-time enumeration of the error patterns of weight three or less writes every slot of
  the 2048-entry coset table exactly once, and the leader of every syndrome is a pattern of weight
  at most three with that syndrome: the perfect code needs no other table.\<close>

theorem golay_table_bijective:
  "golayCosetTableIsBijective \<and>
   (\<forall>s. leader buildGolayCosetTable ! golaySlot s \<in> {e. popcount e \<le> 3 \<and> golaySyndrome e = golaySyndrome s})"
proof
  have "written buildGolayCosetTable ! s = 1" if "s < 2048" for s
  proof -
    have "s \<in> set (map golaySlot golayPatterns)" using that by (simp only: set_slots lessThan_iff)
    then obtain e where "e \<in> set golayPatterns" "s = golaySlot e" by auto
    then show ?thesis
      unfolding buildGolayCosetTable_def
      by (simp add: leader_placed(2) distinct_slots golaySyndrome_bound)
  qed
  then show golayCosetTableIsBijective
    unfolding golayCosetTableIsBijective_def list_all_length
    by (simp add: buildGolayCosetTable_def)
  show "\<forall>s. leader buildGolayCosetTable ! golaySlot s \<in> {e. popcount e \<le> 3 \<and> golaySyndrome e = golaySyndrome s}"
  proof
    fix s
    show "leader buildGolayCosetTable ! golaySlot s \<in> {e. popcount e \<le> 3 \<and> golaySyndrome e = golaySyndrome s}"
      by (rule golay_leader_of [of s]) simp
  qed
qed

subsection \<open>The decoders\<close>

lemma golay_correction:
  assumes "fits23 e" "popcount e \<le> 3"
  shows "leader buildGolayCosetTable ! golaySlot (golay23Encode info XOR e) = e"
  using golay_leader [OF assms] by (simp add: golaySyndrome_xor)

theorem golay23_corrects:
  assumes "fits23 e" "popcount e \<le> 3"
  shows "golay23Decode (golay23Encode info XOR e) =
    \<lparr>ginfo = info AND 0x0FFF, gerrors = popcount e, gvalid = True\<rparr>"
proof -
  have "fits23 (golay23Encode info XOR e)"
    using assms(1) by (simp add: fits23_xor golay23Encode_fits)
  then have word: "(golay23Encode info XOR e) AND 0x7FFFFF = golay23Encode info XOR e"
    by (rule and_fits23)
  have "(golay23Encode info XOR e) XOR e = golay23Encode info" by (simp add: xor.assoc)
  then show ?thesis
    unfolding golay23Decode_def Let_def word golay_correction [OF assms]
    by (simp only: golay23Encode_info)
qed

lemma golay23_corrects_witness:
  "golay23Decode (golay23Encode 0xABC XOR 0x400801) = \<lparr>ginfo = 0xABC, gerrors = 3, gvalid = True\<rparr>"
proof -
  have "popcount (0x400801 :: u32) = 3" by code_simp
  moreover have "fits23 0x400801"
    by (simp add: fits23_iff)
  ultimately show ?thesis using golay23_corrects [of "0x400801" "0xABC"] by simp
qed

text \<open>The parity bit of the extended code.\<close>

lemma and_one: "word_of_nat n AND 1 = (of_bool (odd n) :: u32)"
  by (rule bit_word_eqI) (auto simp: bit_and_iff bit_1_iff bit_of_nat_iff bit_0 intro!: gr0I)

lemma golay24_word:
  "drop_bit 1 (golay24Encode info XOR e) AND 0x7FFFFF = golay23Encode info XOR (drop_bit 1 e AND 0x7FFFFF)"
  "(golay24Encode info XOR e) AND 1 = of_bool (odd (popcount (golay23Encode info)) \<noteq> bit e 0)"
proof -
  have enc: "golay24Encode info = push_bit 1 (golay23Encode info) OR of_bool (odd (popcount (golay23Encode info)))"
    by (simp add: golay24Encode_def Let_def and_one)
  have top: "bit (golay23Encode info) i \<Longrightarrow> i < 23" for i
    using golay23Encode_fits by (simp add: fits23_def)
  show "drop_bit 1 (golay24Encode info XOR e) AND 0x7FFFFF = golay23Encode info XOR (drop_bit 1 e AND 0x7FFFFF)"
    by (rule bit_word_eqI, unfold enc bit_and_iff bit_drop_bit_eq bit_xor_iff bit_or_iff bit_push_bit_iff)
       (auto simp: bit_1_iff word_bits dest: top)
  show "(golay24Encode info XOR e) AND 1 = of_bool (odd (popcount (golay23Encode info)) \<noteq> bit e 0)"
    by (rule bit_word_eqI, unfold enc bit_and_iff bit_xor_iff bit_or_iff bit_push_bit_iff)
       (auto simp: bit_1_iff bit_0)
qed

lemma popcount_24:
  fixes e :: u32
  assumes "\<And>i. bit e i \<Longrightarrow> i < 24"
  shows "popcount e = of_bool (bit e 0) + popcount (drop_bit 1 e AND 0x7FFFFF)"
proof -
  have "drop_bit 1 e AND 0x7FFFFF = drop_bit 1 e"
    by (rule bit_word_eqI) (use assms in \<open>force simp: bit_and_iff bit_drop_bit_eq word_bits\<close>)
  then show ?thesis using popcount_half [of e] by (simp add: bit_0)
qed

text \<open>
  What the decoder of the extended form computes: the inner correction \<open>c\<close> shares its syndrome with
  the inner part of the error, and the parity bit decides whether one more error is counted.
\<close>

lemma golay24Decode_result:
  fixes e :: u32
  defines "inner \<equiv> drop_bit 1 e AND 0x7FFFFF"
  obtains c where "fits23 c" "popcount c \<le> 3" "golaySyndrome c = golaySyndrome inner"
    "gerrors (golay24Decode (golay24Encode info XOR e)) =
       popcount c + (if odd (popcount inner + popcount c) = bit e 0 then 0 else 1)"
    "ginfo (golay24Decode (golay24Encode info XOR e)) =
       ucast (drop_bit kGolayParityBits (golay23Encode info XOR (inner XOR c)) AND 0x0FFF)"
    "gvalid (golay24Decode (golay24Encode info XOR e)) \<longleftrightarrow> gerrors (golay24Decode (golay24Encode info XOR e)) \<le> 3"
proof (rule golay_leader_of [of "golay23Encode info XOR inner"])
  fix c assume c: "fits23 c" "popcount c \<le> 3" "golaySyndrome c = golaySyndrome (golay23Encode info XOR inner)"
    "leader buildGolayCosetTable ! golaySlot (golay23Encode info XOR inner) = c"
  have parity: "(word_of_nat (popcount (golay23Encode info XOR inner XOR c)) AND 1 =
      (of_bool (odd (popcount (golay23Encode info)) \<noteq> bit e 0) :: u32)) \<longleftrightarrow>
      (odd (popcount inner + popcount c) = bit e 0)"
    by (auto simp: and_one even_popcount_xor)
  define errors where "errors = popcount c + (if odd (popcount inner + popcount c) = bit e 0 then 0 else 1)"
  have "golay24Decode (golay24Encode info XOR e) =
     \<lparr>ginfo = ucast (drop_bit kGolayParityBits (golay23Encode info XOR (inner XOR c)) AND 0x0FFF),
      gerrors = errors, gvalid = (errors \<le> 3)\<rparr>"
    unfolding golay24Decode_def Let_def golay24_word inner_def [symmetric] c(4) errors_def
      kGolayCorrectable_def xor.assoc parity ..
  moreover have "golaySyndrome c = golaySyndrome inner" using c(3) by (simp add: golaySyndrome_xor)
  ultimately show thesis by (intro that [OF c(1,2)]) (simp_all only: errors_def GolayResult.simps)
qed

text \<open>The channel law of the extended code, which the shortened code and the packet header share.\<close>

lemma golay24_channel:
  assumes "\<And>i. bit e i \<Longrightarrow> i < 24"
  shows "(popcount e \<le> 3 \<longrightarrow> golay24Decode (golay24Encode info XOR e) =
      \<lparr>ginfo = info AND 0x0FFF, gerrors = popcount e, gvalid = True\<rparr>) \<and>
    (popcount e = 4 \<longrightarrow> \<not> gvalid (golay24Decode (golay24Encode info XOR e)) \<and>
      gerrors (golay24Decode (golay24Encode info XOR e)) = 4)"
proof -
  define inner where "inner = drop_bit 1 e AND 0x7FFFFF"
  have weight: "popcount e = of_bool (bit e 0) + popcount inner"
    unfolding inner_def by (rule popcount_24) (rule assms)
  have fits: "fits23 inner" unfolding inner_def by (rule fits23_and)
  obtain c where c: "fits23 c" "popcount c \<le> 3" "golaySyndrome c = golaySyndrome inner"
    and errors: "gerrors (golay24Decode (golay24Encode info XOR e)) =
       popcount c + (if odd (popcount inner + popcount c) = bit e 0 then 0 else 1)"
    and info: "ginfo (golay24Decode (golay24Encode info XOR e)) =
       ucast (drop_bit kGolayParityBits (golay23Encode info XOR (inner XOR c)) AND 0x0FFF)"
    and valid: "gvalid (golay24Decode (golay24Encode info XOR e)) \<longleftrightarrow>
       gerrors (golay24Decode (golay24Encode info XOR e)) \<le> 3"
    by (rule golay24Decode_result [of e info]) (simp only: inner_def)
  have light: "popcount inner \<le> 3 \<Longrightarrow> c = inner"
    using golay_light_unique [OF c(3,1) fits] c(2) by simp
  show ?thesis
  proof (intro conjI impI)
    assume "popcount e \<le> 3"
    then have "c = inner" using weight light by (auto split: if_splits)
    then show "golay24Decode (golay24Encode info XOR e) =
        \<lparr>ginfo = info AND 0x0FFF, gerrors = popcount e, gvalid = True\<rparr>"
      using errors info valid weight \<open>popcount e \<le> 3\<close>
      by (intro GolayResult.equality) (auto simp: golay23Encode_info)
  next
    assume four: "popcount e = 4"
    show "gerrors (golay24Decode (golay24Encode info XOR e)) = 4"
    proof (cases "bit e 0")
      case True
      then have "popcount inner = 3" using weight four by simp
      with light errors True show ?thesis by simp
    next
      case False
      then have i4: "popcount inner = 4" using weight four by simp
      with c(2) have "inner XOR c \<noteq> 0" by auto
      then have "\<not> popcount (inner XOR c) < 7"
        using golay_light_syndrome [of "inner XOR c"] c(1,3) fits by (auto simp: golaySyndrome_xor fits23_xor)
      with popcount_xor_le [of inner c] i4 c(2) have "popcount c = 3" by simp
      with errors False i4 show ?thesis by simp
    qed
    with valid show "\<not> gvalid (golay24Decode (golay24Encode info XOR e))" by simp
  qed
qed

text \<open>C6. The extended (24,12) decoder corrects every pattern of up to three errors and reports every
  pattern of exactly four as invalid with an error count of four.\<close>

theorem golay24_corrects_three_refuses_four:
  assumes "\<And>i. bit e i \<Longrightarrow> i < 24"
  shows "(popcount e \<le> 3 \<longrightarrow> golay24Decode (golay24Encode info XOR e) =
      \<lparr>ginfo = info AND 0x0FFF, gerrors = popcount e, gvalid = True\<rparr>) \<and>
    (popcount e = 4 \<longrightarrow> \<not> gvalid (golay24Decode (golay24Encode info XOR e)) \<and>
      gerrors (golay24Decode (golay24Encode info XOR e)) = 4)"
  using assms by (rule golay24_channel)

lemma golay24_corrects_three_refuses_four_witness:
  "golay24Decode (golay24Encode 0x123 XOR 0x800011) = \<lparr>ginfo = 0x123, gerrors = 3, gvalid = True\<rparr> \<and>
   \<not> gvalid (golay24Decode (golay24Encode 0x123 XOR 0x801011))"
proof -
  have "popcount (0x800011 :: u32) = 3" "popcount (0x801011 :: u32) = 4" by code_simp+
  moreover have "bit (0x800011 :: u32) i \<Longrightarrow> i < 24" "bit (0x801011 :: u32) i \<Longrightarrow> i < 24" for i
    by (rule bits_below [rotated], assumption, simp)+
  ultimately show ?thesis
    using golay24_corrects_three_refuses_four [of "0x800011" "0x123"]
      golay24_corrects_three_refuses_four [of "0x801011" "0x123"] by simp
qed

theorem golay18_corrects_three_refuses_four:
  assumes "\<And>i. bit e i \<Longrightarrow> i < 18"
  shows "(popcount e \<le> 3 \<longrightarrow> golay18Decode (golay18Encode info XOR e) =
      \<lparr>ginfo = ucast info AND 0x3F, gerrors = popcount e, gvalid = True\<rparr>) \<and>
    (popcount e = 4 \<longrightarrow> \<not> gvalid (golay18Decode (golay18Encode info XOR e)) \<and>
      gerrors (golay18Decode (golay18Encode info XOR e)) = 4)"
proof -
  let ?w = "ucast (info AND 0x3F) :: u16" and ?r = "golay24Decode (golay18Encode info XOR e)"
  have "bit (golayInfo ?w) i \<Longrightarrow> i < 17" for i
    by (auto simp: word_bits bit_ucast_iff bit_and_iff)
  then have "bit (golay23Encode ?w) i \<Longrightarrow> i < 17" for i
    by (auto simp: golay23Encode_xor bit_xor_iff dest: golaySyndrome_bits)
  then have "bit (golay18Encode info) i \<Longrightarrow> i < 18" for i
    unfolding golay18Encode_def golay24Encode_def Let_def bit_or_iff bit_push_bit_iff and_one
    by (cases i) (auto simp: of_bool_def bit_1_iff split: if_splits)
  then have fits: "(golay18Encode info XOR e) AND 0x3FFFF = golay18Encode info XOR e"
    by (intro bit_word_eqI) (use assms in \<open>auto simp: bit_and_iff bit_xor_iff word_bits\<close>)
  have "?w = ucast info AND 0x3F"
    by (rule bit_word_eqI) (auto simp: bit_and_iff bit_ucast_iff word_bits)
  then have w: "?w AND 0x0FFF = ?w" "?w AND 0x0FC0 = 0" "?w AND 0x3F = ucast info AND 0x3F"
    by (simp_all only: and.assoc) simp_all
  have short: "bit e i \<Longrightarrow> i < 24" for i using assms [of i] by simp
  have "popcount e \<le> 3 \<longrightarrow> ?r = \<lparr>ginfo = ?w, gerrors = popcount e, gvalid = True\<rparr>"
    "popcount e = 4 \<longrightarrow> \<not> gvalid ?r \<and> gerrors ?r = 4"
    using golay24_channel [OF short, where info = ?w and e = e] w(1)
    unfolding golay18Encode_def by auto
  then show ?thesis
    using w by (auto simp: golay18Decode_def Let_def fits kGolayCorrectable_def)
qed

lemma golay18_corrects_three_refuses_four_witness:
  "golay18Decode (golay18Encode 0x2A XOR 0x20011) = \<lparr>ginfo = 0x2A, gerrors = 3, gvalid = True\<rparr> \<and>
   \<not> gvalid (golay18Decode (golay18Encode 0x2A XOR 0x21011))"
proof -
  have "popcount (0x20011 :: u32) = 3" "popcount (0x21011 :: u32) = 4" by code_simp+
  moreover have "bit (0x20011 :: u32) i \<Longrightarrow> i < 18" "bit (0x21011 :: u32) i \<Longrightarrow> i < 18" for i
    by (rule bits_below [rotated], assumption, simp)+
  ultimately show ?thesis
    using golay18_corrects_three_refuses_four [of "0x20011" "0x2A"]
      golay18_corrects_three_refuses_four [of "0x21011" "0x2A"] by simp
qed

end
