(* ===== verification/Bch.thy ===== *)
theory Bch
  imports LinearCode "HOL-Library.Monad_Syntax"
begin

section \<open>The binary BCH codes\<close>

text \<open>
  \<^verbatim>\<open>fec/Bch.hpp\<close>: the code of length 63 behind a network identifier and the family of length 15
  behind a link header.  Each generator is computed from its field, primitive polynomial and designed
  distance, as the sources do, and the theorems evaluate that computation to the polynomials the
  documentation states.  Both decoders share one search for the nearest codeword, which stops at the
  first word within the correcting power.
\<close>

subsection \<open>Fields and generators\<close>

record FieldTables =
  exp_table :: "u8 list"
  log_table :: "u8 list"

definition kBch63FieldPoly :: u8 where "kBch63FieldPoly = 0x43"
definition kBch63Length :: nat where "kBch63Length = 63"
definition kBch63InfoBits :: nat where "kBch63InfoBits = 16"
definition kBch63ParityBits :: nat where "kBch63ParityBits = kBch63Length - kBch63InfoBits"
definition kBch63Distance :: nat where "kBch63Distance = 23"
definition kBch63Correctable :: nat where "kBch63Correctable = (kBch63Distance - 1) div 2"
definition kBch15FieldPoly :: u8 where "kBch15FieldPoly = 0x13"
definition kBch15Length :: nat where "kBch15Length = 15"

text \<open>The step both tables share: enter \<open>x\<close> and multiply it by the primitive element.\<close>

definition fieldStep :: "u32 \<Rightarrow> u8 \<Rightarrow> nat \<Rightarrow> FieldTables \<times> u32 \<Rightarrow> FieldTables \<times> u32" where
  "fieldStep carry poly i = (\<lambda>(t, x).
     let t = t\<lparr>exp_table := (exp_table t)[i := ucast x], log_table := (log_table t)[unat x := of_nat i]\<rparr>;
         x = push_bit 1 x;
         x = (if x AND carry \<noteq> 0 then x XOR ucast poly else x)
     in (t, x))"

definition bch63Gf64Tables :: FieldTables where
  "bch63Gf64Tables =
     (let (t, x) = fold (fieldStep 0x40 kBch63FieldPoly) [0..<63]
            (\<lparr>exp_table = replicate 126 0, log_table = replicate 64 0\<rparr>, 1)
      in fold (\<lambda>i t. t\<lparr>exp_table := (exp_table t)[i := exp_table t ! (i - 63)]\<rparr>) [63..<126] t)"

definition bch15Gf16Tables :: FieldTables where
  "bch15Gf16Tables =
     fst (fold (fieldStep 0x10 kBch15FieldPoly) [0..<15]
            (\<lparr>exp_table = replicate 15 0, log_table = replicate 16 0\<rparr>, 1))"

text \<open>The lambda \<^verbatim>\<open>mul\<close> of the two generator routines, over the order \<open>n\<close> of the field's group.\<close>

definition fieldMul :: "FieldTables \<Rightarrow> nat \<Rightarrow> u32 \<Rightarrow> u32 \<Rightarrow> u32" where
  "fieldMul t n a b =
     (if a = 0 \<or> b = 0 then 0
      else ucast (exp_table t ! ((unat (log_table t ! unat a) + unat (log_table t ! unat b)) mod n)))"

text \<open>The \<^verbatim>\<open>do ... while (c != e)\<close> loop over a cyclotomic coset; \<open>None\<close> is a loop that does not return.\<close>

partial_function (option) cosetLoop :: "nat \<Rightarrow> (nat \<Rightarrow> 's \<Rightarrow> 's) \<Rightarrow> nat \<Rightarrow> nat \<Rightarrow> 's \<Rightarrow> 's option" where
  "cosetLoop n body e c s =
     (let s = body c s; c = (c * 2) mod n
      in if c \<noteq> e then cosetLoop n body e c s else Some s)"

declare cosetLoop.simps [code]

text \<open>Multiplying the polynomial held in \<open>minimal\<close> by \<open>x + root\<close>, highest coefficient first.\<close>

definition timesRoot :: "FieldTables \<Rightarrow> nat \<Rightarrow> nat \<Rightarrow> u32 list \<times> nat \<Rightarrow> u32 list \<times> nat" where
  "timesRoot t n c = (\<lambda>(minimal, degree).
     let root = ucast (exp_table t ! c);
         minimal = fold (\<lambda>i m. m[i := m ! (i - 1) XOR fieldMul t n (m ! i) root]) (rev [1..<degree + 2]) minimal
     in (minimal[0 := fieldMul t n (minimal ! 0) root], degree + 1))"

definition minimalFactor :: "u32 list \<Rightarrow> nat \<Rightarrow> 'a::len word" where
  "minimalFactor minimal degree =
     fold (\<lambda>i factor. if minimal ! i \<noteq> 0 then factor OR push_bit i 1 else factor) [0..<degree + 1] 0"

text \<open>The carry-less product of the generator so far with a factor.\<close>

definition polyProduct :: "nat \<Rightarrow> 'a::len word \<Rightarrow> 'a word \<Rightarrow> 'a word" where
  "polyProduct width generator factor =
     fold (\<lambda>i product. if bit generator i then product XOR push_bit i factor else product) [0..<width] 0"

text \<open>One exponent: skip a coset already taken, else multiply its minimal polynomial in.\<close>

definition generatorStep ::
  "FieldTables \<Rightarrow> nat \<Rightarrow> nat \<Rightarrow> nat \<Rightarrow> nat \<Rightarrow> 'a::len word \<times> 'a word \<Rightarrow> ('a word \<times> 'a word) option" where
  "generatorStep t n slots width e = (\<lambda>(generator, taken). do {
     least \<leftarrow> cosetLoop n (\<lambda>c least. if c < least then c else least) e e e;
     if taken AND push_bit least 1 \<noteq> 0 then Some (generator, taken)
     else do {
       (minimal, degree) \<leftarrow> cosetLoop n (timesRoot t n) e e ((replicate slots 0)[0 := 1], 0);
       Some (polyProduct width generator (minimalFactor minimal degree), taken OR push_bit least 1)
     }
   })"

fun generatorLoop ::
  "FieldTables \<Rightarrow> nat \<Rightarrow> nat \<Rightarrow> nat \<Rightarrow> nat list \<Rightarrow> 'a::len word \<times> 'a word \<Rightarrow> 'a word option" where
  "generatorLoop t n slots width [] s = Some (fst s)"
| "generatorLoop t n slots width (e # es) s =
     do { s \<leftarrow> generatorStep t n slots width e s; generatorLoop t n slots width es s }"

definition bch63GeneratorPoly :: "u64 option" where
  "bch63GeneratorPoly = generatorLoop bch63Gf64Tables 63 8 64 [1..<kBch63Distance] (1, 0)"

definition bch15GeneratorPoly :: "nat \<Rightarrow> u16 option" where
  "bch15GeneratorPoly distance =
     map_option ucast (generatorLoop bch15Gf16Tables 15 6 16 [1..<distance] (1, 0 :: u32))"

subsection \<open>Encoding and the codeword tables\<close>

text \<open>The constants the sources compute at compile time.\<close>

definition bch63Generator :: u64 where "bch63Generator = the bch63GeneratorPoly"
definition bch15Generator :: "nat \<Rightarrow> u16" where "bch15Generator d = the (bch15GeneratorPoly d)"
definition bch15ParityBits :: "nat \<Rightarrow> nat" where "bch15ParityBits d = bit_width (bch15Generator d) - 1"
definition bch15InfoBits :: "nat \<Rightarrow> nat" where "bch15InfoBits d = kBch15Length - bch15ParityBits d"
definition bch15Correctable :: "nat \<Rightarrow> nat" where "bch15Correctable d = (d - 1) div 2"

definition bch63Encode :: "u16 \<Rightarrow> u64" where
  "bch63Encode info =
     (let shifted = push_bit kBch63ParityBits (ucast info)
      in shifted OR gf2Remainder shifted kBch63Length bch63Generator kBch63ParityBits)"

definition bch63Codewords :: "u64 list" where
  "bch63Codewords = map (\<lambda>i. bch63Encode (of_nat i)) [0..<2 ^ kBch63InfoBits]"

definition bch15Encode :: "nat \<Rightarrow> u16 \<Rightarrow> u16" where
  "bch15Encode d info =
     (let shifted = push_bit (bch15ParityBits d) (ucast info AND (push_bit (bch15InfoBits d) 1 - 1) :: u32)
      in ucast (ucast shifted OR
                gf2Remainder (ucast shifted) kBch15Length (ucast (bch15Generator d)) (bch15ParityBits d)))"

definition bch15Codewords :: "nat \<Rightarrow> u16 list" where
  "bch15Codewords d = map (\<lambda>i. bch15Encode d (of_nat i)) [0..<2 ^ bch15InfoBits d]"

subsection \<open>The search for the nearest codeword\<close>

text \<open>The loop of both decoders: the best distance and its index so far, and the early exit.\<close>

fun nearestSearch :: "nat \<Rightarrow> 'a::len word \<Rightarrow> nat \<Rightarrow> 'a word list \<Rightarrow> nat \<times> nat \<Rightarrow> nat \<times> nat" where
  "nearestSearch correctable received i [] best = best"
| "nearestSearch correctable received i (w # ws) best =
     (let d = popcount (w XOR received)
      in if d < fst best then
           (if d \<le> correctable then (d, i) else nearestSearch correctable received (i + 1) ws (d, i))
         else nearestSearch correctable received (i + 1) ws best)"

record BchResult =
  bvalid :: bool
  berrors :: nat
  binfo :: u16

definition bch63Decode :: "u64 \<Rightarrow> nat \<Rightarrow> BchResult" where
  "bch63Decode received maxErrors =
     (let (best, bestIndex) = nearestSearch kBch63Correctable received 0 bch63Codewords (kBch63Length + 1, 0)
      in \<lparr>bvalid = best \<le> maxErrors \<and> best \<le> kBch63Correctable, berrors = best, binfo = of_nat bestIndex\<rparr>)"

definition bch15Decode :: "nat \<Rightarrow> u16 \<Rightarrow> nat \<Rightarrow> BchResult" where
  "bch15Decode d received maxErrors =
     (let (best, bestIndex) =
            nearestSearch (bch15Correctable d) received 0 (bch15Codewords d) (kBch15Length + 1, 0)
      in \<lparr>bvalid = best \<le> maxErrors \<and> best \<le> bch15Correctable d, berrors = best, binfo = of_nat bestIndex\<rparr>)"

text \<open>What the search returns: the seed, when nothing beats it, or a word that does and that is either
  within the correcting power or as near as any.\<close>

lemma nearestSearch_cases:
  fixes received :: "'a::len word"
  defines "dist \<equiv> \<lambda>w. hdist w received"
  shows "(nearestSearch t received i ws best = best \<and> (\<forall>w\<in>set ws. fst best \<le> dist w)) \<or>
    (\<exists>j<length ws. nearestSearch t received i ws best = (dist (ws ! j), i + j) \<and> dist (ws ! j) < fst best \<and>
      (dist (ws ! j) \<le> t \<or> (\<forall>w\<in>set ws. dist (ws ! j) \<le> dist w)))"
proof (induction ws arbitrary: i best)
  case (Cons w ws)
  let ?d = "dist w"
  have d: "popcount (w XOR received) = ?d" by (simp add: dist_def hdist_def)
  consider "?d < fst best" "?d \<le> t" | "?d < fst best" "\<not> ?d \<le> t" | "\<not> ?d < fst best" by blast
  then show ?case
  proof cases
    case 1
    then show ?thesis by (intro disjI2 exI [of _ 0]) (simp add: d)
  next
    case 2
    then have step: "nearestSearch t received i (w # ws) best = nearestSearch t received (i + 1) ws (?d, i)"
      by (simp add: d)
    from Cons.IH [of "i + 1" "(?d, i)"] show ?thesis
    proof
      assume "nearestSearch t received (i + 1) ws (?d, i) = (?d, i) \<and> (\<forall>w\<in>set ws. fst (?d, i) \<le> dist w)"
      with 2 step show ?thesis by (intro disjI2 exI [of _ 0]) simp
    next
      assume "\<exists>j<length ws. nearestSearch t received (i + 1) ws (?d, i) = (dist (ws ! j), i + 1 + j) \<and>
        dist (ws ! j) < fst (?d, i) \<and> (dist (ws ! j) \<le> t \<or> (\<forall>w\<in>set ws. dist (ws ! j) \<le> dist w))"
      then obtain j where "j < length ws" "nearestSearch t received (i + 1) ws (?d, i) = (dist (ws ! j), i + 1 + j)"
        "dist (ws ! j) < ?d" "dist (ws ! j) \<le> t \<or> (\<forall>w\<in>set ws. dist (ws ! j) \<le> dist w)" by auto
      with 2 step show ?thesis by (intro disjI2 exI [of _ "Suc j"]) auto
    qed
  next
    case 3
    then have step: "nearestSearch t received i (w # ws) best = nearestSearch t received (i + 1) ws best"
      by (simp add: d)
    from Cons.IH [of "i + 1" best] show ?thesis
    proof
      assume "nearestSearch t received (i + 1) ws best = best \<and> (\<forall>w\<in>set ws. fst best \<le> dist w)"
      with 3 step show ?thesis by simp
    next
      assume "\<exists>j<length ws. nearestSearch t received (i + 1) ws best = (dist (ws ! j), i + 1 + j) \<and>
        dist (ws ! j) < fst best \<and> (dist (ws ! j) \<le> t \<or> (\<forall>w\<in>set ws. dist (ws ! j) \<le> dist w))"
      then obtain j where "j < length ws" "nearestSearch t received (i + 1) ws best = (dist (ws ! j), i + 1 + j)"
        "dist (ws ! j) < fst best" "dist (ws ! j) \<le> t \<or> (\<forall>w\<in>set ws. dist (ws ! j) \<le> dist w)" by auto
      with 3 step show ?thesis by (intro disjI2 exI [of _ "Suc j"]) auto
    qed
  qed
qed simp

text \<open>
  The interface the early exit needs: a table whose words are pairwise further apart than twice the
  correcting power.  Under it the first word found within reach is the nearest one.
\<close>

locale spaced_table =
  fixes table :: "'a::len word list" and t :: nat
  assumes spaced: "i < length table \<Longrightarrow> j < length table \<Longrightarrow> i \<noteq> j \<Longrightarrow> 2 * t + 1 \<le> hdist (table ! i) (table ! j)"
begin

lemma near_unique:
  "i < length table \<Longrightarrow> j < length table \<Longrightarrow> hdist (table ! i) w \<le> t \<Longrightarrow> hdist (table ! j) w \<le> t \<Longrightarrow> i = j"
  using spaced [of i j] hdist_triangle [of "table ! i" "table ! j" w] hdist_commute [of w "table ! j"] by fastforce

lemma search_nearest:
  assumes "\<exists>w\<in>set table. hdist w received < limit"
  shows "\<exists>j<length table. nearestSearch t received 0 table (limit, 0) = (hdist (table ! j) received, j) \<and>
    (\<forall>w\<in>set table. hdist (table ! j) received \<le> hdist w received)"
proof -
  from nearestSearch_cases [of t received 0 table "(limit, 0)"] assms
  obtain j where j: "j < length table" "nearestSearch t received 0 table (limit, 0) = (hdist (table ! j) received, j)"
    "hdist (table ! j) received \<le> t \<or> (\<forall>w\<in>set table. hdist (table ! j) received \<le> hdist w received)" by force
  have "hdist (table ! j) received \<le> hdist (table ! k) received" if k: "k < length table" for k
  proof (rule ccontr)
    assume closer: "\<not> ?thesis"
    with j(3) k have "hdist (table ! j) received \<le> t" by (metis nth_mem)
    with closer near_unique [OF j(1) k] show False by fastforce
  qed
  with j show ?thesis by (auto simp: in_set_conv_nth)
qed

lemma search_within:
  assumes "i < length table" "hdist (table ! i) received \<le> t" "t < limit"
  shows "nearestSearch t received 0 table (limit, 0) = (hdist (table ! i) received, i)"
proof -
  have "\<exists>w\<in>set table. hdist w received < limit"
    using assms by (intro bexI [of _ "table ! i"]) auto
  then obtain j where j: "j < length table" "nearestSearch t received 0 table (limit, 0) = (hdist (table ! j) received, j)"
    "\<forall>w\<in>set table. hdist (table ! j) received \<le> hdist w received" using search_nearest by blast
  then have "hdist (table ! j) received \<le> t" using assms by (meson nth_mem order_trans)
  with near_unique [OF j(1) assms(1), of received] assms(2) have "j = i" by simp
  with j show ?thesis by simp
qed

end

subsection \<open>The fields, evaluated\<close>

lemma bch_indices:
  "rev [1..<2] = [1]" "rev [Suc 0..<2] = [1]" "rev [Suc 0..<3] = [2, 1]" "rev [Suc 0..<4] = [3, 2, 1]"
  "rev [Suc 0..<5] = [4, 3, 2, 1]" "rev [Suc 0..<6] = [5, 4, 3, 2, 1]" "rev [Suc 0..<7] = [6, 5, 4, 3, 2, 1]"
  "[0..<3] = [0, 1, 2]" "[0..<4] = [0, 1, 2, 3]" "[0..<7] = [0, 1, 2, 3, 4, 5, 6]"
  by (simp_all add: upt_rec)

lemma upt64: "[0..<64] =
    [0, 1, 2, 3, 4, 5, 6, 7, 8, 9, 10, 11, 12, 13, 14, 15, 16, 17, 18, 19, 20, 21, 22, 23, 24, 25, 26,
    27, 28, 29, 30, 31, 32, 33, 34, 35, 36, 37, 38, 39, 40, 41, 42, 43, 44, 45, 46, 47, 48, 49, 50, 51,
    52, 53, 54, 55, 56, 57, 58, 59, 60, 61, 62, 63]"
  by (simp add: upt_rec)

definition gf64 :: FieldTables where
  "gf64 = \<lparr>exp_table =
      [1, 2, 4, 8, 16, 32, 3, 6, 12, 24, 48, 35, 5, 10, 20, 40, 19, 38, 15, 30, 60, 59, 53, 41, 17, 34,
      7, 14, 28, 56, 51, 37, 9, 18, 36, 11, 22, 44, 27, 54, 47, 29, 58, 55, 45, 25, 50, 39, 13, 26, 52,
      43, 21, 42, 23, 46, 31, 62, 63, 61, 57, 49, 33, 1, 2, 4, 8, 16, 32, 3, 6, 12, 24, 48, 35, 5, 10,
      20, 40, 19, 38, 15, 30, 60, 59, 53, 41, 17, 34, 7, 14, 28, 56, 51, 37, 9, 18, 36, 11, 22, 44, 27,
      54, 47, 29, 58, 55, 45, 25, 50, 39, 13, 26, 52, 43, 21, 42, 23, 46, 31, 62, 63, 61, 57, 49, 33],
    log_table =
      [0, 0, 1, 6, 2, 12, 7, 26, 3, 32, 13, 35, 8, 48, 27, 18, 4, 24, 33, 16, 14, 52, 36, 54, 9, 45, 49,
      38, 28, 41, 19, 56, 5, 62, 25, 11, 34, 31, 17, 47, 15, 23, 53, 51, 37, 44, 55, 40, 10, 61, 46, 30,
      50, 22, 39, 43, 29, 60, 42, 21, 20, 59, 57, 58]\<rparr>"

lemma bch63Gf64Tables_eq: "bch63Gf64Tables = gf64"
  unfolding gf64_def by code_simp

text \<open>The minimal polynomials of the nine cosets that meet the exponents 1 to 22.\<close>

lemma bch63_minimal:
  "cosetLoop 63 (timesRoot gf64 63) (Suc 0) (Suc 0) ([1, 0, 0, 0, 0, 0, 0, 0], 0) = Some ([1, 1, 0, 0, 0, 0, 1, 0], 6)"
  "cosetLoop 63 (timesRoot gf64 63) 3 3 ([1, 0, 0, 0, 0, 0, 0, 0], 0) = Some ([1, 1, 1, 0, 1, 0, 1, 0], 6)"
  "cosetLoop 63 (timesRoot gf64 63) 5 5 ([1, 0, 0, 0, 0, 0, 0, 0], 0) = Some ([1, 1, 1, 0, 0, 1, 1, 0], 6)"
  "cosetLoop 63 (timesRoot gf64 63) 7 7 ([1, 0, 0, 0, 0, 0, 0, 0], 0) = Some ([1, 0, 0, 1, 0, 0, 1, 0], 6)"
  "cosetLoop 63 (timesRoot gf64 63) 9 9 ([1, 0, 0, 0, 0, 0, 0, 0], 0) = Some ([1, 0, 1, 1, 0, 0, 0, 0], 3)"
  "cosetLoop 63 (timesRoot gf64 63) 11 11 ([1, 0, 0, 0, 0, 0, 0, 0], 0) = Some ([1, 0, 1, 1, 0, 1, 1, 0], 6)"
  "cosetLoop 63 (timesRoot gf64 63) 13 13 ([1, 0, 0, 0, 0, 0, 0, 0], 0) = Some ([1, 1, 0, 1, 1, 0, 1, 0], 6)"
  "cosetLoop 63 (timesRoot gf64 63) 15 15 ([1, 0, 0, 0, 0, 0, 0, 0], 0) = Some ([1, 0, 1, 0, 1, 1, 1, 0], 6)"
  "cosetLoop 63 (timesRoot gf64 63) 21 21 ([1, 0, 0, 0, 0, 0, 0, 0], 0) = Some ([1, 1, 1, 0, 0, 0, 0, 0], 2)"
  by (simp_all add: cosetLoop.simps timesRoot_def fieldMul_def gf64_def bch_indices)

lemma bch63_factors:
  "minimalFactor [1, 1, 0, 0, 0, 0, 1, 0] 6 = (67 :: u64)"
  "minimalFactor [1, 1, 1, 0, 1, 0, 1, 0] 6 = (87 :: u64)"
  "minimalFactor [1, 1, 1, 0, 0, 1, 1, 0] 6 = (103 :: u64)"
  "minimalFactor [1, 0, 0, 1, 0, 0, 1, 0] 6 = (73 :: u64)"
  "minimalFactor [1, 0, 1, 1, 0, 0, 0, 0] 3 = (13 :: u64)"
  "minimalFactor [1, 0, 1, 1, 0, 1, 1, 0] 6 = (109 :: u64)"
  "minimalFactor [1, 1, 0, 1, 1, 0, 1, 0] 6 = (91 :: u64)"
  "minimalFactor [1, 0, 1, 0, 1, 1, 1, 0] 6 = (117 :: u64)"
  "minimalFactor [1, 1, 1, 0, 0, 0, 0, 0] 2 = (7 :: u64)"
  by (simp_all add: minimalFactor_def bch_indices)

lemma bch63_products:
  "polyProduct 64 1 67 = (67 :: u64)"
  "polyProduct 64 67 87 = (5433 :: u64)"
  "polyProduct 64 5433 103 = (492239 :: u64)"
  "polyProduct 64 492239 73 = (31139703 :: u64)"
  "polyProduct 64 31139703 13 = (141459731 :: u64)"
  "polyProduct 64 141459731 109 = (14978968423 :: u64)"
  "polyProduct 64 14978968423 91 = (1059158362401 :: u64)"
  "polyProduct 64 1059158362401 117 = (51886244352981 :: u64)"
  "polyProduct 64 51886244352981 7 = (226031442934571 :: u64)"
  unfolding polyProduct_def upt64 by simp_all

lemma bch63_least:
  "cosetLoop 63 (\<lambda>c least. if c < least then c else least) (Suc 0) (Suc 0) (Suc 0) = Some (Suc 0)"
  "cosetLoop 63 (\<lambda>c least. if c < least then c else least) 2 2 2 = Some (Suc 0)"
  "cosetLoop 63 (\<lambda>c least. if c < least then c else least) 3 3 3 = Some 3"
  "cosetLoop 63 (\<lambda>c least. if c < least then c else least) 4 4 4 = Some (Suc 0)"
  "cosetLoop 63 (\<lambda>c least. if c < least then c else least) 5 5 5 = Some 5"
  "cosetLoop 63 (\<lambda>c least. if c < least then c else least) 6 6 6 = Some 3"
  "cosetLoop 63 (\<lambda>c least. if c < least then c else least) 7 7 7 = Some 7"
  "cosetLoop 63 (\<lambda>c least. if c < least then c else least) 8 8 8 = Some (Suc 0)"
  "cosetLoop 63 (\<lambda>c least. if c < least then c else least) 9 9 9 = Some 9"
  "cosetLoop 63 (\<lambda>c least. if c < least then c else least) 10 10 10 = Some 5"
  "cosetLoop 63 (\<lambda>c least. if c < least then c else least) 11 11 11 = Some 11"
  "cosetLoop 63 (\<lambda>c least. if c < least then c else least) 12 12 12 = Some 3"
  "cosetLoop 63 (\<lambda>c least. if c < least then c else least) 13 13 13 = Some 13"
  "cosetLoop 63 (\<lambda>c least. if c < least then c else least) 14 14 14 = Some 7"
  "cosetLoop 63 (\<lambda>c least. if c < least then c else least) 15 15 15 = Some 15"
  "cosetLoop 63 (\<lambda>c least. if c < least then c else least) 16 16 16 = Some (Suc 0)"
  "cosetLoop 63 (\<lambda>c least. if c < least then c else least) 17 17 17 = Some 5"
  "cosetLoop 63 (\<lambda>c least. if c < least then c else least) 18 18 18 = Some 9"
  "cosetLoop 63 (\<lambda>c least. if c < least then c else least) 19 19 19 = Some 13"
  "cosetLoop 63 (\<lambda>c least. if c < least then c else least) 20 20 20 = Some 5"
  "cosetLoop 63 (\<lambda>c least. if c < least then c else least) 21 21 21 = Some 21"
  "cosetLoop 63 (\<lambda>c least. if c < least then c else least) 22 22 22 = Some 11"
  by (simp_all add: cosetLoop.simps)

text \<open>The polynomial the construction yields: degree 47, as the code's parameters need.\<close>

lemma bch63_slots: "(replicate 8 0)[0 := 1] = [1, 0, 0, 0, 0, 0, 0, 0 :: u32]"
  by (simp add: numeral_eq_Suc)

lemma bch63_generator_steps:
  "generatorStep gf64 63 8 64 (Suc 0) (1, 0) = Some (67 :: u64, 2)"
  "generatorStep gf64 63 8 64 2 (67, 2) = Some (67 :: u64, 2)"
  "generatorStep gf64 63 8 64 3 (67, 2) = Some (5433 :: u64, 10)"
  "generatorStep gf64 63 8 64 4 (5433, 10) = Some (5433 :: u64, 10)"
  "generatorStep gf64 63 8 64 5 (5433, 10) = Some (492239 :: u64, 42)"
  "generatorStep gf64 63 8 64 6 (492239, 42) = Some (492239 :: u64, 42)"
  "generatorStep gf64 63 8 64 7 (492239, 42) = Some (31139703 :: u64, 170)"
  "generatorStep gf64 63 8 64 8 (31139703, 170) = Some (31139703 :: u64, 170)"
  "generatorStep gf64 63 8 64 9 (31139703, 170) = Some (141459731 :: u64, 682)"
  "generatorStep gf64 63 8 64 10 (141459731, 682) = Some (141459731 :: u64, 682)"
  "generatorStep gf64 63 8 64 11 (141459731, 682) = Some (14978968423 :: u64, 2730)"
  "generatorStep gf64 63 8 64 12 (14978968423, 2730) = Some (14978968423 :: u64, 2730)"
  "generatorStep gf64 63 8 64 13 (14978968423, 2730) = Some (1059158362401 :: u64, 10922)"
  "generatorStep gf64 63 8 64 14 (1059158362401, 10922) = Some (1059158362401 :: u64, 10922)"
  "generatorStep gf64 63 8 64 15 (1059158362401, 10922) = Some (51886244352981 :: u64, 43690)"
  "generatorStep gf64 63 8 64 16 (51886244352981, 43690) = Some (51886244352981 :: u64, 43690)"
  "generatorStep gf64 63 8 64 17 (51886244352981, 43690) = Some (51886244352981 :: u64, 43690)"
  "generatorStep gf64 63 8 64 18 (51886244352981, 43690) = Some (51886244352981 :: u64, 43690)"
  "generatorStep gf64 63 8 64 19 (51886244352981, 43690) = Some (51886244352981 :: u64, 43690)"
  "generatorStep gf64 63 8 64 20 (51886244352981, 43690) = Some (51886244352981 :: u64, 43690)"
  "generatorStep gf64 63 8 64 21 (51886244352981, 43690) = Some (226031442934571 :: u64, 2140842)"
  "generatorStep gf64 63 8 64 22 (226031442934571, 2140842) = Some (226031442934571 :: u64, 2140842)"
  by (simp_all add: generatorStep_def bch63_slots bch63_least bch63_minimal bch63_factors bch63_products)

lemma bch63GeneratorPoly_eq: "bch63GeneratorPoly = Some 0xCD930BDD3B2B"
proof -
  have "[1..<23] = [Suc 0, 2, 3, 4, 5, 6, 7, 8, 9, 10, 11, 12, 13, 14, 15, 16, 17, 18, 19, 20, 21, 22]"
    by (simp add: upt_rec)
  then show ?thesis
    by (simp only: bch63GeneratorPoly_def bch63Gf64Tables_eq kBch63Distance_def)
       (simp add: bch63_generator_steps)
qed

definition gf16 :: FieldTables where
  "gf16 = \<lparr>exp_table = [1, 2, 4, 8, 3, 6, 12, 11, 5, 10, 7, 14, 15, 13, 9],
    log_table = [0, 0, 1, 4, 2, 8, 5, 10, 3, 14, 9, 7, 6, 13, 11, 12]\<rparr>"

lemma bch15Gf16Tables_eq: "bch15Gf16Tables = gf16"
  unfolding gf16_def by code_simp

lemma bch15_slots: "(replicate 6 0)[0 := 1] = [1, 0, 0, 0, 0, 0 :: u32]"
  "[Suc 0..<3] = [Suc 0, 2]" "[Suc 0..<5] = [Suc 0, 2, 3, 4]" "[Suc 0..<7] = [Suc 0, 2, 3, 4, 5, 6]"
  "[0..<16] = [0, 1, 2, 3, 4, 5, 6, 7, 8, 9, 10, 11, 12, 13, 14, 15]" "[0..<5] = [0, 1, 2, 3, 4]"
  by (simp_all add: upt_rec numeral_eq_Suc)

lemma bch15GeneratorPoly_eq:
  "bch15GeneratorPoly 3 = Some 0x13" "bch15GeneratorPoly 5 = Some 0x1D1" "bch15GeneratorPoly 7 = Some 0x537"
  by (simp_all add: bch15GeneratorPoly_def bch15Gf16Tables_eq generatorStep_def cosetLoop.simps timesRoot_def
      fieldMul_def gf16_def bch_indices bch15_slots minimalFactor_def polyProduct_def)

theorem bch_generators:
  "bch63GeneratorPoly = Some 0xCD930BDD3B2B \<and> bch15GeneratorPoly 3 = Some 0x13 \<and>
   bch15GeneratorPoly 5 = Some 0x1D1 \<and> bch15GeneratorPoly 7 = Some 0x537"
  by (simp add: bch63GeneratorPoly_eq bch15GeneratorPoly_eq)

subsection \<open>The family of length 15\<close>

lemma bch15_parameters:
  "bch15Generator 3 = 0x13" "bch15Generator 5 = 0x1D1" "bch15Generator 7 = 0x537"
  "bch15ParityBits 3 = 4" "bch15ParityBits 5 = 8" "bch15ParityBits 7 = 10"
  "bch15InfoBits 3 = 11" "bch15InfoBits 5 = 7" "bch15InfoBits 7 = 5"
  by (simp_all add: bch15Generator_def bch15ParityBits_def bch15InfoBits_def bit_width_def kBch15Length_def
      bch15GeneratorPoly_eq bch15_slots)

lemma bch15_rows:
  "map (\<lambda>i. uint (gf2Remainder (2 ^ (4 + i)) 15 0x13 4)) [0, 1, 2, 3, 4, 5, 6, 7, 8, 9, 10] =
     [3, 6, 12, 11, 5, 10, 7, 14, 15, 13, 9]"
  "map (\<lambda>i. uint (gf2Remainder (2 ^ (8 + i)) 15 0x1D1 8)) [0, 1, 2, 3, 4, 5, 6] =
     [209, 115, 230, 29, 58, 116, 232]"
  "map (\<lambda>i. uint (gf2Remainder (2 ^ (10 + i)) 15 0x537 10)) [0, 1, 2, 3, 4] = [311, 622, 491, 982, 667]"
proof -
  have ix: "rev [4..<15] = [14, 13, 12, 11, 10, 9, 8, 7, 6, 5, 4]" "rev [8..<15] = [14, 13, 12, 11, 10, 9, 8]"
    "rev [10..<15] = [14, 13, 12, 11, 10]" by (simp_all add: upt_rec)
  show
  "map (\<lambda>i. uint (gf2Remainder (2 ^ (4 + i)) 15 0x13 4)) [0, 1, 2, 3, 4, 5, 6, 7, 8, 9, 10] =
     [3, 6, 12, 11, 5, 10, 7, 14, 15, 13, 9]"
  "map (\<lambda>i. uint (gf2Remainder (2 ^ (8 + i)) 15 0x1D1 8)) [0, 1, 2, 3, 4, 5, 6] =
     [209, 115, 230, 29, 58, 116, 232]"
  "map (\<lambda>i. uint (gf2Remainder (2 ^ (10 + i)) 15 0x537 10)) [0, 1, 2, 3, 4] = [311, 622, 491, 982, 667]"
    unfolding list.map by (simp_all add: gf2Remainder_def gf2_step_def ix)
qed

interpretation bch15_3: cyclic_code 15 4 "0x13" 3
proof
  have "[0..<15 - 4] = [0, 1, 2, 3, 4, 5, 6, 7, 8, 9, 10]" by (simp add: upt_rec)
  then show "code_ok 3 (map (\<lambda>i. uint (gf2Remainder (2 ^ (4 + i)) 15 0x13 4)) [0..<15 - 4])"
    by (simp only: bch15_rows) (simp add: eval_nat_numeral)
qed simp_all

interpretation bch15_5: cyclic_code 15 8 "0x1D1" 5
proof
  have "[0..<15 - 8] = [0, 1, 2, 3, 4, 5, 6]" by (simp add: upt_rec)
  then show "code_ok 5 (map (\<lambda>i. uint (gf2Remainder (2 ^ (8 + i)) 15 0x1D1 8)) [0..<15 - 8])"
    by (simp only: bch15_rows) (simp add: eval_nat_numeral)
qed simp_all

interpretation bch15_7: cyclic_code 15 10 "0x537" 7
proof
  have "[0..<15 - 10] = [0, 1, 2, 3, 4]" by (simp add: upt_rec)
  then show "code_ok 7 (map (\<lambda>i. uint (gf2Remainder (2 ^ (10 + i)) 15 0x537 10)) [0..<15 - 10])"
    by (simp only: bch15_rows) (simp add: eval_nat_numeral)
qed simp_all

text \<open>The three members as one statement: the parameters and the code they generate.\<close>

definition bch15Family :: "nat \<Rightarrow> bool" where
  "bch15Family d \<longleftrightarrow> d = 3 \<or> d = 5 \<or> d = 7"

lemma bch15_code: "bch15Family d \<Longrightarrow> cyclic_code 15 (bch15ParityBits d) (ucast (bch15Generator d)) d"
  using bch15_3.cyclic_code_axioms bch15_5.cyclic_code_axioms bch15_7.cyclic_code_axioms
  by (auto simp: bch15Family_def bch15_parameters)

lemma bch15_sizes:
  assumes "bch15Family d"
  shows "bch15ParityBits d < 15" "bch15InfoBits d = 15 - bch15ParityBits d" "bch15InfoBits d \<le> 11"
    "bch15Correctable d < 16" "2 * bch15Correctable d + 1 = d"
  using assms by (auto simp: bch15Family_def bch15_parameters bch15Correctable_def)

text \<open>A codeword is its information above its remainder.\<close>

lemma bch15Encode_bits:
  fixes info :: u16
  assumes "bch15Family d"
  defines "word \<equiv> ucast (bch15Encode d info) :: u64" and "p \<equiv> bch15ParityBits d"
  shows "gf2Remainder word 15 (ucast (bch15Generator d)) p = 0"
    "\<And>i. bit (bch15Encode d info) i \<Longrightarrow> i < 15"
    "\<And>i. p \<le> i \<Longrightarrow> bit (bch15Encode d info) i \<longleftrightarrow> i < 15 \<and> bit info (i - p)"
proof -
  let ?g = "ucast (bch15Generator d) :: u64"
  define shifted :: u64 where
    "shifted = ucast (push_bit p (ucast info AND (push_bit (bch15InfoBits d) 1 - 1) :: u32))"
  note sizes = bch15_sizes [OF assms(1)]
  have high: "bit shifted i \<longleftrightarrow> p \<le> i \<and> i < 15 \<and> bit info (i - p)" for i
    unfolding shifted_def bit_ucast_iff bit_push_bit_iff bit_and_iff bit_mask_word
    using sizes by (auto simp: p_def)
  have low: "bit (gf2Remainder shifted 15 ?g p) i \<Longrightarrow> i < p" for i
    by (rule bit_gf2Remainder)
  have enc: "bch15Encode d info = ucast (shifted XOR gf2Remainder shifted 15 ?g p)"
  proof -
    have "shifted OR gf2Remainder shifted 15 ?g p = shifted XOR gf2Remainder shifted 15 ?g p"
      by (rule bit_word_eqI) (auto simp: bit_or_iff bit_xor_iff high dest: low)
    then show ?thesis by (simp add: bch15Encode_def Let_def shifted_def p_def kBch15Length_def)
  qed
  have p15: "p < 15" using sizes by (simp add: p_def)
  then have bits: "bit (shifted XOR gf2Remainder shifted 15 ?g p) i \<Longrightarrow> i < 15" for i
    by (auto simp: bit_xor_iff high dest: low)
  have "word = shifted XOR gf2Remainder shifted 15 ?g p"
    unfolding word_def enc
  proof (rule bit_word_eqI)
    fix i
    let ?x = "shifted XOR gf2Remainder shifted 15 ?g p"
    show "bit (ucast (ucast ?x :: u16) :: u64) i = bit ?x i"
      using bits [of i] unfolding bit_ucast_iff by auto
  qed
  then show "gf2Remainder word 15 (ucast (bch15Generator d)) p = 0"
    using gf2Remainder_systematic [of shifted 15 ?g p] by (simp only: p_def)
  show "\<And>i. bit (bch15Encode d info) i \<Longrightarrow> i < 15"
    unfolding enc by (auto simp: bit_ucast_iff dest: bits)
  show "\<And>i. p \<le> i \<Longrightarrow> bit (bch15Encode d info) i \<longleftrightarrow> i < 15 \<and> bit info (i - p)"
    unfolding enc by (auto simp: bit_ucast_iff bit_xor_iff high dest: low)
qed

lemma bch15Codewords_nth:
  "length (bch15Codewords d) = 2 ^ bch15InfoBits d"
  "i < 2 ^ bch15InfoBits d \<Longrightarrow> bch15Codewords d ! i = bch15Encode d (of_nat i)"
  by (simp_all add: bch15Codewords_def)

lemma small_bit: "bit (n :: nat) i \<Longrightarrow> n < 2 ^ k \<Longrightarrow> i < k"
  using bits_below [of "word_of_nat n :: u64"]
  by (metis bit_take_bit_iff take_bit_nat_eq_self_iff)

lemma bch15Encode_inj:
  assumes "bch15Family d" "i < 2 ^ bch15InfoBits d" "j < 2 ^ bch15InfoBits d"
    "bch15Encode d (of_nat i) = bch15Encode d (of_nat j)"
  shows "i = j"
proof (rule bit_eqI)
  fix b
  let ?p = "bch15ParityBits d"
  note sizes = bch15_sizes [OF assms(1)]
  show "bit i b = bit j b"
  proof (cases "b < bch15InfoBits d")
    case True
    then have "bit (word_of_nat n :: u16) b = bit n b" for n
      using sizes by (simp add: bit_of_nat_iff)
    moreover have "b + ?p < 15" using True sizes by linarith
    then have "bit (bch15Encode d (of_nat n)) (b + ?p) = bit (word_of_nat n :: u16) b" for n
      using bch15Encode_bits(3) [OF assms(1), of "b + ?p"] by simp
    ultimately show ?thesis using assms(4) by metis
  next
    case False
    then show ?thesis using assms(2,3) small_bit by blast
  qed
qed

lemma bch15_spaced:
  assumes "bch15Family d"
  shows "spaced_table (bch15Codewords d) (bch15Correctable d)"
proof
  fix i j assume ij: "i < length (bch15Codewords d)" "j < length (bch15Codewords d)" "i \<noteq> j"
  let ?e = "\<lambda>n. ucast (bch15Encode d (of_nat n)) :: u64"
  note enc = bch15Encode_bits [OF assms]
  have "bch15Encode d (of_nat i) \<noteq> bch15Encode d (of_nat j)"
    using ij bch15Encode_inj [OF assms] by (auto simp: bch15Codewords_nth)
  moreover have "ucast (?e n) = bch15Encode d (of_nat n)" for n
    by (rule bit_word_eqI) (auto simp: bit_ucast_iff)
  ultimately have "?e i \<noteq> ?e j" by metis
  then have "d \<le> hdist (?e i) (?e j)"
    using cyclic_code.codewords_apart [OF bch15_code [OF assms], of "?e i" "?e j"] enc(1,2)
    by (auto simp: bit_ucast_iff)
  also have "hdist (?e i) (?e j) = hdist (bch15Encode d (of_nat i)) (bch15Encode d (of_nat j))"
  proof -
    have "?e i XOR ?e j = ucast (bch15Encode d (of_nat i) XOR bch15Encode d (of_nat j))"
      by (simp add: unsigned_xor_eq)
    moreover have "popcount (ucast w :: u64) = popcount w" for w :: u16
      by (rule popcount_ucast) (auto dest: bit_imp_le_length)
    ultimately show ?thesis by (simp add: hdist_def)
  qed
  finally show "2 * bch15Correctable d + 1 \<le> hdist (bch15Codewords d ! i) (bch15Codewords d ! j)"
    using ij bch15_sizes(5) [OF assms] by (simp add: bch15Codewords_nth)
qed

interpretation bch15_11: spaced_table "bch15Codewords 3" "bch15Correctable 3"
  by (rule bch15_spaced) (simp add: bch15Family_def)

interpretation bch15_7_table: spaced_table "bch15Codewords 5" "bch15Correctable 5"
  by (rule bch15_spaced) (simp add: bch15Family_def)

interpretation bch15_5_table: spaced_table "bch15Codewords 7" "bch15Correctable 7"
  by (rule bch15_spaced) (simp add: bch15Family_def)

lemma bch15_index:
  assumes "bch15Family d"
  defines "k \<equiv> bch15InfoBits d"
  shows "bch15Encode d info = bch15Codewords d ! unat (info AND (2 ^ k - 1))" "unat (info AND (2 ^ k - 1)) < 2 ^ k"
proof -
  note sizes = bch15_sizes [OF assms(1)]
  have k16: "k < 16" using sizes by (simp add: k_def)
  have masked: "bit (info AND (2 ^ k - 1)) i \<longleftrightarrow> i < k \<and> bit info i" for i
    using k16 by (auto simp: bit_and_iff bit_low_mask)
  have "info AND (2 ^ k - 1) = take_bit k info"
    by (rule bit_word_eqI) (simp add: masked bit_take_bit_iff)
  then have "unat (info AND (2 ^ k - 1)) = take_bit k (unat info)"
    by (simp add: unsigned_take_bit_eq)
  then show bound: "unat (info AND (2 ^ k - 1)) < 2 ^ k" by simp
  have "bch15Encode d info = bch15Encode d (info AND (2 ^ k - 1))"
    unfolding bch15Encode_def k_def [symmetric]
    by (rule arg_cong [of _ _ "\<lambda>x. let shifted = push_bit (bch15ParityBits d) (x :: u32) in _ shifted"])
       (rule bit_word_eqI, auto simp: bit_and_iff bit_ucast_iff bit_mask_word bit_low_mask masked dest: bit_imp_le_length)
  with bound show "bch15Encode d info = bch15Codewords d ! unat (info AND (2 ^ k - 1))"
    by (simp add: bch15Codewords_nth k_def)
qed

text \<open>C14. Each code of the length-15 BCH family (designed distances 3, 5 and 7) decodes a codeword hit by
  up to (d-1)/2 errors to its information bits, reporting the number of errors.\<close>

theorem bch15_corrects:
  assumes "bch15Family d" "\<And>i. bit e i \<Longrightarrow> i < 15" "popcount e \<le> bch15Correctable d"
  shows "bch15Decode d (bch15Encode d info XOR e) maxErrors =
    \<lparr>bvalid = popcount e \<le> maxErrors, berrors = popcount e, binfo = info AND (2 ^ bch15InfoBits d - 1)\<rparr>"
proof -
  let ?i = "unat (info AND (2 ^ bch15InfoBits d - 1))" and ?w = "bch15Encode d info XOR e"
  have i: "bch15Codewords d ! ?i = bch15Encode d info" "?i < length (bch15Codewords d)"
    using bch15_index [OF assms(1), of info] by (simp_all only: bch15Codewords_nth)
  have dist: "hdist (bch15Codewords d ! ?i) ?w = popcount e"
    by (simp add: i hdist_def)
  have "nearestSearch (bch15Correctable d) ?w 0 (bch15Codewords d) (kBch15Length + 1, 0) = (popcount e, ?i)"
    using spaced_table.search_within [OF bch15_spaced [OF assms(1)] i(2), of ?w "kBch15Length + 1"] dist assms(3)
      bch15_sizes(4) [OF assms(1)] by (simp add: kBch15Length_def)
  then show ?thesis
    using assms(3) by (simp add: bch15Decode_def)
qed

lemma bch15_corrects_witness:
  "bch15Decode 7 (bch15Encode 7 0x15 XOR 0x4101) 3 = \<lparr>bvalid = True, berrors = 3, binfo = 0x15\<rparr>"
proof -
  have "popcount (0x4101 :: u16) = 3" by code_simp
  moreover have "bit (0x4101 :: u16) i \<Longrightarrow> i < 15" for i
    by (rule bits_below [rotated], assumption, simp)
  ultimately show ?thesis
    using bch15_corrects [of 7 "0x4101" "0x15" 3]
    by (simp add: bch15Family_def bch15Correctable_def bch15_parameters)
qed

text \<open>C15. The length-15 decoder implements nearest-codeword decoding: despite its early exit, the
  codeword it names is at the reported distance and no codeword is nearer, and valid is set exactly
  within both limits.\<close>

theorem bch15_decode_nearest:
  assumes "bch15Family d" "\<And>i. bit received i \<Longrightarrow> i < 15"
    and r_def: "r = bch15Decode d received maxErrors"
  shows "hdist (bch15Encode d (binfo r)) received = berrors r \<and>
    (\<forall>info. berrors r \<le> hdist (bch15Encode d info) received) \<and>
    (bvalid r \<longleftrightarrow> berrors r \<le> maxErrors \<and> berrors r \<le> bch15Correctable d)"
proof -
  let ?t = "bch15Codewords d"
  have "popcount (bch15Encode d 0 XOR received) = length (filter (bit (bch15Encode d 0 XOR received)) [0..<15])"
    using bch15Encode_bits(2) [OF assms(1), of 0] assms(2)
    by (intro popcount_filter [of _ 0]) (auto simp: bit_xor_iff)
  also have "\<dots> \<le> 15" by (rule order_trans [OF length_filter_le]) simp
  finally have "hdist (bch15Encode d 0) received < kBch15Length + 1"
    by (simp add: hdist_def kBch15Length_def)
  moreover have member: "bch15Encode d info \<in> set ?t" for info
    using bch15_index [OF assms(1), of info] by (metis bch15Codewords_nth(1) nth_mem)
  ultimately have "\<exists>w\<in>set ?t. hdist w received < kBch15Length + 1" by blast
  then obtain j where j: "j < length ?t"
    "nearestSearch (bch15Correctable d) received 0 ?t (kBch15Length + 1, 0) = (hdist (?t ! j) received, j)"
    "\<forall>w\<in>set ?t. hdist (?t ! j) received \<le> hdist w received"
    using spaced_table.search_nearest [OF bch15_spaced [OF assms(1)]] by blast
  then have "r = \<lparr>bvalid = hdist (?t ! j) received \<le> maxErrors \<and> hdist (?t ! j) received \<le> bch15Correctable d,
      berrors = hdist (?t ! j) received, binfo = of_nat j\<rparr>"
    by (simp add: r_def bch15Decode_def)
  then show ?thesis
    using j(1,3) member by (simp add: bch15Codewords_nth)
qed

lemma bch15_decode_nearest_witness:
  "hdist (bch15Encode 5 (binfo (bch15Decode 5 0x0F0F 2))) 0x0F0F = berrors (bch15Decode 5 0x0F0F 2)"
proof -
  have "bit (0x0F0F :: u16) i \<Longrightarrow> i < 15" for i
    by (rule bits_below [rotated], assumption, simp)
  then show ?thesis
    using bch15_decode_nearest [of 5 "0x0F0F" _ 2] by (simp add: bch15Family_def)
qed

subsection \<open>The code of length 63\<close>

lemma bch63Codewords_nth:
  "length bch63Codewords = 65536"
  "i < 65536 \<Longrightarrow> bch63Codewords ! i = bch63Encode (of_nat i)"
  by (simp_all add: bch63Codewords_def kBch63InfoBits_def)

lemma bch63_member: "bch63Encode info \<in> set bch63Codewords"
proof -
  have "unat info < 65536" using unsigned_less [of info] by simp
  then show ?thesis
    using nth_mem [of "unat info" bch63Codewords] by (simp add: bch63Codewords_nth)
qed

theorem bch63_encode_systematic:
  "gf2Remainder (bch63Encode info) 63 bch63Generator 47 = 0 \<and> drop_bit 47 (bch63Encode info) = ucast info"
proof -
  let ?s = "push_bit 47 (ucast info) :: u64" and ?r = "gf2Remainder (push_bit 47 (ucast info) :: u64) 63 bch63Generator 47"
  have low: "bit ?r i \<Longrightarrow> i < 47" for i by (rule bit_gf2Remainder)
  have high: "bit ?s i \<longleftrightarrow> 47 \<le> i \<and> i < 63 \<and> bit info (i - 47)" for i
    by (auto simp: bit_push_bit_iff bit_ucast_iff dest: bit_imp_le_length)
  have enc: "bch63Encode info = ?s XOR ?r"
    unfolding bch63Encode_def Let_def kBch63ParityBits_def kBch63Length_def kBch63InfoBits_def
    by (rule bit_word_eqI) (simp add: bit_or_iff bit_xor_iff high, use low not_less in blast)
  have "drop_bit 47 (?s XOR ?r) = ucast info"
    by (rule bit_word_eqI)
       (auto simp: bit_drop_bit_eq bit_xor_iff high bit_ucast_iff dest: low bit_imp_le_length)
  then show ?thesis
    unfolding enc by (simp only: gf2Remainder_systematic simp_thms)
qed

text \<open>C16. The BCH(63,16) decoder names a codeword at exactly the reported distance, accepts exactly
  within both limits, and when it reports more than eleven errors no codeword is nearer.\<close>

theorem bch63_decode_sound:
  assumes "\<And>i. bit received i \<Longrightarrow> i < 63" and r_def: "r = bch63Decode received maxErrors"
  shows "hdist (bch63Encode (binfo r)) received = berrors r \<and>
    (bvalid r \<longleftrightarrow> berrors r \<le> maxErrors \<and> berrors r \<le> kBch63Correctable) \<and>
    (kBch63Correctable < berrors r \<longrightarrow> (\<forall>info. berrors r \<le> hdist (bch63Encode info) received))"
proof -
  let ?t = bch63Codewords
  have "popcount received = length (filter (bit received) [0..<63])"
    using assms(1) by (intro popcount_filter [of _ 0]) auto
  also have "\<dots> \<le> 63" by (rule order_trans [OF length_filter_le]) simp
  finally have "hdist (bch63Encode 0) received < kBch63Length + 1"
    by (simp add: hdist_def kBch63Length_def bch63Encode_def)
  then have "\<not> (\<forall>w\<in>set ?t. fst (kBch63Length + 1, 0) \<le> hdist w received)"
    using bch63_member [of 0] by (metis fst_conv not_le)
  then obtain j where j: "j < 65536"
    "nearestSearch kBch63Correctable received 0 ?t (kBch63Length + 1, 0) = (hdist (?t ! j) received, j)"
    "hdist (?t ! j) received \<le> kBch63Correctable \<or> (\<forall>w\<in>set ?t. hdist (?t ! j) received \<le> hdist w received)"
    using nearestSearch_cases [of kBch63Correctable received 0 ?t "(kBch63Length + 1, 0)"]
    by (auto simp: bch63Codewords_nth)
  then have "r = \<lparr>bvalid = hdist (?t ! j) received \<le> maxErrors \<and> hdist (?t ! j) received \<le> kBch63Correctable,
      berrors = hdist (?t ! j) received, binfo = of_nat j\<rparr>"
    by (simp add: r_def bch63Decode_def)
  then show ?thesis
    using j(1,3) bch63_member by (auto simp: bch63Codewords_nth)
qed

lemma bch63_decode_sound_witness:
  "hdist (bch63Encode (binfo (bch63Decode 0x123456789ABCDEF 11))) 0x123456789ABCDEF =
   berrors (bch63Decode 0x123456789ABCDEF 11)"
proof -
  have "bit (0x123456789ABCDEF :: u64) i \<Longrightarrow> i < 63" for i
    by (rule bits_below [rotated], assumption, simp)
  then show ?thesis
    using bch63_decode_sound [of "0x123456789ABCDEF" _ 11] by blast
qed

end
