(* ===== verification/Crc.thy ===== *)
theory Crc
  imports Prelude
begin

section \<open>Cyclic redundancy checks\<close>

text \<open>
  \<^verbatim>\<open>digital/Crc.hpp\<close>: one check over any width from 3 to 64, driven by a table in one of three
  forms.  The library's account of it is the bit-serial register of the Rocksoft model
  (\<open>referenceCrc\<close>): whichever table form the parameters select, \<open>compute\<close> and \<open>computeBits\<close> return
  what that register returns.  The locale \<open>linear_register\<close> holds what every form shares: a step
  linear over exclusive-or and the lanes a message bit enters by; inside it, feeding a group of bits
  is feeding their sum at once, which is what a table lookup does.
\<close>

subsection \<open>The class\<close>

text \<open>The low \<open>width\<close> bits of \<open>value\<close>, reversed.\<close>

definition reverseBits :: "u64 \<Rightarrow> nat \<Rightarrow> u64" where
  "reverseBits value width =
     fold (\<lambda>bit result. push_bit 1 result OR (drop_bit bit value AND 1)) [0..<width] 0"

datatype TableForm = MsbFirst | Mirrored | LeftAligned

record Crc =
  crc_table :: "u64 list"
  crc_seed :: u64
  crc_registerPolynomial :: u64
  crc_mask :: u64
  crc_polynomial :: u64
  crc_initialValue :: u64
  crc_finalXor :: u64
  crc_width :: nat
  crc_inputReflected :: bool
  crc_resultReflected :: bool
  crc_form :: TableForm

datatype CrcError = WidthOutOfRange u8 | BitCountExceedsMessage u64 nat

text \<open>The bodies of the loops that fill a table entry.\<close>

definition shiftLeftStep :: "u64 \<Rightarrow> u64 \<Rightarrow> u64 \<Rightarrow> u64 \<Rightarrow> u64" where
  "shiftLeftStep topBit msk poly r =
     (if r AND topBit \<noteq> 0 then (push_bit 1 r XOR poly) AND msk else push_bit 1 r AND msk)"

definition shiftRightStep :: "u64 \<Rightarrow> u64 \<Rightarrow> u64" where
  "shiftRightStep poly r = (if r AND 1 \<noteq> 0 then drop_bit 1 r XOR poly else drop_bit 1 r)"

definition buildMsbFirst :: "Crc \<Rightarrow> Crc" where
  "buildMsbFirst c =
     (let topBit = push_bit (crc_width c - 1) 1;
          entry = (\<lambda>i. fold (\<lambda>_. shiftLeftStep topBit (crc_mask c) (crc_polynomial c)) [0..<8]
                         (push_bit (crc_width c - 8) (of_nat i)))
      in c\<lparr>crc_table := map entry [0..<256], crc_seed := crc_initialValue c,
           crc_registerPolynomial := crc_polynomial c\<rparr>)"

definition buildMirrored :: "Crc \<Rightarrow> Crc" where
  "buildMirrored c =
     (let reflected = reverseBits (crc_polynomial c) (crc_width c);
          entry = (\<lambda>i. fold (\<lambda>_. shiftRightStep reflected) [0..<8] (of_nat i) AND crc_mask c)
      in c\<lparr>crc_table := map entry [0..<256], crc_seed := reverseBits (crc_initialValue c) (crc_width c),
           crc_registerPolynomial := reflected\<rparr>)"

definition buildLeftAligned :: "Crc \<Rightarrow> Crc" where
  "buildLeftAligned c =
     (let aligned = push_bit (8 - crc_width c) (crc_polynomial c) AND 0xFF;
          entry = (\<lambda>i. fold (\<lambda>_. shiftLeftStep 0x80 0xFF aligned) [0..<8] (of_nat i))
      in c\<lparr>crc_table := map entry [0..<256],
           crc_seed := push_bit (8 - crc_width c) (crc_initialValue c) AND 0xFF,
           crc_registerPolynomial := aligned\<rparr>)"

text \<open>The constructor.\<close>

definition Crc_new :: "u8 \<Rightarrow> u64 \<Rightarrow> u64 \<Rightarrow> u64 \<Rightarrow> bool \<Rightarrow> bool \<Rightarrow> CrcError + Crc" where
  "Crc_new width polynomial initialValue finalXor inputReflected resultReflected =
     (if width < 3 \<or> width > 64 then Inl (WidthOutOfRange width)
      else
        let msk = (if width = 64 then NOT 0 else push_bit (unat width) 1 - 1);
            form = (if width < 8 then LeftAligned else if inputReflected then Mirrored else MsbFirst);
            c = \<lparr>crc_table = replicate 256 0, crc_seed = 0, crc_registerPolynomial = 0, crc_mask = msk,
                 crc_polynomial = polynomial AND msk, crc_initialValue = initialValue AND msk,
                 crc_finalXor = finalXor AND msk, crc_width = unat width,
                 crc_inputReflected = inputReflected, crc_resultReflected = resultReflected, crc_form = form\<rparr>
        in Inr (case form of Mirrored \<Rightarrow> buildMirrored c | LeftAligned \<Rightarrow> buildLeftAligned c
                | MsbFirst \<Rightarrow> buildMsbFirst c))"

definition reverseByte :: "u8 \<Rightarrow> u64" where
  "reverseByte byte = reverseBits (ucast byte) 8"

definition feedBytes :: "Crc \<Rightarrow> u64 \<Rightarrow> u8 list \<Rightarrow> u64" where
  "feedBytes c reg message =
     (case crc_form c of
        Mirrored \<Rightarrow>
          fold (\<lambda>byte reg. crc_table c ! unat ((reg XOR ucast byte) AND 0xFF) XOR drop_bit 8 reg) message reg
      | LeftAligned \<Rightarrow>
          (if crc_inputReflected c
           then fold (\<lambda>byte reg. crc_table c ! unat ((reg XOR reverseByte byte) AND 0xFF)) message reg
           else fold (\<lambda>byte reg. crc_table c ! unat ((reg XOR ucast byte) AND 0xFF)) message reg)
      | MsbFirst \<Rightarrow>
          (let shift = crc_width c - 8
           in fold (\<lambda>byte reg. (push_bit 8 reg AND crc_mask c) XOR
                crc_table c ! unat ((drop_bit shift reg XOR ucast byte) AND 0xFF)) message reg))"

definition feedBit :: "Crc \<Rightarrow> u64 \<Rightarrow> u64 \<Rightarrow> u64" where
  "feedBit c reg b =
     (case crc_form c of
        Mirrored \<Rightarrow>
          (if (reg XOR b) AND 1 \<noteq> 0 then drop_bit 1 reg XOR crc_registerPolynomial c else drop_bit 1 reg)
      | LeftAligned \<Rightarrow>
          (if (drop_bit 7 reg XOR b) AND 1 \<noteq> 0
           then (push_bit 1 reg XOR crc_registerPolynomial c) AND 0xFF else push_bit 1 reg AND 0xFF)
      | MsbFirst \<Rightarrow>
          (if (drop_bit (crc_width c - 1) reg XOR b) AND 1 \<noteq> 0
           then (push_bit 1 reg XOR crc_registerPolynomial c) AND crc_mask c
           else push_bit 1 reg AND crc_mask c))"

definition crcFinish :: "Crc \<Rightarrow> u64 \<Rightarrow> u64" where
  "crcFinish c reg =
     (case crc_form c of
        Mirrored \<Rightarrow>
          ((if crc_inputReflected c \<noteq> crc_resultReflected c then reverseBits reg (crc_width c) else reg)
            XOR crc_finalXor c) AND crc_mask c
      | LeftAligned \<Rightarrow>
          (let unaligned = drop_bit (8 - crc_width c) reg
           in ((if crc_resultReflected c then reverseBits unaligned (crc_width c) else unaligned)
                XOR crc_finalXor c) AND crc_mask c)
      | MsbFirst \<Rightarrow>
          ((if crc_resultReflected c then reverseBits reg (crc_width c) else reg) XOR crc_finalXor c) AND crc_mask c)"

definition crcCompute :: "Crc \<Rightarrow> u8 list \<Rightarrow> u64" where
  "crcCompute c message = crcFinish c (feedBytes c (crc_seed c) message)"

definition crcComputeBits :: "Crc \<Rightarrow> u8 list \<Rightarrow> u64 \<Rightarrow> CrcError + u64" where
  "crcComputeBits c message bitCount =
     (let wholeBytes = bitCount div 8; extraBits = bitCount mod 8
      in if unat (wholeBytes + (if extraBits \<noteq> 0 then 1 else 0)) > length message
         then Inl (BitCountExceedsMessage bitCount (length message))
         else
           let partial = message ! unat wholeBytes;
               reg = feedBytes c (crc_seed c) (take (unat wholeBytes) message);
               reg = fold (\<lambda>k reg.
                       let position = (if crc_inputReflected c then k else 7 - k)
                       in feedBit c reg (drop_bit position (ucast partial) AND 1)) [0..<unat extraBits] reg
           in Inr (crcFinish c reg))"

subsection \<open>The reference\<close>

text \<open>
  The register of the Rocksoft model: \<open>width\<close> bits, the unreflected polynomial, one message bit per
  step, and the reflections applied where the model applies them.
\<close>

definition referenceStep :: "nat \<Rightarrow> u64 \<Rightarrow> bool \<Rightarrow> u64 \<Rightarrow> u64" where
  "referenceStep width poly b reg =
     take_bit width (push_bit 1 reg) XOR (if bit reg (width - 1) \<noteq> b then take_bit width poly else 0)"

definition referenceCrc :: "nat \<Rightarrow> u64 \<Rightarrow> u64 \<Rightarrow> u64 \<Rightarrow> bool \<Rightarrow> bool list \<Rightarrow> u64" where
  "referenceCrc width poly init xorOut resultReflected bits =
     (let reg = fold (referenceStep width poly) bits (take_bit width init)
      in (if resultReflected then reverseBits reg width else reg) XOR take_bit width xorOut)"

text \<open>The bits of a byte in the order the model reads them, and of a message.\<close>

definition byteBits :: "bool \<Rightarrow> u8 \<Rightarrow> bool list" where
  "byteBits reflected byte = map (bit byte) (if reflected then [0..<8] else rev [0..<8])"

definition messageBits :: "bool \<Rightarrow> u8 list \<Rightarrow> bool list" where
  "messageBits reflected message = concat (map (byteBits reflected) message)"

subsection \<open>Registers\<close>

text \<open>
  A shift register with a linear step.  A message bit enters through \<open>lane 0\<close>; a bit that enters \<open>k\<close>
  steps later may be added now, at \<open>lane k\<close>, which the step moves to \<open>lane 0\<close> in time.
\<close>

locale linear_register =
  fixes Z :: "u64 \<Rightarrow> u64" and lane :: "nat \<Rightarrow> u64"
  assumes linear: "Z (a XOR b) = Z a XOR Z b"
    and slide: "k < 7 \<Longrightarrow> Z (lane (Suc k)) = lane k"
begin

lemma zero [simp]: "Z 0 = 0"
  using linear [of 0 0] by simp

lemma pow_linear: "(Z ^^ n) (a XOR b) = (Z ^^ n) a XOR (Z ^^ n) b"
  by (induction n) (simp_all add: linear)

lemma pow_zero [simp]: "(Z ^^ n) 0 = 0"
  by (induction n) simp_all

lemma slide_all: "k \<le> 7 \<Longrightarrow> (Z ^^ k) (lane k) = lane 0"
  by (induction k) (simp_all add: funpow_Suc_right slide del: funpow.simps)

lemma feed_group:
  assumes "length bs \<le> 8" "\<And>b r. feed b r = Z (r XOR (if b then lane 0 else 0))"
  shows "fold feed bs r = (Z ^^ length bs) (r XOR xor_where (\<lambda>k. bs ! k) lane [0..<length bs])"
  using assms(1)
proof (induction bs rule: rev_induct)
  case (snoc b bs)
  let ?n = "length bs"
  have n: "?n \<le> 7" using snoc.prems by simp
  have "xor_where (\<lambda>k. (bs @ [b]) ! k) lane ([0..<?n] @ [?n]) =
      xor_where (\<lambda>k. bs ! k) lane [0..<?n] XOR (if b then lane ?n else 0)"
  proof -
    have "xor_where P f (xs @ ys) = xor_where P f xs XOR xor_where P f ys" for P xs ys and f :: "nat \<Rightarrow> u64"
      by (induction xs) (simp_all add: xor.assoc)
    moreover have "xor_where (\<lambda>k. (bs @ [b]) ! k) lane [0..<?n] = xor_where (\<lambda>k. bs ! k) lane [0..<?n]"
      by (rule xor_where_cong) (simp add: nth_append)
    ultimately show ?thesis by simp
  qed
  moreover have "(Z ^^ ?n) (if b then lane ?n else 0) = (if b then lane 0 else 0)"
    using slide_all [OF n] by simp
  ultimately show ?case
    using snoc assms(2) n by (simp add: pow_linear xor.assoc)
qed simp

end

text \<open>The bits of the two steps.\<close>

lemma bit_shiftLeftStep:
  assumes "0 < W" "W \<le> 64" "\<And>i. bit m i \<longleftrightarrow> i < W"
  shows "bit (shiftLeftStep (2 ^ (W - 1)) m P r) i \<longleftrightarrow>
    i < W \<and> ((0 < i \<and> bit r (i - 1)) \<noteq> (bit r (W - 1) \<and> bit P i))"
proof -
  have top: "r AND 2 ^ (W - 1) \<noteq> 0 \<longleftrightarrow> bit r (W - 1)"
    by (simp add: and_exp_eq_0_iff_not_bit)
  have push: "bit (push_bit 1 r) i \<longleftrightarrow> i < 64 \<and> 0 < i \<and> bit r (i - 1)"
    unfolding bit_push_bit_iff by auto
  show ?thesis
    unfolding shiftLeftStep_def top if_distrib [of "\<lambda>x. bit x i"] bit_and_iff bit_xor_iff assms(3) push
    using assms(2) by auto
qed

lemma bit_shiftRightStep:
  "bit (shiftRightStep P r) i \<longleftrightarrow> bit r (Suc i) \<noteq> (bit r 0 \<and> bit P i)"
proof -
  have low: "r AND 1 \<noteq> 0 \<longleftrightarrow> bit r 0"
    by (simp add: and_exp_eq_0_iff_not_bit [of r 0, simplified] bit_0)
  show ?thesis
    unfolding shiftRightStep_def low by (auto simp: bit_xor_iff bit_drop_bit_eq)
qed

lemma bit_reverseBits: "w \<le> 64 \<Longrightarrow> bit (reverseBits v w) i \<longleftrightarrow> i < w \<and> bit v (w - 1 - i)"
proof (induction w arbitrary: i)
  case (Suc w)
  have step: "reverseBits v (Suc w) = push_bit 1 (reverseBits v w) OR (drop_bit w v AND 1)"
    by (simp add: reverseBits_def)
  have "bit (reverseBits v (Suc w)) i \<longleftrightarrow>
      (i < 64 \<and> 0 < i \<and> bit (reverseBits v w) (i - 1)) \<or> (i = 0 \<and> bit v w)"
    unfolding step bit_or_iff bit_push_bit_iff bit_and_iff bit_drop_bit_eq bit_1_iff by auto
  also have "\<dots> \<longleftrightarrow> i < Suc w \<and> bit v (w - i)"
    using Suc.IH [of "i - 1"] Suc.prems by (cases i) auto
  finally show ?case by simp
qed (simp add: reverseBits_def)

text \<open>Every form is such a register: eight or more bits shifted left, or any number shifted right.\<close>

definition leftStep :: "nat \<Rightarrow> u64 \<Rightarrow> u64 \<Rightarrow> u64" where
  "leftStep W P = shiftLeftStep (2 ^ (W - 1)) (mask W) P"

lemma bit_leftStep:
  assumes "0 < W" "W \<le> 64"
  shows "bit (leftStep W P r) i \<longleftrightarrow> i < W \<and> ((0 < i \<and> bit r (i - 1)) \<noteq> (bit r (W - 1) \<and> bit P i))"
  unfolding leftStep_def
  by (rule bit_shiftLeftStep [OF assms]) (use assms in \<open>auto simp: bit_mask_iff\<close>)

lemma left_register:
  assumes "8 \<le> W" "W \<le> 64"
  shows "linear_register (leftStep W P) (\<lambda>k. 2 ^ (W - 1 - k))"
proof
  have W: "0 < W" using assms by simp
  show "leftStep W P (a XOR b) = leftStep W P a XOR leftStep W P b" for a b
    by (rule bit_word_eqI) (auto simp: bit_leftStep [OF W assms(2)] bit_xor_iff)
  show "leftStep W P (2 ^ (W - 1 - Suc k)) = 2 ^ (W - 1 - k)" if "k < 7" for k
    by (rule bit_word_eqI) (use that assms in \<open>auto simp: bit_leftStep [OF W assms(2)]\<close>)
qed

interpretation aligned: linear_register "leftStep 8 P" "\<lambda>k. 2 ^ (8 - 1 - k)" for P
  by (rule left_register) simp_all

interpretation full: linear_register "leftStep 64 P" "\<lambda>k. 2 ^ (64 - 1 - k)" for P
  by (rule left_register) simp_all

interpretation mirrored: linear_register "shiftRightStep P" "\<lambda>k. 2 ^ k" for P
proof
  show "shiftRightStep P (a XOR b) = shiftRightStep P a XOR shiftRightStep P b" for a b
    by (rule bit_word_eqI) (auto simp: bit_shiftRightStep bit_xor_iff)
  show "shiftRightStep P (2 ^ Suc k) = 2 ^ k" if "k < 7" for k
    by (rule bit_word_eqI) (use that in \<open>auto simp: bit_shiftRightStep simp del: power_Suc\<close>)
qed

text \<open>Bits clear of the polynomial are only shifted.\<close>

lemma left_shifts:
  assumes "0 < W" "W \<le> 64" "\<And>i. bit x i \<Longrightarrow> i + n < W"
  shows "(leftStep W P ^^ n) x = push_bit n x"
  using assms(3)
proof (induction n)
  case (Suc n)
  then have IH: "(leftStep W P ^^ n) x = push_bit n x" by (simp add: Suc_lessD)
  have top: "\<not> bit (push_bit n x) (W - 1)"
    using Suc.prems [of "W - 1 - n"] assms(1) by (auto simp: bit_push_bit_iff)
  have "bit (leftStep W P (push_bit n x)) i = bit (push_bit (Suc n) x) i" if "i < 64" for i
    using top Suc.prems [of "i - Suc n"] that
    unfolding bit_leftStep [OF assms(1,2)] bit_push_bit_iff by (auto simp: Suc_le_eq)
  then show ?case
    unfolding funpow.simps comp_def IH by (intro bit_word_eqI) simp
qed simp

lemma right_shifts:
  assumes "\<And>i. bit x i \<Longrightarrow> n \<le> i"
  shows "(shiftRightStep P ^^ n) x = drop_bit n x"
  using assms
proof (induction n)
  case (Suc n)
  then have IH: "(shiftRightStep P ^^ n) x = drop_bit n x" by (simp add: Suc_leD)
  have "\<not> bit (drop_bit n x) 0"
    using Suc.prems [of n] by (auto simp: bit_drop_bit_eq)
  then show ?case
    unfolding funpow.simps comp_def IH
    by (intro bit_word_eqI) (simp add: bit_shiftRightStep bit_drop_bit_eq)
qed simp

subsection \<open>What the constructor sets up\<close>

lemma fold_constant: "fold (\<lambda>_. f) [0..<n] x = (f ^^ n) x"
  by (induction n) simp_all

lemma crc_mask_eq:
  "n \<le> 64 \<Longrightarrow> (if n = 64 then NOT 0 else push_bit n 1 - 1 :: u64) = mask n"
  by (rule bit_word_eqI) (auto simp: bit_mask_iff bit_mask_word bit_low_mask bit_not_iff)

text \<open>The fields of a constructed check, by form.\<close>

lemma Crc_new_result:
  fixes width :: u8
  defines "w \<equiv> unat width"
  assumes "Crc_new width poly init xorOut refIn refOut = Inr c"
  shows "3 \<le> w" "w \<le> 64" "crc_width c = w" "crc_mask c = mask w" "crc_finalXor c = take_bit w xorOut"
    "crc_inputReflected c = refIn" "crc_resultReflected c = refOut"
    "crc_form c = (if w < 8 then LeftAligned else if refIn then Mirrored else MsbFirst)"
    "crc_form c = MsbFirst \<Longrightarrow> c = buildMsbFirst c"
    "crc_form c = Mirrored \<Longrightarrow> c = buildMirrored c"
    "crc_form c = LeftAligned \<Longrightarrow> c = buildLeftAligned c"
    "crc_polynomial c = take_bit w poly" "crc_initialValue c = take_bit w init"
proof -
  have range: "\<not> (width < 3 \<or> width > 64)"
    using assms(2) by (auto simp: Crc_new_def split: if_splits)
  then show w: "3 \<le> w" "w \<le> 64"
    by (simp_all add: w_def word_less_nat_alt)
  have eqs: "width = 64 \<longleftrightarrow> w = 64" "width < 8 \<longleftrightarrow> w < 8"
    by (simp_all add: w_def word_less_nat_alt word_unat_eq_iff)
  define c0 where "c0 = \<lparr>crc_table = replicate 256 0, crc_seed = 0, crc_registerPolynomial = 0, crc_mask = mask w,
      crc_polynomial = poly AND mask w, crc_initialValue = init AND mask w,
      crc_finalXor = xorOut AND mask w, crc_width = w, crc_inputReflected = refIn, crc_resultReflected = refOut,
      crc_form = (if w < 8 then LeftAligned else if refIn then Mirrored else MsbFirst)\<rparr>"
  have c: "c = (case crc_form c0 of Mirrored \<Rightarrow> buildMirrored c0 | LeftAligned \<Rightarrow> buildLeftAligned c0
      | MsbFirst \<Rightarrow> buildMsbFirst c0)"
    using assms(2) range unfolding Crc_new_def Let_def eqs crc_mask_eq [OF w(2)] w_def [symmetric]
    by (auto simp: c0_def split: if_splits)
  have c0: "crc_width c0 = w" "crc_mask c0 = mask w" "crc_finalXor c0 = take_bit w xorOut"
    "crc_inputReflected c0 = refIn" "crc_resultReflected c0 = refOut"
    "crc_form c0 = (if w < 8 then LeftAligned else if refIn then Mirrored else MsbFirst)"
    "crc_polynomial c0 = take_bit w poly" "crc_initialValue c0 = take_bit w init"
    by (simp_all add: c0_def take_bit_eq_mask)
  have build: "crc_width c = crc_width c0" "crc_mask c = crc_mask c0" "crc_finalXor c = crc_finalXor c0"
    "crc_inputReflected c = crc_inputReflected c0" "crc_resultReflected c = crc_resultReflected c0"
    "crc_form c = crc_form c0" "crc_polynomial c = crc_polynomial c0" "crc_initialValue c = crc_initialValue c0"
    unfolding c by (simp_all add: buildMsbFirst_def buildMirrored_def buildLeftAligned_def Let_def split: TableForm.split)
  from build c0 show "crc_width c = w" "crc_mask c = mask w" "crc_finalXor c = take_bit w xorOut"
    "crc_inputReflected c = refIn" "crc_resultReflected c = refOut"
    "crc_form c = (if w < 8 then LeftAligned else if refIn then Mirrored else MsbFirst)"
    "crc_polynomial c = take_bit w poly" "crc_initialValue c = take_bit w init" by simp_all
  have idem: "buildMsbFirst (buildMsbFirst c0) = buildMsbFirst c0" "buildMirrored (buildMirrored c0) = buildMirrored c0"
    "buildLeftAligned (buildLeftAligned c0) = buildLeftAligned c0"
    by (simp_all add: buildMsbFirst_def buildMirrored_def buildLeftAligned_def Let_def)
  show "crc_form c = MsbFirst \<Longrightarrow> c = buildMsbFirst c" "crc_form c = Mirrored \<Longrightarrow> c = buildMirrored c"
    "crc_form c = LeftAligned \<Longrightarrow> c = buildLeftAligned c"
    unfolding build(6) using c by (simp_all add: idem)
qed

lemma build_fields:
  "0 < crc_width c \<Longrightarrow> crc_mask c = mask (crc_width c) \<Longrightarrow> c = buildMsbFirst c \<Longrightarrow>
     crc_registerPolynomial c = crc_polynomial c \<and> crc_seed c = crc_initialValue c \<and>
     (\<forall>j<256. crc_table c ! j = (leftStep (crc_width c) (crc_polynomial c) ^^ 8) (push_bit (crc_width c - 8) (of_nat j)))"
  "c = buildMirrored c \<Longrightarrow>
     crc_registerPolynomial c = reverseBits (crc_polynomial c) (crc_width c) \<and>
     crc_seed c = reverseBits (crc_initialValue c) (crc_width c) \<and>
     (\<forall>j<256. crc_table c ! j =
        (shiftRightStep (reverseBits (crc_polynomial c) (crc_width c)) ^^ 8) (of_nat j) AND crc_mask c)"
  "c = buildLeftAligned c \<Longrightarrow>
     crc_registerPolynomial c = push_bit (8 - crc_width c) (crc_polynomial c) AND 0xFF \<and>
     crc_seed c = push_bit (8 - crc_width c) (crc_initialValue c) AND 0xFF \<and>
     (\<forall>j<256. crc_table c ! j =
        (leftStep 8 (push_bit (8 - crc_width c) (crc_polynomial c) AND 0xFF) ^^ 8) (of_nat j))"
proof goal_cases
  case 1
  have "leftStep (crc_width c) P = shiftLeftStep (push_bit (crc_width c - 1) 1) (crc_mask c) P" for P
    using 1(2) by (simp add: leftStep_def push_bit_of_1)
  moreover have "crc_registerPolynomial c = crc_registerPolynomial (buildMsbFirst c)"
    "crc_seed c = crc_seed (buildMsbFirst c)" "crc_table c = crc_table (buildMsbFirst c)"
    by (rule arg_cong [OF 1(3)])+
  ultimately show ?case by (simp add: buildMsbFirst_def Let_def fold_constant)
next
  case 2
  have "crc_registerPolynomial c = crc_registerPolynomial (buildMirrored c)"
    "crc_seed c = crc_seed (buildMirrored c)" "crc_table c = crc_table (buildMirrored c)"
    by (rule arg_cong [OF 2])+
  then show ?case by (simp add: buildMirrored_def Let_def fold_constant)
next
  case 3
  have "leftStep 8 P = shiftLeftStep 0x80 0xFF P" for P
    by (simp add: leftStep_def mask_eq_exp_minus_1)
  moreover have "crc_registerPolynomial c = crc_registerPolynomial (buildLeftAligned c)"
    "crc_seed c = crc_seed (buildLeftAligned c)" "crc_table c = crc_table (buildLeftAligned c)"
    by (rule arg_cong [OF 3])+
  ultimately show ?case by (simp add: buildLeftAligned_def Let_def fold_constant)
qed

subsection \<open>A byte at once\<close>

lemma bit_lane_sum:
  assumes "inj_on f (set is)" "distinct is"
  shows "bit (xor_where P (\<lambda>k. 2 ^ f k :: u64) is) i \<longleftrightarrow> i < 64 \<and> (\<exists>k\<in>set is. P k \<and> f k = i)"
  using assms by (induction "is") (auto simp: bit_xor_iff inj_on_def)

lemma byteBits_nth:
  "length (byteBits r byte) = 8"
  "k < 8 \<Longrightarrow> byteBits r byte ! k = bit byte (if r then k else 7 - k)"
  by (simp_all add: byteBits_def rev_nth)

lemma bit_reverseByte: "bit (reverseByte byte) i \<longleftrightarrow> i < 8 \<and> bit byte (7 - i)"
  by (auto simp: reverseByte_def bit_reverseBits bit_ucast_iff)

lemma lane_sums:
  "8 \<le> W \<Longrightarrow> W \<le> 64 \<Longrightarrow>
    xor_where (\<lambda>k. byteBits False byte ! k) (\<lambda>k. 2 ^ (W - 1 - k)) [0..<8] = push_bit (W - 8) (ucast byte :: u64)"
  "xor_where (\<lambda>k. byteBits True byte ! k) (\<lambda>k. 2 ^ (8 - 1 - k)) [0..<8] = reverseByte byte"
  "xor_where (\<lambda>k. byteBits True byte ! k) (\<lambda>k. 2 ^ k) [0..<8] = (ucast byte :: u64)"
proof -
  assume W: "8 \<le> W" "W \<le> 64"
  show "xor_where (\<lambda>k. byteBits False byte ! k) (\<lambda>k. 2 ^ (W - 1 - k)) [0..<8] = push_bit (W - 8) (ucast byte :: u64)"
  proof (rule bit_word_eqI)
    fix i
    have "\<exists>k<8. bit byte (7 - k) \<and> W - 1 - k = i" if b: "bit byte (i - (W - 8))" "W - 8 \<le> i"
    proof -
      have "i - (W - 8) < 8" using bit_imp_le_length [OF b(1)] by simp
      then have "W - 1 - i < 8" "7 - (W - 1 - i) = i - (W - 8)" "W - 1 - (W - 1 - i) = i" using W b(2) by arith+
      with b(1) show ?thesis by metis
    qed
    moreover have "k < 8 \<Longrightarrow> W - 1 - k - (W - 8) = 7 - k" for k using W by simp
    ultimately show "bit (xor_where (\<lambda>k. byteBits False byte ! k) (\<lambda>k. 2 ^ (W - 1 - k)) [0..<8] :: u64) i =
        bit (push_bit (W - 8) (ucast byte :: u64)) i" if "i < LENGTH(64)"
      using W that
      by (subst bit_lane_sum) (auto simp: inj_on_def byteBits_nth bit_push_bit_iff bit_ucast_iff Bex_def)
  qed
next
  show "xor_where (\<lambda>k. byteBits True byte ! k) (\<lambda>k. 2 ^ (8 - 1 - k)) [0..<8] = reverseByte byte"
  proof (rule bit_word_eqI)
    fix i
    have "i < 8 \<Longrightarrow> bit byte (7 - i) \<Longrightarrow> \<exists>k<8. bit byte k \<and> 7 - k = i"
      by (intro exI [of _ "7 - i"]) auto
    then show "bit (xor_where (\<lambda>k. byteBits True byte ! k) (\<lambda>k. 2 ^ (8 - 1 - k)) [0..<8] :: u64) i =
        bit (reverseByte byte) i"
      by (subst bit_lane_sum) (auto simp: inj_on_def byteBits_nth bit_reverseByte Bex_def)
  qed
next
  show "xor_where (\<lambda>k. byteBits True byte ! k) (\<lambda>k. 2 ^ k) [0..<8] = (ucast byte :: u64)"
    by (rule bit_word_eqI, subst bit_lane_sum [where f = "\<lambda>k. k"])
       (auto simp: byteBits_nth bit_ucast_iff dest: bit_imp_le_length)
qed

lemma masked_index:
  "unat (x AND 0xFF :: u64) < 256" "of_nat (unat (x AND 0xFF :: u64)) = x AND (0xFF :: u64)"
proof -
  have "x AND 0xFF = take_bit 8 x" by (rule bit_word_eqI) (auto simp: bit_and_iff bit_take_bit_iff word_bits)
  then show "unat (x AND 0xFF :: u64) < 256"
    using take_bit_nat_less_exp [of 8 "unat x"] by (simp add: unsigned_take_bit_eq)
qed simp

text \<open>A byte of the left-shifted forms: the bits on top are looked up, the rest is shifted.\<close>

lemma left_byte:
  assumes W: "8 \<le> W" "W \<le> 64" and reg: "\<And>i. bit reg i \<Longrightarrow> i < W"
    and byte: "\<And>i. bit byte i \<Longrightarrow> i < 8"
  shows "(leftStep W P ^^ 8) (reg XOR push_bit (W - 8) byte) =
    (push_bit 8 reg AND mask W) XOR
    (leftStep W P ^^ 8) (push_bit (W - 8) ((drop_bit (W - 8) reg XOR byte) AND 0xFF))"
proof -
  note register = left_register [OF W, of P]
  let ?low = "take_bit (W - 8) reg" and ?high = "push_bit (W - 8) ((drop_bit (W - 8) reg XOR byte) AND 0xFF)"
  have "reg XOR push_bit (W - 8) byte = ?low XOR ?high"
  proof (rule bit_word_eqI)
    fix i assume "i < LENGTH(64)"
    then show "bit (reg XOR push_bit (W - 8) byte) i = bit (?low XOR ?high) i"
      using W reg [of i] by (auto simp: bit_xor_iff bit_push_bit_iff bit_take_bit_iff bit_and_iff bit_drop_bit_eq
          word_bits dest: byte)
  qed
  moreover have "(leftStep W P ^^ 8) ?low = push_bit 8 ?low"
    by (rule left_shifts) (use W in \<open>auto simp: bit_take_bit_iff\<close>)
  moreover have "push_bit 8 ?low = push_bit 8 reg AND mask W"
    by (rule bit_word_eqI) (use W in \<open>auto simp: bit_push_bit_iff bit_take_bit_iff bit_and_iff bit_mask_iff\<close>)
  ultimately show ?thesis by (simp only: linear_register.pow_linear [OF register])
qed

lemma right_byte:
  assumes byte: "\<And>i. bit byte i \<Longrightarrow> i < 8"
  shows "(shiftRightStep P ^^ 8) (reg XOR byte) =
    (shiftRightStep P ^^ 8) ((reg XOR byte) AND 0xFF) XOR drop_bit 8 reg"
proof -
  let ?low = "(reg XOR byte) AND 0xFF" and ?high = "push_bit 8 (drop_bit 8 reg)"
  have "reg XOR byte = ?low XOR ?high"
    by (rule bit_word_eqI) (auto simp: bit_xor_iff bit_push_bit_iff bit_and_iff bit_drop_bit_eq word_bits dest: byte)
  moreover have "(shiftRightStep P ^^ 8) ?high = drop_bit 8 ?high"
    by (rule right_shifts) (simp add: bit_push_bit_iff)
  moreover have "drop_bit 8 ?high = drop_bit 8 reg"
    by (rule bit_word_eqI) (auto simp: bit_push_bit_iff bit_drop_bit_eq dest: bit_imp_le_length)
  ultimately show ?thesis
    using mirrored.pow_linear [where P = P and n = 8 and a = ?low and b = ?high] by (simp only:)
qed

subsection \<open>Simulation of the reference register\<close>

text \<open>The register of a form, the bits it may hold and the reference register it stands for.\<close>

definition crcInv :: "Crc \<Rightarrow> u64 \<Rightarrow> bool" where
  "crcInv c reg \<longleftrightarrow>
     (case crc_form c of
        LeftAligned \<Rightarrow> \<forall>i. bit reg i \<longrightarrow> 8 - crc_width c \<le> i \<and> i < 8
      | _ \<Rightarrow> \<forall>i. bit reg i \<longrightarrow> i < crc_width c)"

definition crcAbs :: "Crc \<Rightarrow> u64 \<Rightarrow> u64" where
  "crcAbs c reg =
     (case crc_form c of
        MsbFirst \<Rightarrow> reg
      | Mirrored \<Rightarrow> reverseBits reg (crc_width c)
      | LeftAligned \<Rightarrow> drop_bit (8 - crc_width c) reg)"

lemma bit_referenceStep:
  "0 < w \<Longrightarrow> w \<le> 64 \<Longrightarrow> bit (referenceStep w poly b reg) i \<longleftrightarrow>
    i < w \<and> ((0 < i \<and> bit reg (i - 1)) \<noteq> ((bit reg (w - 1) \<noteq> b) \<and> bit poly i))"
  unfolding referenceStep_def bit_xor_iff bit_take_bit_iff bit_push_bit_iff
    if_distrib [of "\<lambda>x. bit x i"] bit_0_eq bot_apply by auto

lemma message_bit: "(x XOR of_bool b) AND 1 \<noteq> (0 :: u64) \<longleftrightarrow> bit x 0 \<noteq> b"
proof -
  have "(x XOR of_bool b) AND 1 \<noteq> (0 :: u64) \<longleftrightarrow> bit (x XOR of_bool b) 0"
    using and_exp_eq_0_iff_not_bit [of "x XOR of_bool b" 0] by simp
  also have "\<dots> \<longleftrightarrow> bit x 0 \<noteq> b" by (auto simp: bit_xor_iff bit_1_iff)
  finally show ?thesis .
qed

text \<open>One bit of each form, as the register step of that form.\<close>

lemma bit_feed_left:
  assumes "0 < W" "W \<le> 64"
  shows "bit (leftStep W P (reg XOR (if b then 2 ^ (W - 1 - 0) else 0))) i \<longleftrightarrow>
    i < W \<and> ((0 < i \<and> bit reg (i - 1)) \<noteq> ((bit reg (W - 1) \<noteq> b) \<and> bit P i))"
  using assms by (auto simp: bit_leftStep [OF assms] bit_xor_iff)

lemma bit_feed_right:
  "bit (shiftRightStep P (reg XOR (if b then 2 ^ 0 else 0))) i \<longleftrightarrow>
    bit reg (Suc i) \<noteq> ((bit reg 0 \<noteq> b) \<and> bit P i)"
  by (auto simp: bit_shiftRightStep bit_xor_iff bit_1_iff)

lemma feedBit_left:
  assumes "crc_form c = MsbFirst" "crc_mask c = mask (crc_width c)" "0 < crc_width c" "crc_width c \<le> 64"
  shows "feedBit c reg (of_bool b) =
    leftStep (crc_width c) (crc_registerPolynomial c) (reg XOR (if b then 2 ^ (crc_width c - 1 - 0) else 0))"
proof (rule bit_word_eqI)
  fix i assume "i < LENGTH(64)"
  then show "bit (feedBit c reg (of_bool b)) i = bit (leftStep (crc_width c) (crc_registerPolynomial c)
      (reg XOR (if b then 2 ^ (crc_width c - 1 - 0) else 0))) i"
    unfolding bit_feed_left [OF assms(3,4)] feedBit_def assms(1,2) TableForm.case message_bit
      if_distrib [of "\<lambda>x. bit x i"] bit_and_iff bit_xor_iff bit_push_bit_iff bit_mask_iff bit_drop_bit_eq
    using assms(4) by auto
qed

lemma feedBit_aligned:
  assumes "crc_form c = LeftAligned"
  shows "feedBit c reg (of_bool b) =
    leftStep 8 (crc_registerPolynomial c) (reg XOR (if b then 2 ^ (8 - 1 - 0) else 0))"
proof (rule bit_word_eqI)
  fix i assume "i < LENGTH(64)"
  have eight: "0 < (8 :: nat)" "(8 :: nat) \<le> 64" by simp_all
  have ff: "bit (0xFF :: u64) i \<longleftrightarrow> i < 8" for i by (auto simp: word_bits)
  show "bit (feedBit c reg (of_bool b)) i = bit (leftStep 8 (crc_registerPolynomial c)
      (reg XOR (if b then 2 ^ (8 - 1 - 0) else 0))) i"
    unfolding bit_feed_left [OF eight] feedBit_def assms TableForm.case message_bit
      if_distrib [of "\<lambda>x. bit x i"] bit_and_iff bit_xor_iff bit_push_bit_iff ff bit_drop_bit_eq by auto
qed

lemma feedBit_mirrored:
  assumes "crc_form c = Mirrored"
  shows "feedBit c reg (of_bool b) = shiftRightStep (crc_registerPolynomial c) (reg XOR (if b then 2 ^ 0 else 0))"
proof (rule bit_word_eqI)
  fix i assume "i < LENGTH(64)"
  show "bit (feedBit c reg (of_bool b)) i =
      bit (shiftRightStep (crc_registerPolynomial c) (reg XOR (if b then 2 ^ 0 else 0))) i"
    unfolding bit_feed_right feedBit_def assms TableForm.case message_bit
      if_distrib [of "\<lambda>x. bit x i"] bit_xor_iff bit_drop_bit_eq by auto
qed

text \<open>Feeding one bit simulates the reference and keeps the invariant.\<close>

lemma feedBit_simulates:
  fixes width :: u8
  assumes new: "Crc_new width poly init xorOut refIn refOut = Inr c" and inv: "crcInv c reg"
  shows "crcInv c (feedBit c reg (of_bool b)) \<and>
    crcAbs c (feedBit c reg (of_bool b)) = referenceStep (unat width) poly b (crcAbs c reg)"
proof (cases "crc_form c")
  case MsbFirst
  note res = Crc_new_result [OF new]
  let ?w = "unat width"
  have w: "0 < ?w" "?w \<le> 64" using res(1,2) by simp_all
  have P: "crc_registerPolynomial c = take_bit ?w poly"
    using build_fields(1) [of c] res MsbFirst w(1) by simp
  have "bit (feedBit c reg (of_bool b)) i = bit (referenceStep ?w poly b reg) i" for i
    using feedBit_left [OF MsbFirst, of reg b] w
    by (simp only: res(3,4) P bit_feed_left [OF w] bit_referenceStep [OF w] bit_take_bit_iff) auto
  then have "feedBit c reg (of_bool b) = referenceStep ?w poly b reg" by (rule bit_word_eqI)
  then show ?thesis
    by (simp add: crcAbs_def crcInv_def MsbFirst res(3) bit_referenceStep [OF w])
next
  case Mirrored
  note res = Crc_new_result [OF new]
  let ?w = "unat width"
  have w: "0 < ?w" "?w \<le> 64" using res(1,2) by simp_all
  have P: "crc_registerPolynomial c = reverseBits (take_bit ?w poly) ?w"
    using build_fields(2) [of c] res(10) [OF Mirrored] res(3,12) by simp
  have small: "bit reg i \<Longrightarrow> i < ?w" for i
    using inv by (simp add: crcInv_def Mirrored res(3))
  have fed: "bit (feedBit c reg (of_bool b)) i \<longleftrightarrow>
      bit reg (Suc i) \<noteq> ((bit reg 0 \<noteq> b) \<and> i < ?w \<and> bit poly (?w - 1 - i))" for i
    unfolding feedBit_mirrored [OF Mirrored] bit_feed_right P bit_reverseBits [OF w(2)] bit_take_bit_iff
    using w(1) by auto
  have "bit (reverseBits (feedBit c reg (of_bool b)) ?w) i = bit (referenceStep ?w poly b (reverseBits reg ?w)) i" for i
    unfolding bit_reverseBits [OF w(2)] bit_referenceStep [OF w] fed
    using w small [of "Suc (?w - 1 - i)"] by (cases "i < ?w") (auto simp: Suc_diff_Suc)
  then show ?thesis
    using small w by (auto simp: crcAbs_def crcInv_def Mirrored res(3) fed intro: bit_word_eqI dest: small)
next
  case LeftAligned
  note res = Crc_new_result [OF new]
  let ?w = "unat width"
  have w: "0 < ?w" "?w \<le> 64" "?w < 8"
    using res(1,2,8) LeftAligned by (simp_all split: if_splits)
  have ff: "bit (0xFF :: u64) i \<longleftrightarrow> i < 8" for i by (auto simp: word_bits)
  have P: "bit (crc_registerPolynomial c) i \<longleftrightarrow> 8 - ?w \<le> i \<and> i < 8 \<and> bit poly (i - (8 - ?w))" for i
    using build_fields(3) [of c] res(11) [OF LeftAligned] w
    by (simp add: res(3,12) bit_and_iff bit_push_bit_iff bit_take_bit_iff ff word_bits) auto
  have range: "bit reg i \<Longrightarrow> 8 - ?w \<le> i \<and> i < 8" for i
    using inv by (simp add: crcInv_def LeftAligned res(3))
  have eight: "0 < (8 :: nat)" "(8 :: nat) \<le> 64" by simp_all
  have fed: "bit (feedBit c reg (of_bool b)) i \<longleftrightarrow>
      i < 8 \<and> ((0 < i \<and> bit reg (i - 1)) \<noteq> ((bit reg 7 \<noteq> b) \<and> 8 - ?w \<le> i \<and> bit poly (i - (8 - ?w))))" for i
    unfolding feedBit_aligned [OF LeftAligned] bit_feed_left [OF eight] P by auto
  have "bit (drop_bit (8 - ?w) (feedBit c reg (of_bool b))) i =
      bit (referenceStep ?w poly b (drop_bit (8 - ?w) reg)) i" for i
  proof -
    have "8 - ?w + (?w - 1) = 7" "8 - ?w + i < 8 \<longleftrightarrow> i < ?w" "8 - ?w + i - (8 - ?w) = i"
      "0 < i \<Longrightarrow> 8 - ?w + i - 1 = 8 - ?w + (i - 1)" using w by auto
    moreover have "i = 0 \<Longrightarrow> \<not> bit reg (8 - ?w + i - 1)" using range [of "8 - ?w + i - 1"] w by auto
    ultimately show ?thesis
      unfolding bit_drop_bit_eq comp_def fed bit_referenceStep [OF w(1,2)]
      by (cases "i = 0") (auto simp: add.commute)
  qed
  moreover have "bit (feedBit c reg (of_bool b)) i \<Longrightarrow> 8 - ?w \<le> i \<and> i < 8" for i
    using range [of "i - 1"] unfolding fed by auto
  ultimately show ?thesis
    by (auto simp: crcAbs_def crcInv_def LeftAligned res(3) intro: bit_word_eqI)
qed

text \<open>Feeding bytes is feeding their bits.\<close>

lemma feedBytes_one:
  fixes width :: u8
  assumes new: "Crc_new width poly init xorOut refIn refOut = Inr c" and inv: "crcInv c reg"
  shows "feedBytes c reg [byte] = fold (\<lambda>b reg. feedBit c reg (of_bool b)) (byteBits refIn byte) reg"
proof (cases "crc_form c")
  case MsbFirst
  note res = Crc_new_result [OF new]
  let ?w = "unat width" and ?P = "crc_registerPolynomial c"
  have w: "8 \<le> ?w" "?w \<le> 64" "\<not> refIn"
    using res(2,8) MsbFirst by (auto split: if_splits)
  note fields = build_fields(1) [OF _ _ res(9) [OF MsbFirst]]
  have table: "crc_table c ! unat (x AND 0xFF) = (leftStep ?w ?P ^^ 8) (push_bit (?w - 8) (x AND 0xFF))" for x
    using fields w masked_index [of x] by (simp add: res(3,4))
  have small: "bit reg i \<Longrightarrow> i < ?w" for i
    using inv by (simp add: crcInv_def MsbFirst res(3))
  have feed: "feedBit c r (of_bool b) = leftStep ?w ?P (r XOR (if b then 2 ^ (?w - 1 - 0) else 0))" for r b
    using feedBit_left [OF MsbFirst, of r b] w by (simp add: res(3,4))
  have "fold (\<lambda>b reg. feedBit c reg (of_bool b)) (byteBits False byte) reg =
      (leftStep ?w ?P ^^ length (byteBits False byte))
        (reg XOR xor_where (\<lambda>k. byteBits False byte ! k) (\<lambda>k. 2 ^ (?w - 1 - k)) [0..<length (byteBits False byte)])"
    by (rule linear_register.feed_group [OF left_register [OF w(1,2)]]) (simp_all only: byteBits_nth(1) order_refl feed)
  then have "fold (\<lambda>b reg. feedBit c reg (of_bool b)) (byteBits refIn byte) reg =
      (leftStep ?w ?P ^^ 8) (reg XOR push_bit (?w - 8) (ucast byte))"
    using w(3) by (simp only: byteBits_nth(1) lane_sums(1) [OF w(1,2)])
  also have "\<dots> = (push_bit 8 reg AND mask ?w) XOR
      (leftStep ?w ?P ^^ 8) (push_bit (?w - 8) ((drop_bit (?w - 8) reg XOR ucast byte) AND 0xFF))"
    by (rule left_byte [OF w(1,2) small]) (auto simp: bit_ucast_iff dest: bit_imp_le_length)
  finally show ?thesis
    by (simp add: feedBytes_def MsbFirst res(3,4) table Let_def)
next
  case Mirrored
  note res = Crc_new_result [OF new]
  let ?w = "unat width" and ?P = "crc_registerPolynomial c"
  have w: "8 \<le> ?w" "?w \<le> 64" "refIn"
    using res(2,8) Mirrored by (auto split: if_splits)
  note fields = build_fields(2) [OF res(10) [OF Mirrored]]
  have table: "crc_table c ! unat (x AND 0xFF) = (shiftRightStep ?P ^^ 8) (x AND 0xFF)" for x
  proof -
    have P: "bit ?P i \<Longrightarrow> i < ?w" for i using fields by (simp add: res(3) bit_reverseBits w)
    have "bit ((shiftRightStep ?P ^^ n) (x AND 0xFF)) i \<Longrightarrow> i < ?w" for n i
    proof (induction n arbitrary: i)
      case (Suc n)
      then show ?case using P by (auto simp: bit_shiftRightStep dest: Suc.IH)
    qed (use w in \<open>auto simp: bit_and_iff word_bits\<close>)
    then have "(shiftRightStep ?P ^^ 8) (x AND 0xFF) AND mask ?w = (shiftRightStep ?P ^^ 8) (x AND 0xFF)"
      by (intro bit_word_eqI) (auto simp: bit_and_iff bit_mask_iff)
    then show ?thesis using fields masked_index [of x] by (simp add: res(3,4))
  qed
  have "fold (\<lambda>b reg. feedBit c reg (of_bool b)) (byteBits refIn byte) reg =
      (shiftRightStep ?P ^^ 8) (reg XOR ucast byte)"
    using mirrored.feed_group [of "byteBits refIn byte"
        "\<lambda>b reg. feedBit c reg (of_bool b)" ?P reg] feedBit_mirrored [OF Mirrored] w(3)
    by (simp add: byteBits_nth(1) lane_sums(3))
  also have "\<dots> = (shiftRightStep ?P ^^ 8) ((reg XOR ucast byte) AND 0xFF) XOR drop_bit 8 reg"
    by (rule right_byte) (auto simp: bit_ucast_iff dest: bit_imp_le_length)
  finally show ?thesis
    by (simp add: feedBytes_def Mirrored table)
next
  case LeftAligned
  note res = Crc_new_result [OF new]
  let ?w = "unat width" and ?P = "crc_registerPolynomial c"
  note fields = build_fields(3) [OF res(11) [OF LeftAligned]]
  have table: "crc_table c ! unat (x AND 0xFF) = (leftStep 8 ?P ^^ 8) (x AND 0xFF)" for x
    using fields masked_index [of x] by simp
  have small: "bit reg i \<Longrightarrow> i < 8" for i
    using inv by (simp add: crcInv_def LeftAligned)
  have m: "(reg XOR x) AND 0xFF = reg XOR x" if "\<And>i. bit x i \<Longrightarrow> i < 8" for x
    by (rule bit_word_eqI) (auto simp: bit_and_iff bit_xor_iff word_bits dest: small that)
  have masked: "(reg XOR ucast byte) AND 0xFF = reg XOR ucast byte"
    "(reg XOR reverseByte byte) AND 0xFF = reg XOR reverseByte byte"
    by (rule m, auto simp: bit_ucast_iff bit_reverseByte dest: bit_imp_le_length)+
  have "fold (\<lambda>b reg. feedBit c reg (of_bool b)) (byteBits refIn byte) reg =
      (leftStep 8 ?P ^^ 8) (reg XOR (if refIn then reverseByte byte else ucast byte))"
    using aligned.feed_group [of "byteBits refIn byte"
        "\<lambda>b reg. feedBit c reg (of_bool b)" ?P reg] feedBit_aligned [OF LeftAligned] lane_sums(1) [of 8 byte]
      lane_sums(2) [of byte]
    by (cases refIn) (simp_all add: byteBits_nth(1))
  then show ?thesis
    using masked by (simp add: feedBytes_def LeftAligned table res(6))
qed

lemma feedBytes_Nil [simp]: "feedBytes c reg [] = reg"
  by (simp add: feedBytes_def split: TableForm.split)

lemma feedBytes_Cons: "feedBytes c reg (a # message) = feedBytes c (feedBytes c reg [a]) message"
  by (simp add: feedBytes_def Let_def split: TableForm.split)

abbreviation feedBits :: "Crc \<Rightarrow> bool list \<Rightarrow> u64 \<Rightarrow> u64" where
  "feedBits c \<equiv> fold (\<lambda>b reg. feedBit c reg (of_bool b))"

lemma feedBits_simulates:
  assumes "Crc_new width poly init xorOut refIn refOut = Inr c" "crcInv c reg"
  shows "crcInv c (feedBits c bits reg)"
    "crcAbs c (feedBits c bits reg) = fold (referenceStep (unat width) poly) bits (crcAbs c reg)"
  using assms(2)
proof (induction bits arbitrary: reg)
  case (Cons b bits)
  note sim = feedBit_simulates [OF assms(1)]
  case 1 with Cons.IH(1) sim show ?case by simp
  case 2 with Cons.IH(2) sim [of reg b] show ?case by simp
qed simp_all

lemma feedBytes_bits:
  assumes "Crc_new width poly init xorOut refIn refOut = Inr c" "crcInv c reg"
  shows "feedBytes c reg message = feedBits c (messageBits refIn message) reg"
  using assms(2)
proof (induction message arbitrary: reg)
  case (Cons byte message)
  have "feedBytes c reg (byte # message) = feedBytes c (feedBits c (byteBits refIn byte) reg) message"
    using feedBytes_Cons [of c reg byte message] feedBytes_one [OF assms(1) Cons.prems] by simp
  with Cons.IH [OF feedBits_simulates(1) [OF assms(1) Cons.prems]] show ?case
    by (simp add: messageBits_def)
qed (simp add: messageBits_def)

lemma crc_seed_simulates:
  assumes new: "Crc_new width poly init xorOut refIn refOut = Inr c"
  shows "crcInv c (crc_seed c) \<and> crcAbs c (crc_seed c) = take_bit (unat width) init"
proof -
  note res = Crc_new_result [OF new]
  let ?w = "unat width"
  have ff: "bit (0xFF :: u64) i \<longleftrightarrow> i < 8" for i by (auto simp: word_bits)
  show ?thesis
  proof (cases "crc_form c")
    case MsbFirst
    with build_fields(1) [OF _ _ res(9)] res(1,3,4,13) show ?thesis
      by (simp add: crcInv_def crcAbs_def bit_take_bit_iff)
  next
    case Mirrored
    have "reverseBits (reverseBits (take_bit ?w init) ?w) ?w = take_bit ?w init"
      using res(1,2) by (intro bit_word_eqI) (auto simp: bit_reverseBits bit_take_bit_iff)
    with Mirrored build_fields(2) [OF res(10)] res(2,3,13) show ?thesis
      by (simp add: crcInv_def crcAbs_def bit_reverseBits)
  next
    case LeftAligned
    then have w: "?w < 8" using res(8) by (simp split: if_splits)
    have seed: "crc_seed c = push_bit (8 - ?w) (take_bit ?w init) AND 0xFF"
      using LeftAligned build_fields(3) [OF res(11)] res(3,13) by simp
    have bits: "bit (crc_seed c) i \<longleftrightarrow> 8 - ?w \<le> i \<and> i < 8 \<and> bit init (i - (8 - ?w))" for i
      unfolding seed bit_and_iff ff bit_push_bit_iff bit_take_bit_iff using w by auto
    have "drop_bit (8 - ?w) (crc_seed c) = take_bit ?w init"
      by (rule bit_word_eqI) (use w in \<open>auto simp: bits bit_drop_bit_eq bit_take_bit_iff\<close>)
    with LeftAligned bits show ?thesis by (simp add: crcInv_def crcAbs_def res(3))
  qed
qed

lemma crc_finish_simulates:
  assumes new: "Crc_new width poly init xorOut refIn refOut = Inr c" and inv: "crcInv c reg"
  shows "crcFinish c reg =
    (if refOut then reverseBits (crcAbs c reg) (unat width) else crcAbs c reg) XOR take_bit (unat width) xorOut"
proof -
  note res = Crc_new_result [OF new]
  let ?w = "unat width"
  have masked: "(x XOR take_bit ?w xorOut) AND mask ?w = x XOR take_bit ?w xorOut"
    if "\<And>i. bit x i \<Longrightarrow> i < ?w" for x
    by (rule bit_word_eqI) (auto simp: bit_and_iff bit_xor_iff bit_mask_iff bit_take_bit_iff dest: that)
  have rev: "bit (reverseBits x ?w) i \<Longrightarrow> i < ?w" for x i
    using res(2) by (simp add: bit_reverseBits)
  have twice: "reverseBits (reverseBits x ?w) ?w = x" if "\<And>i. bit x i \<Longrightarrow> i < ?w" for x
  proof (rule bit_word_eqI)
    fix i
    show "bit (reverseBits (reverseBits x ?w) ?w) i = bit x i"
      using res(1,2) that [of i] by (cases "i < ?w") (auto simp: bit_reverseBits Suc_diff_Suc)
  qed
  have small: "bit (crcAbs c reg) i \<Longrightarrow> i < ?w" for i
    using inv res(1) by (cases "crc_form c")
      (auto simp: crcAbs_def crcInv_def res(3) bit_drop_bit_eq dest: rev)
  let ?out = "if refOut then reverseBits (crcAbs c reg) ?w else crcAbs c reg"
  have "crcFinish c reg = (?out XOR take_bit ?w xorOut) AND mask ?w"
  proof (cases "crc_form c")
    case Mirrored
    then have "refIn" using res(8) by (simp split: if_splits)
    moreover have "bit reg i \<Longrightarrow> i < ?w" for i using inv by (simp add: crcInv_def Mirrored res(3))
    ultimately show ?thesis
      by (simp add: crcFinish_def crcAbs_def Mirrored res(3-7) twice)
  qed (simp_all add: crcFinish_def crcAbs_def Let_def res(3-7))
  also have "\<dots> = ?out XOR take_bit ?w xorOut"
    by (rule masked) (auto dest: rev small split: if_splits)
  finally show ?thesis .
qed

subsection \<open>The theorems\<close>

theorem crc_construction:
  "case Crc_new width poly init xorOut refIn refOut of
     Inl err \<Rightarrow> err = WidthOutOfRange width \<and> (unat width < 3 \<or> 64 < unat width)
   | Inr c \<Rightarrow> 3 \<le> unat width \<and> unat width \<le> 64 \<and> crc_mask c = mask (unat width) \<and>
       crc_form c = (if unat width < 8 then LeftAligned else if refIn then Mirrored else MsbFirst) \<and>
       length (crc_table c) = 256"
proof (cases "Crc_new width poly init xorOut refIn refOut")
  case (Inl err)
  then show ?thesis
    by (auto simp: Crc_new_def Let_def word_less_nat_alt split: if_splits)
next
  case (Inr c)
  note res = Crc_new_result [OF Inr]
  have "length (crc_table (buildMsbFirst c)) = 256" "length (crc_table (buildMirrored c)) = 256"
    "length (crc_table (buildLeftAligned c)) = 256"
    by (simp_all add: buildMsbFirst_def buildMirrored_def buildLeftAligned_def Let_def)
  then have "length (crc_table c) = 256"
    using res(9,10,11) by (cases "crc_form c") metis+
  with Inr res(1,2,4,8) show ?thesis by simp
qed

lemma crc_compute_reference:
  assumes new: "Crc_new width poly init xorOut refIn refOut = Inr c"
  shows "crcFinish c (feedBits c bits (crc_seed c)) = referenceCrc (unat width) poly init xorOut refOut bits"
proof -
  have seed: "crcInv c (crc_seed c)" "crcAbs c (crc_seed c) = take_bit (unat width) init"
    using crc_seed_simulates [OF new] by simp_all
  show ?thesis
    unfolding crc_finish_simulates [OF new feedBits_simulates(1) [OF new seed(1)]]
      feedBits_simulates(2) [OF new seed(1)] seed(2)
    by (simp add: referenceCrc_def Let_def)
qed

lemma take_messageBits:
  assumes "n \<le> 8 * length message"
  shows "take n (messageBits refIn message) = messageBits refIn (take (n div 8) message) @
    take (n mod 8) (byteBits refIn (message ! (n div 8)))"
  using assms
proof (induction message arbitrary: n)
  case (Cons byte message)
  show ?case
  proof (cases "n < 8")
    case True
    then show ?thesis by (simp add: messageBits_def byteBits_nth(1))
  next
    case False
    then obtain m where m: "n = 8 + m" by (metis le_add_diff_inverse not_less)
    have "take m (messageBits refIn message) = messageBits refIn (take (m div 8) message) @
        take (m mod 8) (byteBits refIn (message ! (m div 8)))"
      using Cons m by simp
    moreover have "(8 + m) div 8 = Suc (m div 8)" by simp
    ultimately show ?thesis
      by (simp add: m messageBits_def byteBits_nth(1))
  qed
qed (simp add: messageBits_def)

lemma bytes_needed:
  "r < 8 \<Longrightarrow> N = 8 * q + r \<Longrightarrow> L < q + (if r \<noteq> 0 then 1 else 0) \<longleftrightarrow> \<not> N \<le> 8 * L" for N :: nat
  by (cases "r = 0") auto

lemma extra_bits_loop:
  assumes "n \<le> 8" "crc_inputReflected c = refIn"
  shows "fold (\<lambda>k reg. let position = (if crc_inputReflected c then k else 7 - k)
      in feedBit c reg (drop_bit position (ucast partial) AND 1)) [0..<n] reg =
    feedBits c (take n (byteBits refIn partial)) reg"
proof -
  have "drop_bit p (ucast partial :: u64) AND 1 = of_bool (bit partial p)" for p
    by (rule bit_word_eqI) (auto simp: bit_and_iff bit_drop_bit_eq bit_1_iff bit_ucast_iff intro!: gr0I dest: bit_imp_le_length)
  moreover have "take n (byteBits refIn partial) = map (\<lambda>k. bit partial (if refIn then k else 7 - k)) [0..<n]"
    by (rule nth_equalityI) (use assms(1) in \<open>simp_all add: byteBits_nth\<close>)
  ultimately show ?thesis by (simp add: fold_map comp_def assms(2))
qed

text \<open>C7. Whatever table form the parameters select, compute and computeBits return what the bit-serial
  register of the Rocksoft model returns, and computeBits refuses exactly the counts beyond the
  message.\<close>

theorem crc_equals_reference:
  assumes "Crc_new width poly init xorOut refIn refOut = Inr c"
  shows "crcCompute c message =
      referenceCrc (unat width) poly init xorOut refOut (messageBits refIn message) \<and>
    crcComputeBits c message n =
      (if unat n \<le> 8 * length message
       then Inr (referenceCrc (unat width) poly init xorOut refOut (take (unat n) (messageBits refIn message)))
       else Inl (BitCountExceedsMessage n (length message)))"
proof
  have seed: "crcInv c (crc_seed c)" using crc_seed_simulates [OF assms] by simp
  note bytes = feedBytes_bits [OF assms seed]
  show "crcCompute c message = referenceCrc (unat width) poly init xorOut refOut (messageBits refIn message)"
    by (simp add: crcCompute_def bytes crc_compute_reference [OF assms])
  let ?q = "unat n div 8" and ?r = "unat n mod 8"
  have n: "unat n < 2 ^ 64" using unsigned_less [of n] by simp
  have div_mod: "unat (n div 8) = ?q" "unat (n mod 8) = ?r" "n mod 8 = 0 \<longleftrightarrow> ?r = 0"
    by (simp_all add: unat_div unat_mod word_unat_eq_iff)
  have "?q + 1 < 2 ^ 64" using n by simp
  then have needed: "unat (n div 8 + (if n mod 8 \<noteq> 0 then 1 else 0)) = ?q + (if ?r \<noteq> 0 then 1 else 0)"
    using div_mod by (simp add: unat_word_ariths)
  have fits: "?q + (if ?r \<noteq> 0 then 1 else 0) > length message \<longleftrightarrow> \<not> unat n \<le> 8 * length message"
    by (rule bytes_needed) simp_all
  have whole: "feedBytes c (crc_seed c) (take ?q message) = feedBits c (messageBits refIn (take ?q message)) (crc_seed c)"
    by (rule bytes)
  have loop: "fold (\<lambda>k reg. let position = (if crc_inputReflected c then k else 7 - k)
      in feedBit c reg (drop_bit position (ucast (message ! ?q)) AND 1)) [0..<?r] reg =
    feedBits c (take ?r (byteBits refIn (message ! ?q))) reg" for reg
    by (rule extra_bits_loop) (simp_all add: Crc_new_result(6) [OF assms] less_imp_le)
  show "crcComputeBits c message n =
      (if unat n \<le> 8 * length message
       then Inr (referenceCrc (unat width) poly init xorOut refOut (take (unat n) (messageBits refIn message)))
       else Inl (BitCountExceedsMessage n (length message)))"
  proof (cases "unat n \<le> 8 * length message")
    case True
    then show ?thesis
      unfolding crcComputeBits_def Let_def [of "n div 8"] Let_def [of "n mod 8"] needed fits div_mod(1,2)
      unfolding Let_def [of "message ! ?q"] whole loop
      using crc_compute_reference [OF assms, of "take (unat n) (messageBits refIn message)"]
      by (simp add: take_messageBits)
  next
    case False
    then show ?thesis
      unfolding crcComputeBits_def Let_def [of "n div 8"] Let_def [of "n mod 8"] needed fits
      by (simp only: if_True simp_thms if_False)
  qed
qed

lemma crc_equals_reference_witness:
  "\<exists>c. Crc_new 16 0x1021 0xFFFF 0 False False = Inr c \<and>
    crcCompute c [0x31, 0x32, 0x33, 0x34, 0x35, 0x36, 0x37, 0x38, 0x39] = 0x29B1"
proof -
  obtain c where c: "Crc_new 16 0x1021 0xFFFF 0 False False = Inr c"
    by (simp add: Crc_new_def)
  have "rev [0..<8] = [7, 6, 5, 4, 3, 2, 1, 0]" by (simp add: upt_rec)
  then have "referenceCrc 16 0x1021 0xFFFF 0 False
      (messageBits False [0x31, 0x32, 0x33, 0x34, 0x35, 0x36, 0x37, 0x38, 0x39]) = 0x29B1"
    unfolding messageBits_def byteBits_def referenceCrc_def
    by (simp add: referenceStep_def)
  with c crc_equals_reference [OF c] show ?thesis by simp
qed

end
