(* ===== verification/BitStream.thy ===== *)
theory BitStream
  imports Prelude
begin

section \<open>Bit streams and the items that carry them\<close>

text \<open>
  The item of \<^verbatim>\<open>math/BitPacking.hpp\<close>, which the scramblers, framers and header formats share: a word
  whose low \<open>w\<close> bits are significant and whose stream order is one of the two members of \<open>BitOrder\<close>.
  \<open>fieldStream\<close> is the bit sequence a list of items stands for, \<open>itemBits\<close> the sequence of one item,
  \<open>packItem\<close> its inverse, and \<open>bitsField\<close> the number whose most significant bit comes first.
\<close>

datatype BitOrder = MsbFirst | LsbFirst

text \<open>The position in a \<open>w\<close>-bit field of its \<open>k\<close>-th bit in stream order.\<close>

definition fieldPosition :: "BitOrder \<Rightarrow> nat \<Rightarrow> nat \<Rightarrow> nat" where
  "fieldPosition order w k = (if order = MsbFirst then w - 1 - k else k)"

definition fieldStream :: "BitOrder \<Rightarrow> nat \<Rightarrow> u8 list \<Rightarrow> bool list" where
  "fieldStream order w items = concat (map (\<lambda>item. map (\<lambda>k. bit item (fieldPosition order w k)) [0..<w]) items)"

lemma length_fieldStream [simp]: "length (fieldStream order w items) = length items * w"
  by (induction items) (simp_all add: fieldStream_def)

lemma fieldStream_nth:
  "b < length items * w \<Longrightarrow> fieldStream order w items ! b = bit (items ! (b div w)) (fieldPosition order w (b mod w))"
proof (induction items arbitrary: b)
  case (Cons item items)
  have step: "fieldStream order w (item # items) =
      map (\<lambda>k. bit item (fieldPosition order w k)) [0..<w] @ fieldStream order w items"
    by (simp add: fieldStream_def)
  show ?case
  proof (cases "b < w")
    case True
    then show ?thesis by (simp add: step nth_append)
  next
    case False
    then have w: "0 < w" "w \<le> b" using Cons.prems by (auto intro: gr0I)
    then have "b div w = Suc ((b - w) div w)" "b mod w = (b - w) mod w"
      by (simp_all add: le_div_geq le_mod_geq)
    with Cons.IH [of "b - w"] Cons.prems w show ?thesis by (simp add: step nth_append)
  qed
qed simp

lemma fieldPosition_less: "k < w \<Longrightarrow> fieldPosition order w k < w"
  by (auto simp: fieldPosition_def)

lemma fieldPosition_inj: "j < w \<Longrightarrow> k < w \<Longrightarrow> fieldPosition order w j = fieldPosition order w k \<longleftrightarrow> j = k"
  by (auto simp: fieldPosition_def)

lemma fieldPosition_onto: "s < w \<Longrightarrow> \<exists>k<w. fieldPosition order w k = s"
  by (cases order; rule exI [of _ "if order = MsbFirst then w - 1 - s else s"]) (auto simp: fieldPosition_def)

text \<open>One item, and the number a bit sequence spells, first bit most significant.\<close>

definition itemBits :: "BitOrder \<Rightarrow> nat \<Rightarrow> 'a::len word \<Rightarrow> bool list" where
  "itemBits order w item = map (\<lambda>k. bit item (fieldPosition order w k)) [0..<w]"

definition bitsField :: "bool list \<Rightarrow> 'a::len word" where
  "bitsField bs = horner_sum of_bool 2 (rev bs)"

definition packItem :: "BitOrder \<Rightarrow> bool list \<Rightarrow> 'a::len word" where
  "packItem order bs = bitsField (if order = MsbFirst then bs else rev bs)"

lemma length_itemBits [simp]: "length (itemBits order w item) = w"
  by (simp add: itemBits_def)

lemma itemBits_nth [simp]: "k < w \<Longrightarrow> itemBits order w item ! k = bit item (fieldPosition order w k)"
  by (simp add: itemBits_def)

lemma bit_bitsField [word_bits]:
  "bit (bitsField bs :: 'a::len word) n \<longleftrightarrow> n < LENGTH('a) \<and> n < length bs \<and> bs ! (length bs - 1 - n)"
  by (auto simp: bitsField_def bit_horner_sum_bit_word_iff rev_nth)

lemma bitsField_Nil [simp]: "bitsField [] = 0"
  by (simp add: bitsField_def)

lemma bitsField_append:
  "bitsField (as @ bs) = push_bit (length bs) (bitsField as) OR (bitsField bs :: 'a::len word)"
  by (rule bit_word_eqI) (auto simp: bit_or_iff bit_push_bit_iff bit_bitsField nth_append)

lemma bitsField_single [simp]: "bitsField [b] = of_bool b"
  by (simp add: bitsField_def)

lemma bitsField_snoc: "bitsField (bs @ [b]) = push_bit 1 (bitsField bs) OR of_bool b"
  by (simp add: bitsField_append del: push_bit_of_1)

lemma bit_packItem [word_bits]:
  "length bs \<le> LENGTH('a) \<Longrightarrow> k < length bs \<Longrightarrow> bit (packItem order bs :: 'a::len word) (fieldPosition order (length bs) k) = bs ! k"
  by (auto simp: packItem_def bit_bitsField fieldPosition_def rev_nth)

lemma bit_packItem_nth [simp]:
  "length bs = w \<Longrightarrow> w \<le> LENGTH('a) \<Longrightarrow> k < w \<Longrightarrow> bit (packItem order bs :: 'a::len word) (fieldPosition order w k) = bs ! k"
  by (auto simp: bit_packItem)

lemma itemBits_packItem [simp]:
  "length bs = w \<Longrightarrow> w \<le> LENGTH('a) \<Longrightarrow> itemBits order w (packItem order bs :: 'a::len word) = bs"
  by (rule nth_equalityI) (auto simp: bit_packItem)

lemma bit_packItem_above: "bit (packItem order bs :: 'a::len word) n \<Longrightarrow> n < length bs"
  by (auto simp: packItem_def bit_bitsField split: if_splits)

lemma packItem_itemBits: "packItem order (itemBits order w item) = take_bit w (item :: 'a::len word)"
  by (rule bit_word_eqI)
    (auto simp: packItem_def bit_bitsField bit_take_bit_iff fieldPosition_def rev_nth itemBits_def dest: bit_imp_le_length)

lemma itemBits_take_bit [simp]: "itemBits order w (take_bit w item) = itemBits order w (item :: 'a::len word)"
  by (rule nth_equalityI) (auto simp: bit_take_bit_iff fieldPosition_less)

lemma fieldStream_itemBits: "fieldStream order w items = concat (map (itemBits order w) items)"
  by (simp add: fieldStream_def itemBits_def [abs_def])

lemma itemBits_MsbFirst_ucast:
  "w \<le> LENGTH('a) \<Longrightarrow> bitsField (itemBits MsbFirst w item) = (take_bit w item :: 'a::len word)"
  using packItem_itemBits [of MsbFirst w item] by (simp add: packItem_def)

end
