(* ===== verification/BitPacking.thy ===== *)
theory BitPacking
  imports BitStream
begin

section \<open>Repacking bit fields\<close>

text \<open>
  \<^verbatim>\<open>math/BitPacking.hpp\<close>: a stream of \<open>bitsIn\<close>-bit fields rewritten as a stream of \<open>bitsOut\<close>-bit
  fields.  \<open>fieldStream\<close> is the bit sequence a port's items stand for; the theorems say that the
  conversion leaves that sequence alone, through the shift table of \<open>repackGeneral\<close> and through the
  two multiplications that stand in for it at the widths 1 and 8, and that the offset a tag is moved
  to is the floor of the exact quotient.  An output span is a list that is returned updated.
\<close>

subsection \<open>The routines\<close>

definition kMaxRepackPeriod :: nat where
  "kMaxRepackPeriod = 56"

record BitMove =
  sourceItem :: nat
  sourceShift :: nat
  destinationItem :: nat
  destinationShift :: nat

definition bitMoves :: "nat \<Rightarrow> nat \<Rightarrow> BitOrder \<Rightarrow> BitOrder \<Rightarrow> BitMove list" where
  "bitMoves bitsIn bitsOut orderIn orderOut =
     (let period = bitsIn * bitsOut div gcd bitsIn bitsOut
      in fold (\<lambda>b moves.
           let sourcePosition = b mod bitsIn; destinationPosition = b mod bitsOut
           in moves[b := \<lparr>sourceItem = b div bitsIn,
                sourceShift = (if orderIn = MsbFirst then bitsIn - 1 - sourcePosition else sourcePosition),
                destinationItem = b div bitsOut,
                destinationShift = (if orderOut = MsbFirst then bitsOut - 1 - destinationPosition
                                    else destinationPosition)\<rparr>])
           [0..<period]
           (replicate kMaxRepackPeriod
             \<lparr>sourceItem = 0, sourceShift = 0, destinationItem = 0, destinationShift = 0\<rparr>))"

record BitRepack =
  bitsIn :: nat
  bitsOut :: nat
  orderIn :: BitOrder
  orderOut :: BitOrder
  inChunk :: nat
  outChunk :: nat
  period :: nat
  moves :: "BitMove list"

text \<open>The default-constructed instance.\<close>

definition defaultRepack :: BitRepack where
  "defaultRepack =
     \<lparr>bitsIn = 1, bitsOut = 8, orderIn = MsbFirst, orderOut = MsbFirst, inChunk = 8, outChunk = 1, period = 8,
      moves = bitMoves 1 8 MsbFirst MsbFirst\<rparr>"

datatype RepackError = BitsInOutOfRange nat | BitsOutOutOfRange nat

definition configureRepack :: "BitRepack \<Rightarrow> nat \<Rightarrow> nat \<Rightarrow> BitOrder \<Rightarrow> BitOrder \<Rightarrow> RepackError + BitRepack" where
  "configureRepack cfg bi bo oi oo =
     (if bi < 1 \<or> bi > 8 then Inl (BitsInOutOfRange bi)
      else if bo < 1 \<or> bo > 8 then Inl (BitsOutOutOfRange bo)
      else
        let common = gcd bi bo
        in Inr (cfg\<lparr>bitsIn := bi, bitsOut := bo, orderIn := oi, orderOut := oo,
             inChunk := bo div common, outChunk := bi div common, period := bi * bo div common,
             moves := bitMoves bi bo oi oo\<rparr>))"

definition kBitSpread :: u64 where
  "kBitSpread = 0x8040201008040201"

definition kItemLowBits :: u64 where
  "kItemLowBits = 0x0101010101010101"

text \<open>Eight items as one word, item 0 in the low byte, and back; \<^verbatim>\<open>std::byteswap\<close> of such a word.\<close>

definition loadItemWord :: "u8 list \<Rightarrow> nat \<Rightarrow> u64" where
  "loadItemWord items at = fold (\<lambda>k word. word OR push_bit (8 * k) (ucast (items ! (at + k)))) [0..<8] 0"

definition storeItemWord :: "u8 list \<Rightarrow> nat \<Rightarrow> u64 \<Rightarrow> u8 list" where
  "storeItemWord items at word = fold (\<lambda>k items. items[at + k := ucast (drop_bit (8 * k) word)]) [0..<8] items"

definition byteswap :: "u64 \<Rightarrow> u64" where
  "byteswap word = fold (\<lambda>k w. w OR push_bit (8 * (7 - k)) (drop_bit (8 * k) word AND 0xFF)) [0..<8] 0"

definition packEightBits :: "u8 list \<Rightarrow> u8 list \<Rightarrow> BitOrder \<Rightarrow> u8 list" where
  "packEightBits src out order =
     (let count = min (length src div 8) (length out)
      in if order = MsbFirst
         then fold (\<lambda>i out.
                let word = loadItemWord src (8 * i) AND kItemLowBits
                in out[i := ucast (drop_bit 56 (word * kBitSpread))]) [0..<count] out
         else fold (\<lambda>i out.
                let word = byteswap (loadItemWord src (8 * i) AND kItemLowBits)
                in out[i := ucast (drop_bit 56 (word * kBitSpread))]) [0..<count] out)"

definition unpackEightBits :: "u8 list \<Rightarrow> u8 list \<Rightarrow> BitOrder \<Rightarrow> u8 list" where
  "unpackEightBits src out order =
     (let count = min (length src) (length out div 8)
      in if order = MsbFirst
         then fold (\<lambda>i out. storeItemWord out (8 * i)
                (drop_bit 7 (ucast (src ! i) * kBitSpread) AND kItemLowBits)) [0..<count] out
         else fold (\<lambda>i out. storeItemWord out (8 * i)
                (byteswap (drop_bit 7 (ucast (src ! i) * kBitSpread) AND kItemLowBits))) [0..<count] out)"

text \<open>One move of the table, from the source at \<open>from\<close> to the destination at \<open>to\<close>.\<close>

definition applyMove :: "u8 list \<Rightarrow> nat \<Rightarrow> nat \<Rightarrow> BitMove \<Rightarrow> u8 list \<Rightarrow> u8 list" where
  "applyMove src source destination move out =
     out[destination + destinationItem move :=
       out ! (destination + destinationItem move) OR
       push_bit (destinationShift move) (drop_bit (sourceShift move) (src ! (source + sourceItem move)) AND 1)]"

definition repackGeneral :: "BitRepack \<Rightarrow> u8 list \<Rightarrow> u8 list \<Rightarrow> u8 list" where
  "repackGeneral cfg src out =
     (let periods = min (length src div inChunk cfg) (length out div outChunk cfg)
      in fold (\<lambda>p out.
           let source = p * inChunk cfg; destination = p * outChunk cfg;
               out = fold (\<lambda>j out. out[destination + j := 0]) [0..<outChunk cfg] out
           in fold (\<lambda>b out. applyMove src source destination (moves cfg ! b) out) [0..<period cfg] out)
           [0..<periods] out)"

definition repack :: "BitRepack \<Rightarrow> u8 list \<Rightarrow> u8 list \<Rightarrow> u8 list" where
  "repack cfg src out =
     (if bitsIn cfg = 1 \<and> bitsOut cfg = 8 then packEightBits src out (orderOut cfg)
      else if bitsIn cfg = 8 \<and> bitsOut cfg = 1 then unpackEightBits src out (orderIn cfg)
      else repackGeneral cfg src out)"

text \<open>The trailing input: the items written and the updated output.\<close>

definition repackTail :: "BitRepack \<Rightarrow> u8 list \<Rightarrow> u8 list \<Rightarrow> bool \<Rightarrow> nat \<times> u8 list" where
  "repackTail cfg src out pad =
     (let bits = length src * bitsIn cfg;
          remainder = bits mod bitsOut cfg;
          written = min (bits div bitsOut cfg + (if pad \<and> remainder \<noteq> 0 then 1 else 0)) (length out);
          out = fold (\<lambda>j out. out[j := 0]) [0..<written] out;
          usable = min bits (min (written * bitsOut cfg) (period cfg))
      in (written, fold (\<lambda>b out. applyMove src 0 0 (moves cfg ! b) out) [0..<usable] out))"

definition mapRepackedOffset :: "u64 \<Rightarrow> u64 \<Rightarrow> u64 \<Rightarrow> u64" where
  "mapRepackedOffset offset bi bo =
     (let whole = offset div bo; remainder = offset mod bo
      in whole * bi + (remainder * bi) div bo)"

subsection \<open>What a conversion promises\<close>

text \<open>
  What a conversion has to establish, bit by bit: the \<open>b\<close>-th bit of the output is the \<open>b\<close>-th bit of
  the input, and no bit of an output item lies above its field.
\<close>

definition bitsCarried :: "BitRepack \<Rightarrow> nat \<Rightarrow> u8 list \<Rightarrow> u8 list \<Rightarrow> bool" where
  "bitsCarried cfg n src out \<longleftrightarrow>
     (\<forall>b<n. bit (out ! (b div bitsOut cfg)) (fieldPosition (orderOut cfg) (bitsOut cfg) (b mod bitsOut cfg)) =
            bit (src ! (b div bitsIn cfg)) (fieldPosition (orderIn cfg) (bitsIn cfg) (b mod bitsIn cfg)))"

subsection \<open>The shift table\<close>

lemma period_bound:
  fixes bi bo :: nat
  assumes "1 \<le> bi" "bi \<le> 8" "1 \<le> bo" "bo \<le> 8"
  shows "bi * bo div gcd bi bo \<le> 56"
proof -
  have "list_all (\<lambda>a. list_all (\<lambda>b. a * b div gcd a b \<le> 56) [1..<9]) [1..<(9 :: nat)]" by code_simp
  then show ?thesis using assms by (simp only: list_all_iff) (simp only: set_upt, force)
qed

lemma configureRepack_result:
  assumes "configureRepack cfg0 bi bo oi oo = Inr cfg"
  shows "1 \<le> bi" "bi \<le> 8" "1 \<le> bo" "bo \<le> 8"
    "bitsIn cfg = bi" "bitsOut cfg = bo" "orderIn cfg = oi" "orderOut cfg = oo"
    "period cfg = inChunk cfg * bi" "period cfg = outChunk cfg * bo" "period cfg \<le> 56"
    "0 < inChunk cfg" "0 < outChunk cfg"
    "b < period cfg \<Longrightarrow> moves cfg ! b = \<lparr>sourceItem = b div bi, sourceShift = fieldPosition oi bi (b mod bi),
       destinationItem = b div bo, destinationShift = fieldPosition oo bo (b mod bo)\<rparr>"
proof -
  have ok: "1 \<le> bi" "bi \<le> 8" "1 \<le> bo" "bo \<le> 8"
    and cfg: "cfg = cfg0\<lparr>bitsIn := bi, bitsOut := bo, orderIn := oi, orderOut := oo,
      inChunk := bo div gcd bi bo, outChunk := bi div gcd bi bo, period := bi * bo div gcd bi bo,
      moves := bitMoves bi bo oi oo\<rparr>"
    using assms by (auto simp: configureRepack_def Let_def split: if_splits)
  show "1 \<le> bi" "bi \<le> 8" "1 \<le> bo" "bo \<le> 8" by (fact ok)+
  show "bitsIn cfg = bi" "bitsOut cfg = bo" "orderIn cfg = oi" "orderOut cfg = oo"
    by (simp_all add: cfg)
  show "period cfg = inChunk cfg * bi" "period cfg = outChunk cfg * bo"
    by (simp_all add: cfg div_mult_swap dvd_div_mult mult.commute)
  show P: "period cfg \<le> 56" using period_bound [OF ok] by (simp add: cfg)
  show "0 < inChunk cfg" "0 < outChunk cfg"
    using ok by (simp_all add: cfg div_greater_zero_iff gcd_le1_nat gcd_le2_nat)
  show "b < period cfg \<Longrightarrow> moves cfg ! b = \<lparr>sourceItem = b div bi, sourceShift = fieldPosition oi bi (b mod bi),
       destinationItem = b div bo, destinationShift = fieldPosition oo bo (b mod bo)\<rparr>"
    using P by (simp add: cfg bitMoves_def Let_def kMaxRepackPeriod_def fieldPosition_def fold_update_nth_0)
qed

text \<open>A run of moves sets exactly the destination bits whose source bit is set.\<close>

lemma length_applyMove [simp]: "length (applyMove src source destination m out) = length out"
  by (simp add: applyMove_def)

lemma length_applyMoves [simp]:
  "length (fold (\<lambda>b. applyMove src source destination (ms ! b)) bs out) = length out"
  by (induction bs arbitrary: out) simp_all

lemma bit_applyMove:
  assumes "destination + destinationItem m < length out" "s < 8"
  shows "bit (applyMove src source destination m out ! i) s \<longleftrightarrow>
    bit (out ! i) s \<or> (destination + destinationItem m = i \<and> destinationShift m = s \<and>
      bit (src ! (source + sourceItem m)) (sourceShift m))"
proof (cases "destination + destinationItem m = i")
  case True
  have "bit (push_bit d (x AND 1) :: u8) s \<longleftrightarrow> d = s \<and> bit x 0" for d and x :: u8
    using assms(2) by (auto simp: bit_push_bit_iff bit_and_iff bit_1_iff)
  with True assms(1) show ?thesis
    by (auto simp: applyMove_def bit_or_iff bit_drop_bit_eq)
qed (simp add: applyMove_def)

lemma bit_applyMoves:
  assumes "\<And>b. b \<in> set bs \<Longrightarrow> destination + destinationItem (ms ! b) < length out" "s < 8"
  shows "bit (fold (\<lambda>b. applyMove src source destination (ms ! b)) bs out ! i) s \<longleftrightarrow>
    bit (out ! i) s \<or> (\<exists>b\<in>set bs. destination + destinationItem (ms ! b) = i \<and> destinationShift (ms ! b) = s \<and>
      bit (src ! (source + sourceItem (ms ! b))) (sourceShift (ms ! b)))"
  using assms(1)
proof (induction bs arbitrary: out)
  case (Cons b bs)
  then show ?case by (auto simp add: bit_applyMove [OF _ assms(2)])
qed simp

text \<open>
  So in a cleared destination the bits of the first \<open>n\<close> moves land where the output's order puts
  them, and nothing else is set.
\<close>

lemma moved_bits:
  assumes cfg: "configureRepack cfg0 bi bo oi oo = Inr cfg" and n: "n \<le> period cfg"
    and room: "n \<le> w * bo" "destination + w \<le> length out"
    and clear: "\<And>j. j < w \<Longrightarrow> out ! (destination + j) = 0" and j: "j < w" "s < 8"
  shows "bit (fold (\<lambda>b. applyMove src source destination (moves cfg ! b)) [0..<n] out ! (destination + j)) s \<longleftrightarrow>
    (\<exists>k<bo. fieldPosition oo bo k = s \<and> j * bo + k < n \<and>
      bit (src ! (source + (j * bo + k) div bi)) (fieldPosition oi bi ((j * bo + k) mod bi)))"
proof -
  note res = configureRepack_result [OF cfg]
  have items: "destination + destinationItem (moves cfg ! b) < length out" if "b \<in> set [0..<n]" for b
  proof -
    have "b < w * bo" using that room(1) by simp
    then have "b div bo < w" by (simp add: less_mult_imp_div_less)
    then show ?thesis using that n room(2) by (simp add: res(14))
  qed
  have "bit (fold (\<lambda>b. applyMove src source destination (moves cfg ! b)) [0..<n] out ! (destination + j)) s \<longleftrightarrow>
      (\<exists>b\<in>set [0..<n]. destination + destinationItem (moves cfg ! b) = destination + j \<and>
        destinationShift (moves cfg ! b) = s \<and>
        bit (src ! (source + sourceItem (moves cfg ! b))) (sourceShift (moves cfg ! b)))"
    by (subst bit_applyMoves [OF items j(2)]) (simp_all add: clear [OF j(1)])
  also have "\<dots> \<longleftrightarrow> (\<exists>b<n. b div bo = j \<and> fieldPosition oo bo (b mod bo) = s \<and>
      bit (src ! (source + b div bi)) (fieldPosition oi bi (b mod bi)))"
    using n by (auto simp: res(14) Bex_def)
  also have "\<dots> \<longleftrightarrow> (\<exists>k<bo. fieldPosition oo bo k = s \<and> j * bo + k < n \<and>
      bit (src ! (source + (j * bo + k) div bi)) (fieldPosition oi bi ((j * bo + k) mod bi)))"
  proof
    assume "\<exists>b<n. b div bo = j \<and> fieldPosition oo bo (b mod bo) = s \<and>
      bit (src ! (source + b div bi)) (fieldPosition oi bi (b mod bi))"
    then obtain b where b: "b < n" "b div bo = j" "fieldPosition oo bo (b mod bo) = s"
      "bit (src ! (source + b div bi)) (fieldPosition oi bi (b mod bi))" by blast
    moreover have "j * bo + b mod bo = b" "b mod bo < bo" using b(2) res(3) by auto
    ultimately show "\<exists>k<bo. fieldPosition oo bo k = s \<and> j * bo + k < n \<and>
      bit (src ! (source + (j * bo + k) div bi)) (fieldPosition oi bi ((j * bo + k) mod bi))"
      by (intro exI [of _ "b mod bo"]) simp
  qed auto
  finally show ?thesis .
qed

subsection \<open>Whole periods\<close>

text \<open>The conversion item by item: what item \<open>i\<close> of the output has to hold.\<close>

definition repackedItem :: "BitRepack \<Rightarrow> u8 list \<Rightarrow> nat \<Rightarrow> nat \<Rightarrow> bool" where
  "repackedItem cfg src i s \<longleftrightarrow>
     (\<exists>k<bitsOut cfg. fieldPosition (orderOut cfg) (bitsOut cfg) k = s \<and>
        (let b = i * bitsOut cfg + k
         in bit (src ! (b div bitsIn cfg)) (fieldPosition (orderIn cfg) (bitsIn cfg) (b mod bitsIn cfg))))"

lemma repackGeneral_items:
  assumes cfg: "configureRepack cfg0 bi bo oi oo = Inr cfg"
    and "length src = n * inChunk cfg" "length out = n * outChunk cfg"
  shows "length (repackGeneral cfg src out) = length out"
    "i < length out \<Longrightarrow> s < 8 \<Longrightarrow> bit (repackGeneral cfg src out ! i) s \<longleftrightarrow> repackedItem cfg src i s"
proof -
  note res = configureRepack_result [OF cfg]
  let ?ic = "inChunk cfg" and ?oc = "outChunk cfg" and ?P = "period cfg"
  define F where "F = (\<lambda>p out. fold (\<lambda>b. applyMove src (p * ?ic) (p * ?oc) (moves cfg ! b)) [0..<?P]
    (fold (\<lambda>j out. out[p * ?oc + j := 0]) [0..<?oc] out))"
  define G where "G = (\<lambda>p j. F p (replicate (n * ?oc) 0) ! (p * ?oc + j))"
  have periods: "min (length src div ?ic) (length out div ?oc) = n"
    using res(12,13) assms(2,3) by simp
  have general: "repackGeneral cfg src out = fold F [0..<n] out"
    unfolding repackGeneral_def Let_def periods F_def ..
  have lenF: "length (F p xs) = length xs" for p xs by (simp add: F_def)
  have item: "bit (F p xs ! (p * ?oc + j)) s \<longleftrightarrow> repackedItem cfg src (p * ?oc + j) s"
    if p: "p < n" "length xs = n * ?oc" "j < ?oc" "s < 8" for p xs j s
  proof -
    let ?zero = "fold (\<lambda>j out. out[p * ?oc + j := 0]) [0..<?oc] xs"
    have room: "p * ?oc + ?oc \<le> n * ?oc"
      using p(1) by (metis Suc_leI add.commute mult_Suc mult_le_mono1)
    have "bit (F p xs ! (p * ?oc + j)) s \<longleftrightarrow>
      (\<exists>k<bo. fieldPosition oo bo k = s \<and> j * bo + k < ?P \<and>
        bit (src ! (p * ?ic + (j * bo + k) div bi)) (fieldPosition oi bi ((j * bo + k) mod bi)))"
      unfolding F_def
    proof (rule moved_bits [OF cfg])
      show "?P \<le> ?oc * bo" using res(10) by simp
      show "p * ?oc + ?oc \<le> length ?zero" using room p(2) by simp
      show "?zero ! (p * ?oc + j) = 0" if "j < ?oc" for j
        using that room p(2) by (subst fold_update_nth) auto
    qed (use p in simp_all)
    moreover have "j * bo + k < ?P" if "k < bo" for k
    proof -
      have "j * bo + k < Suc j * bo" using that by simp
      also have "\<dots> \<le> ?oc * bo" using p(3) by (intro mult_le_mono1) simp
      finally show ?thesis by (simp only: res(10))
    qed
    moreover have "((p * ?oc + j) * bo + k) div bi = p * ?ic + (j * bo + k) div bi"
      "((p * ?oc + j) * bo + k) mod bi = (j * bo + k) mod bi" for k
    proof -
      have "(p * ?oc + j) * bo + k = (p * ?ic) * bi + (j * bo + k)"
        using res(9,10) by (simp add: add_mult_distrib mult.assoc)
      moreover have "(a * bi + x) div bi = a + x div bi" "(a * bi + x) mod bi = x mod bi" for a x
        using res(1) by simp_all
      ultimately show "((p * ?oc + j) * bo + k) div bi = p * ?ic + (j * bo + k) div bi"
        "((p * ?oc + j) * bo + k) mod bi = (j * bo + k) mod bi" by (simp_all only:)
    qed
    ultimately show ?thesis
      unfolding repackedItem_def res(5-8) Let_def by auto
  qed
  have same: "F p xs ! (p * ?oc + j) = G p j" if "p < n" "length xs = n * ?oc" "j < ?oc" for p xs j
    unfolding G_def using item that by (intro bit_word_eqI) simp
  have outside: "F p xs ! k = xs ! k"
    if k: "p < n" "length xs = n * ?oc" "k < n * ?oc" "\<not> (p * ?oc \<le> k \<and> k < p * ?oc + ?oc)" for p xs k
  proof (rule bit_word_eqI)
    fix s assume "s < LENGTH(8)"
    let ?zero = "fold (\<lambda>j out. out[p * ?oc + j := 0]) [0..<?oc] xs"
    have room: "p * ?oc + ?oc \<le> n * ?oc"
      using k(1) by (metis Suc_leI add.commute mult_Suc mult_le_mono1)
    have dest: "destinationItem (moves cfg ! b) < ?oc" if "b \<in> set [0..<?P]" for b
      using that res(10,14) by (simp add: less_mult_imp_div_less)
    have items: "p * ?oc + destinationItem (moves cfg ! b) < length ?zero" if "b \<in> set [0..<?P]" for b
      using dest [OF that] room k(2) by simp
    have "p * ?oc + destinationItem (moves cfg ! b) \<noteq> k" if "b \<in> set [0..<?P]" for b
      using dest [OF that] k(4) by auto
    moreover have s8: "s < 8" using \<open>s < LENGTH(8)\<close> by simp
    have "bit (F p xs ! k) s \<longleftrightarrow> bit (?zero ! k) s \<or> (\<exists>b\<in>set [0..<?P]. p * ?oc + destinationItem (moves cfg ! b) = k \<and>
        destinationShift (moves cfg ! b) = s \<and>
        bit (src ! (p * ?ic + sourceItem (moves cfg ! b))) (sourceShift (moves cfg ! b)))"
      unfolding F_def by (subst bit_applyMoves [OF items s8]) simp_all
    ultimately have "bit (F p xs ! k) s \<longleftrightarrow> bit (?zero ! k) s" by blast
    moreover have "?zero ! k = xs ! k" using k by (subst fold_update_nth) auto
    ultimately show "bit (F p xs ! k) s = bit (xs ! k) s" by simp
  qed
  have all: "length (fold F [0..<n] out) = n * ?oc"
    by (rule fold_chunks(1) [where L = "n * ?oc" and c = ?oc and G = G])
       (fact lenF, erule (3) outside, erule (2) same, simp, fact assms(3))
  have slots: "fold F [0..<n] out ! k = G (k div ?oc) (k mod ?oc)" if k: "k < n * ?oc" for k
  proof -
    have "fold F [0..<n] out ! k = (if k < n * ?oc then G (k div ?oc) (k mod ?oc) else out ! k)"
      by (rule fold_chunks(2) [where L = "n * ?oc" and c = ?oc and G = G])
         (fact lenF, erule (3) outside, erule (2) same, simp, fact assms(3), fact k)
    with k show ?thesis by simp
  qed
  show "length (repackGeneral cfg src out) = length out"
    by (simp add: general all assms(3))
  show "i < length out \<Longrightarrow> s < 8 \<Longrightarrow> bit (repackGeneral cfg src out ! i) s \<longleftrightarrow> repackedItem cfg src i s"
  proof -
    assume i: "i < length out" "s < 8"
    have "i div ?oc < n" "i mod ?oc < ?oc" "i div ?oc * ?oc + i mod ?oc = i"
      using i assms(3) res(13) by (simp_all add: less_mult_imp_div_less)
    then show "bit (repackGeneral cfg src out ! i) s \<longleftrightarrow> repackedItem cfg src i s"
      using item [of "i div ?oc" "replicate (n * ?oc) 0" "i mod ?oc" s] i assms(3)
      by (simp add: general slots G_def)
  qed
qed

subsection \<open>The two multiplications\<close>

text \<open>Eight one-bit lanes in one word.\<close>

definition lanes :: "(nat \<Rightarrow> bool) \<Rightarrow> u64" where
  "lanes P = fold (\<lambda>k w. w OR push_bit (8 * k) (of_bool (P k))) [0..<8] 0"

lemma upt8: "[0..<8] = [0, 1, 2, 3, 4, 5, 6, 7]"
  by (simp add: upt_rec)

lemma fold_or: "fold (\<lambda>k w. w OR f k) ks a = a OR fold (\<lambda>k w. w OR f k) ks (0 :: 'a::len word)"
proof (induction ks arbitrary: a)
  case (Cons k ks)
  show ?case using Cons.IH [of "a OR f k"] Cons.IH [of "f k"] by (simp add: or.assoc)
qed simp

lemma bit_fold_or: "bit (fold (\<lambda>k w. w OR f k) ks (0 :: 'a::len word)) i \<longleftrightarrow> (\<exists>k\<in>set ks. bit (f k) i)"
proof (induction ks)
  case (Cons k ks)
  then show ?case using fold_or [of f ks "f k"] by (simp add: bit_or_iff)
qed simp

lemma bit_lanes: "bit (lanes P) i \<longleftrightarrow> i < 64 \<and> i mod 8 = 0 \<and> P (i div 8)"
proof -
  have "bit (lanes P) i \<longleftrightarrow> (\<exists>k<8. bit (push_bit (8 * k) (of_bool (P k)) :: u64) i)"
    unfolding lanes_def bit_fold_or by (auto simp: Bex_def)
  also have "\<dots> \<longleftrightarrow> (\<exists>k<8. i = 8 * k \<and> P k)"
    by (auto simp: bit_push_bit_iff bit_1_iff)
  also have "\<dots> \<longleftrightarrow> i < 64 \<and> i mod 8 = 0 \<and> P (i div 8)"
    by (auto intro!: exI [of _ "i div 8"])
  finally show ?thesis .
qed

lemma lanes_cong: "(\<And>k. k < 8 \<Longrightarrow> P k = Q k) \<Longrightarrow> lanes P = lanes Q"
  by (rule bit_word_eqI) (auto simp: bit_lanes)

lemma kItemLowBits_lanes: "kItemLowBits = lanes (\<lambda>_. True)"
  unfolding lanes_def upt8 kItemLowBits_def by simp

lemma load_lanes: "loadItemWord items at AND kItemLowBits = lanes (\<lambda>k. bit (items ! (at + k)) 0)"
proof (rule bit_word_eqI)
  fix i assume i: "i < LENGTH(64)"
  have "bit (loadItemWord items at) i \<longleftrightarrow> (\<exists>k<8. 8 * k \<le> i \<and> bit (items ! (at + k)) (i - 8 * k))"
    unfolding loadItemWord_def bit_fold_or using i
    by (auto simp: bit_push_bit_iff bit_ucast_iff Bex_def)
  also have "\<dots> \<longleftrightarrow> bit (items ! (at + i div 8)) (i mod 8)"
  proof
    assume "\<exists>k<8. 8 * k \<le> i \<and> bit (items ! (at + k)) (i - 8 * k)"
    then obtain k where k: "8 * k \<le> i" "bit (items ! (at + k)) (i - 8 * k)" by blast
    from k(2) have "i - 8 * k < 8" by (auto dest: bit_imp_le_length)
    then have "i div 8 = k" "i mod 8 = i - 8 * k" using k(1)
      by (auto simp: minus_mult_div_eq_mod [symmetric] div_nat_eqI)
    with k(2) show "bit (items ! (at + i div 8)) (i mod 8)" by simp
  next
    assume "bit (items ! (at + i div 8)) (i mod 8)"
    with i show "\<exists>k<8. 8 * k \<le> i \<and> bit (items ! (at + k)) (i - 8 * k)"
      by (intro exI [of _ "i div 8"]) (simp add: minus_mult_div_eq_mod)
  qed
  finally show "bit (loadItemWord items at AND kItemLowBits) i = bit (lanes (\<lambda>k. bit (items ! (at + k)) 0)) i"
    using i unfolding kItemLowBits_lanes bit_and_iff bit_lanes by auto
qed

lemma byteswap_lanes: "byteswap (lanes P) = lanes (\<lambda>k. P (7 - k))"
proof (rule bit_word_eqI)
  fix i assume i: "i < LENGTH(64)"
  have low: "bit (0xFF :: u64) i \<longleftrightarrow> i < 8" for i by (auto simp: word_bits)
  have "bit (byteswap (lanes P)) i \<longleftrightarrow>
      (\<exists>k<8. 8 * (7 - k) \<le> i \<and> i - 8 * (7 - k) < 8 \<and> bit (lanes P) (8 * k + (i - 8 * (7 - k))))"
    unfolding byteswap_def bit_fold_or bit_push_bit_iff bit_and_iff bit_drop_bit_eq low using i
    by (auto simp: Bex_def)
  also have "\<dots> \<longleftrightarrow> (\<exists>k<8. i = 8 * (7 - k) \<and> P k)"
  proof -
    have "8 * (7 - k) \<le> i \<and> i - 8 * (7 - k) < 8 \<and> bit (lanes P) (8 * k + (i - 8 * (7 - k))) \<longleftrightarrow>
        i = 8 * (7 - k) \<and> P k" if "k < 8" for k
    proof -
      define r where "r = i - 8 * (7 - k)"
      show ?thesis
      proof (cases "8 * (7 - k) \<le> i")
        case True
        then have "i = 8 * (7 - k) + r" by (simp add: r_def)
        show ?thesis
        proof (cases "r = 0")
          case True
          with that \<open>i = _\<close> show ?thesis unfolding r_def [symmetric] bit_lanes by simp
        next
          case False
          then have "r < 8 \<Longrightarrow> (8 * k + r) mod 8 \<noteq> 0" by simp
          with False \<open>i = _\<close> show ?thesis unfolding r_def [symmetric] bit_lanes by auto
        qed
      qed auto
    qed
    then show ?thesis by blast
  qed
  also have "\<dots> \<longleftrightarrow> i mod 8 = 0 \<and> P (7 - i div 8)"
  proof
    assume "i mod 8 = 0 \<and> P (7 - i div 8)"
    moreover from this have "i = 8 * (i div 8)" by auto
    moreover have "i div 8 < 8" using i by simp
    ultimately show "\<exists>k<8. i = 8 * (7 - k) \<and> P k"
      by (intro exI [of _ "7 - i div 8"]) auto
  qed auto
  finally show "bit (byteswap (lanes P)) i = bit (lanes (\<lambda>k. P (7 - k))) i"
    using i by (simp add: bit_lanes)
qed

text \<open>Gathering eight lanes into a byte, by cases on the lanes.\<close>

lemma gather_product:
  "ucast (drop_bit 56 (lanes P * kBitSpread)) =
    (fold (\<lambda>k w. w OR push_bit k (of_bool (P (7 - k)))) [0..<8] 0 :: u8)"
  unfolding lanes_def upt8 kBitSpread_def
  by (cases "P 0"; cases "P 1"; cases "P 2"; cases "P 3"; cases "P 4"; cases "P 5"; cases "P 6"; cases "P 7") simp_all

lemma bit_gather:
  "s < 8 \<Longrightarrow> bit (ucast (drop_bit 56 (lanes P * kBitSpread)) :: u8) s \<longleftrightarrow> P (7 - s)"
proof -
  assume s: "s < 8"
  then show "bit (ucast (drop_bit 56 (lanes P * kBitSpread)) :: u8) s \<longleftrightarrow> P (7 - s)"
    unfolding gather_product bit_fold_or bit_push_bit_iff by (auto simp: bit_1_iff)
qed

text \<open>Scattering a byte over eight lanes, by cases on its bits.\<close>

lemma byte_of_bits: "x = fold (\<lambda>k w. w OR push_bit k (of_bool (bit x k))) [0..<8] 0" for x :: u8
proof (rule bit_word_eqI)
  fix s assume s: "s < LENGTH(8)"
  then show "bit x s = bit (fold (\<lambda>k w. w OR push_bit k (of_bool (bit x k))) [0..<8] (0 :: u8)) s"
    unfolding bit_fold_or bit_push_bit_iff by (auto simp: bit_1_iff)
qed

lemma scatter_product:
  "drop_bit 7 (ucast (fold (\<lambda>k w. w OR push_bit k (of_bool (Q k))) [0..<8] 0 :: u8) * kBitSpread) AND kItemLowBits =
    lanes (\<lambda>k. Q (7 - k))"
  unfolding lanes_def upt8 kBitSpread_def kItemLowBits_def
  by (cases "Q 0"; cases "Q 1"; cases "Q 2"; cases "Q 3"; cases "Q 4"; cases "Q 5"; cases "Q 6"; cases "Q 7") simp_all

lemma scatter_lanes:
  "drop_bit 7 (ucast x * kBitSpread) AND kItemLowBits = lanes (\<lambda>k. bit x (7 - k))" for x :: u8
  using scatter_product [of "bit x"] byte_of_bits [of x] by simp

lemma storeItemWord_lanes:
  "length (storeItemWord items at w) = length items"
  "k < length items \<Longrightarrow> storeItemWord items at (lanes P) ! k =
    (if at \<le> k \<and> k < at + 8 then of_bool (P (k - at)) else items ! k)"
proof -
  show "length (storeItemWord items at w) = length items" by (simp add: storeItemWord_def)
  have "ucast (drop_bit (8 * j) (lanes P)) = (of_bool (P j) :: u8)" if "j < 8" for j
  proof (rule bit_word_eqI)
    fix s assume s: "s < LENGTH(8)"
    have "8 * j + s < 64" "(8 * j + s) mod 8 = s" "s = 0 \<Longrightarrow> (8 * j + s) div 8 = j" using that s by auto
    then show "bit (ucast (drop_bit (8 * j) (lanes P)) :: u8) s = bit (of_bool (P j) :: u8) s"
      unfolding bit_ucast_iff bit_drop_bit_eq bit_lanes comp_def using s by (cases "s = 0") (auto simp: bit_1_iff)
  qed
  then show "k < length items \<Longrightarrow> storeItemWord items at (lanes P) ! k =
      (if at \<le> k \<and> k < at + 8 then of_bool (P (k - at)) else items ! k)"
    unfolding storeItemWord_def by (subst fold_update_nth) auto
qed

lemma pack_items:
  assumes cfg: "configureRepack cfg0 1 8 oi oo = Inr cfg" and "length src = 8 * length out"
  shows "length (packEightBits src out oo) = length out"
    "i < length out \<Longrightarrow> s < 8 \<Longrightarrow> bit (packEightBits src out oo ! i) s \<longleftrightarrow> repackedItem cfg src i s"
proof -
  note res = configureRepack_result [OF cfg]
  have count: "min (length src div 8) (length out) = length out" using assms(2) by simp
  show "length (packEightBits src out oo) = length out"
    by (simp add: packEightBits_def Let_def length_fold_update [of 0, simplified])
  assume i: "i < length out" "s < 8"
  have spec: "repackedItem cfg src i s \<longleftrightarrow> (\<exists>k<8. fieldPosition oo 8 k = s \<and> bit (src ! (8 * i + k)) 0)"
    by (simp add: repackedItem_def res(5-8) Let_def mult.commute [of 8 i]) (simp add: fieldPosition_def)
  show "bit (packEightBits src out oo ! i) s \<longleftrightarrow> repackedItem cfg src i s"
  proof (cases oo)
    case MsbFirst
    have "(\<exists>k<8. 7 - k = s \<and> Q k) \<longleftrightarrow> Q (7 - s)" for Q
      using i(2) by (auto intro!: exI [of _ "7 - s"])
    then show ?thesis
      using i unfolding spec packEightBits_def Let_def count
      by (simp add: MsbFirst fold_update_nth_0 load_lanes bit_gather fieldPosition_def)
  next
    case LsbFirst
    then show ?thesis
      using i unfolding spec packEightBits_def Let_def count
      by (auto simp: fold_update_nth_0 load_lanes byteswap_lanes bit_gather fieldPosition_def)
  qed
qed

lemma unpack_items:
  assumes cfg: "configureRepack cfg0 8 1 oi oo = Inr cfg" and len: "length out = 8 * length src"
  shows "length (unpackEightBits src out oi) = length out"
    "i < length out \<Longrightarrow> s < 8 \<Longrightarrow> bit (unpackEightBits src out oi ! i) s \<longleftrightarrow> repackedItem cfg src i s"
proof -
  note res = configureRepack_result [OF cfg]
  let ?n = "length src"
  have count: "min ?n (length out div 8) = ?n" using len by simp
  define Q where "Q = (\<lambda>p k. bit (src ! p) (fieldPosition oi 8 k))"
  define F where "F = (\<lambda>p out. storeItemWord out (8 * p) (lanes (Q p)))"
  have F: "unpackEightBits src out oi = fold F [0..<?n] out"
  proof -
    have "lanes (Q p) = (if oi = MsbFirst then drop_bit 7 (ucast (src ! p) * kBitSpread) AND kItemLowBits
        else byteswap (drop_bit 7 (ucast (src ! p) * kBitSpread) AND kItemLowBits))" for p
      by (auto simp: Q_def fieldPosition_def scatter_lanes byteswap_lanes intro!: lanes_cong)
    then show ?thesis by (simp add: unpackEightBits_def Let_def count F_def)
  qed
  have all: "length (fold F [0..<?n] out) = length out"
    by (rule fold_chunks(1) [where c = 8 and G = "\<lambda>p j. of_bool (Q p j)"])
       (use len in \<open>auto simp: F_def storeItemWord_lanes\<close>)
  show "length (unpackEightBits src out oi) = length out" by (simp add: F all)
  assume i: "i < length out" "s < 8"
  have "fold F [0..<?n] out ! i = (if i < ?n * 8 then of_bool (Q (i div 8) (i mod 8)) else out ! i)"
    by (rule fold_chunks(2) [where L = "length out" and c = 8])
       (use len i(1) in \<open>auto simp: F_def storeItemWord_lanes\<close>)
  then have "unpackEightBits src out oi ! i = of_bool (Q (i div 8) (i mod 8))"
    using i(1) len by (simp add: F)
  then show "bit (unpackEightBits src out oi ! i) s \<longleftrightarrow> repackedItem cfg src i s"
    by (auto simp: repackedItem_def res(5-8) Let_def Q_def bit_1_iff) (auto simp: fieldPosition_def)
qed

subsection \<open>The theorems\<close>

lemma repack_items:
  assumes cfg: "configureRepack cfg0 bi bo oi oo = Inr cfg"
    and len: "length src = n * inChunk cfg" "length out = n * outChunk cfg"
  shows "length (repack cfg src out) = length out \<and>
    (\<forall>i<length out. \<forall>s<8. bit (repack cfg src out ! i) s \<longleftrightarrow> repackedItem cfg src i s)"
proof -
  note res = configureRepack_result [OF cfg]
  have chunks: "inChunk cfg = bo div gcd bi bo" "outChunk cfg = bi div gcd bi bo"
    using cfg by (auto simp: configureRepack_def Let_def split: if_splits)
  consider "bi = 1" "bo = 8" | "bi = 8" "bo = 1" | "\<not> (bi = 1 \<and> bo = 8)" "\<not> (bi = 8 \<and> bo = 1)" by blast
  then show ?thesis
  proof cases
    case 1
    then show ?thesis
      using pack_items [of cfg0 oi oo cfg src out] cfg len chunks by (simp add: repack_def res(5-8))
  next
    case 2
    then show ?thesis
      using unpack_items [of cfg0 oi oo cfg out src] cfg len chunks by (simp add: repack_def res(5-8))
  next
    case 3
    then show ?thesis
      using repackGeneral_items [OF cfg len] by (auto simp: repack_def res(5-8))
  qed
qed

text \<open>C11. Over whole periods, at every pair of widths and orders and through all three implementations,
  the bit sequence of the repacked items is the bit sequence of the input items, and no output item
  has a bit above its field.\<close>

theorem repack_preserves_bits:
  assumes "configureRepack cfg0 bi bo oi oo = Inr cfg"
    "length src = n * inChunk cfg" "length out = n * outChunk cfg"
  shows "fieldStream oo bo (repack cfg src out) = fieldStream oi bi src \<and>
    (\<forall>item\<in>set (repack cfg src out). \<forall>s\<ge>bo. \<not> bit item s)"
proof
  note res = configureRepack_result [OF assms(1)]
  have len: "length (repack cfg src out) = length out"
    and items: "\<And>i s. i < length out \<Longrightarrow> s < 8 \<Longrightarrow> bit (repack cfg src out ! i) s \<longleftrightarrow> repackedItem cfg src i s"
    using repack_items [OF assms] by auto
  have total: "length out * bo = length src * bi"
    using res(9,10) assms(2,3) by (simp add: mult.assoc)
  show "fieldStream oo bo (repack cfg src out) = fieldStream oi bi src"
  proof (rule nth_equalityI)
    fix b assume "b < length (fieldStream oo bo (repack cfg src out))"
    then have b: "b < length out * bo" by (simp add: len)
    let ?i = "b div bo" and ?k = "b mod bo"
    have i: "?i < length out" "?k < bo" "?i * bo + ?k = b"
      using b res(3) by (simp_all add: less_mult_imp_div_less)
    have "fieldStream oo bo (repack cfg src out) ! b = bit (repack cfg src out ! ?i) (fieldPosition oo bo ?k)"
      by (rule fieldStream_nth) (simp add: len b)
    also have "\<dots> \<longleftrightarrow> repackedItem cfg src ?i (fieldPosition oo bo ?k)"
      using i(1) fieldPosition_less [OF i(2), of oo] res(4) by (intro items) auto
    also have "\<dots> \<longleftrightarrow> bit (src ! (b div bi)) (fieldPosition oi bi (b mod bi))"
      unfolding repackedItem_def res(5-8) Let_def using i fieldPosition_inj [OF _ i(2), of _ oo] by auto
    also have "\<dots> = fieldStream oi bi src ! b"
      by (rule fieldStream_nth [symmetric]) (use b total in simp)
    finally show "fieldStream oo bo (repack cfg src out) ! b = fieldStream oi bi src ! b" .
  qed (simp add: len total)
  show "\<forall>item\<in>set (repack cfg src out). \<forall>s\<ge>bo. \<not> bit item s"
  proof (intro ballI allI impI)
    fix item s assume "item \<in> set (repack cfg src out)" "bo \<le> s"
    then obtain i where i: "i < length out" "item = repack cfg src out ! i"
      by (auto simp: in_set_conv_nth len)
    have "\<not> repackedItem cfg src i s"
      unfolding repackedItem_def res(5-8) using fieldPosition_less [of _ bo oo] \<open>bo \<le> s\<close> by fastforce
    with i items [OF i(1), of s] show "\<not> bit item s" by (cases "s < 8") (auto dest: bit_imp_le_length)
  qed
qed

lemma repack_preserves_bits_witness:
  "\<exists>cfg. configureRepack defaultRepack 3 5 MsbFirst LsbFirst = Inr cfg \<and>
    fieldStream LsbFirst 5 (repack cfg [1, 2, 3, 4, 5] [9, 9, 9]) = fieldStream MsbFirst 3 [1, 2, 3, 4, 5]"
proof -
  have "gcd (3 :: nat) 5 = 1" by code_simp
  then obtain cfg where cfg: "configureRepack defaultRepack 3 5 MsbFirst LsbFirst = Inr cfg" "inChunk cfg = 5" "outChunk cfg = 3"
    by (simp add: configureRepack_def Let_def)
  with repack_preserves_bits [OF cfg(1), of "[1, 2, 3, 4, 5]" 1 "[9, 9, 9]"] show ?thesis by auto
qed

theorem repackTail_bits:
  assumes "configureRepack cfg0 bi bo oi oo = Inr cfg" "length src < inChunk cfg"
    "repackTail cfg src out pad = (w, out')"
  shows "w = min (length src * bi div bo + (if pad \<and> length src * bi mod bo \<noteq> 0 then 1 else 0)) (length out) \<and>
    fieldStream oo bo (take w out') = take (w * bo) (fieldStream oi bi src @ replicate bo False) \<and>
    drop w out' = drop w out"
proof -
  note res = configureRepack_result [OF assms(1)]
  let ?bits = "length src * bi"
  define zero where "zero = fold (\<lambda>j out. out[j := 0]) [0..<w] out"
  define n where "n = min ?bits (w * bo)"
  have short: "?bits < period cfg"
    using assms(2) res(1) by (simp add: res(9))
  have w: "w = min (?bits div bo + (if pad \<and> ?bits mod bo \<noteq> 0 then 1 else 0)) (length out)"
    using assms(3) by (simp add: repackTail_def Let_def res(5,6))
  have n: "min ?bits (min (w * bo) (period cfg)) = n"
    using short by (simp add: n_def)
  have out': "out' = fold (\<lambda>b. applyMove src 0 0 (moves cfg ! b)) [0..<n] zero"
    using assms(3) unfolding repackTail_def Let_def res(5,6) w [symmetric] n
    by (simp add: zero_def)
  have wb: "w * bo \<le> ?bits + bo"
  proof -
    have "w * bo \<le> (?bits div bo + 1) * bo" 
      by (rule mult_le_mono1) (simp add: w min.coboundedI1)
    also have "\<dots> = ?bits div bo * bo + bo" by (simp only: add_mult_distrib mult_1)
    also have "\<dots> \<le> ?bits + bo" by simp
    finally show ?thesis .
  qed
  have zero: "length zero = length out" "\<And>k. k < length out \<Longrightarrow> zero ! k = (if k < w then 0 else out ! k)"
    using length_fold_update [of 0] by (simp_all add: zero_def fold_update_nth_0)
  have len: "length out' = length out" by (simp add: out' zero(1))
  have wlen: "w \<le> length out" by (simp add: w)
  have bits: "bit (out' ! j) s \<longleftrightarrow> (\<exists>k<bo. fieldPosition oo bo k = s \<and> j * bo + k < n \<and>
      bit (src ! ((j * bo + k) div bi)) (fieldPosition oi bi ((j * bo + k) mod bi)))"
    if "j < w" "s < 8" for j s
    using moved_bits [OF assms(1), of n w 0 zero j s src 0] that wlen zero short by (simp add: out' n_def)
  have "fieldStream oo bo (take w out') = take (w * bo) (fieldStream oi bi src @ replicate bo False)"
  proof (rule nth_equalityI)
    show "length (fieldStream oo bo (take w out')) = length (take (w * bo) (fieldStream oi bi src @ replicate bo False))"
      using wb wlen by (simp add: len min_absorb2)
    fix b assume "b < length (fieldStream oo bo (take w out'))"
    then have b: "b < w * bo" using wlen by (simp add: len min_absorb2)
    let ?i = "b div bo" and ?k = "b mod bo"
    have i: "?i < w" "?k < bo" "?i * bo + ?k = b"
      using b res(3) by (simp_all add: less_mult_imp_div_less)
    have "fieldStream oo bo (take w out') ! b = bit (take w out' ! ?i) (fieldPosition oo bo ?k)"
      using b wlen by (intro fieldStream_nth) (simp add: len min_absorb2)
    also have "\<dots> = bit (out' ! ?i) (fieldPosition oo bo ?k)" using i by simp
    also have "\<dots> \<longleftrightarrow> b < n \<and> bit (src ! (b div bi)) (fieldPosition oi bi (b mod bi))"
    proof -
      have one: "(\<exists>k<bo. fieldPosition oo bo k = fieldPosition oo bo ?k \<and> R k) \<longleftrightarrow> R ?k" for R
        using i(2) fieldPosition_inj [OF _ i(2), of _ oo] by blast
      have "fieldPosition oo bo ?k < 8" using fieldPosition_less [OF i(2), of oo] res(4) by simp
      from bits [OF i(1) this] show ?thesis unfolding one i(3) .
    qed
    also have "\<dots> \<longleftrightarrow> (fieldStream oi bi src @ replicate bo False) ! b"
      using b wb by (auto simp: n_def nth_append fieldStream_nth)
    finally show "fieldStream oo bo (take w out') ! b = take (w * bo) (fieldStream oi bi src @ replicate bo False) ! b"
      by (simp only: nth_take [OF b])
  qed
  moreover have "drop w out' = drop w out"
  proof (rule nth_equalityI)
    fix k assume "k < length (drop w out')"
    then have k: "w + k < length out" by (simp add: len)
    have items: "0 + destinationItem (moves cfg ! b) < w" if "b \<in> set [0..<n]" for b
      using that short by (auto simp: n_def res(14) less_mult_imp_div_less)
    have "bit (out' ! (w + k)) s = bit (zero ! (w + k)) s" if "s < 8" for s
    proof -
      have "0 + destinationItem (moves cfg ! b) < length zero" if "b \<in> set [0..<n]" for b
        using items [OF that] wlen zero(1) by simp
      from bit_applyMoves [OF this \<open>s < 8\<close>] show ?thesis
        unfolding out' using items by fastforce
    qed
    then have "out' ! (w + k) = zero ! (w + k)" by (intro bit_word_eqI) simp
    then show "drop w out' ! k = drop w out ! k" using k zero(2) wlen by (simp add: len)
  qed (simp add: len)
  ultimately show ?thesis using w by blast
qed

text \<open>C18. mapRepackedOffset is the exact floor of offset times bitsIn over bitsOut whenever that quotient
  fits 64 bits, even where the product does not.\<close>

theorem mapRepackedOffset_exact:
  assumes "0 < bi" "bi \<le> 8" "0 < bo" "bo \<le> 8" "unat offset * unat bi div unat bo < 2 ^ 64"
  shows "unat (mapRepackedOffset offset bi bo) = unat offset * unat bi div unat bo"
proof -
  let ?o = "unat offset" and ?i = "unat bi" and ?b = "unat bo"
  have b: "0 < ?b" "?b \<le> 8" "?i \<le> 8"
    using assms by (simp_all add: word_less_nat_alt word_le_nat_alt)
  define q r where "q = ?o div ?b" and "r = ?o mod ?b"
  have o: "?o = q * ?b + r" "r < ?b" using b(1) by (simp_all add: q_def r_def)
  have "?o * ?i = (q * ?i) * ?b + r * ?i" by (simp add: o(1) add_mult_distrib)
  then have quotient: "?o * ?i div ?b = q * ?i + r * ?i div ?b" using b(1) by simp
  have small: "r * ?i < 2 ^ 64"
  proof -
    have "r * ?i \<le> 8 * 8" using o(2) b by (intro mult_le_mono) simp_all
    then show ?thesis by simp
  qed
  have "unat (offset mod bo * bi) = r * ?i"
    using unat_mult_fits [of "offset mod bo" bi] small by (simp add: unat_mod r_def)
  then have low: "unat (offset mod bo * bi div bo) = r * ?i div ?b" by (simp add: unat_div)
  have high: "unat (offset div bo * bi) = q * ?i"
    using unat_mult_fits [of "offset div bo" bi] assms(5) quotient by (simp add: unat_div q_def)
  show ?thesis
    unfolding mapRepackedOffset_def Let_def quotient
    using unat_add_fits [of "offset div bo * bi" "offset mod bo * bi div bo"] assms(5) quotient low high by simp
qed

lemma mapRepackedOffset_exact_witness:
  "unat (mapRepackedOffset 9007199254740993 1 3) = 3002399751580331"
  using mapRepackedOffset_exact [of 1 3 9007199254740993] by simp

lemma repackTail_bits_witness:
  "\<exists>cfg w out. configureRepack defaultRepack 3 8 MsbFirst MsbFirst = Inr cfg \<and>
    repackTail cfg [5, 3, 7, 1] [9, 9] True = (w, out) \<and>
    fieldStream MsbFirst 8 (take w out) = take (w * 8) (fieldStream MsbFirst 3 [5, 3, 7, 1] @ replicate 8 False)"
proof -
  have "gcd (3 :: nat) 8 = 1" by code_simp
  then obtain cfg where cfg: "configureRepack defaultRepack 3 8 MsbFirst MsbFirst = Inr cfg" "inChunk cfg = 8"
    by (simp add: configureRepack_def Let_def)
  obtain w out where "repackTail cfg [5, 3, 7, 1] [9, 9] True = (w, out)" by (meson surj_pair)
  with repackTail_bits [OF cfg(1), of "[5, 3, 7, 1]"] cfg show ?thesis by auto
qed

end
