(* ===== verification/Interleaver.thy ===== *)
theory Interleaver
  imports Prelude
begin

section \<open>Interleavers\<close>

text \<open>
  \<^verbatim>\<open>fec/Interleaver.hpp\<close>: the block, permutation and convolutional families behind one class.  The
  item type is a type variable, with \<^verbatim>\<open>T{}\<close> an argument of the constructors that use it.  A span that
  is written is a list returned updated, beside the number of items written.  The two framed families
  are shown here to invert each other over any number of whole frames; the convolutional one is the subject
  of \<open>InterleaverStream\<close>.
\<close>

subsection \<open>State\<close>

datatype InterleaverKind = Block | Convolutional | Permutation

record 'a DelayLines =
  cells :: "'a list"
  offset :: "nat list"
  head :: "nat list"
  commutator :: nat

record 'a Interleaver =
  il_kind :: InterleaverKind
  il_rows :: nat
  il_cols :: nat
  il_branches :: nat
  il_unitDelay :: nat
  il_frameSize :: nat
  il_fillValue :: 'a
  il_map :: "nat list"
  il_inverse :: "nat list"
  il_covers :: bool
  il_forward :: "'a DelayLines"
  il_reverse :: "'a DelayLines"

definition kMaxFrame :: nat where
  "kMaxFrame = 2 ^ 20"

datatype InterleaverError =
    RowsZero | ColsZero | FrameBeyondCeiling nat nat | WindowLengthZero | WindowOffsetPastFrame nat nat
  | WindowPastFrame nat nat nat | TooFewBranches nat | UnitDelayZero | LatencyBeyondCeiling nat nat
  | TableEmpty | TableBeyondCeiling nat | TableEntryOutside nat nat nat | TableEntryRepeats nat nat

text \<open>The object the private default constructor leaves.\<close>

definition noLines :: "'a DelayLines" where
  "noLines = \<lparr>cells = [], offset = [], head = [], commutator = 0\<rparr>"

definition defaultInterleaver :: "'a \<Rightarrow> 'a Interleaver" where
  "defaultInterleaver dflt =
     \<lparr>il_kind = Block, il_rows = 0, il_cols = 0, il_branches = 0, il_unitDelay = 0, il_frameSize = 0,
      il_fillValue = dflt, il_map = [], il_inverse = [], il_covers = True, il_forward = noLines,
      il_reverse = noLines\<rparr>"

subsection \<open>Construction\<close>

definition finishFramed :: "'a Interleaver \<Rightarrow> 'a Interleaver" where
  "finishFramed self =
     (let self = self\<lparr>il_covers := (length (il_map self) = il_frameSize self)\<rparr>
      in if \<not> il_covers self then self
         else self\<lparr>il_inverse :=
                fold (\<lambda>i inverse. inverse[il_map self ! i := i]) [0..<il_frameSize self]
                  (replicate (il_frameSize self) 0)\<rparr>)"

definition blockWindow :: "nat \<Rightarrow> nat \<Rightarrow> nat \<Rightarrow> nat \<Rightarrow> 'a \<Rightarrow> InterleaverError + 'a Interleaver" where
  "blockWindow rows cols windowOffset windowLength fillValue =
     (if rows = 0 then Inl RowsZero
      else if cols = 0 then Inl ColsZero
      else if rows > kMaxFrame div cols then Inl (FrameBeyondCeiling rows cols)
      else
        let frame = rows * cols
        in if windowLength = 0 then Inl WindowLengthZero
           else if windowOffset \<ge> frame then Inl (WindowOffsetPastFrame windowOffset frame)
           else if windowLength > frame - windowOffset
             then Inl (WindowPastFrame windowLength windowOffset frame)
           else Inr (finishFramed
             ((defaultInterleaver fillValue)
               \<lparr>il_kind := Block, il_rows := rows, il_cols := cols, il_frameSize := frame,
                il_fillValue := fillValue,
                il_map := map (\<lambda>i. let j = windowOffset + i in (j mod rows) * cols + (j div rows))
                              [0..<windowLength]\<rparr>)))"

definition block :: "nat \<Rightarrow> nat \<Rightarrow> 'a \<Rightarrow> InterleaverError + 'a Interleaver" where
  "block rows cols dflt = blockWindow rows cols 0 (rows * cols) dflt"

definition makeLines :: "nat \<Rightarrow> (nat \<Rightarrow> nat) \<Rightarrow> 'a \<Rightarrow> 'a DelayLines" where
  "makeLines branches depthOf fillValue =
     (let (offset, total) =
            fold (\<lambda>b (offset, total). (offset[b := total], total + depthOf b)) [0..<branches]
              (replicate (branches + 1) 0, 0)
      in \<lparr>cells = replicate total fillValue, offset = offset[branches := total],
          head = replicate branches 0, commutator = 0\<rparr>)"

definition convolutional :: "nat \<Rightarrow> nat \<Rightarrow> 'a \<Rightarrow> 'a \<Rightarrow> InterleaverError + 'a Interleaver" where
  "convolutional branches unitDelay fillValue dflt =
     (if branches < 2 then Inl (TooFewBranches branches)
      else if unitDelay < 1 then Inl UnitDelayZero
      else if branches - 1 > kMaxFrame div branches div unitDelay
        then Inl (LatencyBeyondCeiling branches unitDelay)
      else Inr ((defaultInterleaver dflt)
        \<lparr>il_kind := Convolutional, il_branches := branches, il_unitDelay := unitDelay,
         il_fillValue := fillValue,
         il_forward := makeLines branches (\<lambda>b. b * unitDelay) fillValue,
         il_reverse := makeLines branches (\<lambda>b. (branches - 1 - b) * unitDelay) fillValue\<rparr>))"

text \<open>The validation loop of the permutation kind: the first entry outside the frame or repeated.\<close>

fun checkTable :: "nat list \<Rightarrow> nat \<Rightarrow> nat \<Rightarrow> bool list \<Rightarrow> InterleaverError option" where
  "checkTable [] frame i seen = None"
| "checkTable (x # table) frame i seen =
     (if x \<ge> frame then Some (TableEntryOutside i x frame)
      else if seen ! x then Some (TableEntryRepeats i x)
      else checkTable table frame (i + 1) (seen[x := True]))"

definition permutation :: "nat list \<Rightarrow> 'a \<Rightarrow> InterleaverError + 'a Interleaver" where
  "permutation table dflt =
     (if table = [] then Inl TableEmpty
      else if length table > kMaxFrame then Inl (TableBeyondCeiling (length table))
      else case checkTable table (length table) 0 (replicate (length table) False) of
          Some err \<Rightarrow> Inl err
        | None \<Rightarrow> Inr (finishFramed
            ((defaultInterleaver dflt)
              \<lparr>il_kind := Permutation, il_frameSize := length table, il_map := table\<rparr>)))"

subsection \<open>Operations\<close>

definition interleavedSize :: "'a Interleaver \<Rightarrow> nat" where
  "interleavedSize self = length (il_map self)"

definition latency :: "'a Interleaver \<Rightarrow> nat" where
  "latency self = il_branches self * (il_branches self - 1) * il_unitDelay self"

text \<open>One turn of the commutator walk, on the item \<open>x\<close>: the item it emits and the lines after it.\<close>

definition lineStep :: "nat \<Rightarrow> 'a DelayLines \<Rightarrow> 'a \<Rightarrow> 'a \<times> 'a DelayLines" where
  "lineStep branches lines x =
     (let b = commutator lines;
          begin = offset lines ! b;
          depth = offset lines ! (b + 1) - begin;
          (y, lines) =
            (if depth = 0 then (x, lines)
             else
               let slot = head lines ! b;
                   oldest = cells lines ! (begin + slot)
               in (oldest,
                   lines\<lparr>cells := (cells lines)[begin + slot := x],
                         head := (head lines)[b := (if slot + 1 = depth then 0 else slot + 1)]\<rparr>));
          b = b + 1
      in (y, lines\<lparr>commutator := (if b = branches then 0 else b)\<rparr>))"

definition runLines :: "nat \<Rightarrow> 'a DelayLines \<Rightarrow> 'a list \<Rightarrow> 'a list \<Rightarrow> nat \<times> 'a list \<times> 'a DelayLines" where
  "runLines branches lines src dst =
     (let n = min (length src) (length dst)
      in (n, fold (\<lambda>k (dst, lines).
                let (y, lines) = lineStep branches lines (src ! k) in (dst[k := y], lines))
              [0..<n] (dst, lines)))"

definition interleave :: "'a Interleaver \<Rightarrow> 'a list \<Rightarrow> 'a list \<Rightarrow> nat \<times> 'a list \<times> 'a Interleaver" where
  "interleave self src dst =
     (if il_kind self = Convolutional
      then let (n, dst, lines) = runLines (il_branches self) (il_forward self) src dst
           in (n, dst, self\<lparr>il_forward := lines\<rparr>)
      else
        let width = length (il_map self);
            frames = min (length src div il_frameSize self) (length dst div width)
        in (frames * width,
            fold (\<lambda>f dst. fold (\<lambda>i dst. dst[f * width + i := src ! (f * il_frameSize self + il_map self ! i)])
                   [0..<width] dst) [0..<frames] dst,
            self))"

definition deinterleave :: "'a Interleaver \<Rightarrow> 'a list \<Rightarrow> 'a list \<Rightarrow> nat \<times> 'a list \<times> 'a Interleaver" where
  "deinterleave self src dst =
     (if il_kind self = Convolutional
      then let (n, dst, lines) = runLines (il_branches self) (il_reverse self) src dst
           in (n, dst, self\<lparr>il_reverse := lines\<rparr>)
      else
        let width = length (il_map self);
            frame = il_frameSize self;
            frames = min (length src div width) (length dst div frame)
        in (frames * frame,
            fold (\<lambda>f dst.
              if il_covers self
              then fold (\<lambda>i dst. dst[f * frame + i := src ! (f * width + il_inverse self ! i)]) [0..<frame] dst
              else fold (\<lambda>i dst. dst[f * frame + il_map self ! i := src ! (f * width + i)]) [0..<width]
                     (fold (\<lambda>i dst. dst[f * frame + i := il_fillValue self]) [0..<frame] dst))
              [0..<frames] dst,
            self))"

definition resetLines :: "'a \<Rightarrow> 'a DelayLines \<Rightarrow> 'a DelayLines" where
  "resetLines fillValue lines =
     lines\<lparr>cells := replicate (length (cells lines)) fillValue, head := replicate (length (head lines)) 0,
           commutator := 0\<rparr>"

definition reset :: "'a Interleaver \<Rightarrow> 'a Interleaver" where
  "reset self =
     self\<lparr>il_forward := resetLines (il_fillValue self) (il_forward self),
          il_reverse := resetLines (il_fillValue self) (il_reverse self)\<rparr>"

subsection \<open>The validation of a table\<close>

lemma checkTable_None_iff:
  "length seen = frame \<Longrightarrow>
    checkTable table frame i seen = None \<longleftrightarrow>
      distinct table \<and> (\<forall>x\<in>set table. x < frame \<and> \<not> seen ! x)"
proof (induction table arbitrary: i seen)
  case (Cons x table)
  then show ?case by (auto simp: nth_list_update)
qed simp

theorem permutation_accepts_exactly_permutations:
  "isl (permutation table dflt) \<longleftrightarrow>
    \<not> (table \<noteq> [] \<and> length table \<le> kMaxFrame \<and> distinct table \<and> set table = {..<length table})"
proof -
  have "checkTable table (length table) 0 (replicate (length table) False) = None \<longleftrightarrow>
      distinct table \<and> set table \<subseteq> {..<length table}"
    by (subst checkTable_None_iff) auto
  also have "\<dots> \<longleftrightarrow> distinct table \<and> set table = {..<length table}"
    using card_subset_eq [of "{..<length table}" "set table"] by (auto simp: distinct_card)
  finally have check: "checkTable table (length table) 0 (replicate (length table) False) = None \<longleftrightarrow>
      distinct table \<and> set table = {..<length table}" .
  show ?thesis
  proof (cases "checkTable table (length table) 0 (replicate (length table) False)")
    case None
    with check show ?thesis by (simp add: permutation_def)
  next
    case (Some err)
    with check have "\<not> (distinct table \<and> set table = {..<length table})" by simp
    with Some show ?thesis by (simp add: permutation_def)
  qed
qed

subsection \<open>The framed families\<close>

text \<open>What every framed object satisfies: an injective map into the frame and, when it covers, its inverse.\<close>

definition wellFramed :: "'a Interleaver \<Rightarrow> bool" where
  "wellFramed il \<longleftrightarrow>
     il_kind il \<noteq> Convolutional \<and> il_map il \<noteq> [] \<and> distinct (il_map il) \<and>
     set (il_map il) \<subseteq> {..<il_frameSize il} \<and> il_covers il = (length (il_map il) = il_frameSize il) \<and>
     (il_covers il \<longrightarrow> (\<forall>i<il_frameSize il. il_inverse il ! (il_map il ! i) = i))"

lemma covering_map:
  "distinct m \<Longrightarrow> set m \<subseteq> {..<n} \<Longrightarrow> length m = n \<Longrightarrow> set m = {..<n}"
  by (rule card_subset_eq) (simp_all add: distinct_card)

lemma finishFramed_wellFramed:
  assumes "il_kind il \<noteq> Convolutional" "il_map il \<noteq> []" "distinct (il_map il)"
    "set (il_map il) \<subseteq> {..<il_frameSize il}"
  shows "wellFramed (finishFramed il)"
proof (cases "length (il_map il) = il_frameSize il")
  case True
  let ?m = "il_map il" and ?n = "il_frameSize il"
  have "fold (\<lambda>i inverse. inverse[?m ! i := i]) [0..<?n] (replicate ?n 0) ! (?m ! i) = i" if "i < ?n" for i
  proof (rule fold_scatter_nth)
    show "inj_on (\<lambda>i. ?m ! i) (set [0..<?n])"
      using assms(3) True by (auto simp: inj_on_def nth_eq_iff_index_eq)
    have "?m ! i \<in> set ?m" using that True by simp
    then show "?m ! i < length (replicate ?n 0)" using assms(4) by auto
  qed (use that in simp)
  with True assms show ?thesis by (simp add: wellFramed_def finishFramed_def Let_def)
qed (use assms in \<open>simp add: wellFramed_def finishFramed_def Let_def\<close>)

lemma finishFramed_fields [simp]:
  "il_map (finishFramed il) = il_map il" "il_frameSize (finishFramed il) = il_frameSize il"
  "il_fillValue (finishFramed il) = il_fillValue il" "il_kind (finishFramed il) = il_kind il"
  by (simp_all add: finishFramed_def Let_def)

lemma permutation_wellFramed:
  assumes "permutation table dflt = Inr il"
  shows "wellFramed il" "il_map il = table" "il_frameSize il = length table"
proof -
  have ok: "table \<noteq> []" "distinct table" "set table = {..<length table}"
    using permutation_accepts_exactly_permutations [of table dflt] assms by auto
  have il: "il = finishFramed ((defaultInterleaver dflt)
      \<lparr>il_kind := Permutation, il_frameSize := length table, il_map := table\<rparr>)"
    using assms by (auto simp: permutation_def split: if_splits option.splits)
  show "wellFramed il" unfolding il by (rule finishFramed_wellFramed) (use ok in simp_all)
  show "il_map il = table" "il_frameSize il = length table" by (simp_all add: il)
qed

lemma readout_inj:
  fixes rows cols j :: nat
  assumes "0 < rows" "0 < cols"
  shows "inj_on (\<lambda>j. (j mod rows) * cols + j div rows) {..<rows * cols}"
    "j < rows * cols \<Longrightarrow> (j mod rows) * cols + j div rows < rows * cols"
proof -
  have col: "j div rows < cols" if "j < rows * cols" for j
    using that less_mult_imp_div_less [of j cols rows] by (simp add: mult.commute)
  show "inj_on (\<lambda>j. (j mod rows) * cols + j div rows) {..<rows * cols}"
  proof (rule inj_onI)
    fix j k assume jk: "j \<in> {..<rows * cols}" "k \<in> {..<rows * cols}"
      "(j mod rows) * cols + j div rows = (k mod rows) * cols + k div rows"
    then have c: "j div rows < cols" "k div rows < cols" using col by simp_all
    have "((j mod rows) * cols + j div rows) div cols = j mod rows" "((k mod rows) * cols + k div rows) div cols = k mod rows"
      using c by simp_all
    moreover have "((j mod rows) * cols + j div rows) mod cols = j div rows" "((k mod rows) * cols + k div rows) mod cols = k div rows"
      using c by simp_all
    ultimately have "j mod rows = k mod rows" "j div rows = k div rows" using jk(3) by metis+
    then show "j = k" by (metis div_mult_mod_eq)
  qed
  assume j: "j < rows * cols"
  have "(j mod rows) * cols + j div rows < (j mod rows) * cols + cols" using col [OF j] by simp
  also have "\<dots> = Suc (j mod rows) * cols" by simp
  also have "\<dots> \<le> rows * cols" using assms(1) by (intro mult_le_mono1) (simp add: Suc_leI)
  finally show "(j mod rows) * cols + j div rows < rows * cols" .
qed

lemma blockWindow_wellFramed:
  assumes "blockWindow rows cols off len fill = Inr il"
  shows "wellFramed il" "il_frameSize il = rows * cols" "il_fillValue il = fill" "0 < rows" "0 < cols" "0 < len"
    "off + len \<le> rows * cols"
    "il_map il = map (\<lambda>i. ((off + i) mod rows) * cols + (off + i) div rows) [0..<len]"
proof -
  have ok: "0 < rows" "0 < cols" "0 < len" "off + len \<le> rows * cols"
    and il: "il = finishFramed ((defaultInterleaver fill)
        \<lparr>il_kind := Block, il_rows := rows, il_cols := cols, il_frameSize := rows * cols, il_fillValue := fill,
         il_map := map (\<lambda>i. let j = off + i in (j mod rows) * cols + (j div rows)) [0..<len]\<rparr>)"
    using assms by (auto simp: blockWindow_def Let_def split: if_splits)
  show "0 < rows" "0 < cols" "0 < len" "off + len \<le> rows * cols" by (fact ok)+
  show "il_frameSize il = rows * cols" "il_fillValue il = fill"
    "il_map il = map (\<lambda>i. ((off + i) mod rows) * cols + (off + i) div rows) [0..<len]"
    by (simp_all add: il Let_def)
  have "inj_on (\<lambda>i. ((off + i) mod rows) * cols + (off + i) div rows) (set [0..<len])"
  proof (rule inj_onI)
    fix x y assume xy: "x \<in> set [0..<len]" "y \<in> set [0..<len]"
      "((off + x) mod rows) * cols + (off + x) div rows = ((off + y) mod rows) * cols + (off + y) div rows"
    have "off + x = off + y"
      by (rule inj_onD [OF readout_inj(1) [OF ok(1,2)] xy(3)]) (use xy(1,2) ok(4) in simp_all)
    then show "x = y" by simp
  qed
  moreover have "((off + i) mod rows) * cols + (off + i) div rows < rows * cols" if "i < len" for i
    using readout_inj(2) [OF ok(1,2), of "off + i"] ok(4) that by simp
  ultimately show "wellFramed il"
    unfolding il Let_def
    by (intro finishFramed_wellFramed) (simp_all add: distinct_map ok(3) image_subset_iff)
qed

text \<open>Both directions over whole frames, item by item.\<close>

lemma interleave_framed:
  assumes wf: "wellFramed il" and len: "length src = n * il_frameSize il" "length dst = n * length (il_map il)"
  defines "r \<equiv> interleave il src dst"
  shows "fst r = n * length (il_map il)" "snd (snd r) = il" "length (fst (snd r)) = n * length (il_map il)"
    "f < n \<Longrightarrow> i < length (il_map il) \<Longrightarrow>
      fst (snd r) ! (f * length (il_map il) + i) = src ! (f * il_frameSize il + il_map il ! i)"
proof -
  let ?w = "length (il_map il)" and ?F = "il_frameSize il"
  have pos: "0 < ?w" "0 < ?F"
    using wf by (auto simp: wellFramed_def intro!: gr0I)
  have frames: "min (length src div ?F) (length dst div ?w) = n" using len pos by simp
  define step where "step = (\<lambda>f dst. fold (\<lambda>i dst. dst[f * ?w + i := src ! (f * ?F + il_map il ! i)]) [0..<?w] dst)"
  define G where "G = (\<lambda>f i. src ! (f * ?F + il_map il ! i))"
  have r: "r = (n * ?w, fold step [0..<n] dst, il)"
    using wf unfolding r_def interleave_def Let_def frames step_def by (simp add: wellFramed_def)
  have room: "f * ?w + ?w \<le> n * ?w" if "f < n" for f
    using that by (metis Suc_leI add.commute mult_Suc mult_le_mono1)
  have lenstep: "length (step f xs) = length xs" for f xs by (simp add: step_def)
  have same: "step f xs ! (f * ?w + i) = G f i" if "f < n" "length xs = n * ?w" "i < ?w" for f xs i
    using that room [of f] by (simp add: step_def G_def fold_update_nth)
  have outside: "step f xs ! k = xs ! k"
    if "f < n" "length xs = n * ?w" "k < n * ?w" "\<not> (f * ?w \<le> k \<and> k < f * ?w + ?w)" for f xs k
    using that by (auto simp: step_def fold_update_nth)
  have lenall: "length (fold step [0..<n] dst) = n * ?w"
    by (rule fold_chunks(1) [where L = "n * ?w" and c = ?w and G = G])
       (fact lenstep, erule (3) outside, erule (2) same, simp, fact len(2))
  have slots: "fold step [0..<n] dst ! k = (if k < n * ?w then G (k div ?w) (k mod ?w) else dst ! k)" if k: "k < n * ?w" for k
    by (rule fold_chunks(2) [where L = "n * ?w" and c = ?w and G = G])
       (fact lenstep, erule (3) outside, erule (2) same, simp, fact len(2), fact k)
  show "fst r = n * ?w" "snd (snd r) = il" "length (fst (snd r)) = n * ?w"
    by (simp_all add: r lenall)
  assume fi: "f < n" "i < ?w"
  then have "f * ?w + i < n * ?w" using room [of f] by simp
  moreover have "(f * ?w + i) div ?w = f" "(f * ?w + i) mod ?w = i"
    using fi(2) by (simp_all add: div_nat_eqI mult.commute)
  ultimately show "fst (snd r) ! (f * ?w + i) = src ! (f * ?F + il_map il ! i)"
    using slots [of "f * ?w + i"] by (simp add: r G_def)
qed

lemma deinterleave_framed:
  assumes wf: "wellFramed il" and len: "length src = n * length (il_map il)" "length dst = n * il_frameSize il"
  defines "r \<equiv> deinterleave il src dst"
  shows "fst r = n * il_frameSize il" "snd (snd r) = il" "length (fst (snd r)) = n * il_frameSize il"
    "f < n \<Longrightarrow> i < length (il_map il) \<Longrightarrow>
      fst (snd r) ! (f * il_frameSize il + il_map il ! i) = src ! (f * length (il_map il) + i)"
    "f < n \<Longrightarrow> q < il_frameSize il \<Longrightarrow> q \<notin> set (il_map il) \<Longrightarrow>
      fst (snd r) ! (f * il_frameSize il + q) = il_fillValue il"
proof -
  let ?m = "il_map il" and ?w = "length (il_map il)" and ?F = "il_frameSize il"
  have pos: "0 < ?w" "0 < ?F"
    using wf by (auto simp: wellFramed_def intro!: gr0I)
  have frames: "min (length src div ?w) (length dst div ?F) = n" using len pos by simp
  have covers: "il_covers il \<longleftrightarrow> ?w = ?F" and m: "distinct ?m" "set ?m \<subseteq> {..<?F}"
    and inverse: "il_covers il \<Longrightarrow> i < ?F \<Longrightarrow> il_inverse il ! (?m ! i) = i" for i
    using wf by (simp_all add: wellFramed_def)
  define step where "step = (\<lambda>f dst. if il_covers il
      then fold (\<lambda>i dst. dst[f * ?F + i := src ! (f * ?w + il_inverse il ! i)]) [0..<?F] dst
      else fold (\<lambda>i dst. dst[f * ?F + ?m ! i := src ! (f * ?w + i)]) [0..<?w]
             (fold (\<lambda>i dst. dst[f * ?F + i := il_fillValue il]) [0..<?F] dst))"
  define G where "G = (\<lambda>f q. step f (replicate (n * ?F) (il_fillValue il)) ! (f * ?F + q))"
  have r: "r = (n * ?F, fold step [0..<n] dst, il)"
    using wf unfolding r_def deinterleave_def Let_def frames step_def by (simp add: wellFramed_def)
  have room: "f * ?F + ?F \<le> n * ?F" if "f < n" for f
    using that by (metis Suc_leI add.commute mult_Suc mult_le_mono1)
  have lenstep: "length (step f xs) = length xs" for f xs by (simp add: step_def)
  have inj: "inj_on (\<lambda>i. f * ?F + ?m ! i) (set [0..<?w])" for f
    using m(1) by (auto simp: inj_on_def nth_eq_iff_index_eq)
  have mF: "i < ?w \<Longrightarrow> ?m ! i < ?F" for i using m(2) by (auto simp: subset_iff)
  have mapped: "step f xs ! (f * ?F + ?m ! i) = src ! (f * ?w + i)"
    if "f < n" "length xs = n * ?F" "i < ?w" for f xs i
  proof (cases "il_covers il")
    case True
    have "f * ?F + ?m ! i < length xs" using room [OF that(1)] mF [OF that(3)] that(2) by simp
    then show ?thesis
      using True that mF [OF that(3)] covers inverse [OF True, of i]
      by (simp add: step_def fold_update_nth)
  next
    case False
    have "f * ?F + ?m ! i < n * ?F" using room [OF that(1)] mF [OF that(3)] by simp
    then show ?thesis
      unfolding step_def if_not_P [OF False]
      by (intro fold_scatter_nth [where g = "\<lambda>i. f * ?F + ?m ! i"] inj) (use that in simp_all)
  qed
  have filled: "step f xs ! (f * ?F + q) = il_fillValue il"
    if "f < n" "length xs = n * ?F" "q < ?F" "q \<notin> set ?m" for f xs q
  proof -
    have "\<not> il_covers il"
      using covering_map [OF m] that(3,4) by (auto simp: covers)
    moreover have "f * ?F + ?m ! i \<noteq> f * ?F + q" if "i \<in> set [0..<?w]" for i
      using that \<open>q \<notin> set ?m\<close> by auto
    ultimately have "step f xs ! (f * ?F + q) = fold (\<lambda>i dst. dst[f * ?F + i := il_fillValue il]) [0..<?F] xs ! (f * ?F + q)"
      unfolding step_def by (subst if_not_P) (auto intro: fold_scatter_other [where g = "\<lambda>i. f * ?F + ?m ! i"])
    then show ?thesis
      using that room [OF that(1)] by (simp add: fold_update_nth)
  qed
  have same: "step f xs ! (f * ?F + q) = G f q" if "f < n" "length xs = n * ?F" "q < ?F" for f xs q
  proof (cases "q \<in> set ?m")
    case True
    then obtain i where "i < ?w" "q = ?m ! i" by (auto simp: in_set_conv_nth)
    with that mapped show ?thesis by (simp add: G_def)
  qed (use that filled in \<open>simp add: G_def\<close>)
  have outside: "step f xs ! k = xs ! k"
    if "f < n" "length xs = n * ?F" "k < n * ?F" "\<not> (f * ?F \<le> k \<and> k < f * ?F + ?F)" for f xs k
  proof -
    have "f * ?F + ?m ! i \<noteq> k" if "i \<in> set [0..<?w]" for i using mF [of i] that \<open>\<not> _\<close> by auto
    then have "fold (\<lambda>i dst. dst[f * ?F + ?m ! i := src ! (f * ?w + i)]) [0..<?w] ys ! k = ys ! k" for ys
      by (intro fold_scatter_other [where g = "\<lambda>i. f * ?F + ?m ! i"])
    then show ?thesis using that by (auto simp: step_def fold_update_nth)
  qed
  have lenall: "length (fold step [0..<n] dst) = n * ?F"
    by (rule fold_chunks(1) [where L = "n * ?F" and c = ?F and G = G])
       (fact lenstep, erule (3) outside, erule (2) same, simp, fact len(2))
  have slots: "fold step [0..<n] dst ! k = (if k < n * ?F then G (k div ?F) (k mod ?F) else dst ! k)" if k: "k < n * ?F" for k
    by (rule fold_chunks(2) [where L = "n * ?F" and c = ?F and G = G])
       (fact lenstep, erule (3) outside, erule (2) same, simp, fact len(2), fact k)
  have slot: "fold step [0..<n] dst ! (f * ?F + q) = G f q" if "f < n" "q < ?F" for f q
    using slots [of "f * ?F + q"] room [OF that(1)] that by simp
  show "fst r = n * ?F" "snd (snd r) = il" "length (fst (snd r)) = n * ?F"
    by (simp_all add: r lenall)
  show "f < n \<Longrightarrow> i < ?w \<Longrightarrow> fst (snd r) ! (f * ?F + ?m ! i) = src ! (f * ?w + i)"
    using slot mapped mF by (simp add: r G_def)
  show "f < n \<Longrightarrow> q < ?F \<Longrightarrow> q \<notin> set ?m \<Longrightarrow> fst (snd r) ! (f * ?F + q) = il_fillValue il"
    using slot filled by (simp add: r G_def)
qed

text \<open>C19. For a permutation or a (possibly windowed) block, deinterleaving what interleave produced gives
  back every item the map reaches and the fill value everywhere else, over any number of whole
  frames, and leaves the object unchanged.\<close>

theorem framed_roundtrip:
  assumes "permutation table dflt = Inr il \<or> blockWindow rows cols off len dflt = Inr il"
    and "length xs = n * il_frameSize il" "length mid = n * length (il_map il)" "length out = n * il_frameSize il"
    and "interleave il xs mid = (w, mid', il1)" "deinterleave il1 mid' out = (w', out', il2)"
  shows "w = n * length (il_map il) \<and> w' = n * il_frameSize il \<and> il2 = il \<and>
    (\<forall>f<n. \<forall>q<il_frameSize il. out' ! (f * il_frameSize il + q) =
       (if q \<in> set (il_map il) then xs ! (f * il_frameSize il + q) else il_fillValue il))"
proof -
  have wf: "wellFramed il"
    using assms(1) by (elim disjE) (rule permutation_wellFramed(1) blockWindow_wellFramed(1), assumption)+
  note fwd = interleave_framed [OF wf assms(2,3)]
  have il1: "il1 = il" "w = n * length (il_map il)" "length mid' = n * length (il_map il)"
    using fwd(1-3) assms(5) by simp_all
  note bwd = deinterleave_framed [OF wf il1(3) assms(4)]
  have dec: "deinterleave il mid' out = (w', out', il2)" using assms(6) il1(1) by simp
  have item: "out' ! (f * il_frameSize il + q) =
      (if q \<in> set (il_map il) then xs ! (f * il_frameSize il + q) else il_fillValue il)"
    if fq: "f < n" "q < il_frameSize il" for f q
  proof (cases "q \<in> set (il_map il)")
    case True
    then obtain i where i: "i < length (il_map il)" "q = il_map il ! i" by (auto simp: in_set_conv_nth)
    with fwd(4) [OF fq(1) i(1)] bwd(4) [OF fq(1) i(1)] assms(5) dec True show ?thesis by simp
  qed (use bwd(5) [OF fq] dec in simp)
  show ?thesis using bwd(1,2) dec il1(2) item by simp
qed

lemma framed_roundtrip_witness:
  "\<exists>il mid il1 out. blockWindow 2 3 1 4 (0 :: nat) = Inr il \<and> interleave il [10, 11, 12, 13, 14, 15] [0, 0, 0, 0] = (4, mid, il1) \<and>
     deinterleave il1 mid [0, 0, 0, 0, 0, 0] = (6, out, il) \<and> out ! 3 = 13 \<and> out ! 0 = 0"
proof -
  obtain il where il: "blockWindow 2 3 1 4 (0 :: nat) = Inr il" by (simp add: blockWindow_def kMaxFrame_def Let_def)
  have map: "il_map il = [3, 1, 4, 2]" "il_frameSize il = 6" "il_fillValue il = 0"
    using blockWindow_wellFramed(2,3,8) [OF il] by (simp_all add: upt_rec)
  obtain w mid il1 where fwd: "interleave il [10, 11, 12, 13, 14, 15] [0, 0, 0, 0] = (w, mid, il1)"
    by (metis prod_cases3)
  obtain w' out il2 where bwd: "deinterleave il1 mid [0, 0, 0, 0, 0, 0] = (w', out, il2)"
    by (metis prod_cases3)
  from framed_roundtrip [of "[]" 0 il 2 3 1 4 "[10, 11, 12, 13, 14, 15]" 1, OF disjI2, OF il _ _ _ fwd bwd] map
  have "w = 4 \<and> w' = 6 \<and> il2 = il \<and> (\<forall>f<1. \<forall>q<6. out ! (f * 6 + q) =
      (if q \<in> {3, 1, 4, 2} then [10, 11, 12, 13, 14, 15] ! (f * 6 + q) else 0))" by simp
  then have "w = 4" "w' = 6" "il2 = il" "out ! 3 = 13" "out ! 0 = 0" by simp_all
  with il fwd bwd show ?thesis by blast
qed

theorem block_spreads_rows:
  assumes "block rows cols dflt = Inr il" "length xs = rows * cols" "length out = rows * cols"
    "r < rows" "c < cols"
  shows "fst (snd (interleave il xs out)) ! (c * rows + r) = xs ! (r * cols + c)"
proof -
  note il = blockWindow_wellFramed [OF assms(1) [unfolded block_def]]
  have i: "c * rows + r < rows * cols"
  proof -
    have "c * rows + r < Suc c * rows" using assms(4) by simp
    also have "\<dots> \<le> cols * rows" using assms(5) by (intro mult_le_mono1) simp
    finally show ?thesis by (simp add: mult.commute)
  qed
  have "(c * rows + r) mod rows = r" "(c * rows + r) div rows = c" using assms(4) by simp_all
  with i have "il_map il ! (c * rows + r) = r * cols + c" by (simp add: il(8))
  with interleave_framed(4) [OF il(1), of xs 1 out 0 "c * rows + r"] i assms(2,3)
  show ?thesis by (simp add: il(2,8))
qed

lemma block_spreads_rows_witness:
  "\<exists>il. block 2 3 (0 :: nat) = Inr il \<and> fst (snd (interleave il [1, 2, 3, 4, 5, 6] [0, 0, 0, 0, 0, 0])) ! 5 = 6"
proof -
  obtain il where il: "block 2 3 (0 :: nat) = Inr il" by (simp add: block_def blockWindow_def kMaxFrame_def Let_def)
  with block_spreads_rows [OF il, of "[1, 2, 3, 4, 5, 6]" "[0, 0, 0, 0, 0, 0]" 1 2] show ?thesis by simp
qed

subsection \<open>The convolutional family\<close>

text \<open>The walk as a function from the items in to the items out.\<close>

fun lineItems :: "nat \<Rightarrow> 'a DelayLines \<Rightarrow> 'a list \<Rightarrow> 'a list \<times> 'a DelayLines" where
  "lineItems branches lines [] = ([], lines)"
| "lineItems branches lines (x # xs) =
     (let (y, lines) = lineStep branches lines x; (ys, lines) = lineItems branches lines xs
      in (y # ys, lines))"

lemma lineItems_append:
  "lineItems B lines (xs @ ys) =
     (let (us, lines) = lineItems B lines xs; (vs, lines) = lineItems B lines ys in (us @ vs, lines))"
  by (induction xs arbitrary: lines) (simp_all add: split_beta Let_def)

lemma length_lineItems [simp]: "length (fst (lineItems B lines xs)) = length xs"
  by (induction xs arbitrary: lines) (simp_all add: split_beta Let_def)

lemma runLines_items:
  assumes "length dst = length src"
  shows "runLines B lines src dst = (length src, lineItems B lines src)"
proof -
  let ?f = "\<lambda>k (dst, lines). let (y, lines) = lineStep B lines (src ! k) in (dst[k := y], lines)"
  have "fold ?f [0..<n] (dst, lines) =
      (fst (lineItems B lines (take n src)) @ drop n dst, snd (lineItems B lines (take n src)))"
    if "n \<le> length src" for n
    using that
  proof (induction n)
    case (Suc n)
    then have "take (Suc n) src = take n src @ [src ! n]" "drop n dst = dst ! n # drop (Suc n) dst"
      using assms by (simp_all add: take_Suc_conv_app_nth Cons_nth_drop_Suc)
    with Suc show ?case
      by (simp add: lineItems_append split_beta Let_def list_update_append)
  qed simp
  from this [of "length src"] assms show ?thesis by (simp add: runLines_def Let_def)
qed

end
