(* ===== verification/InterleaverStream.thy ===== *)
theory InterleaverStream
  imports Interleaver
begin

section \<open>The convolutional interleaver as a stream\<close>

text \<open>
  The commutator walk of \<^verbatim>\<open>fec/Interleaver.hpp\<close> over a stream in calls of any length: each branch's ring is the queue
  of the last items that went through it, so an item leaves as many turns of the commutator later as its branch has
  cells, and the two complementary sets of lines together delay every item by the latency the class reports.
\<close>

subsection \<open>The lines of one direction\<close>

text \<open>Where a branch's cells begin, and how often the walk has visited a branch before item \<open>n\<close>.\<close>

definition branchOffset :: "(nat \<Rightarrow> nat) \<Rightarrow> nat \<Rightarrow> nat" where
  "branchOffset depth b = sum_list (map depth [0..<b])"

definition visits :: "nat \<Rightarrow> nat \<Rightarrow> nat \<Rightarrow> nat" where
  "visits B n b = n div B + (if b < n mod B then 1 else 0)"

lemma branchOffset_Suc [simp]: "branchOffset depth (Suc b) = branchOffset depth b + depth b"
  by (simp add: branchOffset_def)

lemma branchOffset_mono: "b \<le> b' \<Longrightarrow> branchOffset depth b \<le> branchOffset depth b'"
  by (induction rule: dec_induct) simp_all

lemma branch_cells_disjoint:
  assumes "s < depth b" "s' < depth b'" "b \<noteq> b'"
  shows "branchOffset depth b + s \<noteq> branchOffset depth b' + s'"
proof (cases "b < b'")
  case True
  then show ?thesis using assms branchOffset_mono [of "Suc b" b' depth] by simp
next
  case False
  then show ?thesis using assms branchOffset_mono [of "Suc b'" b depth] by simp
qed

lemma branch_cell_bound: "b < B \<Longrightarrow> s < depth b \<Longrightarrow> branchOffset depth b + s < branchOffset depth B"
  using branchOffset_mono [of "Suc b" B depth] by simp

lemma visits_now: "0 < B \<Longrightarrow> visits B n (n mod B) = n div B"
  by (simp add: visits_def)

lemma visits_Suc:
  assumes "b < B"
  shows "visits B (Suc n) b = visits B n b + (if b = n mod B then 1 else 0)"
proof (cases "Suc (n mod B) = B")
  case True
  then have "Suc n div B = Suc (n div B)" "Suc n mod B = 0" by (simp_all add: div_Suc mod_Suc)
  then show ?thesis using assms True by (auto simp: visits_def)
next
  case False
  then have "Suc n div B = n div B" "Suc n mod B = Suc (n mod B)" by (simp_all add: div_Suc mod_Suc)
  then show ?thesis by (auto simp: visits_def)
qed

text \<open>
  The lines after the first \<open>n\<close> items of the stream \<open>f\<close>: slot \<open>i\<close> behind a branch's head holds what entered the branch
  \<open>depth - i\<close> visits ago, the fill value before the first.
\<close>

definition branchHistory :: "nat \<Rightarrow> (nat \<Rightarrow> nat) \<Rightarrow> 'a \<Rightarrow> (nat \<Rightarrow> 'a) \<Rightarrow> nat \<Rightarrow> nat \<Rightarrow> 'a" where
  "branchHistory B depth fill f b j = (if j < depth b then fill else f ((j - depth b) * B + b))"

definition linesAfter :: "nat \<Rightarrow> (nat \<Rightarrow> nat) \<Rightarrow> 'a \<Rightarrow> (nat \<Rightarrow> 'a) \<Rightarrow> nat \<Rightarrow> 'a DelayLines \<Rightarrow> bool" where
  "linesAfter B depth fill f n lines \<longleftrightarrow>
     offset lines = map (branchOffset depth) [0..<Suc B] \<and> length (cells lines) = branchOffset depth B \<and>
     length (head lines) = B \<and> commutator lines = n mod B \<and>
     (\<forall>b<B. 0 < depth b \<longrightarrow> head lines ! b < depth b \<and>
       (\<forall>i<depth b. cells lines ! (branchOffset depth b + (head lines ! b + i) mod depth b) =
          branchHistory B depth fill f b (visits B n b + i)))"

lemma makeLines_fresh:
  assumes "0 < B"
  shows "linesAfter B depth fill f 0 (makeLines B depth fill)"
proof -
  have "fold (\<lambda>b (offset, total). (offset[b := total], total + depth b)) [0..<n] (replicate (B + 1) 0, 0) =
      (map (branchOffset depth) [0..<n] @ replicate (B + 1 - n) 0, branchOffset depth n)" if "n \<le> B" for n
    using that
  proof (induction n)
    case (Suc n)
    then have "replicate (B + 1 - n) 0 = (0 :: nat) # replicate (B + 1 - Suc n) 0"
      by (simp add: Suc_diff_le)
    then show ?case using Suc by (simp add: list_update_append)
  qed (simp add: branchOffset_def)
  from this [of B] show ?thesis
    using assms branch_cell_bound [of _ B _ depth]
    by (auto simp: linesAfter_def makeLines_def list_update_append branchHistory_def visits_def)
qed

text \<open>One item of the walk.\<close>

lemma lineStep_delay:
  assumes B: "0 < B" and inv: "linesAfter B depth fill f n lines" and step: "lineStep B lines (f n) = (y, lines')"
  shows "y = (if n < depth (n mod B) * B then fill else f (n - depth (n mod B) * B))"
    "linesAfter B depth fill f (Suc n) lines'"
proof -
  define b0 d h where "b0 = n mod B" and "d = depth b0" and "h = head lines ! b0"
  note I = inv [unfolded linesAfter_def]
  have b0: "b0 < B" using B by (simp add: b0_def)
  have com: "commutator lines = b0" using I by (simp add: b0_def)
  have offs: "offset lines ! b = branchOffset depth b" if "b \<le> B" for b using I that by (simp add: nth_append less_Suc_eq_le del: upt_Suc)
  have depth0: "offset lines ! (b0 + 1) - offset lines ! b0 = d" using b0 by (simp add: offs d_def)
  note stepped = step [unfolded lineStep_def Let_def com depth0]
  have now: "visits B n b0 = n div B" unfolding b0_def by (rule visits_now [OF B])
  have split: "n = n div B * B + b0" by (simp add: b0_def)
  have turn: "Suc n mod B = (if b0 + 1 = B then 0 else b0 + 1)" by (simp add: b0_def mod_Suc)
  have both: "y = (if n < d * B then fill else f (n - d * B)) \<and> linesAfter B depth fill f (Suc n) lines'"
  proof (cases "d = 0")
    case True
    have "y = f n" "lines' = lines\<lparr>commutator := Suc n mod B\<rparr>"
      using stepped by (auto simp: True turn)
    moreover have "visits B (Suc n) b = visits B n b" if "b < B" "0 < depth b" for b
      using that True unfolding visits_Suc [OF that(1)] by (auto simp: d_def b0_def)
    ultimately show ?thesis using I True by (simp add: linesAfter_def)
  next
    case False
    then have d: "0 < d" by simp
    have h: "h < d" "\<And>i. i < d \<Longrightarrow> cells lines ! (branchOffset depth b0 + (h + i) mod d) = branchHistory B depth fill f b0 (n div B + i)"
      using I b0 d now by (auto simp: h_def d_def)
    let ?slot = "branchOffset depth b0 + h"
    have run: "y = cells lines ! ?slot" "lines' = lines\<lparr>cells := (cells lines)[?slot := f n],
        head := (head lines)[b0 := (if h + 1 = d then 0 else h + 1)], commutator := Suc n mod B\<rparr>"
      using stepped b0 d by (auto simp: turn offs h_def)
    have slot: "?slot < length (cells lines)" using I branch_cell_bound [OF b0, of h depth] h(1) by (simp add: d_def)
    have y: "y = (if n < d * B then fill else f (n - d * B))"
    proof -
      have "y = branchHistory B depth fill f b0 (n div B)" using h(2) [of 0] h(1) d run(1) by simp
      moreover have "n < d * B \<longleftrightarrow> n div B < d" using B by (simp add: div_less_iff_less_mult)
      moreover have "(n div B - d) * B + b0 = n - d * B" if "d \<le> n div B"
      proof -
        have "d * B \<le> n div B * B" using that by simp
        then show ?thesis using split by (simp add: diff_mult_distrib)
      qed
      ultimately show ?thesis by (simp add: branchHistory_def d_def)
    qed
    have head': "(if h + 1 = d then 0 else h + 1) = (h + 1) mod d" using h(1) by simp
    have branch: "head lines' ! b < depth b \<and> (\<forall>i<depth b. cells lines' ! (branchOffset depth b + (head lines' ! b + i) mod depth b) =
        branchHistory B depth fill f b (visits B (Suc n) b + i))" if b: "b < B" "0 < depth b" for b
    proof (cases "b = b0")
      case False
      have "cells lines' ! (branchOffset depth b + s) = cells lines ! (branchOffset depth b + s)" if "s < depth b" for s
        using branch_cells_disjoint [where depth = depth and b = b and b' = b0 and s' = h, OF that] h(1) False by (simp add: run(2) d_def)
      moreover have "head lines' ! b = head lines ! b" using False by (simp add: run(2))
      moreover have "visits B (Suc n) b = visits B n b" using False b by (simp add: visits_Suc b0_def)
      ultimately show ?thesis using I b by simp
    next
      case True
      have new_head: "head lines' ! b0 = (h + 1) mod d" using I b0 head' by (simp add: run(2))
      have new_visits: "visits B (Suc n) b0 = n div B + 1" using visits_Suc [OF b0] now by (simp add: b0_def)
      have cell: "cells lines' ! (branchOffset depth b0 + ((h + 1) mod d + i) mod d) = branchHistory B depth fill f b0 (n div B + 1 + i)"
        if i: "i < d" for i
      proof (cases "i + 1 = d")
        case True
        then have "((h + 1) mod d + i) mod d = h" using h(1) by (simp add: mod_add_left_eq) (metis add.assoc add.commute mod_add_self2 mod_less plus_1_eq_Suc)
        moreover have "n div B + 1 + i - d = n div B" "\<not> n div B + 1 + i < d" using True by simp_all
        then have "branchHistory B depth fill f b0 (n div B + 1 + i) = f n"
          unfolding branchHistory_def d_def [symmetric] by (simp add: split [symmetric])
        ultimately show ?thesis using slot by (simp add: run(2))
      next
        case False
        then have i1: "i + 1 < d" using i by simp
        have at: "((h + 1) mod d + i) mod d = (h + (i + 1)) mod d" unfolding mod_add_left_eq by (simp add: ac_simps)
        have "(h + (i + 1)) mod d \<noteq> h"
        proof
          assume eq: "(h + (i + 1)) mod d = h"
          show False
          proof (cases "h + (i + 1) < d")
            case False
            then have "(h + (i + 1)) mod d = h + (i + 1) - d" using i1 h(1) by (simp add: le_mod_geq)
            then show False using eq i1 by simp
          qed (use eq in simp)
        qed
        then have "cells lines' ! (branchOffset depth b0 + (h + (i + 1)) mod d) = cells lines ! (branchOffset depth b0 + (h + (i + 1)) mod d)"
          by (simp add: run(2))
        then show ?thesis unfolding at using h(2) [OF i1] by (simp add: ac_simps)
      qed
      show ?thesis unfolding True using new_head new_visits cell d by (simp add: d_def)
    qed
    have "linesAfter B depth fill f (Suc n) lines'" using I branch unfolding linesAfter_def by (simp add: run(2))
    then show ?thesis using y by blast
  qed
  then show "y = (if n < depth (n mod B) * B then fill else f (n - depth (n mod B) * B))" "linesAfter B depth fill f (Suc n) lines'"
    by (simp_all add: d_def b0_def)
qed


lemma lineItems_delay:
  assumes B: "0 < B"
  shows "linesAfter B depth fill f n lines \<Longrightarrow> \<exists>lines'. linesAfter B depth fill f (n + m) lines' \<and>
    lineItems B lines (map f [n..<n + m]) =
      (map (\<lambda>k. if k < depth (k mod B) * B then fill else f (k - depth (k mod B) * B)) [n..<n + m], lines')"
proof (induction m arbitrary: n lines)
  case (Suc m)
  obtain y lines1 where step: "lineStep B lines (f n) = (y, lines1)" by (cases "lineStep B lines (f n)")
  note one = lineStep_delay [OF B Suc.prems step]
  obtain lines' where "linesAfter B depth fill f (Suc n + m) lines'"
    "lineItems B lines1 (map f [Suc n..<Suc n + m]) =
      (map (\<lambda>k. if k < depth (k mod B) * B then fill else f (k - depth (k mod B) * B)) [Suc n..<Suc n + m], lines')"
    using Suc.IH [OF one(2)] by blast
  moreover have "[n..<n + Suc m] = n # [Suc n..<Suc n + m]" by (simp add: upt_rec [of n] del: upt_Suc)
  ultimately show ?case using step one(1) by (simp del: upt_Suc)
qed simp

subsection \<open>Streams in calls of any length\<close>

text \<open>One operation of one object over a sequence of calls, each a source span and the span it writes.\<close>

fun streamThrough :: "('a Interleaver \<Rightarrow> 'a list \<Rightarrow> 'a list \<Rightarrow> nat \<times> 'a list \<times> 'a Interleaver) \<Rightarrow>
    'a Interleaver \<Rightarrow> ('a list \<times> 'a list) list \<Rightarrow> 'a list \<times> 'a Interleaver" where
  "streamThrough operation il [] = ([], il)"
| "streamThrough operation il ((src, dst) # calls) =
     (let (n, written, il) = operation il src dst; (rest, il) = streamThrough operation il calls in (take n written @ rest, il))"

lemma interleave_stream:
  assumes "il_kind il = Convolutional" "\<forall>(src, dst)\<in>set calls. length dst = length src"
  shows "streamThrough interleave il calls =
    (let (ys, lines) = lineItems (il_branches il) (il_forward il) (concat (map fst calls)) in (ys, il\<lparr>il_forward := lines\<rparr>))"
  using assms
proof (induction calls arbitrary: il)
  case (Cons call calls)
  obtain src dst where call: "call = (src, dst)" by (cases call)
  obtain ys lines where items: "lineItems (il_branches il) (il_forward il) src = (ys, lines)"
    by (cases "lineItems (il_branches il) (il_forward il) src")
  have "length ys = length src" using length_lineItems [of "il_branches il" "il_forward il" src] items by simp
  moreover have "interleave il src dst = (length src, ys, il\<lparr>il_forward := lines\<rparr>)"
    using Cons.prems items by (simp add: call interleave_def runLines_items)
  ultimately show ?case
    using Cons.IH [of "il\<lparr>il_forward := lines\<rparr>"] Cons.prems items by (simp add: call lineItems_append split_beta Let_def)
qed simp

lemma deinterleave_stream:
  assumes "il_kind il = Convolutional" "\<forall>(src, dst)\<in>set calls. length dst = length src"
  shows "streamThrough deinterleave il calls =
    (let (ys, lines) = lineItems (il_branches il) (il_reverse il) (concat (map fst calls)) in (ys, il\<lparr>il_reverse := lines\<rparr>))"
  using assms
proof (induction calls arbitrary: il)
  case (Cons call calls)
  obtain src dst where call: "call = (src, dst)" by (cases call)
  obtain ys lines where items: "lineItems (il_branches il) (il_reverse il) src = (ys, lines)"
    by (cases "lineItems (il_branches il) (il_reverse il) src")
  have "length ys = length src" using length_lineItems [of "il_branches il" "il_reverse il" src] items by simp
  moreover have "deinterleave il src dst = (length src, ys, il\<lparr>il_reverse := lines\<rparr>)"
    using Cons.prems items by (simp add: call deinterleave_def runLines_items)
  ultimately show ?case
    using Cons.IH [of "il\<lparr>il_reverse := lines\<rparr>"] Cons.prems items by (simp add: call lineItems_append split_beta Let_def)
qed simp

lemma fresh_lines_delay:
  assumes "0 < B" "lineItems B (makeLines B depth fill) xs = (ys, lines)"
  shows "length ys = length xs"
    "k < length xs \<Longrightarrow> ys ! k = (if k < depth (k mod B) * B then fill else xs ! (k - depth (k mod B) * B))"
proof -
  obtain lines' where "lineItems B (makeLines B depth fill) (map ((!) xs) [0..<0 + length xs]) =
      (map (\<lambda>k. if k < depth (k mod B) * B then fill else xs ! (k - depth (k mod B) * B)) [0..<0 + length xs], lines')"
    using lineItems_delay [OF assms(1) makeLines_fresh [OF assms(1), of depth fill "(!) xs"]] by blast
  then have ys: "ys = map (\<lambda>k. if k < depth (k mod B) * B then fill else xs ! (k - depth (k mod B) * B)) [0..<length xs]"
    using assms(2) by (simp add: map_nth)
  then show "length ys = length xs" by simp
  assume "k < length xs"
  then show "ys ! k = (if k < depth (k mod B) * B then fill else xs ! (k - depth (k mod B) * B))" by (simp add: ys)
qed

text \<open>C20. Over calls of any lengths, the convolutional interleaver delays item k by (k mod branches) *
  unitDelay * branches items, emitting the fill value before, and the same object deinterleaving
  that stream, again in calls of any lengths, gives back every item exactly latency() items late,
  behind latency() fill values: neither direction disturbs the lines of the other.\<close>

theorem convolutional_stream_delay:
  assumes il: "convolutional B M fill dflt = Inr il"
    and calls: "\<forall>(src, dst)\<in>set calls. length dst = length src" "streamThrough interleave il calls = (ys, il')"
    and again: "\<forall>(src, dst)\<in>set calls'. length dst = length src" "streamThrough deinterleave il' calls' = (zs, il'')"
      "concat (map fst calls') = ys"
    and xs: "xs = concat (map fst calls)"
  shows "length ys = length xs \<and>
    (\<forall>k<length xs. ys ! k = (if k < k mod B * M * B then fill else xs ! (k - k mod B * M * B))) \<and>
    length zs = length xs \<and>
    (\<forall>k<length xs. zs ! k = (if k < latency il then fill else xs ! (k - latency il)))"
proof -
  have B: "0 < B" "2 \<le> B" and fields: "il_kind il = Convolutional" "il_branches il = B" "il_unitDelay il = M"
    "il_forward il = makeLines B (\<lambda>b. b * M) fill" "il_reverse il = makeLines B (\<lambda>b. (B - 1 - b) * M) fill"
    using il by (auto simp: convolutional_def split: if_splits)
  obtain ys1 lines where items: "lineItems B (makeLines B (\<lambda>b. b * M) fill) xs = (ys1, lines)" by (metis prod.collapse)
  then have there: "lineItems B (makeLines B (\<lambda>b. b * M) fill) xs = (ys, lines)" "il' = il\<lparr>il_forward := lines\<rparr>"
    using interleave_stream [OF fields(1) calls(1), unfolded fields, folded xs] calls(2) by simp_all
  have "il_kind il' = Convolutional" "il_branches il' = B" "il_reverse il' = makeLines B (\<lambda>b. (B - 1 - b) * M) fill"
    unfolding there(2) using fields by simp_all
  note stream = deinterleave_stream [OF this(1) again(1), unfolded this again(3)]
  obtain zs1 lines' where items': "lineItems B (makeLines B (\<lambda>b. (B - 1 - b) * M) fill) ys = (zs1, lines')" by (metis prod.collapse)
  then have here: "lineItems B (makeLines B (\<lambda>b. (B - 1 - b) * M) fill) ys = (zs, lines')"
    using stream again(2) by simp
  note out = fresh_lines_delay [OF B(1) there(1)] and rec = fresh_lines_delay [OF B(1) here]
  have "zs ! k = (if k < latency il then fill else xs ! (k - latency il))" if k: "k < length xs" for k
  proof -
    define b d e where "b = k mod B" and "d = (B - 1 - b) * M * B" and "e = b * M * B"
    have "b \<le> B - 1" using B by (simp add: b_def less_Suc_eq_le [symmetric])
    then have "B - 1 - b + b = B - 1" by simp
    then have lat: "latency il = d + e"
      unfolding latency_def fields d_def e_def add_mult_distrib [symmetric] by simp
    have z: "zs ! k = (if k < d then fill else ys ! (k - d))" using rec(2) [of k] k out(1) by (simp add: d_def b_def)
    show ?thesis
    proof (cases "k < d")
      case False
      then have "(k - d) mod B = b" unfolding b_def d_def by (metis le_add_diff_inverse2 mod_mult_self1 not_less)
      then have "ys ! (k - d) = (if k - d < e then fill else xs ! (k - d - e))" using out(2) [of "k - d"] k by (simp add: e_def)
      then show ?thesis using False z by (auto simp: lat)
    qed (simp add: z lat)
  qed
  then show ?thesis using out rec by simp
qed

lemma convolutional_stream_delay_witness:
  "\<exists>il. convolutional 3 1 (0 :: nat) 0 = Inr il \<and> latency il = 6 \<and>
    fst (streamThrough deinterleave (snd (streamThrough interleave il [([1, 2, 3, 4], [0, 0, 0, 0]), ([5, 6, 7, 8], [0, 0, 0, 0])]))
      [([1, 0, 0], [0, 0, 0]), ([4, 2, 0, 7, 5], [0, 0, 0, 0, 0])]) = [0, 0, 0, 0, 0, 0, 1, 2]"
proof -
  let ?calls = "[([1, 2, 3, 4 :: nat], [0, 0, 0, 0 :: nat]), ([5, 6, 7, 8], [0, 0, 0, 0])]"
  let ?again = "[([1, 0, 0 :: nat], [0, 0, 0 :: nat]), ([4, 2, 0, 7, 5], [0, 0, 0, 0, 0])]"
  define il where "il = (defaultInterleaver (0 :: nat))\<lparr>il_kind := Convolutional, il_branches := 3, il_unitDelay := 1, il_fillValue := 0,
    il_forward := makeLines 3 (\<lambda>b. b * 1) 0, il_reverse := makeLines 3 (\<lambda>b. (3 - 1 - b) * 1) 0\<rparr>"
  have il: "convolutional 3 1 (0 :: nat) 0 = Inr il" by (simp add: convolutional_def kMaxFrame_def il_def)
  have lat: "latency il = 6" by (simp add: latency_def il_def)
  have ys: "fst (streamThrough interleave il ?calls) = [1, 0, 0, 4, 2, 0, 7, 5]" unfolding il_def by code_simp
  obtain il' where there: "streamThrough interleave il ?calls = ([1, 0, 0, 4, 2, 0, 7, 5], il')" using ys by (metis prod.collapse)
  obtain zs il'' where here: "streamThrough deinterleave il' ?again = (zs, il'')" by (metis prod.collapse)
  have spans: "\<forall>(src, dst)\<in>set ?calls. length dst = length src" "\<forall>(src, dst)\<in>set ?again. length dst = length src"
    "concat (map fst ?again) = [1, 0, 0, 4, 2, 0, 7, 5]" by simp_all
  have xs: "concat (map fst ?calls) = [1, 2, 3, 4, 5, 6, 7, 8]" by simp
  note delayed = convolutional_stream_delay [OF il spans(1) there spans(2) here spans(3) refl, unfolded xs lat]
  have "length zs = 8" using delayed by simp
  moreover have "zs ! k = [0, 0, 0, 0, 0, 0, 1, 2] ! k" if "k < 8" for k
  proof -
    have "k = 0 \<or> k = 1 \<or> k = 2 \<or> k = 3 \<or> k = 4 \<or> k = 5 \<or> k = 6 \<or> k = 7" using that by linarith
    moreover have "zs ! k = (if k < 6 then 0 else [1, 2, 3, 4, 5, 6, 7, 8] ! (k - 6))" using delayed that by simp
    ultimately show ?thesis by (elim disjE) simp_all
  qed
  ultimately have "zs = [0, 0, 0, 0, 0, 0, 1, 2]" by (intro nth_equalityI) simp_all
  then show ?thesis using il lat there here by auto
qed

end
