(* ===== verification/Scrambler.thy ===== *)
theory Scrambler
  imports BitStream
begin

section \<open>The scrambler families\<close>

text \<open>
  \<^verbatim>\<open>digital/Scrambler.hpp\<close>: the tap-set and seed spellings, the named profiles, the three ways a
  configuration is made, and the sample path in all its forms.  A \<open>TapMask\<close> and a register are
  64-bit words; the small counters the sources keep in bytes (degree, delays, item width) and the
  bit positions kept in \<^verbatim>\<open>std::size_t\<close> are naturals.  A throw is a value of \<open>ScramblerError\<close>,
  one constructor per throw; a \<^verbatim>\<open>noexcept\<close> routine whose loop variable is a configuration field
  returns an option, with \<^const>\<open>None\<close> for not returning.
\<close>

subsection \<open>Tap sets, seeds and their spellings\<close>

type_synonym TapMask = u64

datatype ScramblerError =
    DelayAbove64 | NoDelay | DelayZero | DelayRepeated | DelayCharacter
  | SeedLength nat | SeedCharacter
  | UnknownProfile string
  | NoTaps | ItemWidth nat | SeedAboveDegree
  | ProfileFamilyMismatch string | ProfileUnrecorded string
  | HexCharacter | HexOddDigits | HexEmpty
  | SequenceBits nat | SequenceShort nat nat
  | ForceAfterRange nat | MonitorDisabled | MonitorAdditive | MonitorDelays

definition degreeOf :: "TapMask \<Rightarrow> nat" where
  "degreeOf taps = bit_width taps"

text \<open>\<^verbatim>\<open>std::countr_zero\<close>: the number of low zero bits.\<close>

definition countr_zero :: "'a::len word \<Rightarrow> nat" where
  "countr_zero w = length (takeWhile Not (map (bit w) [0..<LENGTH('a)]))"

definition minDelayOf :: "TapMask \<Rightarrow> nat" where
  "minDelayOf taps = countr_zero taps + 1"

definition tapCountOf :: "TapMask \<Rightarrow> nat" where
  "tapCountOf taps = popcount taps"

text \<open>The digits of \<open>detail::decimalText\<close> are produced least significant first and read back in reverse.\<close>

fun decimalDigits :: "nat \<Rightarrow> string" where
  "decimalDigits value =
     char_of (48 + value mod 10) # (if value div 10 \<noteq> 0 then decimalDigits (value div 10) else [])"

declare decimalDigits.simps [simp del]

definition decimalText :: "nat \<Rightarrow> string" where
  "decimalText value = rev (decimalDigits value)"

definition isDigit :: "char \<Rightarrow> bool" where
  "isDigit c \<longleftrightarrow> 48 \<le> (of_char c :: nat) \<and> of_char c \<le> (57 :: nat)"

definition skipSpaces :: "string \<Rightarrow> string" where
  "skipSpaces list = dropWhile (\<lambda>c. c = CHR '' '') list"

fun readDelay :: "string \<Rightarrow> nat \<Rightarrow> ScramblerError + nat \<times> string" where
  "readDelay [] delay = Inr (delay, [])"
| "readDelay (c # list) delay =
     (if isDigit c
      then let delay = delay * 10 + (of_char c - 48)
           in if delay > 64 then Inl DelayAbove64 else readDelay list delay
      else Inr (delay, c # list))"

lemma readDelay_length: "readDelay list d = Inr (delay, rest) \<Longrightarrow> length rest \<le> length list"
  by (induction list d rule: readDelay.induct) (auto simp: Let_def split: if_splits)

lemma skipSpaces_length: "length (skipSpaces list) \<le> length list"
  by (simp add: skipSpaces_def length_dropWhile_le)

function delayListLoop :: "string \<Rightarrow> TapMask \<Rightarrow> ScramblerError + TapMask" where
  "delayListLoop list taps =
     (let list = skipSpaces list
      in case readDelay list 0 of
           Inl err \<Rightarrow> Inl err
         | Inr (delay, rest) \<Rightarrow>
             if length rest = length list then Inl NoDelay
             else if delay = 0 then Inl DelayZero
             else
               let b = push_bit (delay - 1) 1
               in if taps AND b \<noteq> 0 then Inl DelayRepeated
                  else
                    (case skipSpaces rest of
                       [] \<Rightarrow> Inr (taps OR b)
                     | c # rest \<Rightarrow>
                         if c \<noteq> CHR '','' then Inl DelayCharacter else delayListLoop rest (taps OR b)))"
  by pat_completeness auto
termination
proof (relation "measure (\<lambda>(list, taps). length list)", simp, clarsimp)
  fix list :: string and delay rest c rest'
  assume "readDelay (skipSpaces list) 0 = Inr (delay, rest)" "skipSpaces rest = c # rest'"
  then show "length rest' < length list"
    using readDelay_length [of "skipSpaces list" 0 delay rest] skipSpaces_length [of list] skipSpaces_length [of rest]
    by simp
qed

declare delayListLoop.simps [simp del]

definition tapsFromDelayList :: "string \<Rightarrow> ScramblerError + TapMask" where
  "tapsFromDelayList list = delayListLoop list 0"

lemma clear_lowest_less: "rest \<noteq> 0 \<Longrightarrow> unat (rest AND (rest - 1)) < unat rest" for rest :: "'a::len word"
  using word_and_le1 [of rest "rest - 1"] word_less_nat_alt [of "rest AND (rest - 1)" rest]
  by (metis and.commute measure_unat order_le_less_trans unat_mono word_and_le1 word_le_nat_alt)

function delayListLoopBack :: "TapMask \<Rightarrow> string \<Rightarrow> string" where
  "delayListLoopBack rest list =
     (if rest = 0 then list
      else delayListLoopBack (rest AND (rest - 1))
             (list @ (if list \<noteq> [] then '','' else []) @ decimalText (countr_zero rest + 1)))"
  by pat_completeness auto
termination by (relation "measure (\<lambda>(rest, list). unat rest)") (simp_all add: clear_lowest_less)

declare delayListLoopBack.simps [simp del]

definition delayListFromTaps :: "TapMask \<Rightarrow> string" where
  "delayListFromTaps taps = delayListLoopBack taps []"

fun seedBits :: "string \<Rightarrow> u64 \<Rightarrow> ScramblerError + u64" where
  "seedBits [] seed = Inr seed"
| "seedBits (b # bits) seed =
     (if b \<noteq> CHR ''0'' \<and> b \<noteq> CHR ''1'' then Inl SeedCharacter
      else seedBits bits (push_bit 1 seed OR (if b = CHR ''1'' then 1 else 0)))"

definition seedFromBitString :: "string \<Rightarrow> nat \<Rightarrow> ScramblerError + u64" where
  "seedFromBitString bits degree =
     (if length bits \<noteq> degree then Inl (SeedLength degree) else seedBits bits 0)"

subsection \<open>The standards' tap sets and the named profiles\<close>

text \<open>The constants are compile-time calls of the parser; that every one of them parses is a lemma below.\<close>

definition ccsds131 :: TapMask where "ccsds131 = projr (tapsFromDelayList ''1,3,5,8'')"
definition ccsds131_17 :: TapMask where "ccsds131_17 = projr (tapsFromDelayList ''3,17'')"
definition pn9 :: TapMask where "pn9 = projr (tapsFromDelayList ''4,9'')"
definition si4463 :: TapMask where "si4463 = pn9"
definition g3ruh :: TapMask where "g3ruh = projr (tapsFromDelayList ''12,17'')"
definition dvb :: TapMask where "dvb = projr (tapsFromDelayList ''14,15'')"
definition ieee80211 :: TapMask where "ieee80211 = projr (tapsFromDelayList ''4,7'')"
definition itu_18_23 :: TapMask where "itu_18_23 = projr (tapsFromDelayList ''18,23'')"
definition itu_5_23 :: TapMask where "itu_5_23 = projr (tapsFromDelayList ''5,23'')"
definition itu_14_17 :: TapMask where "itu_14_17 = projr (tapsFromDelayList ''14,17'')"
definition ieee8023_64b66b :: TapMask where "ieee8023_64b66b = projr (tapsFromDelayList ''39,58'')"

datatype ScramblerMode = Additive | MultiplicativeScramble | MultiplicativeDescramble
datatype SequenceForm = Table | Recurrence
datatype SequenceSource = Lfsr | Explicit
datatype ProfileFamily = AdditiveFamily | MultiplicativeFamily

record ScramblerProfile =
  profile_name :: string
  profile_family :: ProfileFamily
  profile_taps :: TapMask
  profile_seed :: u64
  profile_bitsPerItem :: nat
  profile_order :: BitOrder
  profile_unrecorded :: string

definition kProfiles :: "ScramblerProfile list" where
  "kProfiles =
     [\<lparr>profile_name = ''ccsds131'', profile_family = AdditiveFamily, profile_taps = ccsds131,
       profile_seed = projr (seedFromBitString ''11111111'' 8), profile_bitsPerItem = 8,
       profile_order = MsbFirst, profile_unrecorded = ''''\<rparr>,
      \<lparr>profile_name = ''ccsds131_17'', profile_family = AdditiveFamily, profile_taps = ccsds131_17,
       profile_seed = projr (seedFromBitString ''00011100011100011'' 17), profile_bitsPerItem = 8,
       profile_order = MsbFirst, profile_unrecorded = ''''\<rparr>,
      \<lparr>profile_name = ''pn9'', profile_family = AdditiveFamily, profile_taps = pn9,
       profile_seed = projr (seedFromBitString ''111111111'' 9), profile_bitsPerItem = 8,
       profile_order = LsbFirst, profile_unrecorded = ''''\<rparr>,
      \<lparr>profile_name = ''si4463'', profile_family = AdditiveFamily, profile_taps = si4463,
       profile_seed = projr (seedFromBitString ''111100001'' 9), profile_bitsPerItem = 8,
       profile_order = LsbFirst, profile_unrecorded = ''''\<rparr>,
      \<lparr>profile_name = ''g3ruh'', profile_family = MultiplicativeFamily, profile_taps = g3ruh,
       profile_seed = 0, profile_bitsPerItem = 8, profile_order = MsbFirst, profile_unrecorded = ''''\<rparr>]"

definition profileByName :: "string \<Rightarrow> ScramblerError + ScramblerProfile" where
  "profileByName name =
     (case find (\<lambda>entry. profile_name entry = name) kProfiles of
        Some entry \<Rightarrow> Inr entry
      | None \<Rightarrow> Inl (UnknownProfile name))"

subsection \<open>The configuration and its register\<close>

record ScramblerConfig =
  sc_taps :: TapMask
  sc_seed :: u64
  sc_mode :: ScramblerMode
  bitsPerItem :: nat
  sc_order :: BitOrder
  sc_degree :: nat
  minDelay :: nat
  tapCount :: nat
  stepBits :: nat
  regMask :: u64
  initialReg :: u64
  delays :: "nat list"
  form :: SequenceForm
  table :: "u8 list"
  tablePeriod :: nat
  sc_source :: SequenceSource
  sequenceRepeat :: bool
  invertOutput :: bool
  forceAfter :: nat
  monitorP :: nat
  monitorQ :: nat
  sc_reg :: u64
  phase :: nat
  monitorWindow :: u64
  forceCounter :: nat
  nUnscrambledItems :: nat
  nForcedTransitions :: nat

definition defaultScrambler :: ScramblerConfig where
  "defaultScrambler =
     \<lparr>sc_taps = 0, sc_seed = 0, sc_mode = Additive, bitsPerItem = 8, sc_order = MsbFirst,
      sc_degree = 0, minDelay = 0, tapCount = 0, stepBits = 1, regMask = 0, initialReg = 0,
      delays = replicate 64 0, form = Recurrence, table = [], tablePeriod = 0,
      sc_source = Lfsr, sequenceRepeat = True,
      invertOutput = False, forceAfter = 0, monitorP = 0, monitorQ = 0,
      sc_reg = 0, phase = 0, monitorWindow = 0, forceCounter = 0,
      nUnscrambledItems = 0, nForcedTransitions = 0\<rparr>"

definition resetScrambler :: "ScramblerConfig \<Rightarrow> ScramblerConfig" where
  "resetScrambler cfg =
     cfg\<lparr>sc_reg := initialReg cfg, phase := 0, monitorWindow := 0, forceCounter := 0\<rparr>"

text \<open>\<^verbatim>\<open>popcount(w) & 1\<close>.\<close>

definition parity :: "u64 \<Rightarrow> 'a::len word" where
  "parity w = word_of_nat (popcount w) AND 1"

definition backwardRegister :: "TapMask \<Rightarrow> u64 \<Rightarrow> nat \<Rightarrow> u64 \<Rightarrow> u64" where
  "backwardRegister taps rmask degree reg =
     (let backward = (push_bit 1 taps OR 1) AND rmask
      in fold (\<lambda>step reg. drop_bit 1 reg OR push_bit (degree - 1) (parity (reg AND backward)))
           [0..<degree] reg)"

text \<open>The walk for the period: \<open>remaining\<close> counts the steps left of \<open>kPeriodCap\<close>.\<close>

definition kPeriodCap :: nat where
  "kPeriodCap = 65535"

definition walkStep :: "TapMask \<Rightarrow> u64 \<Rightarrow> u64 \<Rightarrow> u64" where
  "walkStep taps rmask walk = (push_bit 1 walk OR parity (walk AND taps)) AND rmask"

fun findPeriod :: "TapMask \<Rightarrow> u64 \<Rightarrow> u64 \<Rightarrow> nat \<Rightarrow> nat \<Rightarrow> u64 \<Rightarrow> nat" where
  "findPeriod taps rmask init 0 step walk = 0"
| "findPeriod taps rmask init (Suc remaining) step walk =
     (let walk = walkStep taps rmask walk
      in if walk = init then step else findPeriod taps rmask init remaining (step + 1) walk)"

definition periodTable :: "TapMask \<Rightarrow> u64 \<Rightarrow> u64 \<Rightarrow> nat \<Rightarrow> u8 list" where
  "periodTable taps rmask init period =
     fst (fold (\<lambda>step (table, walk).
            (table[step div 8 := table ! (step div 8) OR push_bit (7 - step mod 8) (parity (walk AND taps))],
             walkStep taps rmask walk))
          [0..<period + 8] (replicate ((period + 15) div 8) 0, init))"

function fillDelays :: "TapMask \<Rightarrow> nat \<Rightarrow> nat list \<Rightarrow> nat list" where
  "fillDelays rest slot ds =
     (if rest = 0 then ds
      else fillDelays (rest AND (rest - 1)) (slot + 1) (ds[slot := countr_zero rest + 1]))"
  by pat_completeness auto
termination by (relation "measure (\<lambda>(rest, slot, ds). unat rest)") (simp_all add: clear_lowest_less)

declare fillDelays.simps [simp del]

definition configureScrambler ::
  "ScramblerConfig \<Rightarrow> TapMask \<Rightarrow> u64 \<Rightarrow> ScramblerMode \<Rightarrow> nat \<Rightarrow> BitOrder \<Rightarrow> ScramblerError + ScramblerConfig" where
  "configureScrambler cfg taps seed mode width order =
     (if taps = 0 then Inl NoTaps
      else if width < 1 \<or> width > 8 then Inl (ItemWidth width)
      else
        let degree = degreeOf taps;
            rmask = (if degree = 64 then NOT 0 else push_bit degree 1 - 1)
        in if seed AND NOT rmask \<noteq> 0 then Inl SeedAboveDegree
           else
             let init = (if mode = Additive then backwardRegister taps rmask degree (seed AND rmask)
                         else seed AND rmask);
                 tabled = (mode = Additive \<and> degree \<le> 16);
                 period = (if tabled then findPeriod taps rmask init kPeriodCap 1 init else 0)
             in Inr (resetScrambler
                  (cfg\<lparr>sc_taps := taps, sc_seed := seed AND rmask, sc_mode := mode, bitsPerItem := width,
                   sc_order := order, sc_degree := degree, minDelay := minDelayOf taps,
                   tapCount := tapCountOf taps, stepBits := min 8 (minDelayOf taps), regMask := rmask,
                   initialReg := init, form := (if period \<noteq> 0 then Table else Recurrence),
                   table := (if period \<noteq> 0 then periodTable taps rmask init period else []),
                   tablePeriod := period,
                   sc_source := Lfsr, sequenceRepeat := True, invertOutput := False, forceAfter := 0,
                   monitorP := 0, monitorQ := 0, nUnscrambledItems := 0, nForcedTransitions := 0,
                   delays := fillDelays taps 0 (replicate 64 0)\<rparr>)))"

definition applyProfile :: "ScramblerConfig \<Rightarrow> string \<Rightarrow> ScramblerMode \<Rightarrow> ScramblerError + ScramblerConfig" where
  "applyProfile cfg name mode =
     (case profileByName name of
        Inl err \<Rightarrow> Inl err
      | Inr entry \<Rightarrow>
          let wanted = (if mode = Additive then AdditiveFamily else MultiplicativeFamily)
          in if profile_family entry \<noteq> wanted then Inl (ProfileFamilyMismatch name)
             else if profile_unrecorded entry \<noteq> '''' then Inl (ProfileUnrecorded name)
             else configureScrambler cfg (profile_taps entry) (profile_seed entry) mode
                    (profile_bitsPerItem entry) (profile_order entry))"

subsection \<open>Explicit sequences\<close>

definition hexValue :: "char \<Rightarrow> u32 option" where
  "hexValue c =
     (let n = of_char c :: nat
      in if 48 \<le> n \<and> n \<le> 57 then Some (word_of_nat (n - 48))
         else if 65 \<le> n \<and> n \<le> 70 then Some (word_of_nat (n - 65) + 10)
         else if 97 \<le> n \<and> n \<le> 102 then Some (word_of_nat (n - 97) + 10)
         else None)"

fun hexLoop :: "string \<Rightarrow> u8 list \<Rightarrow> u32 \<Rightarrow> nat \<Rightarrow> ScramblerError + u8 list" where
  "hexLoop [] bytes pending digits =
     (if digits \<noteq> 0 then Inl HexOddDigits else if bytes = [] then Inl HexEmpty else Inr bytes)"
| "hexLoop (c # text) bytes pending digits =
     (if c = CHR '' '' then hexLoop text bytes pending digits
      else case hexValue c of
             None \<Rightarrow> Inl HexCharacter
           | Some v \<Rightarrow>
               let pending = push_bit 4 pending OR v
               in if digits + 1 = 2 then hexLoop text (bytes @ [ucast pending]) 0 0
                  else hexLoop text bytes pending (digits + 1))"

definition sequenceFromHex :: "string \<Rightarrow> ScramblerError + u8 list" where
  "sequenceFromHex text = hexLoop text [] 0 0"

definition kMaxBits :: nat where
  "kMaxBits = 2 ^ 20"

definition explicitTable :: "u8 list \<Rightarrow> nat \<Rightarrow> u8 list" where
  "explicitTable sequence bitCount =
     fold (\<lambda>b table.
       let source = (if b < bitCount then b else b - bitCount);
           v = drop_bit (7 - source mod 8) (sequence ! (source div 8)) AND 1
       in table[b div 8 := table ! (b div 8) OR push_bit (7 - b mod 8) v])
       [0..<bitCount + 8] (replicate ((bitCount + 15) div 8) 0)"

definition configureExplicit ::
  "ScramblerConfig \<Rightarrow> u8 list \<Rightarrow> nat \<Rightarrow> nat \<Rightarrow> BitOrder \<Rightarrow> bool \<Rightarrow> ScramblerError + ScramblerConfig" where
  "configureExplicit cfg sequence bitCount width order repeat =
     (if bitCount = 0 \<or> bitCount > kMaxBits then Inl (SequenceBits bitCount)
      else if bitCount > length sequence * 8 then Inl (SequenceShort (length sequence * 8) bitCount)
      else if width < 1 \<or> width > 8 then Inl (ItemWidth width)
      else Inr (resetScrambler
             (cfg\<lparr>sc_taps := 0, sc_seed := 0, sc_mode := Additive, bitsPerItem := width, sc_order := order,
              sc_degree := 0, minDelay := 0, tapCount := 0, stepBits := 0, regMask := 0, initialReg := 0,
              delays := replicate 64 0, form := Table, table := explicitTable sequence bitCount,
              tablePeriod := bitCount, sc_source := Explicit, sequenceRepeat := repeat,
              invertOutput := False, forceAfter := 0, monitorP := 0, monitorQ := 0,
              nUnscrambledItems := 0, nForcedTransitions := 0\<rparr>)))"

definition configureMonitor ::
  "ScramblerConfig \<Rightarrow> bool \<Rightarrow> nat \<Rightarrow> string \<Rightarrow> ScramblerError + ScramblerConfig" where
  "configureMonitor cfg invert after monitorDelays =
     (if after \<noteq> 0 \<and> (after < 2 \<or> after > 4096) then Inl (ForceAfterRange after)
      else if after = 0 \<and> monitorDelays \<noteq> '''' then Inl MonitorDisabled
      else if sc_mode cfg = Additive \<and> (invert \<or> after \<noteq> 0) then Inl MonitorAdditive
      else
        let set = (\<lambda>nearer further. resetScrambler
              (cfg\<lparr>invertOutput := invert, forceAfter := after, monitorP := nearer, monitorQ := further\<rparr>))
        in if after \<noteq> 0 then
             (case tapsFromDelayList monitorDelays of
                Inl err \<Rightarrow> Inl err
              | Inr ds \<Rightarrow>
                  if popcount ds \<noteq> 2 then Inl MonitorDelays
                  else Inr (set (minDelayOf ds) (degreeOf ds)))
           else Inr (set 0 0))"

subsection \<open>The sample path\<close>

definition kReversedByte :: "u8 list" where
  "kReversedByte =
     map (\<lambda>v. fold (\<lambda>b bits. bits OR push_bit (7 - b) (drop_bit b (word_of_nat v) AND 1)) [0..<8] 0) [0..<256]"

definition streamField :: "u8 \<Rightarrow> nat \<Rightarrow> BitOrder \<Rightarrow> u8" where
  "streamField item width order =
     (let field = (ucast item :: u32) AND (push_bit width 1 - 1)
      in if order = MsbFirst then ucast field else kReversedByte ! unat (push_bit (8 - width) field))"

definition feedbackBits :: "u64 \<Rightarrow> TapMask \<Rightarrow> nat \<Rightarrow> u32" where
  "feedbackBits reg taps count =
     fold (\<lambda>step bits. push_bit 1 bits OR parity (drop_bit step taps AND reg)) [0..<count] 0"

definition advancePhase :: "ScramblerConfig \<Rightarrow> nat \<Rightarrow> ScramblerConfig" where
  "advancePhase cfg items =
     (if tablePeriod cfg \<noteq> 0
      then cfg\<lparr>phase := (phase cfg + items * bitsPerItem cfg) mod tablePeriod cfg\<rparr> else cfg)"

text \<open>The stepped loop of one item: \<open>left\<close> bits to go, \<open>step\<close> at a time.  A step of zero would not return.\<close>

partial_function (option) recurrenceField ::
  "nat \<Rightarrow> TapMask \<Rightarrow> u64 \<Rightarrow> nat \<Rightarrow> u32 \<Rightarrow> u64 \<Rightarrow> (u32 \<times> u64) option" where
  "recurrenceField step taps rmask left field reg =
     (if left = 0 then Some (field, reg)
      else
        let count = min step left;
            bits = feedbackBits reg taps count;
            reg = (push_bit count reg OR ucast bits) AND rmask
        in recurrenceField step taps rmask (left - count) (push_bit count field OR bits) reg)"

definition generateRecurrence :: "ScramblerConfig \<Rightarrow> nat \<Rightarrow> (u8 list \<times> ScramblerConfig) option" where
  "generateRecurrence cfg count =
     (let width = bitsPerItem cfg; step = min (stepBits cfg) width
      in case map_state_opt (\<lambda>reg item.
                case recurrenceField step (sc_taps cfg) (regMask cfg) width 0 reg of
                  None \<Rightarrow> None
                | Some (field, reg) \<Rightarrow> Some (streamField (ucast field) width (sc_order cfg), reg))
              (sc_reg cfg) [0..<count] of
           None \<Rightarrow> None
         | Some (sequence, reg) \<Rightarrow> Some (sequence, advancePhase (cfg\<lparr>sc_reg := reg\<rparr>) count))"

partial_function (option) wrapPhase :: "nat \<Rightarrow> nat \<Rightarrow> nat option" where
  "wrapPhase period at = (if at \<ge> period then wrapPhase period (at - period) else Some at)"

text \<open>The unaligned read of \<open>width\<close> bits of the table at a phase.\<close>

definition tableBits :: "u8 list \<Rightarrow> nat \<Rightarrow> nat \<Rightarrow> u32" where
  "tableBits buffer at width =
     (let window = push_bit 8 (ucast (buffer ! (at div 8))) OR ucast (buffer ! (at div 8 + 1));
          shift = 16 - at mod 8 - width
      in drop_bit shift window AND (push_bit width 1 - 1))"

definition generateTable :: "ScramblerConfig \<Rightarrow> nat \<Rightarrow> (u8 list \<times> ScramblerConfig) option" where
  "generateTable cfg count =
     (let width = bitsPerItem cfg
      in case map_state_opt (\<lambda>(reg, phase) item.
                let bits = tableBits (table cfg) phase width;
                    item = streamField (ucast bits) width (sc_order cfg);
                    reg = (push_bit width reg OR ucast bits) AND regMask cfg
                in case wrapPhase (tablePeriod cfg) (phase + width) of
                     None \<Rightarrow> None | Some phase \<Rightarrow> Some (item, (reg, phase)))
              (sc_reg cfg, phase cfg) [0..<count] of
           None \<Rightarrow> None
         | Some (sequence, (reg, ph)) \<Rightarrow> Some (sequence, cfg\<lparr>sc_reg := reg, phase := ph\<rparr>))"

definition generateExplicitOnce :: "ScramblerConfig \<Rightarrow> nat \<Rightarrow> u8 list \<times> ScramblerConfig" where
  "generateExplicitOnce cfg count =
     (let width = bitsPerItem cfg;
          field = push_bit width 1 - 1 :: u32;
          (sequence, (ph, missed)) =
            map_state (\<lambda>(phase, missed) item.
              let (bits, missed) =
                    (if phase \<ge> tablePeriod cfg then (0, missed + 1)
                     else
                       let left = tablePeriod cfg - phase;
                           bits = tableBits (table cfg) phase width
                       in (if left < width then bits AND (field XOR (push_bit (width - left) 1 - 1)) else bits,
                           missed))
              in (streamField (ucast bits) width (sc_order cfg), (phase + width, missed)))
              (phase cfg, 0) [0..<count]
      in (sequence, cfg\<lparr>phase := ph, nUnscrambledItems := nUnscrambledItems cfg + missed\<rparr>))"

definition kChunk :: nat where
  "kChunk = 256"

definition generateSequence :: "ScramblerConfig \<Rightarrow> nat \<Rightarrow> (u8 list \<times> ScramblerConfig) option" where
  "generateSequence cfg block =
     (if sc_source cfg = Explicit \<and> \<not> sequenceRepeat cfg then Some (generateExplicitOnce cfg block)
      else if form cfg = Table then generateTable cfg block
      else generateRecurrence cfg block)"

function additiveChunks :: "ScramblerConfig \<Rightarrow> u8 list \<Rightarrow> (u8 list \<times> ScramblerConfig) option" where
  "additiveChunks cfg src =
     (if src = [] then Some ([], cfg)
      else
        let block = min kChunk (length src); itemMask = push_bit (bitsPerItem cfg) 1 - 1
        in case generateSequence cfg block of
             None \<Rightarrow> None
           | Some (sequence, cfg) \<Rightarrow>
               (case additiveChunks cfg (drop block src) of
                  None \<Rightarrow> None
                | Some (out, cfg) \<Rightarrow>
                    Some (map2 (\<lambda>x s. (x XOR s) AND itemMask) (take block src) sequence @ out, cfg)))"
  by pat_completeness auto
termination by (relation "measure (\<lambda>(cfg, src). length src)") (auto simp: kChunk_def)

declare additiveChunks.simps [simp del]

definition scrambleAdditive :: "ScramblerConfig \<Rightarrow> u8 list \<Rightarrow> u8 list \<Rightarrow> (u8 list \<times> ScramblerConfig) option" where
  "scrambleAdditive cfg src out =
     (let count = min (length src) (length out)
      in case additiveChunks cfg (take count src) of
           None \<Rightarrow> None
         | Some (ys, cfg) \<Rightarrow> Some (ys @ drop count out, cfg))"

partial_function (option) multiplicativeField ::
  "nat \<Rightarrow> TapMask \<Rightarrow> u64 \<Rightarrow> u32 \<Rightarrow> nat \<Rightarrow> u32 \<Rightarrow> u64 \<Rightarrow> (u32 \<times> u64) option" where
  "multiplicativeField step taps rmask source left field reg =
     (if left = 0 then Some (field, reg)
      else
        let taken = min step left;
            bits = (drop_bit (left - taken) source AND (push_bit taken 1 - 1)) XOR feedbackBits reg taps taken;
            reg = (push_bit taken reg OR ucast bits) AND rmask
        in multiplicativeField step taps rmask source (left - taken) (push_bit taken field OR bits) reg)"

definition scrambleMultiplicative :: "ScramblerConfig \<Rightarrow> u8 list \<Rightarrow> u8 list \<Rightarrow> (u8 list \<times> ScramblerConfig) option" where
  "scrambleMultiplicative cfg src out =
     (let width = bitsPerItem cfg; step = min (stepBits cfg) width;
          count = min (length src) (length out)
      in case map_state_opt (\<lambda>reg item.
                case multiplicativeField step (sc_taps cfg) (regMask cfg)
                       (ucast (streamField item width (sc_order cfg))) width 0 reg of
                  None \<Rightarrow> None
                | Some (field, reg) \<Rightarrow> Some (streamField (ucast field) width (sc_order cfg), reg))
              (sc_reg cfg) (take count src) of
           None \<Rightarrow> None
         | Some (ys, reg) \<Rightarrow> Some (ys @ drop count out, cfg\<lparr>sc_reg := reg\<rparr>))"

text \<open>The feedback bits of an item whose own bits complete the window.\<close>

definition itemFeedback :: "TapMask \<Rightarrow> u64 \<Rightarrow> nat \<Rightarrow> u64 \<Rightarrow> u32" where
  "itemFeedback taps reg width source =
     fold (\<lambda>b feedback.
       let inside = push_bit (width - b) (taps AND (push_bit b 1 - 1))
       in push_bit 1 feedback OR (parity (drop_bit b taps AND reg) XOR parity (inside AND source)))
       [0..<width] 0"

definition descrambleItems :: "ScramblerConfig \<Rightarrow> u8 list \<Rightarrow> u8 list \<Rightarrow> u8 list \<times> ScramblerConfig" where
  "descrambleItems cfg src out =
     (let width = bitsPerItem cfg; taps = sc_taps cfg;
          count = min (length src) (length out);
          (ys, reg) =
            map_state (\<lambda>reg item.
              let source = ucast (streamField item width (sc_order cfg)) :: u64;
                  feedback = itemFeedback taps reg width source;
                  reg = (push_bit width reg OR source) AND regMask cfg
              in (streamField (ucast (ucast source XOR feedback)) width (sc_order cfg), reg))
              (sc_reg cfg) (take count src)
      in (ys @ drop count out, cfg\<lparr>sc_reg := reg\<rparr>))"

definition descrambleBytes :: "ScramblerConfig \<Rightarrow> u8 list \<Rightarrow> u8 list \<Rightarrow> u8 list \<times> ScramblerConfig" where
  "descrambleBytes cfg src out =
     (let count = min (length src) (length out);
          (ys, window) =
            map_state (\<lambda>window item.
              let source = ucast (streamField item 8 (sc_order cfg)) :: u32;
                  window = push_bit 8 window OR ucast source;
                  v = fold (\<lambda>tap v. v XOR (ucast (drop_bit (delays cfg ! tap) window) AND 0xFF))
                        [0..<tapCount cfg] source
              in (streamField (ucast v) 8 (sc_order cfg), window))
              (sc_reg cfg) (take count src)
      in (ys @ drop count out, cfg\<lparr>sc_reg := window AND regMask cfg\<rparr>))"

text \<open>One bit of the monitored pair: the item under construction and the loop-carried variables.\<close>

record MonitorState =
  mon_reg :: u64
  mon_window :: u64
  mon_counter :: nat
  mon_fired :: nat

definition monitoredBit :: "ScramblerConfig \<Rightarrow> u8 \<Rightarrow> nat \<Rightarrow> u32 \<times> MonitorState \<Rightarrow> u32 \<times> MonitorState" where
  "monitoredBit cfg x b = (\<lambda>(item, st).
     let width = bitsPerItem cfg; modulus = forceAfter cfg;
         shiftP = (if monitorP cfg = 0 then 0 else monitorP cfg - 1);
         shiftQ = (if monitorQ cfg = 0 then 0 else monitorQ cfg - 1);
         position = (if sc_order cfg = MsbFirst then width - 1 - b else b);
         feedback = parity (mon_reg st AND sc_taps cfg) :: u32;
         source = drop_bit position (ucast x) AND 1;
         force = (if modulus \<noteq> 0 \<and> mon_counter st = modulus - 1 then 1 else 0);
         result = (if invertOutput cfg then 1 else 0) XOR source XOR feedback XOR force;
         sent = (if sc_mode cfg = MultiplicativeDescramble then source else result);
         fired = mon_fired st + (if force = 1 then 1 else 0);
         counter =
           (if modulus \<noteq> 0 then
              let differs = (drop_bit shiftP (mon_window st) XOR drop_bit shiftQ (mon_window st)) AND 1
              in if differs \<noteq> 0 then 0 else (mon_counter st + 1) mod modulus
            else mon_counter st);
         window = push_bit 1 (mon_window st) OR ucast sent;
         reg = (push_bit 1 (mon_reg st) OR ucast sent) AND regMask cfg
     in (item OR push_bit position result,
         \<lparr>mon_reg = reg, mon_window = window, mon_counter = counter, mon_fired = fired\<rparr>))"

definition monitoredItem :: "ScramblerConfig \<Rightarrow> MonitorState \<Rightarrow> u8 \<Rightarrow> u8 \<times> MonitorState" where
  "monitoredItem cfg st x =
     (let (item, st) = fold (monitoredBit cfg x) [0..<bitsPerItem cfg] (0, st) in (ucast item, st))"

definition scrambleMonitored :: "ScramblerConfig \<Rightarrow> u8 list \<Rightarrow> u8 list \<Rightarrow> u8 list \<times> ScramblerConfig" where
  "scrambleMonitored cfg src out =
     (let count = min (length src) (length out);
          (ys, st) = map_state (monitoredItem cfg)
            \<lparr>mon_reg = sc_reg cfg, mon_window = monitorWindow cfg, mon_counter = forceCounter cfg, mon_fired = 0\<rparr>
            (take count src)
      in (ys @ drop count out,
          cfg\<lparr>sc_reg := mon_reg st, monitorWindow := mon_window st, forceCounter := mon_counter st,
              nForcedTransitions := nForcedTransitions cfg + mon_fired st\<rparr>))"

definition referenceBit :: "ScramblerConfig \<Rightarrow> u8 \<Rightarrow> nat \<Rightarrow> u32 \<times> u64 \<Rightarrow> u32 \<times> u64" where
  "referenceBit cfg x b = (\<lambda>(item, reg).
     let position = (if sc_order cfg = MsbFirst then bitsPerItem cfg - 1 - b else b);
         feedback = parity (reg AND sc_taps cfg) :: u32;
         source = drop_bit position (ucast x) AND 1;
         result = source XOR feedback;
         fed = (if sc_mode cfg = Additive then feedback
                else if sc_mode cfg = MultiplicativeScramble then result else source)
     in (item OR push_bit position result, (push_bit 1 reg OR ucast fed) AND regMask cfg))"

definition referenceItem :: "ScramblerConfig \<Rightarrow> u64 \<Rightarrow> u8 \<Rightarrow> u8 \<times> u64" where
  "referenceItem cfg reg x =
     (let (item, reg) = fold (referenceBit cfg x) [0..<bitsPerItem cfg] (0, reg) in (ucast item, reg))"

definition scrambleReference :: "ScramblerConfig \<Rightarrow> u8 list \<Rightarrow> u8 list \<Rightarrow> u8 list \<times> ScramblerConfig" where
  "scrambleReference cfg src out =
     (let count = min (length src) (length out);
          (ys, reg) = map_state (referenceItem cfg) (sc_reg cfg) (take count src)
      in (ys @ drop count out, advancePhase (cfg\<lparr>sc_reg := reg\<rparr>) count))"

definition scramble :: "ScramblerConfig \<Rightarrow> u8 list \<Rightarrow> u8 list \<Rightarrow> (u8 list \<times> ScramblerConfig) option" where
  "scramble cfg src out =
     (let monitored = (invertOutput cfg \<or> forceAfter cfg \<noteq> 0)
      in case sc_mode cfg of
           Additive \<Rightarrow> scrambleAdditive cfg src out
         | MultiplicativeScramble \<Rightarrow>
             (if monitored then Some (scrambleMonitored cfg src out) else scrambleMultiplicative cfg src out)
         | MultiplicativeDescramble \<Rightarrow>
             (if monitored then Some (scrambleMonitored cfg src out)
              else if bitsPerItem cfg = 8 \<and> sc_degree cfg \<le> 56 then Some (descrambleBytes cfg src out)
              else Some (descrambleItems cfg src out)))"

end
