(* ===== verification/ScramblerStream.thy ===== *)
theory ScramblerStream
  imports Scrambler
begin

section \<open>The scramblers as bit streams\<close>

text \<open>
  The register as the last \<open>degree\<close> bits of a stream, and what the sample path of \<open>Scrambler\<close> does to
  one: every fast form is the bit-at-a-time definition, the multiplicative pair is an inverse pair
  and self-synchronizing, the additive mode is an involution, and the seed is the sequence's opening.
\<close>

subsection \<open>One bit\<close>

definition fb :: "TapMask \<Rightarrow> u64 \<Rightarrow> bool" where
  "fb taps reg \<longleftrightarrow> odd (popcount (reg AND taps))"

definition bitStep :: "ScramblerMode \<Rightarrow> TapMask \<Rightarrow> u64 \<Rightarrow> u64 \<Rightarrow> bool \<Rightarrow> bool \<times> u64" where
  "bitStep mode taps rmask reg b =
     (let f = fb taps reg; r = (b \<noteq> f);
          fed = (case mode of Additive \<Rightarrow> f | MultiplicativeScramble \<Rightarrow> r | MultiplicativeDescramble \<Rightarrow> b)
      in (r, (push_bit 1 reg OR of_bool fed) AND rmask))"

lemma parity_bit: "parity w = (of_bool (odd (popcount w)) :: 'a::len word)"
  unfolding parity_def
  by (rule bit_word_eqI) (auto simp: bit_and_iff bit_1_iff bit_of_bool_iff bit_of_nat_iff bit_0)

text \<open>
  Feeding bits into the register, oldest first.  \<open>d\<close> is the register width, and \<open>shaped\<close> says
  that the mask has that width, that no delay is beyond it and that none is below \<open>m\<close>.
\<close>

definition shaped :: "TapMask \<Rightarrow> u64 \<Rightarrow> nat \<Rightarrow> nat \<Rightarrow> bool" where
  "shaped taps rmask d m \<longleftrightarrow>
     0 < d \<and> d \<le> 64 \<and> 0 < m \<and> (\<forall>i. bit rmask i \<longleftrightarrow> i < d) \<and> (\<forall>i. bit taps i \<longrightarrow> i < d \<and> m \<le> Suc i)"

definition fed :: "u64 \<Rightarrow> bool list \<Rightarrow> u64 \<Rightarrow> u64" where
  "fed rmask bs reg = (push_bit (length bs) reg OR bitsField bs) AND rmask"

lemma bit_fed: "bit (fed rmask bs reg) i \<longleftrightarrow>
    bit rmask i \<and> (if i < length bs then bs ! (length bs - 1 - i) else bit reg (i - length bs))"
  by (auto simp: fed_def bit_and_iff bit_or_iff bit_push_bit_iff bit_bitsField dest: bit_imp_le_length)

lemma fed_Nil: "reg AND rmask = reg \<Longrightarrow> fed rmask [] reg = reg"
  by (simp add: fed_def)

lemma fed_append:
  "shaped taps rmask d m \<Longrightarrow> fed rmask bs (fed rmask as reg) = fed rmask (as @ bs) reg"
  by (rule bit_word_eqI) (auto simp: bit_fed shaped_def nth_append add.commute)

lemma fed_masked [simp]: "fed rmask bs reg AND rmask = fed rmask bs reg"
  by (simp add: fed_def and.assoc)

lemma bitStep_fed:
  "snd (bitStep mode taps rmask reg b) =
     fed rmask [case mode of Additive \<Rightarrow> fb taps reg | MultiplicativeScramble \<Rightarrow> (b \<noteq> fb taps reg)
                | MultiplicativeDescramble \<Rightarrow> b] reg"
  by (simp add: bitStep_def Let_def fed_def bitsField_def split: ScramblerMode.splits)

text \<open>The bits a run feeds into the register.\<close>

definition fedBits :: "ScramblerMode \<Rightarrow> bool list \<Rightarrow> bool list \<Rightarrow> bool list" where
  "fedBits mode bs rs = (case mode of Additive \<Rightarrow> map2 (\<noteq>) bs rs | MultiplicativeScramble \<Rightarrow> rs | MultiplicativeDescramble \<Rightarrow> bs)"

lemma run_fed:
  assumes "shaped taps rmask d m" "reg AND rmask = reg"
  shows "snd (map_state (bitStep mode taps rmask) reg bs) =
    fed rmask (fedBits mode bs (fst (map_state (bitStep mode taps rmask) reg bs))) reg"
  using assms(2)
proof (induction bs arbitrary: reg)
  case Nil
  then show ?case by (cases mode) (simp_all add: fedBits_def fed_Nil)
next
  case (Cons b bs)
  let ?reg = "snd (bitStep mode taps rmask reg b)"
  have "?reg AND rmask = ?reg" by (simp add: bitStep_fed)
  note IH = Cons.IH [OF this]
  have "fedBits mode (b # bs) (fst (bitStep mode taps rmask reg b) # rs) =
      [case mode of Additive \<Rightarrow> fb taps reg | MultiplicativeScramble \<Rightarrow> (b \<noteq> fb taps reg) | MultiplicativeDescramble \<Rightarrow> b]
        @ fedBits mode bs rs" for rs
    by (cases mode) (auto simp: fedBits_def bitStep_def Let_def)
  with IH show ?case
    by (simp add: split_beta Let_def bitStep_fed fed_append [OF assms(1)])
qed

lemma run_nth:
  assumes "shaped taps rmask d m" "reg AND rmask = reg" "k < length bs"
    and rs_def: "rs = fst (map_state (bitStep mode taps rmask) reg bs)"
  shows "rs ! k = (bs ! k \<noteq> fb taps (fed rmask (take k (fedBits mode bs rs)) reg))"
proof -
  let ?f = "bitStep mode taps rmask"
  have bs: "bs = take k bs @ bs ! k # drop (Suc k) bs" using assms(3) by (rule id_take_nth_drop)
  let ?us = "fst (map_state ?f reg (take k bs))" and ?s = "snd (map_state ?f reg (take k bs))"
  have rs: "rs = ?us @ fst (?f ?s (bs ! k)) # fst (map_state ?f (snd (?f ?s (bs ! k))) (drop (Suc k) bs))"
    unfolding rs_def by (subst bs, subst map_state_append) (simp add: split_beta Let_def)
  have "length ?us = k" using assms(3) by simp
  then have "rs ! k = fst (?f ?s (bs ! k))" "take k rs = ?us" by (simp_all add: rs nth_append)
  moreover have "take k (fedBits mode bs rs) = fedBits mode (take k bs) (take k rs)"
    by (simp add: fedBits_def take_map take_zip split: ScramblerMode.splits)
  ultimately show ?thesis
    using run_fed [OF assms(1,2), of mode "take k bs"] by (simp add: bitStep_def Let_def)
qed

text \<open>What the feedback reads of a register into which \<open>bs\<close> has been fed.\<close>

lemma popcount_push_bit:
  fixes w :: "'a::len word"
  assumes "\<And>i. bit w i \<Longrightarrow> k + i < LENGTH('a)"
  shows "popcount (push_bit k w) = popcount w"
proof -
  have "{i. bit (push_bit k w) i} = (\<lambda>i. k + i) ` {i. bit w i}"
    using assms by (auto simp: bit_push_bit_iff image_iff intro!: exI [of _ "_ - k"])
  then show ?thesis by (simp add: popcount_card card_image)
qed

lemma fb_fed_split:
  assumes "shaped taps rmask d m"
  shows "fb taps (fed rmask bs reg) =
    (odd (popcount (drop_bit (length bs) taps AND reg)) \<noteq> odd (popcount (taps AND (bitsField bs :: u64))))"
proof -
  let ?k = "length bs"
  have split: "fed rmask bs reg AND taps = push_bit ?k (drop_bit ?k taps AND reg) XOR (taps AND bitsField bs)"
    by (rule bit_word_eqI)
      (use assms in \<open>auto simp: shaped_def bit_and_iff bit_xor_iff bit_push_bit_iff bit_drop_bit_eq bit_fed bit_bitsField
         dest: bit_imp_le_length\<close>)
  have "popcount (push_bit ?k (drop_bit ?k taps AND reg)) = popcount (drop_bit ?k taps AND reg)"
    by (rule popcount_push_bit) (auto simp: bit_and_iff bit_drop_bit_eq dest: bit_imp_le_length)
  then show ?thesis unfolding fb_def split even_popcount_xor by simp
qed

lemma fb_fed_short:
  assumes "shaped taps rmask d m" "length bs < m"
  shows "fb taps (fed rmask bs reg) = odd (popcount (drop_bit (length bs) taps AND reg))"
proof -
  have "taps AND (bitsField bs :: u64) = 0"
    by (rule bit_word_eqI) (use assms in \<open>auto simp: shaped_def bit_and_iff bit_bitsField\<close>)
  then show ?thesis by (simp add: fb_fed_split [OF assms(1)])
qed

subsection \<open>The stepped forms\<close>

lemma feedbackBits_list: "feedbackBits reg taps count = bitsField (map (\<lambda>k. odd (popcount (drop_bit k taps AND reg))) [0..<count])"
  by (induction count) (simp_all add: feedbackBits_def bitsField_snoc parity_bit)

lemma fedBits_Scramble [simp]: "fedBits MultiplicativeScramble bs rs = rs"
  by (simp add: fedBits_def)

lemma bitsField_xor: "length us = length vs \<Longrightarrow> bitsField us XOR bitsField vs = bitsField (map2 (\<noteq>) us vs)"
  by (rule bit_word_eqI) (auto simp: bit_xor_iff bit_bitsField)

text \<open>A batch no longer than the smallest delay is read from the register alone.\<close>

lemma scramble_batch:
  assumes shape: "shaped taps rmask d m" and reg: "reg AND rmask = reg" and len: "length bs \<le> m"
  defines "r \<equiv> map_state (bitStep MultiplicativeScramble taps rmask) reg bs"
  shows "bitsField (fst r) = bitsField bs XOR feedbackBits reg taps (length bs)"
    "snd r = fed rmask (fst r) reg"
proof -
  have "fst r = map2 (\<noteq>) bs (map (\<lambda>k. odd (popcount (drop_bit k taps AND reg))) [0..<length bs])"
  proof (rule nth_equalityI)
    fix k assume "k < length (fst r)"
    then have k: "k < length bs" by (simp add: r_def)
    have "fst r ! k = (bs ! k \<noteq> fb taps (fed rmask (take k (fst r)) reg))"
      using run_nth [OF shape reg k refl, of MultiplicativeScramble] by (simp add: r_def)
    with k len show "fst r ! k = map2 (\<noteq>) bs (map (\<lambda>k. odd (popcount (drop_bit k taps AND reg))) [0..<length bs]) ! k"
      using fb_fed_short [OF shape, of "take k (fst r)" reg] by (simp add: r_def)
  qed (simp add: r_def)
  then show "bitsField (fst r) = bitsField bs XOR feedbackBits reg taps (length bs)"
    by (simp add: feedbackBits_list bitsField_xor)
  show "snd r = fed rmask (fst r) reg"
    using run_fed [OF shape reg, of MultiplicativeScramble bs] by (simp add: r_def)
qed

lemma multiplicativeField_run:
  assumes shape: "shaped taps rmask d m" and step: "0 < step" "step \<le> m" "step \<le> 32"
    and "reg AND rmask = reg" "take_bit (length bs) source = bitsField bs" "length bs \<le> 32"
  defines "r \<equiv> map_state (bitStep MultiplicativeScramble taps rmask) reg bs"
  shows "multiplicativeField step taps rmask source (length bs) field reg =
    Some (push_bit (length bs) field OR bitsField (fst r), snd r)"
  using assms(5-7) unfolding r_def
proof (induction "length bs" arbitrary: bs field reg rule: less_induct)
  case less
  show ?case
  proof (cases "bs = []")
    case True
    then show ?thesis by (simp add: multiplicativeField.simps)
  next
    case False
    define c where "c = min step (length bs)"
    have c: "0 < c" "c \<le> length bs" "c \<le> m" "c \<le> 32" using False step by (auto simp: c_def)
    let ?f = "bitStep MultiplicativeScramble taps rmask"
    let ?us = "fst (map_state ?f reg (take c bs))" and ?s = "snd (map_state ?f reg (take c bs))"
    let ?vs = "fst (map_state ?f ?s (drop c bs))"
    have split: "map_state ?f reg bs = (?us @ ?vs, snd (map_state ?f ?s (drop c bs)))"
      using map_state_append [of ?f reg "take c bs" "drop c bs"] by (simp add: split_beta Let_def)
    have taken: "drop_bit (length bs - c) source AND (push_bit c 1 - 1) = bitsField (take c bs)"
    proof (rule bit_word_eqI)
      fix i assume "i < LENGTH(32)"
      have "bit (take_bit (length bs) source) (length bs - c + i) \<longleftrightarrow>
          bit (bitsField bs :: u32) (length bs - c + i)" by (simp only: less.prems(2))
      moreover have "length bs - c + i < length bs" "length bs - c + i < 32" if "i < c"
        using that c less.prems(3) by simp_all
      ultimately have "bit source (length bs - c + i) \<longleftrightarrow> bs ! (c - 1 - i)" if "i < c"
        using that c by (simp add: bit_take_bit_iff bit_bitsField)
      with c show "bit (drop_bit (length bs - c) source AND (push_bit c 1 - 1)) i \<longleftrightarrow> bit (bitsField (take c bs) :: u32) i"
        unfolding bit_and_iff bit_mask_word by (auto simp: bit_drop_bit_eq bit_bitsField)
    qed
    note batch = scramble_batch [OF shape less.prems(1), of "take c bs"]
    have rest: "take_bit (length (drop c bs)) source = bitsField (drop c bs)"
    proof (rule bit_word_eqI)
      fix i assume "i < LENGTH(32)"
      have "bit (take_bit (length bs) source) i \<longleftrightarrow> bit (bitsField bs :: u32) i" by (simp only: less.prems(2))
      with c \<open>i < LENGTH(32)\<close> show "bit (take_bit (length (drop c bs)) source) i \<longleftrightarrow> bit (bitsField (drop c bs) :: u32) i"
        by (auto simp: bit_take_bit_iff bit_bitsField)
    qed
    have bits: "(drop_bit (length bs - c) source AND (push_bit c 1 - 1)) XOR feedbackBits reg taps c = bitsField ?us"
      unfolding taken using batch(1) c by simp
    have reg': "(push_bit c reg OR ucast (bitsField ?us :: u32)) AND rmask = ?s"
    proof -
      have "(ucast (bitsField ?us :: u32) :: u64) = bitsField ?us"
        by (rule bit_word_eqI) (use c in \<open>auto simp: bit_ucast_iff bit_bitsField\<close>)
      with batch(2) c show ?thesis by (simp add: fed_def)
    qed
    have masked: "?s AND rmask = ?s" using batch(2) c by simp
    have "multiplicativeField step taps rmask source (length bs) field reg =
        multiplicativeField step taps rmask source (length (drop c bs)) (push_bit c field OR bitsField ?us) ?s"
      using False by (subst multiplicativeField.simps) (simp only: Let_def c_def [symmetric] bits reg', simp)
    also have "\<dots> = Some (push_bit (length (drop c bs)) (push_bit c field OR bitsField ?us) OR bitsField ?vs,
        snd (map_state ?f ?s (drop c bs)))"
      by (rule less.hyps) (use c False less.prems(3) rest masked in simp_all)
    also have "push_bit (length (drop c bs)) (push_bit c field OR bitsField ?us) OR bitsField ?vs =
        push_bit (length bs) field OR bitsField (?us @ ?vs)"
      using c by (simp add: bitsField_append push_bit_or or.assoc flip: push_bit_add)
    finally show ?thesis by (simp add: split)
  qed
qed

lemma recurrenceField_multiplicative:
  "0 < step \<Longrightarrow> recurrenceField step taps rmask left field reg = multiplicativeField step taps rmask 0 left field reg"
proof (induction left arbitrary: field reg rule: less_induct)
  case (less left)
  show ?case
  proof (cases "left = 0")
    case False
    with less.prems have "left - min step left < left" by simp
    note IH = less.IH [OF this less.prems]
    show ?thesis
      using False
      by (subst recurrenceField.simps, subst multiplicativeField.simps) (simp add: Let_def IH)
  qed (simp add: recurrenceField.simps multiplicativeField.simps)
qed

subsection \<open>Items\<close>

lemma bit_fold_place:
  "bit (fold (\<lambda>b bits. bits OR push_bit (g b) (of_bool (P b))) bs w :: 'a::len word) i \<longleftrightarrow>
    bit w i \<or> (i < LENGTH('a) \<and> (\<exists>b\<in>set bs. i = g b \<and> P b))"
  by (induction bs arbitrary: w) (auto simp: bit_or_iff bit_push_bit_iff bit_of_bool_iff)

lemma kReversedByte_bit:
  assumes "n < 256"
  shows "bit (kReversedByte ! n) i \<longleftrightarrow> i < 8 \<and> bit n (7 - i)"
proof -
  have one: "drop_bit b v AND 1 = of_bool (bit v b)" for b and v :: u8
    by (rule bit_word_eqI) (auto simp: bit_and_iff bit_drop_bit_eq bit_1_iff bit_of_bool_iff)
  have "kReversedByte ! n = fold (\<lambda>b bits. bits OR push_bit (7 - b) (of_bool (bit (word_of_nat n :: u8) b))) [0..<8] 0"
    using assms by (simp add: kReversedByte_def one del: upt.simps)
  then have "bit (kReversedByte ! n) i \<longleftrightarrow> i < 8 \<and> (\<exists>b<8. i = 7 - b \<and> bit (word_of_nat n :: u8) b)"
    by (simp only: bit_fold_place) auto
  also have "\<dots> \<longleftrightarrow> i < 8 \<and> bit n (7 - i)"
    by (auto simp: bit_of_nat_iff intro: exI [of _ "7 - i"])
  finally show ?thesis .
qed

lemma bit_streamField:
  assumes "w \<le> 8" "0 < w"
  shows "bit (streamField item w order) p \<longleftrightarrow> p < w \<and> bit item (fieldPosition order w (w - 1 - p))"
proof -
  let ?field = "(ucast item :: u32) AND (push_bit w 1 - 1)"
  have field: "bit ?field i \<longleftrightarrow> i < w \<and> bit item i" for i
    unfolding bit_and_iff bit_mask_word using assms by (auto simp: bit_ucast_iff dest: bit_imp_le_length)
  show ?thesis
  proof (cases "order = MsbFirst")
    case True
    then have "streamField item w order = ucast ?field" by (simp only: streamField_def Let_def simp_thms if_True)
    then have "bit (streamField item w order) p \<longleftrightarrow> p < 8 \<and> p < w \<and> bit item p"
      by (simp only: bit_ucast_iff field) auto
    with True assms show ?thesis by (auto simp: fieldPosition_def)
  next
    case False
    have shifted: "bit (push_bit (8 - w) ?field) i \<longleftrightarrow> 8 - w \<le> i \<and> i < 8 \<and> bit item (i - (8 - w))" for i
      unfolding bit_push_bit_iff field using assms by auto
    have "push_bit (8 - w) ?field = take_bit 8 (push_bit (8 - w) ?field)"
      by (rule bit_word_eqI) (simp only: bit_take_bit_iff shifted, auto)
    then have "unat (push_bit (8 - w) ?field) = unat (take_bit 8 (push_bit (8 - w) ?field))"
      by (rule arg_cong)
    also have "\<dots> < 2 ^ 8" by (simp only: unsigned_take_bit_eq take_bit_nat_less_exp)
    finally have less: "unat (push_bit (8 - w) ?field) < 256" by simp
    have "bit (streamField item w order) p \<longleftrightarrow> p < 8 \<and> bit (push_bit (8 - w) ?field) (7 - p)"
      using False unfolding streamField_def Let_def by (simp only: if_False kReversedByte_bit [OF less] bit_unsigned_iff) auto
    also have "\<dots> \<longleftrightarrow> p < w \<and> bit item (w - 1 - p)"
      unfolding shifted using assms by (auto simp: Suc_diff_Suc)
    finally show ?thesis using False assms by (auto simp: fieldPosition_def)
  qed
qed

lemma streamField_bits:
  assumes "w \<le> 8" "0 < w"
  shows "streamField item w order = bitsField (itemBits order w item)"
  by (rule bit_word_eqI) (use assms in \<open>auto simp: bit_streamField bit_bitsField\<close>)

lemma streamField_item:
  assumes "length rs \<le> 8" "0 < length rs"
  shows "streamField (bitsField rs) (length rs) order = packItem order rs"
  by (rule bit_word_eqI)
    (use assms in \<open>auto simp: bit_streamField bit_bitsField packItem_def fieldPosition_def rev_nth\<close>)

text \<open>The bit loop of one item, with the loop-carried state abstract.\<close>

lemma item_loop:
  assumes "length bs \<le> LENGTH('a)"
  shows "fold (\<lambda>b (item, s). (item OR push_bit (fieldPosition order (length bs) b) (of_bool (fst (f s (bs ! b)))), snd (f s (bs ! b))))
      [0..<length bs] (0 :: 'a::len word, s) = (packItem order (fst (map_state f s bs)), snd (map_state f s bs))"
proof -
  let ?step = "\<lambda>b (item :: 'a word, s). (item OR push_bit (fieldPosition order (length bs) b) (of_bool (fst (f s (bs ! b)))), snd (f s (bs ! b)))"
  let ?rs = "fst (map_state f s bs)"
  have run: "snd (fold ?step [0..<n] (0, s)) = snd (map_state f s (take n bs)) \<and>
      (\<forall>i. bit (fst (fold ?step [0..<n] (0, s))) i \<longleftrightarrow> i < LENGTH('a) \<and> (\<exists>k<n. i = fieldPosition order (length bs) k \<and> ?rs ! k))"
    if "n \<le> length bs" for n
    using that
  proof (induction n)
    case (Suc n)
    let ?s = "snd (map_state f s (take n bs))"
    have n: "n < length bs" using Suc.prems by simp
    then have bs: "bs = take n bs @ bs ! n # drop (Suc n) bs" by (rule id_take_nth_drop)
    have rs: "?rs ! n = fst (f ?s (bs ! n))"
      by (subst (1) bs, subst map_state_append) (use n in \<open>simp add: split_beta Let_def nth_append\<close>)
    have next_state: "snd (map_state f s (take (Suc n) bs)) = snd (f ?s (bs ! n))"
      using n by (simp add: take_Suc_conv_app_nth map_state_append split_beta Let_def)
    obtain W st where W: "fold ?step [0..<n] (0, s) = (W, st)" by fastforce
    with Suc.IH n have IH: "st = ?s"
      "bit W i \<longleftrightarrow> i < LENGTH('a) \<and> (\<exists>k<n. i = fieldPosition order (length bs) k \<and> ?rs ! k)" for i
      by simp_all
    have step: "fold ?step [0..<Suc n] (0, s) =
        (W OR push_bit (fieldPosition order (length bs) n) (of_bool (?rs ! n)), snd (f ?s (bs ! n)))"
      by (simp add: W rs IH(1))
    show ?case
      unfolding step next_state fst_conv snd_conv
      using fieldPosition_less [OF n, of order] assms
      by (auto simp: IH(2) bit_or_iff bit_push_bit_iff bit_of_bool_iff less_Suc_eq)
  qed simp
  note full = run [of "length bs", OF order_refl]
  have "fst (fold ?step [0..<length bs] (0, s)) = packItem order ?rs"
  proof (rule bit_word_eqI)
    fix i assume "i < LENGTH('a)"
    have "(\<exists>k<length bs. i = fieldPosition order (length bs) k \<and> ?rs ! k) \<longleftrightarrow> bit (packItem order ?rs :: 'a word) i" (is "?l \<longleftrightarrow> ?r")
    proof
      assume ?l with assms show ?r using bit_packItem [of ?rs _ order] by auto
    next
      assume ?r
      then have "i < length bs" using bit_packItem_above by fastforce
      then obtain k where "k < length bs" "fieldPosition order (length bs) k = i" using fieldPosition_onto by blast
      with \<open>?r\<close> assms show ?l using bit_packItem [of ?rs k order] by auto
    qed
    then show "bit (fst (fold ?step [0..<length bs] (0, s))) i \<longleftrightarrow> bit (packItem order ?rs :: 'a word) i"
      using full \<open>i < LENGTH('a)\<close> by blast
  qed
  with full show ?thesis by (simp add: prod_eq_iff)
qed

lemma ucast_packItem: "length rs \<le> 8 \<Longrightarrow> (ucast (packItem order rs :: u32) :: u8) = packItem order rs"
  by (rule bit_word_eqI) (auto simp: bit_ucast_iff packItem_def bit_bitsField)

lemma referenceItem_run:
  assumes "bitsPerItem cfg \<le> 8"
  defines "r \<equiv> \<lambda>reg x. map_state (bitStep (sc_mode cfg) (sc_taps cfg) (regMask cfg)) reg (itemBits (sc_order cfg) (bitsPerItem cfg) x)"
  shows "referenceItem cfg reg x = (packItem (sc_order cfg) (fst (r reg x)), snd (r reg x))"
proof -
  let ?bs = "itemBits (sc_order cfg) (bitsPerItem cfg) x"
  let ?f = "bitStep (sc_mode cfg) (sc_taps cfg) (regMask cfg)"
  have source: "drop_bit p (ucast x :: u32) AND 1 = of_bool (bit x p)" for p
    by (rule bit_word_eqI) (auto simp: bit_and_iff bit_drop_bit_eq bit_1_iff bit_of_bool_iff bit_ucast_iff dest: bit_imp_le_length)
  have xor: "of_bool a XOR of_bool b = (of_bool (a \<noteq> b) :: u32)" for a b by (cases a; cases b) simp_all
  have step: "referenceBit cfg x b = (\<lambda>(item, s). (item OR push_bit (fieldPosition (sc_order cfg) (length ?bs) b) (of_bool (fst (?f s (?bs ! b)))), snd (?f s (?bs ! b))))"
    if "b < bitsPerItem cfg" for b
    using that
    by (auto simp: referenceBit_def fieldPosition_def source parity_bit xor bitStep_def Let_def fb_def fun_eq_iff
        simp del: push_bit_of_1 split: ScramblerMode.splits)
  have "fold (referenceBit cfg x) [0..<bitsPerItem cfg] (0, reg) =
      fold (\<lambda>b (item, s). (item OR push_bit (fieldPosition (sc_order cfg) (length ?bs) b) (of_bool (fst (?f s (?bs ! b)))), snd (?f s (?bs ! b))))
        [0..<length ?bs] (0, reg)"
    by (rule fold_cong) (simp_all add: step)
  also have "\<dots> = (packItem (sc_order cfg) (fst (r reg x)), snd (r reg x))"
    unfolding r_def by (rule item_loop) (use assms(1) in simp)
  finally show ?thesis using assms(1) by (simp add: referenceItem_def r_def ucast_packItem)
qed

subsection \<open>What a configuration promises\<close>

text \<open>
  The facts every unmonitored recursion keeps: the shape of the tap set, the masked register, the
  list of the delays, and, where there is a table, that it holds one period of the walk from the
  initial register and eight bits more, with the phase saying how far along the register is.
\<close>

definition walk :: "ScramblerConfig \<Rightarrow> nat \<Rightarrow> u64" where
  "walk cfg n = (walkStep (sc_taps cfg) (regMask cfg) ^^ n) (initialReg cfg)"

definition tableHolds :: "ScramblerConfig \<Rightarrow> bool" where
  "tableHolds cfg \<longleftrightarrow>
     walk cfg (tablePeriod cfg) = initialReg cfg \<and> phase cfg < tablePeriod cfg \<and> sc_reg cfg = walk cfg (phase cfg) \<and>
     (\<forall>n<tablePeriod cfg + 8. bit (table cfg ! (n div 8)) (7 - n mod 8) = fb (sc_taps cfg) (walk cfg n))"

definition wellConfigured :: "ScramblerConfig \<Rightarrow> bool" where
  "wellConfigured cfg \<longleftrightarrow>
     shaped (sc_taps cfg) (regMask cfg) (sc_degree cfg) (minDelay cfg) \<and>
     0 < bitsPerItem cfg \<and> bitsPerItem cfg \<le> 8 \<and> stepBits cfg = min 8 (minDelay cfg) \<and>
     sc_reg cfg AND regMask cfg = sc_reg cfg \<and> initialReg cfg AND regMask cfg = initialReg cfg \<and>
     distinct (take (tapCount cfg) (delays cfg)) \<and> tapCount cfg \<le> length (delays cfg) \<and>
     set (take (tapCount cfg) (delays cfg)) = {j. 0 < j \<and> bit (sc_taps cfg) (j - 1)} \<and>
     sc_source cfg = Lfsr \<and> \<not> invertOutput cfg \<and> forceAfter cfg = 0 \<and>
     (form cfg = Table \<longrightarrow> tablePeriod cfg \<noteq> 0) \<and>
     (tablePeriod cfg \<noteq> 0 \<longrightarrow> sc_mode cfg = Additive \<and> tableHolds cfg)"

text \<open>A stepped item is the reference item.\<close>

lemma ucast_bitsField:
  "length bs \<le> LENGTH('a) \<Longrightarrow> (ucast (bitsField bs :: 'a::len word) :: 'b::len word) = bitsField bs"
  by (rule bit_word_eqI) (auto simp: bit_ucast_iff bit_bitsField)

lemma run_length [simp]: "length (fst (map_state f s (itemBits order w x))) = w"
  by simp

lemma multiplicative_item:
  assumes shape: "shaped taps rmask d m" and reg: "reg AND rmask = reg" and w: "0 < w" "w \<le> 8"
    and r_def: "r = map_state (bitStep MultiplicativeScramble taps rmask) reg (itemBits order w x)"
  shows "multiplicativeField (min (min 8 m) w) taps rmask (ucast (streamField x w order)) w 0 reg = Some (bitsField (fst r), snd r)"
proof -
  have source: "(ucast (streamField x w order) :: u32) = bitsField (itemBits order w x)"
    using w by (simp add: streamField_bits ucast_bitsField)
  have field: "take_bit w (bitsField (itemBits order w x) :: u32) = bitsField (itemBits order w x)"
    by (rule bit_word_eqI) (auto simp: bit_take_bit_iff bit_bitsField)
  have "0 < m" using shape by (simp add: shaped_def)
  then show ?thesis
    using multiplicativeField_run [OF shape _ _ _ reg, of "min (min 8 m) w" "itemBits order w x"
        "bitsField (itemBits order w x)" 0] w
    by (simp add: source field r_def)
qed

text \<open>The additive mode: the run over any bits is the run over zeros, added to them.\<close>

lemma additive_run:
  "map_state (bitStep Additive taps rmask) reg bs =
     (let K = map_state (bitStep Additive taps rmask) reg (replicate (length bs) False)
      in (map2 (\<noteq>) bs (fst K), snd K))"
  by (induction bs arbitrary: reg) (simp_all add: Let_def split_beta bitStep_def)

lemma scramble_zeros:
  "map_state (bitStep MultiplicativeScramble taps rmask) reg (replicate n False) =
    map_state (bitStep Additive taps rmask) reg (replicate n False)"
  by (induction n arbitrary: reg) (simp_all add: Let_def split_beta bitStep_def)

lemma itemBits_0: "itemBits order w (0 :: 'a::len word) = replicate w False"
  by (rule nth_equalityI) simp_all

lemma referenceItem_additive:
  assumes "0 < bitsPerItem cfg" "bitsPerItem cfg \<le> 8" "sc_mode cfg = Additive"
  shows "referenceItem cfg reg x =
    ((x XOR fst (referenceItem cfg reg 0)) AND (push_bit (bitsPerItem cfg) 1 - 1), snd (referenceItem cfg reg 0))"
proof -
  let ?w = "bitsPerItem cfg" and ?o = "sc_order cfg"
  define ks where "ks = fst (map_state (bitStep Additive (sc_taps cfg) (regMask cfg)) reg (replicate ?w False))"
  have ks: "length ks = ?w" by (simp add: ks_def)
  have "packItem ?o (map2 (\<noteq>) (itemBits ?o ?w x) ks) = (x XOR packItem ?o ks) AND (push_bit ?w 1 - 1)"
  proof (rule bit_word_eqI)
    fix i assume i: "i < LENGTH(8)"
    show "bit (packItem ?o (map2 (\<noteq>) (itemBits ?o ?w x) ks) :: u8) i \<longleftrightarrow> bit ((x XOR packItem ?o ks) AND (push_bit ?w 1 - 1)) i"
    proof (cases "i < ?w")
      case True
      then obtain k where k: "k < ?w" "i = fieldPosition ?o ?w k" using fieldPosition_onto by metis
      then have "bit (packItem ?o (map2 (\<noteq>) (itemBits ?o ?w x) ks) :: u8) i \<longleftrightarrow> (bit x i \<noteq> ks ! k)"
        "bit (packItem ?o ks :: u8) i \<longleftrightarrow> ks ! k"
        using ks assms(2) by simp_all
      with True i show ?thesis
        unfolding bit_and_iff bit_mask_word bit_xor_iff by simp
    next
      case False
      then show ?thesis
        unfolding bit_and_iff bit_mask_word using ks by (auto dest: bit_packItem_above)
    qed
  qed
  moreover have "map_state (bitStep Additive (sc_taps cfg) (regMask cfg)) reg (itemBits ?o ?w x) =
      (map2 (\<noteq>) (itemBits ?o ?w x) ks, snd (map_state (bitStep Additive (sc_taps cfg) (regMask cfg)) reg (replicate ?w False)))"
    by (subst additive_run) (simp add: ks_def Let_def)
  ultimately show ?thesis
    using assms by (simp add: referenceItem_run itemBits_0 ks_def del: push_bit_of_1)
qed

lemma recurrence_item:
  assumes "wellConfigured cfg" "sc_mode cfg = Additive" "reg AND regMask cfg = reg"
  shows "(case recurrenceField (min (stepBits cfg) (bitsPerItem cfg)) (sc_taps cfg) (regMask cfg) (bitsPerItem cfg) 0 reg of
      None \<Rightarrow> None
    | Some (field, reg) \<Rightarrow> Some (streamField (ucast field) (bitsPerItem cfg) (sc_order cfg), reg)) =
    Some (referenceItem cfg reg 0)"
proof -
  let ?w = "bitsPerItem cfg"
  have w: "0 < ?w" "?w \<le> 8" and shape: "shaped (sc_taps cfg) (regMask cfg) (sc_degree cfg) (minDelay cfg)"
    and step: "stepBits cfg = min 8 (minDelay cfg)"
    using assms(1) by (simp_all add: wellConfigured_def)
  have "0 < min (min 8 (minDelay cfg)) ?w" using shape w by (simp add: shaped_def)
  moreover have "streamField 0 ?w (sc_order cfg) = 0"
    using w by (simp add: streamField_bits itemBits_0) (rule bit_word_eqI, auto simp: bit_bitsField)
  moreover define K where "K = map_state (bitStep Additive (sc_taps cfg) (regMask cfg)) reg (replicate ?w False)"
  ultimately have "recurrenceField (min (stepBits cfg) ?w) (sc_taps cfg) (regMask cfg) ?w 0 reg = Some (bitsField (fst K), snd K)"
    using multiplicative_item [OF shape assms(3) w refl, of 0 "sc_order cfg"]
    by (simp add: recurrenceField_multiplicative step itemBits_0 scramble_zeros K_def)
  moreover have "length (fst K) = ?w" by (simp add: K_def)
  ultimately show ?thesis
    using w assms(2) streamField_item [of "fst K" "sc_order cfg"]
    by (simp add: referenceItem_run itemBits_0 K_def ucast_bitsField)
qed

lemma referenceItem_masked:
  assumes "wellConfigured cfg" "reg AND regMask cfg = reg"
  shows "snd (referenceItem cfg reg x) AND regMask cfg = snd (referenceItem cfg reg x)"
proof -
  have w: "bitsPerItem cfg \<le> 8" and shape: "shaped (sc_taps cfg) (regMask cfg) (sc_degree cfg) (minDelay cfg)"
    using assms(1) by (simp_all add: wellConfigured_def)
  show ?thesis using run_fed [OF shape assms(2)] by (simp add: referenceItem_run [OF w])
qed

subsection \<open>The two additive generators\<close>

text \<open>The sequence items from a register, and the register after them.\<close>

definition keySequence :: "ScramblerConfig \<Rightarrow> u64 \<Rightarrow> nat list \<Rightarrow> u8 list \<times> u64" where
  "keySequence cfg = map_state (\<lambda>reg _. referenceItem cfg reg 0)"

lemma generateRecurrence_keys:
  assumes "wellConfigured cfg" "sc_mode cfg = Additive"
  shows "generateRecurrence cfg n =
    Some (fst (keySequence cfg (sc_reg cfg) [0..<n]), advancePhase (cfg\<lparr>sc_reg := snd (keySequence cfg (sc_reg cfg) [0..<n])\<rparr>) n)"
proof -
  let ?f = "\<lambda>reg (item :: nat).
    case recurrenceField (min (stepBits cfg) (bitsPerItem cfg)) (sc_taps cfg) (regMask cfg) (bitsPerItem cfg) 0 reg of
      None \<Rightarrow> None
    | Some (field, reg) \<Rightarrow> Some (streamField (ucast field) (bitsPerItem cfg) (sc_order cfg), reg)"
  have "sc_reg cfg AND regMask cfg = sc_reg cfg" using assms(1) by (simp add: wellConfigured_def)
  then have "\<exists>s'. map_state_opt ?f (sc_reg cfg) [0..<n] = Some (fst (keySequence cfg (sc_reg cfg) [0..<n]), s') \<and>
      s' = snd (keySequence cfg (sc_reg cfg) [0..<n]) \<and> s' AND regMask cfg = s'"
    unfolding keySequence_def
    by (intro map_state_opt_simulate [where R = "\<lambda>s t. s = t \<and> s AND regMask cfg = s"])
      (use recurrence_item [OF assms] referenceItem_masked [OF assms(1)] in auto)
  then show ?thesis by (simp add: generateRecurrence_def Let_def split_beta)
qed

lemma wrapPhase_mod: "0 < period \<Longrightarrow> wrapPhase period a = Some (a mod period)"
proof (induction a rule: less_induct)
  case (less a)
  then show ?case by (subst wrapPhase.simps) (simp add: le_mod_geq)
qed

lemma additive_walk:
  "map_state (bitStep Additive taps rmask) reg (replicate w False) =
    (map (\<lambda>k. fb taps ((walkStep taps rmask ^^ k) reg)) [0..<w], (walkStep taps rmask ^^ w) reg)"
proof (induction w arbitrary: reg)
  case (Suc w)
  have "bitStep Additive taps rmask reg False = (fb taps reg, walkStep taps rmask reg)"
    by (simp add: bitStep_def walkStep_def parity_bit fb_def)
  with Suc show ?case
    by (simp add: Let_def funpow_swap1 [symmetric] upt_rec [of 0 "Suc w"] map_Suc_upt [symmetric] del: upt_Suc)
qed simp

lemma walk_period:
  assumes "walk cfg P = initialReg cfg" "0 < P"
  shows "walk cfg n = walk cfg (n mod P)"
proof -
  have shift: "walk cfg (P + k) = walk cfg k" for k
    using assms(1) by (simp add: walk_def funpow_add add.commute [of P])
  have "walk cfg (q * P + k) = walk cfg k" for q k
    by (induction q) (simp_all add: add.assoc shift)
  from this [of "n div P" "n mod P"] show ?thesis by simp
qed

lemma walk_add: "(walkStep (sc_taps cfg) (regMask cfg) ^^ k) (walk cfg n) = walk cfg (n + k)"
  by (simp add: walk_def add.commute [of n] funpow_add)

lemma bit_byte_window:
  fixes a b :: u8
  assumes "r < 16"
  shows "bit (push_bit 8 (ucast a) OR ucast b :: u32) (15 - r) \<longleftrightarrow> (if r < 8 then bit a (7 - r) else bit b (7 - (r - 8)))"
proof (cases "r < 8")
  case True
  then have "15 - r - 8 = 7 - r" "8 \<le> 15 - r" "15 - r < 32" "7 - r < 32" "\<not> bit b (15 - r)"
    by (auto dest: bit_imp_le_length)
  with True show ?thesis unfolding bit_or_iff bit_push_bit_iff bit_ucast_iff by simp
next
  case False
  with assms have "7 - (r - 8) = 15 - r" "15 - r < 8" by simp_all
  with False show ?thesis unfolding bit_or_iff bit_push_bit_iff bit_ucast_iff by simp
qed

lemma tableBits_bits:
  assumes "\<And>k. k < P + 8 \<Longrightarrow> bit (tb ! (k div 8)) (7 - k mod 8) = S k" "n < P" "0 < w" "w \<le> 8"
  shows "tableBits tb n w = bitsField (map (\<lambda>k. S (n + k)) [0..<w])"
proof (rule bit_word_eqI)
  fix i assume i: "i < LENGTH(32)"
  let ?window = "push_bit 8 (ucast (tb ! (n div 8))) OR ucast (tb ! (n div 8 + 1)) :: u32"
  have "bit (tableBits tb n w) i \<longleftrightarrow> i < w \<and> bit ?window (16 - n mod 8 - w + i)"
    unfolding tableBits_def Let_def bit_and_iff bit_mask_word bit_drop_bit_eq using i by auto
  moreover have "bit ?window (16 - n mod 8 - w + i) \<longleftrightarrow> bit (tb ! ((n + (w - 1 - i)) div 8)) (7 - (n + (w - 1 - i)) mod 8)"
    if "i < w"
  proof -
    define r where "r = n mod 8 + (w - 1 - i)"
    have q: "16 - n mod 8 - w + i = 15 - r" "r < 16" using that assms(3,4) by (auto simp: r_def)
    have n: "n + (w - 1 - i) = 8 * (n div 8) + r" by (simp add: r_def)
    show ?thesis
    proof (cases "r < 8")
      case True
      then have "(n + (w - 1 - i)) div 8 = n div 8" "(n + (w - 1 - i)) mod 8 = r"
        unfolding n by (simp_all only: div_mult_self4 mod_mult_self4 div_less mod_less)
      with True show ?thesis by (simp only: q(1) bit_byte_window [OF q(2)] if_True)
    next
      case False
      then have "8 * (n div 8) + r = 8 * (n div 8 + 1) + (r - 8)" "r - 8 < 8" using q(2) by simp_all
      then have "(n + (w - 1 - i)) div 8 = n div 8 + 1" "(n + (w - 1 - i)) mod 8 = r - 8"
        unfolding n by (simp_all only: div_mult_self4 mod_mult_self4 div_less mod_less)
      with False show ?thesis by (simp only: q(1) bit_byte_window [OF q(2)] if_False)
    qed
  qed
  moreover have "bit (tb ! ((n + (w - 1 - i)) div 8)) (7 - (n + (w - 1 - i)) mod 8) \<longleftrightarrow>
      S (n + (w - 1 - i))" if "i < w"
    using assms that by simp
  ultimately have "bit (tableBits tb n w) i \<longleftrightarrow> i < w \<and> S (n + (w - 1 - i))"
    by blast
  then show "bit (tableBits tb n w) i \<longleftrightarrow>
      bit (bitsField (map (\<lambda>k. S (n + k)) [0..<w]) :: u32) i"
    using i by (auto simp: bit_bitsField)
qed

lemma tableBits_walk:
  assumes "tableHolds cfg" "n < tablePeriod cfg" "0 < w" "w \<le> 8"
  shows "tableBits (table cfg) n w = bitsField (map (\<lambda>k. fb (sc_taps cfg) (walk cfg (n + k))) [0..<w])"
  using assms(1) by (intro tableBits_bits [OF _ assms(2-4)]) (simp add: tableHolds_def)

lemma referenceItem_walk:
  assumes "wellConfigured cfg" "sc_mode cfg = Additive"
  shows "referenceItem cfg (walk cfg n) 0 =
    (packItem (sc_order cfg) (map (\<lambda>k. fb (sc_taps cfg) (walk cfg (n + k))) [0..<bitsPerItem cfg]), walk cfg (n + bitsPerItem cfg))"
  using assms by (simp add: wellConfigured_def referenceItem_run itemBits_0 additive_walk walk_add)

lemma walk_masked: "wellConfigured cfg \<Longrightarrow> walk cfg n AND regMask cfg = walk cfg n"
proof -
  assume "wellConfigured cfg"
  moreover have "(w AND m) AND m = w AND m" for w m :: u64 by (simp add: and.assoc)
  ultimately show ?thesis by (cases n) (simp_all add: walk_def walkStep_def wellConfigured_def)
qed

lemma generateTable_keys:
  assumes "wellConfigured cfg" "sc_mode cfg = Additive" "tablePeriod cfg \<noteq> 0"
  shows "generateTable cfg n =
    Some (fst (keySequence cfg (sc_reg cfg) [0..<n]), advancePhase (cfg\<lparr>sc_reg := snd (keySequence cfg (sc_reg cfg) [0..<n])\<rparr>) n)"
proof -
  let ?w = "bitsPerItem cfg" and ?P = "tablePeriod cfg"
  have well: "0 < ?w" "?w \<le> 8" "tableHolds cfg" "0 < ?P" and shape: "shaped (sc_taps cfg) (regMask cfg) (sc_degree cfg) (minDelay cfg)"
    using assms by (simp_all add: wellConfigured_def)
  have per: "walk cfg ?P = initialReg cfg" "phase cfg < ?P" "sc_reg cfg = walk cfg (phase cfg)"
    using well(3) by (simp_all add: tableHolds_def)
  define f where "f = (\<lambda>(reg, phase) (item :: nat).
    let bits = tableBits (table cfg) phase ?w; item = streamField (ucast bits) ?w (sc_order cfg);
        reg = (push_bit ?w reg OR ucast bits) AND regMask cfg
    in case wrapPhase ?P (phase + ?w) of None \<Rightarrow> None | Some phase \<Rightarrow> Some (item, (reg, phase)))"
  have item: "f (walk cfg p, p) i = Some (fst (referenceItem cfg (walk cfg p) 0), (walk cfg ((p + ?w) mod ?P), (p + ?w) mod ?P))"
    if "p < ?P" for p i
  proof -
    let ?ks = "map (\<lambda>k. fb (sc_taps cfg) (walk cfg (p + k))) [0..<?w]"
    have "fed (regMask cfg) ?ks (walk cfg p) = walk cfg (p + ?w)"
      using run_fed [OF shape walk_masked [OF assms(1)], of Additive p "replicate ?w False"]
      by (simp add: additive_walk walk_add fedBits_def map2_map_map [symmetric] zip_replicate1 o_def)
    then have "(push_bit ?w (walk cfg p) OR bitsField ?ks) AND regMask cfg = walk cfg (p + ?w)"
      by (simp add: fed_def)
    moreover have "walk cfg (p + ?w) = walk cfg ((p + ?w) mod ?P)"
      by (rule walk_period [OF per(1) well(4)])
    moreover have "streamField (bitsField ?ks) ?w (sc_order cfg) = packItem (sc_order cfg) ?ks"
      using streamField_item [of ?ks "sc_order cfg"] well by simp
    ultimately show ?thesis
      using well by (simp add: f_def Let_def tableBits_walk [OF well(3) that well(1,2)] ucast_bitsField wrapPhase_mod
          referenceItem_walk [OF assms(1,2)])
  qed
  have loop: "map_state_opt f (walk cfg p, p) xs =
      Some (fst (keySequence cfg (walk cfg p) xs), (snd (keySequence cfg (walk cfg p) xs), (p + length xs * ?w) mod ?P))"
    if "p < ?P" for p xs
    using that
  proof (induction xs arbitrary: p)
    case Nil
    then show ?case by (simp add: keySequence_def)
  next
    case (Cons i xs)
    have next_reg: "snd (referenceItem cfg (walk cfg p) 0) = walk cfg ((p + ?w) mod ?P)"
      using walk_period [OF per(1) well(4), of "p + ?w"] by (simp add: referenceItem_walk [OF assms(1,2)])
    have "(p + ?w) mod ?P < ?P" using well(4) by simp
    note IH = Cons.IH [OF this]
    show ?case
      unfolding map_state_opt.simps item [OF Cons.prems] option.case prod.case IH
      by (simp add: keySequence_def Let_def split_beta next_reg add.assoc mod_add_left_eq)
  qed
  show ?thesis
    using loop [OF per(2), of "[0..<n]"] well(4)
    by (simp add: generateTable_def f_def Let_def per(3) [symmetric] advancePhase_def)
qed

subsection \<open>Every form is the definition\<close>

text \<open>The configuration after the reference form has run over \<open>xs\<close>.\<close>

definition after :: "ScramblerConfig \<Rightarrow> u8 list \<Rightarrow> ScramblerConfig" where
  "after cfg xs = advancePhase (cfg\<lparr>sc_reg := snd (map_state (referenceItem cfg) (sc_reg cfg) xs)\<rparr>) (length xs)"

lemma scrambleReference_after:
  "scrambleReference cfg src out =
     (let count = min (length src) (length out)
      in (fst (map_state (referenceItem cfg) (sc_reg cfg) (take count src)) @ drop count out, after cfg (take count src)))"
  by (simp add: scrambleReference_def after_def Let_def split_beta min.commute)

lemma referenceItem_cong:
  assumes "sc_order c = sc_order cfg" "bitsPerItem c = bitsPerItem cfg" "sc_taps c = sc_taps cfg"
    "sc_mode c = sc_mode cfg" "regMask c = regMask cfg"
  shows "referenceItem c = referenceItem cfg"
  by (simp only: fun_eq_iff referenceItem_def referenceBit_def [abs_def] assms) simp

lemma advancePhase_fields [simp]:
  "sc_mode (advancePhase cfg n) = sc_mode cfg" "sc_taps (advancePhase cfg n) = sc_taps cfg"
  "bitsPerItem (advancePhase cfg n) = bitsPerItem cfg" "sc_order (advancePhase cfg n) = sc_order cfg"
  "tablePeriod (advancePhase cfg n) = tablePeriod cfg" "regMask (advancePhase cfg n) = regMask cfg"
  "sc_reg (advancePhase cfg n) = sc_reg cfg" "sc_degree (advancePhase cfg n) = sc_degree cfg"
  "minDelay (advancePhase cfg n) = minDelay cfg" "stepBits (advancePhase cfg n) = stepBits cfg"
  "initialReg (advancePhase cfg n) = initialReg cfg" "tapCount (advancePhase cfg n) = tapCount cfg"
  "delays (advancePhase cfg n) = delays cfg" "sc_source (advancePhase cfg n) = sc_source cfg"
  "invertOutput (advancePhase cfg n) = invertOutput cfg" "forceAfter (advancePhase cfg n) = forceAfter cfg"
  "form (advancePhase cfg n) = form cfg" "table (advancePhase cfg n) = table cfg"
  "monitorWindow (advancePhase cfg n) = monitorWindow cfg" "forceCounter (advancePhase cfg n) = forceCounter cfg"
  by (simp_all add: advancePhase_def)

lemma referenceItem_update [simp]:
  "referenceItem (cfg\<lparr>sc_reg := r\<rparr>) = referenceItem cfg" "referenceItem (cfg\<lparr>phase := p\<rparr>) = referenceItem cfg"
  "referenceItem (advancePhase cfg n) = referenceItem cfg"
  by (rule referenceItem_cong, simp_all)+

lemma after_append: "after cfg (xs @ ys) = after (after cfg xs) ys"
  by (simp add: after_def map_state_append split_beta Let_def advancePhase_def add.assoc [symmetric] distrib_right mod_add_left_eq)

lemma after_fields [simp]:
  "sc_mode (after cfg xs) = sc_mode cfg" "sc_taps (after cfg xs) = sc_taps cfg" "bitsPerItem (after cfg xs) = bitsPerItem cfg"
  "sc_order (after cfg xs) = sc_order cfg" "tablePeriod (after cfg xs) = tablePeriod cfg" "regMask (after cfg xs) = regMask cfg"
  "referenceItem (after cfg xs) = referenceItem cfg"
  "sc_reg (after cfg xs) = snd (map_state (referenceItem cfg) (sc_reg cfg) xs)"
  by (simp_all add: after_def)

lemma reference_keys:
  assumes "0 < bitsPerItem cfg" "bitsPerItem cfg \<le> 8" "sc_mode cfg = Additive" "length is = length xs"
  shows "map_state (referenceItem cfg) reg xs =
    (map2 (\<lambda>x s. (x XOR s) AND (push_bit (bitsPerItem cfg) 1 - 1)) xs (fst (keySequence cfg reg is)), snd (keySequence cfg reg is))"
  using assms(4)
proof (induction xs arbitrary: "is" reg)
  case (Cons x xs)
  then obtain i js where js: "is = i # js" "length js = length xs" by (cases "is") auto
  show ?case
    using Cons.IH [OF js(2)]
    by (simp add: js(1) keySequence_def Let_def split_beta referenceItem_additive [OF assms(1-3), of reg x] del: push_bit_of_1)
qed (simp add: keySequence_def)

lemma run_masked:
  assumes "wellConfigured cfg" "reg AND regMask cfg = reg"
  shows "snd (map_state (referenceItem cfg) reg xs) AND regMask cfg = snd (map_state (referenceItem cfg) reg xs)"
  by (rule map_state_invariant) (use assms referenceItem_masked [OF assms(1)] in simp_all)

lemma run_walk:
  assumes "wellConfigured cfg" "sc_mode cfg = Additive"
  shows "snd (map_state (referenceItem cfg) (walk cfg n) xs) = walk cfg (n + length xs * bitsPerItem cfg)"
proof (induction xs arbitrary: n)
  case (Cons x xs)
  have "snd (referenceItem cfg (walk cfg n) x) = walk cfg (n + bitsPerItem cfg)"
    using assms referenceItem_additive [of cfg "walk cfg n" x] referenceItem_walk [OF assms]
    by (simp add: wellConfigured_def)
  with Cons show ?case by (simp add: Let_def split_beta add.assoc)
qed simp

lemma wellConfigured_after:
  assumes "wellConfigured cfg"
  shows "wellConfigured (after cfg xs)"
proof -
  let ?r = "snd (map_state (referenceItem cfg) (sc_reg cfg) xs)"
  have masked: "?r AND regMask cfg = ?r"
    by (rule run_masked [OF assms]) (use assms in \<open>simp add: wellConfigured_def\<close>)
  have holds: "tableHolds (after cfg xs)" if "tablePeriod cfg \<noteq> 0"
  proof -
    have cfg: "tableHolds cfg" "sc_mode cfg = Additive" using that assms by (simp_all add: wellConfigured_def)
    let ?p = "(phase cfg + length xs * bitsPerItem cfg) mod tablePeriod cfg"
    have "?r = walk cfg (phase cfg + length xs * bitsPerItem cfg)"
      using cfg run_walk [OF assms cfg(2), of "phase cfg" xs] by (simp add: tableHolds_def)
    also have "\<dots> = walk cfg ?p" using cfg(1) that by (intro walk_period) (simp_all add: tableHolds_def)
    finally have r: "?r = walk cfg ?p" .
    have "after cfg xs = cfg\<lparr>sc_reg := ?r, phase := ?p\<rparr>" using that by (simp add: after_def advancePhase_def)
    with cfg(1) r that show ?thesis by (simp add: tableHolds_def walk_def)
  qed
  show ?thesis
    using assms masked holds unfolding wellConfigured_def after_def by simp
qed

lemma additiveChunks_reference:
  assumes "wellConfigured cfg" "sc_mode cfg = Additive"
  shows "additiveChunks cfg src = Some (fst (map_state (referenceItem cfg) (sc_reg cfg) src), after cfg src)"
  using assms
proof (induction cfg src rule: additiveChunks.induct)
  case (1 cfg src)
  have well: "0 < bitsPerItem cfg" "bitsPerItem cfg \<le> 8" "sc_source cfg = Lfsr" "form cfg = Table \<longrightarrow> tablePeriod cfg \<noteq> 0"
    using 1(2) by (simp_all add: wellConfigured_def)
  show ?case
  proof (cases "src = []")
    case True
    with 1(2) well(2) show ?thesis
      by (simp add: additiveChunks.simps after_def advancePhase_def wellConfigured_def tableHolds_def)
  next
    case False
    let ?n = "min kChunk (length src)"
    let ?K = "keySequence cfg (sc_reg cfg) [0..<?n]"
    have run: "map_state (referenceItem cfg) (sc_reg cfg) (take ?n src) =
        (map2 (\<lambda>x s. (x XOR s) AND (push_bit (bitsPerItem cfg) 1 - 1)) (take ?n src) (fst ?K), snd ?K)"
      by (rule reference_keys [OF well(1,2) 1(3)]) simp
    have "generateSequence cfg ?n = Some (fst ?K, advancePhase (cfg\<lparr>sc_reg := snd ?K\<rparr>) ?n)"
      using well generateTable_keys [OF 1(2,3)] generateRecurrence_keys [OF 1(2,3)]
      by (simp add: generateSequence_def)
    then have gen: "generateSequence cfg ?n = Some (fst ?K, after cfg (take ?n src))"
      by (simp add: after_def run)
    have IH: "additiveChunks (after cfg (take ?n src)) (drop ?n src) =
        Some (fst (map_state (referenceItem cfg) (snd ?K) (drop ?n src)), after (after cfg (take ?n src)) (drop ?n src))"
      using 1(1) [OF False refl refl gen refl] wellConfigured_after [OF 1(2)] 1(3) by (simp add: run)
    have "map_state (referenceItem cfg) (sc_reg cfg) (take ?n src @ drop ?n src) =
        (map2 (\<lambda>x s. (x XOR s) AND (push_bit (bitsPerItem cfg) 1 - 1)) (take ?n src) (fst ?K) @
         fst (map_state (referenceItem cfg) (snd ?K) (drop ?n src)),
         snd (map_state (referenceItem cfg) (snd ?K) (drop ?n src)))"
      unfolding map_state_append run by (simp add: split_beta Let_def)
    moreover have "after cfg (take ?n src @ drop ?n src) = after (after cfg (take ?n src)) (drop ?n src)"
      by (rule after_append)
    ultimately show ?thesis
      using False gen IH by (subst additiveChunks.simps) (simp only: Let_def append_take_drop_id, simp)
  qed
qed

lemma descramble_run:
  assumes "shaped taps rmask d m" "reg AND rmask = reg"
  shows "map_state (bitStep MultiplicativeDescramble taps rmask) reg bs =
    (map (\<lambda>k. bs ! k \<noteq> fb taps (fed rmask (take k bs) reg)) [0..<length bs], fed rmask bs reg)"
proof -
  let ?r = "map_state (bitStep MultiplicativeDescramble taps rmask) reg bs"
  have "fst ?r = map (\<lambda>k. bs ! k \<noteq> fb taps (fed rmask (take k bs) reg)) [0..<length bs]"
    by (rule nth_equalityI) (use run_nth [OF assms _ refl, of _ bs MultiplicativeDescramble] in \<open>simp_all add: fedBits_def\<close>)
  moreover have "snd ?r = fed rmask bs reg"
    using run_fed [OF assms, of MultiplicativeDescramble bs] by (simp add: fedBits_def)
  ultimately show ?thesis by (simp add: prod_eq_iff)
qed

lemma fold_bitsField:
  "fold (\<lambda>b acc. push_bit 1 acc OR of_bool (P b)) [0..<n] 0 = bitsField (map P [0..<n])"
  by (induction n) (simp_all add: bitsField_snoc)

lemma of_bool_xor: "of_bool a XOR of_bool b = (of_bool (a \<noteq> b) :: 'a::len word)"
  by (cases a; cases b) simp_all

lemma descramble_feedback:
  assumes "shaped taps rmask d m" "length bs = w" "w \<le> 8"
  shows "itemFeedback taps reg w (bitsField bs) = bitsField (map (\<lambda>k. fb taps (fed rmask (take k bs) reg)) [0..<w])"
proof -
  have inside: "popcount (push_bit (w - b) (taps AND (push_bit b 1 - 1)) AND bitsField bs) = popcount (taps AND (bitsField (take b bs) :: u64))"
    if "b < w" for b
  proof -
    have "push_bit (w - b) (taps AND (push_bit b 1 - 1)) AND bitsField bs = push_bit (w - b) (taps AND bitsField (take b bs))"
      unfolding bit_eq_iff bit_and_iff bit_push_bit_iff bit_mask_word bit_bitsField
      using that assms(2,3) by (auto dest: bit_imp_le_length)
    moreover have "popcount (push_bit (w - b) (taps AND (bitsField (take b bs) :: u64))) = popcount (taps AND (bitsField (take b bs) :: u64))"
      by (rule popcount_push_bit) (use that assms(2,3) in \<open>auto simp: bit_and_iff bit_bitsField\<close>)
    ultimately show ?thesis by simp
  qed
  have "(let inside = push_bit (w - b) (taps AND (push_bit b 1 - 1))
      in push_bit 1 feedback OR (parity (drop_bit b taps AND reg) XOR parity (inside AND bitsField bs))) =
      push_bit 1 feedback OR (of_bool (fb taps (fed rmask (take b bs) reg)) :: u32)" if "b < w" for b feedback
    using that assms(2) unfolding Let_def parity_bit of_bool_xor inside [OF that] fb_fed_split [OF assms(1)]
    by (simp del: push_bit_of_1)
  then have "itemFeedback taps reg w (bitsField bs) =
      fold (\<lambda>b feedback. push_bit 1 feedback OR of_bool (fb taps (fed rmask (take b bs) reg))) [0..<w] 0"
    unfolding itemFeedback_def by (intro fold_cong) (simp_all del: push_bit_of_1)
  also have "\<dots> = bitsField (map (\<lambda>k. fb taps (fed rmask (take k bs) reg)) [0..<w])" by (rule fold_bitsField)
  finally show ?thesis .
qed

lemma loops_agree:
  assumes "wellConfigured cfg" "\<And>reg x. reg AND regMask cfg = reg \<Longrightarrow> f reg x = referenceItem cfg reg x"
  shows "map_state f (sc_reg cfg) xs = map_state (referenceItem cfg) (sc_reg cfg) xs"
proof -
  have "fst (map_state f (sc_reg cfg) xs) = fst (map_state (referenceItem cfg) (sc_reg cfg) xs) \<and>
      (\<lambda>s t. s = t \<and> s AND regMask cfg = s) (snd (map_state f (sc_reg cfg) xs)) (snd (map_state (referenceItem cfg) (sc_reg cfg) xs))"
    by (rule map_state_simulate)
      (use assms(1) assms(2) referenceItem_masked [OF assms(1)] in \<open>auto simp: wellConfigured_def\<close>)
  then show ?thesis by (simp add: prod_eq_iff)
qed

lemma descrambleItems_reference:
  assumes "wellConfigured cfg" "sc_mode cfg = MultiplicativeDescramble"
  shows "descrambleItems cfg src out = scrambleReference cfg src out"
proof -
  let ?w = "bitsPerItem cfg" and ?taps = "sc_taps cfg" and ?o = "sc_order cfg"
  have well: "0 < ?w" "?w \<le> 8" "tablePeriod cfg = 0"
    and shape: "shaped ?taps (regMask cfg) (sc_degree cfg) (minDelay cfg)"
    using assms by (auto simp: wellConfigured_def)
  define f where "f = (\<lambda>reg item.
      let source = ucast (streamField item ?w ?o) :: u64;
          feedback = itemFeedback ?taps reg ?w source;
          reg = (push_bit ?w reg OR source) AND regMask cfg
      in (streamField (ucast (ucast source XOR feedback)) ?w ?o, reg))"
  have item: "f reg x = referenceItem cfg reg x" if "reg AND regMask cfg = reg" for reg x
  proof -
    let ?bs = "itemBits ?o ?w x"
    define fs where "fs = map (\<lambda>k. fb ?taps (fed (regMask cfg) (take k ?bs) reg)) [0..<?w]"
    have source: "(ucast (streamField x ?w ?o) :: u64) = bitsField ?bs"
      using well by (simp add: streamField_bits ucast_bitsField)
    have feedback: "itemFeedback ?taps reg ?w (bitsField ?bs) = bitsField fs"
      unfolding fs_def by (rule descramble_feedback [OF shape length_itemBits well(2)])
    have results: "map (\<lambda>k. ?bs ! k \<noteq> fb ?taps (fed (regMask cfg) (take k ?bs) reg)) [0..<?w] = map2 (\<noteq>) ?bs fs"
      by (rule nth_equalityI) (simp_all add: fs_def)
    have reg': "fed (regMask cfg) ?bs reg = (push_bit ?w reg OR bitsField ?bs) AND regMask cfg" by (simp add: fed_def)
    have "streamField (ucast (ucast (bitsField ?bs :: u64) XOR bitsField fs :: u32)) ?w ?o = packItem ?o (map2 (\<noteq>) ?bs fs)"
      using well streamField_item [of "map2 (\<noteq>) ?bs fs" ?o] by (simp add: ucast_bitsField bitsField_xor fs_def)
    then show ?thesis
      using well(2) assms(2)
      by (simp only: f_def Let_def source feedback referenceItem_run descramble_run [OF shape that] results reg'
          length_itemBits fst_conv snd_conv)
  qed
  show ?thesis
    using well(3) loops_agree [OF assms(1) item]
    by (simp add: descrambleItems_def scrambleReference_def advancePhase_def Let_def f_def del: push_bit_of_1)
qed

lemma scrambleMultiplicative_reference:
  assumes "wellConfigured cfg" "sc_mode cfg = MultiplicativeScramble"
  shows "scrambleMultiplicative cfg src out = Some (scrambleReference cfg src out)"
proof -
  let ?w = "bitsPerItem cfg" and ?o = "sc_order cfg"
  have well: "0 < ?w" "?w \<le> 8" "tablePeriod cfg = 0" "stepBits cfg = min 8 (minDelay cfg)" "sc_reg cfg AND regMask cfg = sc_reg cfg"
    and shape: "shaped (sc_taps cfg) (regMask cfg) (sc_degree cfg) (minDelay cfg)"
    using assms by (auto simp: wellConfigured_def)
  define f where "f = (\<lambda>reg item.
      case multiplicativeField (min (stepBits cfg) ?w) (sc_taps cfg) (regMask cfg) (ucast (streamField item ?w ?o)) ?w 0 reg of
        None \<Rightarrow> None
      | Some (field, reg) \<Rightarrow> Some (streamField (ucast field) ?w ?o, reg))"
  have item: "f reg x = Some (referenceItem cfg reg x)" if "reg AND regMask cfg = reg" for reg x
  proof -
    define r where "r = map_state (bitStep MultiplicativeScramble (sc_taps cfg) (regMask cfg)) reg (itemBits ?o ?w x)"
    have "length (fst r) = ?w" by (simp add: r_def)
    then show ?thesis
      using multiplicative_item [OF shape that well(1,2) r_def] well assms(2) streamField_item [of "fst r" ?o]
      by (simp add: f_def ucast_bitsField referenceItem_run r_def [symmetric])
  qed
  have "\<exists>s'. map_state_opt f (sc_reg cfg) xs = Some (fst (map_state (referenceItem cfg) (sc_reg cfg) xs), s') \<and>
      (\<lambda>s t. s = t \<and> s AND regMask cfg = s) s' (snd (map_state (referenceItem cfg) (sc_reg cfg) xs))" for xs
    by (rule map_state_opt_simulate) (use well(5) item referenceItem_masked [OF assms(1)] in auto)
  then have "map_state_opt f (sc_reg cfg) xs = Some (map_state (referenceItem cfg) (sc_reg cfg) xs)" for xs
    by (simp add: prod_eq_iff)
  then show ?thesis
    using well(3) by (simp add: scrambleMultiplicative_def scrambleReference_def advancePhase_def Let_def f_def split: prod.split)
qed

text \<open>The byte form: a word of received bits from which every delay is one shift.\<close>

lemma bit_fold_xor:
  "bit (fold (\<lambda>j v. v XOR g j) js v) p = (bit v p \<noteq> odd (length (filter (\<lambda>j. bit (g j) p) js)))"
  for v :: "'a::len word"
  by (induction js arbitrary: v) (auto simp: bit_xor_iff)

lemma fb_delays:
  assumes "distinct ds" "set ds = {j. 0 < j \<and> bit taps (j - 1)}"
  shows "fb taps reg \<longleftrightarrow> odd (length (filter (\<lambda>j. bit reg (j - 1)) ds))"
proof -
  have "{i. bit (reg AND taps) i} = (\<lambda>j. j - 1) ` set (filter (\<lambda>j. bit reg (j - 1)) ds)"
    by (auto simp: assms(2) bit_and_iff image_iff intro!: exI [of _ "Suc _"])
  moreover have "inj_on (\<lambda>j. j - 1) (set (filter (\<lambda>j. bit reg (j - 1)) ds))"
    by (auto simp: assms(2) inj_on_def)
  ultimately have "popcount (reg AND taps) = card (set (filter (\<lambda>j. bit reg (j - 1)) ds))"
    by (simp add: popcount_card card_image)
  also have "\<dots> = length (filter (\<lambda>j. bit reg (j - 1)) ds)"
    by (rule distinct_card) (simp add: assms(1))
  finally show ?thesis by (simp add: fb_def)
qed

lemma fold_index:
  "n \<le> length xs \<Longrightarrow> fold (\<lambda>i. h (xs ! i)) [0..<n] a = fold h (take n xs) a"
  by (induction n) (simp_all add: take_Suc_conv_app_nth)

lemma descramble_window:
  assumes shape: "shaped taps rmask d m" "d \<le> 56" and ds: "distinct ds" "set ds = {j. 0 < j \<and> bit taps (j - 1)}"
    and bs: "length bs = 8" and window: "window AND rmask = reg"
  defines "window' \<equiv> push_bit 8 window OR bitsField bs :: u64"
  shows "fold (\<lambda>j v. v XOR (ucast (drop_bit j window') AND 0xFF)) ds (bitsField bs) =
      (bitsField (map (\<lambda>k. bs ! k \<noteq> fb taps (fed rmask (take k bs) reg)) [0..<8]) :: u32)"
    "window' AND rmask = fed rmask bs reg"
proof -
  have mask: "bit rmask i \<longleftrightarrow> i < d" for i using shape by (simp add: shaped_def)
  have w: "bit reg i \<longleftrightarrow> i < d \<and> bit window i" for i
    by (simp add: window [symmetric] bit_and_iff mask conj_commute)
  show "window' AND rmask = fed rmask bs reg"
    by (rule bit_word_eqI) (auto simp: window'_def bit_and_iff bit_or_iff bit_push_bit_iff bit_bitsField bit_fed bs mask w)
  have read: "bit window' (p + j) \<longleftrightarrow> bit (fed rmask (take (7 - p) bs) reg) (j - 1)" if "p < 8" "j \<in> set ds" for p j
  proof -
    have j: "0 < j" "j - 1 < d" using that(2) shape by (auto simp: ds(2) shaped_def)
    show ?thesis
    proof (cases "p + j < 8")
      case True
      then have "7 - (p + j) = 7 - p - 1 - (j - 1)" "j - 1 < 7 - p" using j by simp_all
      with True j bs show ?thesis
        by (simp add: window'_def bit_or_iff bit_push_bit_iff bit_bitsField bit_fed mask)
    next
      case False
      then have "j - 1 - (7 - p) = p + j - 8" "\<not> j - 1 < 7 - p" "p + j < 64" "p + j - 8 < d" using j that(1) shape(2) by simp_all
      with False j bs that(1) show ?thesis
        by (simp add: window'_def bit_or_iff bit_push_bit_iff bit_bitsField bit_fed mask w)
    qed
  qed
  show "fold (\<lambda>j v. v XOR (ucast (drop_bit j window') AND 0xFF)) ds (bitsField bs) =
      (bitsField (map (\<lambda>k. bs ! k \<noteq> fb taps (fed rmask (take k bs) reg)) [0..<8]) :: u32)"
  proof (rule bit_word_eqI)
    fix p assume p: "p < LENGTH(32)"
    have tap: "bit (ucast (drop_bit j window') AND 0xFF :: u32) p \<longleftrightarrow> p < 8 \<and> bit window' (p + j)" for j
      unfolding bit_and_iff bit_literal(2) bit_ucast_iff bit_drop_bit_eq using p by (auto simp: add.commute)
    show "bit (fold (\<lambda>j v. v XOR (ucast (drop_bit j window') AND 0xFF)) ds (bitsField bs :: u32)) p \<longleftrightarrow>
        bit (bitsField (map (\<lambda>k. bs ! k \<noteq> fb taps (fed rmask (take k bs) reg)) [0..<8]) :: u32) p"
    proof (cases "p < 8")
      case True
      have "filter (\<lambda>j. p < 8 \<and> bit window' (p + j)) ds = filter (\<lambda>j. bit (fed rmask (take (7 - p) bs) reg) (j - 1)) ds"
        by (rule filter_cong) (use True read [OF True] in simp_all)
      moreover have "[0..<8] ! (7 - p) = 7 - p" using True nth_upt [of 0 "7 - p" 8] by simp
      ultimately show ?thesis
        unfolding bit_fold_xor tap bit_bitsField fb_delays [OF ds] using True bs by simp
    next
      case False
      then show ?thesis unfolding bit_fold_xor tap bit_bitsField using bs by simp
    qed
  qed
qed

lemma descrambleBytes_reference:
  assumes "wellConfigured cfg" "sc_mode cfg = MultiplicativeDescramble" "bitsPerItem cfg = 8" "sc_degree cfg \<le> 56"
  shows "descrambleBytes cfg src out = scrambleReference cfg src out"
proof -
  let ?o = "sc_order cfg" and ?m = "regMask cfg" and ?ds = "take (tapCount cfg) (delays cfg)"
  have well: "tablePeriod cfg = 0" "sc_reg cfg AND ?m = sc_reg cfg" "tapCount cfg \<le> length (delays cfg)"
      "distinct ?ds" "set ?ds = {j. 0 < j \<and> bit (sc_taps cfg) (j - 1)}"
    and shape: "shaped (sc_taps cfg) ?m (sc_degree cfg) (minDelay cfg)"
    using assms by (auto simp: wellConfigured_def)
  define f where "f = (\<lambda>window item.
      let source = ucast (streamField item 8 ?o) :: u32;
          window = push_bit 8 window OR ucast source;
          v = fold (\<lambda>tap v. v XOR (ucast (drop_bit (delays cfg ! tap) window) AND 0xFF)) [0..<tapCount cfg] source
      in (streamField (ucast v) 8 ?o, window :: u64))"
  have item: "fst (f window x) = fst (referenceItem cfg reg x) \<and> snd (f window x) AND ?m = snd (referenceItem cfg reg x)"
    if "window AND ?m = reg" "reg AND ?m = reg" for window reg x
  proof -
    let ?bs = "itemBits ?o 8 x"
    define rs where "rs = map (\<lambda>k. ?bs ! k \<noteq> fb (sc_taps cfg) (fed ?m (take k ?bs) reg)) [0..<8]"
    have source: "(ucast (streamField x 8 ?o) :: u32) = bitsField ?bs" "(ucast (bitsField ?bs :: u32) :: u64) = bitsField ?bs"
      by (simp_all add: streamField_bits ucast_bitsField)
    note step = descramble_window [OF shape assms(4) well(4,5) length_itemBits that(1), of ?o x, folded rs_def]
    have f: "f window x = (streamField (bitsField rs) 8 ?o, push_bit 8 window OR bitsField ?bs)"
      unfolding f_def Let_def source fold_index [OF well(3), of "\<lambda>j v. v XOR (ucast (drop_bit j (push_bit 8 window OR bitsField ?bs)) AND 0xFF)"] step(1)
      by (simp add: ucast_bitsField rs_def)
    have "referenceItem cfg reg x = (packItem ?o rs, fed ?m ?bs reg)"
      by (simp add: referenceItem_run assms(2,3) descramble_run [OF shape that(2)] rs_def)
    moreover have "streamField (bitsField rs) 8 ?o = packItem ?o rs"
      using streamField_item [of rs ?o] by (simp add: rs_def)
    ultimately show ?thesis using step(2) by (simp add: f)
  qed
  have "fst (map_state f (sc_reg cfg) xs) = fst (map_state (referenceItem cfg) (sc_reg cfg) xs) \<and>
      (\<lambda>s t. s AND ?m = t \<and> t AND ?m = t) (snd (map_state f (sc_reg cfg) xs)) (snd (map_state (referenceItem cfg) (sc_reg cfg) xs))" for xs
    by (rule map_state_simulate) (use well(2) item referenceItem_masked [OF assms(1)] in auto)
  then show ?thesis
    using well(1)
    by (simp add: descrambleBytes_def scrambleReference_def advancePhase_def Let_def f_def split_beta)
qed

text \<open>The dispatch, on any configuration that keeps the promise.\<close>

lemma scramble_reference:
  assumes "wellConfigured cfg"
  shows "scramble cfg src out = Some (scrambleReference cfg src out)"
proof -
  have off: "\<not> invertOutput cfg" "forceAfter cfg = 0" using assms by (simp_all add: wellConfigured_def)
  show ?thesis
  proof (cases "sc_mode cfg")
    case Additive
    then show ?thesis
      by (simp add: scramble_def scrambleAdditive_def additiveChunks_reference [OF assms] scrambleReference_after Let_def)
  next
    case MultiplicativeScramble
    with off show ?thesis by (simp add: scramble_def scrambleMultiplicative_reference [OF assms])
  next
    case MultiplicativeDescramble
    with off show ?thesis
      by (simp add: scramble_def descrambleBytes_reference [OF assms] descrambleItems_reference [OF assms])
  qed
qed

subsection \<open>What a constructor establishes\<close>

lemma bit_width_bounds:
  fixes w :: "'a::len word"
  shows "bit_width w \<le> LENGTH('a)" "bit w i \<Longrightarrow> i < bit_width w" "w \<noteq> 0 \<Longrightarrow> bit w (bit_width w - 1) \<and> 0 < bit_width w"
proof -
  let ?xs = "rev (map (bit w) [0..<LENGTH('a)])"
  have len: "length (takeWhile Not ?xs) + bit_width w = LENGTH('a)"
    unfolding bit_width_def by (metis length_append length_map length_rev length_upt minus_nat.diff_0 takeWhile_dropWhile_id)
  then show "bit_width w \<le> LENGTH('a)" by simp
  have nth: "?xs ! k = bit w (LENGTH('a) - 1 - k)" if "k < LENGTH('a)" for k using that by (simp add: rev_nth)
  show "i < bit_width w" if "bit w i" for i
  proof (rule ccontr)
    assume "\<not> i < bit_width w"
    moreover have i: "i < LENGTH('a)" using that by (rule bit_imp_le_length)
    ultimately have k: "LENGTH('a) - 1 - i < length (takeWhile Not ?xs)" using len by simp
    then have "\<not> ?xs ! (LENGTH('a) - 1 - i)" by (metis nth_mem set_takeWhileD takeWhile_nth)
    with that i show False by (simp add: rev_nth)
  qed
  assume "w \<noteq> 0"
  then obtain i where "bit w i" by (metis bit_eqI bit_0_eq bot_apply bot_bool_def)
  then have pos: "0 < bit_width w" using \<open>\<And>i. bit w i \<Longrightarrow> i < bit_width w\<close> by fastforce
  then have "length (takeWhile Not ?xs) < length ?xs" using len by simp
  then have "?xs ! length (takeWhile Not ?xs)" by (metis nth_length_takeWhile)
  moreover have "LENGTH('a) - 1 - length (takeWhile Not ?xs) = bit_width w - 1" using len by simp
  ultimately show "bit w (bit_width w - 1) \<and> 0 < bit_width w" using pos len nth [of "length (takeWhile Not ?xs)"] by simp
qed

lemma countr_zero_bits:
  fixes w :: "'a::len word"
  shows "bit w i \<Longrightarrow> countr_zero w \<le> i" "w \<noteq> 0 \<Longrightarrow> bit w (countr_zero w)"
proof -
  let ?xs = "map (bit w) [0..<LENGTH('a)]"
  have low: "countr_zero w \<le> i" if "bit w i" for i
  proof (rule ccontr)
    assume "\<not> countr_zero w \<le> i"
    then have "\<not> ?xs ! i" unfolding countr_zero_def by (metis linorder_not_le nth_mem set_takeWhileD takeWhile_nth)
    with that bit_imp_le_length [OF that] show False by simp
  qed
  then show "bit w i \<Longrightarrow> countr_zero w \<le> i" .
  assume "w \<noteq> 0"
  then obtain i where i: "bit w i" by (metis bit_eqI bit_0_eq bot_apply bot_bool_def)
  then have "countr_zero w < length ?xs" using low [OF i] bit_imp_le_length [OF i] by simp
  then show "bit w (countr_zero w)" unfolding countr_zero_def using nth_length_takeWhile [of Not ?xs] by simp
qed

text \<open>Clearing the lowest bit: the loops over a tap set visit the set bits in ascending order.\<close>

lemma bit_clear_lowest:
  fixes w :: "'a::len word"
  assumes "w \<noteq> 0"
  shows "bit (w AND (w - 1)) i \<longleftrightarrow> bit w i \<and> i \<noteq> countr_zero w"
proof -
  let ?z = "countr_zero w"
  have z: "bit w ?z" "?z < LENGTH('a)" using countr_zero_bits(2) [OF assms] bit_imp_le_length by blast+
  define a where "a = w AND NOT (2 ^ ?z)"
  have a: "bit a i \<longleftrightarrow> bit w i \<and> i \<noteq> ?z" for i
    by (auto simp: a_def bit_and_iff bit_not_iff dest: bit_imp_le_length)
  have "w = a OR 2 ^ ?z" by (rule bit_word_eqI) (use z in \<open>auto simp: bit_or_iff a\<close>)
  also have "\<dots> = a + 2 ^ ?z" by (rule disjunctive_add [symmetric]) (auto simp: a)
  finally have "w - 1 = a + (2 ^ ?z - 1)" by simp
  also have "\<dots> = a OR (2 ^ ?z - 1)"
    by (rule disjunctive_add) (use countr_zero_bits(1) [of w] in \<open>force simp: a bit_low_mask\<close>)
  finally have "bit (w - 1) i \<longleftrightarrow> bit a i \<or> i < ?z \<and> i < LENGTH('a)" by (simp add: bit_or_iff bit_low_mask)
  with countr_zero_bits(1) [of w i] show ?thesis by (auto simp: bit_and_iff a)
qed

text \<open>The positions of the set bits, ascending.\<close>

definition setBits :: "'a::len word \<Rightarrow> nat list" where
  "setBits w = filter (bit w) [0..<LENGTH('a)]"

lemma setBits_simps: "setBits (0 :: 'a::len word) = []"
  "w \<noteq> 0 \<Longrightarrow> setBits w = countr_zero w # setBits (w AND (w - 1))" for w :: "'a::len word"
proof -
  show "setBits (0 :: 'a word) = []" by (simp add: setBits_def)
  assume nz: "w \<noteq> 0"
  have z: "bit w (countr_zero w)" "countr_zero w < LENGTH('a)" using countr_zero_bits(2) [OF nz] bit_imp_le_length by blast+
  have "sorted_list_of_set {i. bit w i} = countr_zero w # sorted_list_of_set {i. bit (w AND (w - 1)) i}"
  proof -
    have "{i. bit w i} \<noteq> {}" "Min {i. bit w i} = countr_zero w"
      using z(1) countr_zero_bits(1) by (auto intro!: Min_eqI)
    moreover have "{i. bit w i} - {countr_zero w} = {i. bit (w AND (w - 1)) i}" by (auto simp: bit_clear_lowest [OF nz])
    ultimately show ?thesis using sorted_list_of_set_nonempty [of "{i. bit w i}"] by simp
  qed
  moreover have "sorted_list_of_set {i. bit v i} = setBits v" for v :: "'a word"
  proof -
    have "set (setBits v) = {i. bit v i}" by (auto simp: setBits_def dest: bit_imp_le_length)
    moreover have "sorted (setBits v)" "distinct (setBits v)" by (simp_all add: setBits_def sorted_wrt_filter)
    ultimately show ?thesis by (metis sorted_list_of_set.idem_if_sorted_distinct)
  qed
  ultimately show "setBits w = countr_zero w # setBits (w AND (w - 1))" by simp
qed

lemma set_setBits: "set (setBits w) = {i. bit w i}"
  by (auto simp: setBits_def dest: bit_imp_le_length)

lemma set_delays: "set (map Suc (setBits w)) = {j. 0 < j \<and> bit w (j - 1)}"
proof (intro set_eqI iffI)
  fix j assume "j \<in> {j. 0 < j \<and> bit w (j - 1)}"
  then have "j = Suc (j - 1)" "j - 1 \<in> set (setBits w)" by (auto simp: set_setBits)
  then show "j \<in> set (map Suc (setBits w))" by (metis image_eqI list.set_map)
qed (auto simp: set_setBits)

lemma length_setBits: "length (setBits w) = popcount w"
  by (simp add: setBits_def popcount_def)

lemma fillDelays_result:
  "slot + popcount rest \<le> length ds \<Longrightarrow>
    length (fillDelays rest slot ds) = length ds \<and>
    take (slot + popcount rest) (fillDelays rest slot ds) = take slot ds @ map Suc (setBits rest)"
proof (induction rest slot ds rule: fillDelays.induct)
  case (1 rest slot ds)
  show ?case
  proof (cases "rest = 0")
    case True
    then show ?thesis by (simp add: fillDelays.simps setBits_simps)
  next
    case False
    have bits: "setBits rest = countr_zero rest # setBits (rest AND (rest - 1))" by (rule setBits_simps(2) [OF False])
    then have count: "popcount rest = Suc (popcount (rest AND (rest - 1)))" by (metis length_Cons length_setBits)
    have slot: "slot < length ds" using 1(2) count by simp
    have "Suc slot + popcount (rest AND (rest - 1)) \<le> length (ds[slot := countr_zero rest + 1])"
      using 1(2) count by simp
    with 1(1) [OF False] have IH: "length (fillDelays (rest AND (rest - 1)) (Suc slot) (ds[slot := countr_zero rest + 1])) = length ds"
      "take (Suc slot + popcount (rest AND (rest - 1))) (fillDelays (rest AND (rest - 1)) (Suc slot) (ds[slot := countr_zero rest + 1])) =
        take (Suc slot) (ds[slot := countr_zero rest + 1]) @ map Suc (setBits (rest AND (rest - 1)))"
      by simp_all
    have "take (Suc slot) (ds[slot := countr_zero rest + 1]) = take slot ds @ [Suc (countr_zero rest)]"
      using slot by (simp add: take_Suc_conv_app_nth)
    with IH show ?thesis
      by (subst (1 2) fillDelays.simps) (simp add: False bits count)
  qed
qed

text \<open>A loop that ors bit \<open>n\<close> of a sequence, most significant first, into a zeroed table.\<close>

lemma bit_or_place: "a < LENGTH('a) \<Longrightarrow> bit (x OR push_bit b (of_bool Q) :: 'a::len word) a \<longleftrightarrow> bit x a \<or> a = b \<and> Q"
  by (auto simp: bit_or_iff bit_push_bit_iff bit_of_bool_iff)

lemma table_loop:
  fixes P :: "nat \<Rightarrow> bool"
  assumes "N \<le> 8 * L" "n < N"
  shows "bit (fold (\<lambda>b table. table[b div 8 := table ! (b div 8) OR push_bit (7 - b mod 8) (of_bool (P b))])
      [0..<N] (replicate L (0 :: u8)) ! (n div 8)) (7 - n mod 8) = P n"
proof -
  let ?F = "\<lambda>m. fold (\<lambda>b table. table[b div 8 := table ! (b div 8) OR push_bit (7 - b mod 8) (of_bool (P b))]) [0..<m] (replicate L (0 :: u8))"
  have len: "length (?F m) = L" for m by (induction m) simp_all
  have "bit (?F m ! (k div 8)) (7 - k mod 8) \<longleftrightarrow> k < m \<and> P k" if "k < 8 * L" "m \<le> 8 * L" for k m
    using that(2)
  proof (induction m)
    case 0
    have "k div 8 < L" using that(1) by (simp add: less_mult_imp_div_less mult.commute)
    then show ?case by simp
  next
    case (Suc m)
    have "m div 8 < L" using Suc.prems by (simp add: less_mult_imp_div_less mult.commute)
    have same: "7 - k mod 8 = 7 - m mod 8 \<longleftrightarrow> k = m" if "k div 8 = m div 8"
    proof
      assume "7 - k mod 8 = 7 - m mod 8"
      moreover have "k mod 8 \<le> 7" "m mod 8 \<le> 7" using mod_less_divisor [of 8 k] mod_less_divisor [of 8 m] by linarith+
      ultimately have "k mod 8 = m mod 8" by linarith
      with that show "k = m" by (metis div_mult_mod_eq)
    qed simp
    have or: "bit (?F m ! (m div 8) OR push_bit (7 - m mod 8) (of_bool (P m))) (7 - k mod 8) \<longleftrightarrow>
        bit (?F m ! (m div 8)) (7 - k mod 8) \<or> 7 - k mod 8 = 7 - m mod 8 \<and> P m"
      by (rule bit_or_place) simp
    show ?case
    proof (cases "k div 8 = m div 8")
      case True
      have "bit (?F (Suc m) ! (k div 8)) (7 - k mod 8) \<longleftrightarrow> bit (?F m ! (m div 8) OR push_bit (7 - m mod 8) (of_bool (P m))) (7 - k mod 8)"
        using True \<open>m div 8 < L\<close> by (simp add: len)
      also have "\<dots> \<longleftrightarrow> (k < m \<and> P k) \<or> k = m \<and> P m"
        unfolding or same [OF True] using Suc True by simp
      finally show ?thesis by (auto simp: less_Suc_eq)
    next
      case False
      then have "k \<noteq> m" by auto
      with False Suc show ?thesis by (auto simp: less_Suc_eq)
    qed
  qed
  from this [of n N] assms show ?thesis by simp
qed

lemma periodTable_bits:
  assumes "n < P + 8"
  shows "bit (periodTable taps rmask init P ! (n div 8)) (7 - n mod 8) = fb taps ((walkStep taps rmask ^^ n) init)"
proof -
  let ?f = "\<lambda>step (table, walk). (table[step div 8 := table ! (step div 8) OR push_bit (7 - step mod 8) (parity (walk AND taps))], walkStep taps rmask walk)"
  let ?w = "\<lambda>k. (walkStep taps rmask ^^ k) init"
  have run: "fold ?f [0..<m] (T, init) =
      (fold (\<lambda>b table. table[b div 8 := table ! (b div 8) OR push_bit (7 - b mod 8) (of_bool (fb taps (?w b)))]) [0..<m] T, ?w m)" for m T
    by (induction m) (simp_all add: parity_bit fb_def)
  have "periodTable taps rmask init P =
      fold (\<lambda>b table. table[b div 8 := table ! (b div 8) OR push_bit (7 - b mod 8) (of_bool (fb taps (?w b)))]) [0..<P + 8]
        (replicate ((P + 15) div 8) 0)"
    unfolding periodTable_def run fst_conv ..
  moreover have "P + 8 \<le> 8 * ((P + 15) div 8)" by presburger
  ultimately show ?thesis using table_loop [of "P + 8" "(P + 15) div 8" n "\<lambda>b. fb taps (?w b)"] assms by simp
qed

lemma findPeriod_period:
  "findPeriod taps rmask init remaining n ((walkStep taps rmask ^^ (n - 1)) init) = P \<Longrightarrow> P \<noteq> 0 \<Longrightarrow> 0 < n \<Longrightarrow>
    (walkStep taps rmask ^^ P) init = init"
proof (induction remaining arbitrary: n)
  case (Suc remaining)
  have step: "walkStep taps rmask ((walkStep taps rmask ^^ (n - 1)) init) = (walkStep taps rmask ^^ n) init"
    using Suc.prems(3) by (metis Suc_diff_1 funpow.simps(2) o_apply)
  show ?case
  proof (cases "(walkStep taps rmask ^^ n) init = init")
    case True
    with Suc.prems step show ?thesis by simp
  next
    case False
    have "findPeriod taps rmask init remaining (Suc n) ((walkStep taps rmask ^^ (Suc n - 1)) init) = P"
      using Suc.prems(1) False step by simp
    then show ?thesis using Suc.IH Suc.prems(2) by blast
  qed
qed simp

text \<open>One step of the walk backwards.\<close>

definition backStep :: "TapMask \<Rightarrow> u64 \<Rightarrow> nat \<Rightarrow> u64 \<Rightarrow> u64" where
  "backStep taps rmask d reg = drop_bit 1 reg OR push_bit (d - 1) (parity (reg AND ((push_bit 1 taps OR 1) AND rmask)))"

lemma backwardRegister_steps: "backwardRegister taps rmask d reg = (backStep taps rmask d ^^ d) reg"
proof -
  have "fold (\<lambda>step :: nat. f) [0..<n] r = (f ^^ n) r" for f :: "u64 \<Rightarrow> u64" and n r
    by (induction n) simp_all
  then show ?thesis by (simp only: backwardRegister_def Let_def backStep_def [abs_def])
qed

lemma bit_backStep:
  assumes "0 < d" "d \<le> 64"
  shows "bit (backStep taps rmask d reg) i \<longleftrightarrow>
    bit reg (Suc i) \<or> i = d - 1 \<and> odd (popcount (reg AND ((push_bit 1 taps OR 1) AND rmask)))"
  using assms unfolding backStep_def bit_or_iff bit_push_bit_iff bit_drop_bit_eq parity_bit bit_of_bool_iff by auto

lemma backStep_masked:
  assumes mask: "\<And>i. bit rmask i \<longleftrightarrow> i < d" and d: "d \<le> 64" "0 < d" and reg: "reg AND rmask = reg"
  shows "backStep taps rmask d reg AND rmask = backStep taps rmask d reg"
proof (rule bit_word_eqI)
  fix i assume "i < LENGTH(64)"
  have "bit reg (Suc i) \<Longrightarrow> Suc i < d" using reg mask by (metis bit_and_iff)
  then show "bit (backStep taps rmask d reg AND rmask) i = bit (backStep taps rmask d reg) i"
    unfolding bit_and_iff bit_backStep [OF d(2,1)] mask using d(2) by auto
qed

lemma backwardRegister_masked:
  assumes "\<And>i. bit rmask i \<longleftrightarrow> i < d" "d \<le> 64" "0 < d" "reg AND rmask = reg"
  shows "backwardRegister taps rmask d reg AND rmask = backwardRegister taps rmask d reg"
proof -
  have "(backStep taps rmask d ^^ n) reg AND rmask = (backStep taps rmask d ^^ n) reg" for n
    by (induction n) (simp_all add: assms(4) backStep_masked [OF assms(1-3)])
  then show ?thesis by (simp add: backwardRegister_steps)
qed

lemma configureScrambler_result:
  assumes "configureScrambler c taps seed mode width order = Inr cfg"
  defines "d \<equiv> degreeOf taps"
  shows "taps \<noteq> 0" "0 < d" "d \<le> 64" "bit taps (d - 1)" "\<And>i. bit (regMask cfg) i \<longleftrightarrow> i < d" "seed AND regMask cfg = seed"
    "sc_taps cfg = taps" "sc_mode cfg = mode" "bitsPerItem cfg = width" "sc_order cfg = order" "0 < width" "width \<le> 8"
    "initialReg cfg = (if mode = Additive then backwardRegister taps (regMask cfg) d seed else seed)"
    "sc_reg cfg = initialReg cfg" "wellConfigured cfg" "sc_degree cfg = d"
proof -
  show nz: "taps \<noteq> 0" using assms(1) by (auto simp: configureScrambler_def)
  show d: "0 < d" "d \<le> 64" "bit taps (d - 1)"
    using bit_width_bounds [of taps] nz by (simp_all add: d_def degreeOf_def)
  define m where "m = (if d = 64 then NOT 0 else push_bit d 1 - 1 :: u64)"
  have m: "bit m i \<longleftrightarrow> i < d" for i
    using d(2) unfolding m_def by (auto simp: bit_not_iff bit_mask_word simp del: push_bit_of_1 dest: bit_imp_le_length)
  define init where "init = (if mode = Additive then backwardRegister taps m d (seed AND m) else seed AND m)"
  define P where "P = (if mode = Additive \<and> d \<le> 16 then findPeriod taps m init kPeriodCap 1 init else 0)"
  have ok: "width \<ge> 1" "width \<le> 8" "seed AND NOT m = 0" and cfg: "cfg = resetScrambler
        (c\<lparr>sc_taps := taps, sc_seed := seed AND m, sc_mode := mode, bitsPerItem := width,
           sc_order := order, sc_degree := d, minDelay := minDelayOf taps,
           tapCount := tapCountOf taps, stepBits := min 8 (minDelayOf taps), regMask := m,
           initialReg := init, form := (if P \<noteq> 0 then Table else Recurrence),
           table := (if P \<noteq> 0 then periodTable taps m init P else []), tablePeriod := P,
           sc_source := Lfsr, sequenceRepeat := True, invertOutput := False, forceAfter := 0,
           monitorP := 0, monitorQ := 0, nUnscrambledItems := 0, nForcedTransitions := 0,
           delays := fillDelays taps 0 (replicate 64 0)\<rparr>)"
    using assms(1) nz
    unfolding configureScrambler_def Let_def d_def [symmetric] m_def [symmetric] init_def [symmetric] P_def [symmetric]
    by (auto split: if_splits simp: not_le not_less)
  have sd: "seed AND m = seed"
  proof (rule bit_word_eqI)
    fix i assume i: "i < LENGTH(64)"
    have "\<not> bit (seed AND NOT m) i" using ok(3) by simp
    then show "bit (seed AND m) i = bit seed i" using i unfolding bit_and_iff bit_not_iff by auto
  qed
  have reg: "regMask cfg = m" by (simp add: cfg resetScrambler_def)
  show "\<And>i. bit (regMask cfg) i \<longleftrightarrow> i < d" "seed AND regMask cfg = seed" by (simp_all add: reg m sd)
  show "sc_taps cfg = taps" "sc_mode cfg = mode" "bitsPerItem cfg = width" "sc_order cfg = order" "0 < width" "width \<le> 8"
    "sc_reg cfg = initialReg cfg" "sc_degree cfg = d"
    using ok by (simp_all add: cfg resetScrambler_def)
  show "initialReg cfg = (if mode = Additive then backwardRegister taps (regMask cfg) d seed else seed)"
    by (simp add: reg, simp add: cfg resetScrambler_def init_def sd)
  have shape: "shaped taps m d (minDelayOf taps)"
    using d m bit_width_bounds(2) [of taps] countr_zero_bits(1) [of taps]
    by (auto simp: shaped_def minDelayOf_def d_def degreeOf_def)
  have masked: "init AND m = init"
    using backwardRegister_masked [OF m d(2,1) sd] sd by (simp add: init_def)
  have popcount_le: "popcount taps \<le> 64" using popcount_le [of taps] by simp
  have fill: "take (popcount taps) (fillDelays taps 0 (replicate 64 0)) = map Suc (setBits taps)"
    "length (fillDelays taps 0 (replicate 64 0)) = 64"
    using fillDelays_result [of 0 taps "replicate 64 0"] popcount_le by simp_all
  have holds: "tableHolds cfg" if "P \<noteq> 0"
  proof -
    have "(walkStep taps m ^^ P) init = init"
      using findPeriod_period [of taps m init kPeriodCap 1 P] that by (simp add: P_def split: if_splits)
    with that show ?thesis
      by (simp add: tableHolds_def walk_def cfg resetScrambler_def periodTable_bits)
  qed
  have "P \<noteq> 0 \<Longrightarrow> mode = Additive" by (simp add: P_def split: if_splits)
  with ok shape masked holds fill set_delays [of taps] popcount_le show "wellConfigured cfg"
    unfolding wellConfigured_def
    by (simp add: cfg resetScrambler_def tapCountOf_def distinct_map setBits_def)
qed

subsection \<open>The forms agree\<close>

text \<open>
  The configurations an unmonitored scrambler goes through: built by the constructor, moved by the
  sample path and by a reset, and moved between the two generators where both are there.
\<close>

inductive live :: "ScramblerConfig \<Rightarrow> bool" where
  built: "configureScrambler c taps seed mode width order = Inr cfg \<Longrightarrow> live cfg"
| moved: "live cfg \<Longrightarrow> scramble cfg src out = Some (ys, cfg') \<Longrightarrow> live cfg'"
| reset: "live cfg \<Longrightarrow> live (resetScrambler cfg)"
| switched: "live cfg \<Longrightarrow> tablePeriod cfg \<noteq> 0 \<Longrightarrow> live (cfg\<lparr>form := f\<rparr>)"

lemma wellConfigured_reset: "wellConfigured cfg \<Longrightarrow> wellConfigured (resetScrambler cfg)"
  by (auto simp: wellConfigured_def resetScrambler_def tableHolds_def walk_def)

lemma live_wellConfigured: "live cfg \<Longrightarrow> wellConfigured cfg"
proof (induction rule: live.induct)
  case (built c taps seed mode width order cfg)
  then show ?case by (rule configureScrambler_result(15))
next
  case (moved cfg src out ys cfg')
  then have "cfg' = after cfg (take (min (length src) (length out)) src)"
    by (simp add: scramble_reference scrambleReference_after Let_def)
  then show ?case by (simp add: wellConfigured_after moved.IH)
next
  case (reset cfg)
  then show ?case by (simp add: wellConfigured_reset)
next
  case (switched cfg f)
  have "tableHolds (cfg\<lparr>form := f\<rparr>) = tableHolds cfg" by (simp add: tableHolds_def walk_def)
  with switched show ?case by (simp add: wellConfigured_def)
qed

text \<open>C4. Whatever a scrambler has been through (construction, any number of calls, resets, a switch
  between the two generators), scramble returns, and returns exactly what the bit-at-a-time
  definition returns, output and state: the stepped, table, windowed and item forms are
  interchangeable.\<close>

theorem scramble_equals_reference:
  assumes "live cfg"
  shows "scramble cfg src out = Some (scrambleReference cfg src out)"
  by (rule scramble_reference [OF live_wellConfigured [OF assms]])

lemma ccsds131_value: "ccsds131 = 0x95" "tapsFromDelayList ''1,3,5,8'' = Inr 0x95"
  by (code_simp)+

lemma scramble_equals_reference_witness:
  "\<exists>cfg. configureScrambler defaultScrambler ccsds131 0xFF MultiplicativeScramble 8 MsbFirst = Inr cfg \<and>
     scramble cfg [0x12, 0x34] [0, 0] = Some (scrambleReference cfg [0x12, 0x34] [0, 0])"
proof -
  have "isl (configureScrambler defaultScrambler ccsds131 0xFF MultiplicativeScramble 8 MsbFirst) = False"
    unfolding ccsds131_value by code_simp
  then obtain cfg where "configureScrambler defaultScrambler ccsds131 0xFF MultiplicativeScramble 8 MsbFirst = Inr cfg"
    by (metis sum.collapse(2))
  with scramble_equals_reference [OF built [OF this]] show ?thesis by blast
qed

subsection \<open>The multiplicative pair\<close>

lemma pair_bits:
  "map_state (bitStep MultiplicativeDescramble taps rmask) reg (fst (map_state (bitStep MultiplicativeScramble taps rmask) reg bs)) =
    (bs, snd (map_state (bitStep MultiplicativeScramble taps rmask) reg bs))"
  by (induction bs arbitrary: reg) (auto simp: Let_def split_beta bitStep_def)

text \<open>The monitored bit as a step on bits.\<close>

definition monStep :: "ScramblerConfig \<Rightarrow> bool \<Rightarrow> MonitorState \<Rightarrow> bool \<Rightarrow> bool \<times> MonitorState" where
  "monStep cfg received st b =
     (let modulus = forceAfter cfg;
          force = (modulus \<noteq> 0 \<and> mon_counter st = modulus - 1);
          r = (invertOutput cfg \<noteq> (b \<noteq> (fb (sc_taps cfg) (mon_reg st) \<noteq> force)));
          sent = (if received then b else r);
          differs = (bit (mon_window st) (monitorP cfg - 1) \<noteq> bit (mon_window st) (monitorQ cfg - 1))
      in (r, \<lparr>mon_reg = (push_bit 1 (mon_reg st) OR of_bool sent) AND regMask cfg,
              mon_window = push_bit 1 (mon_window st) OR of_bool sent,
              mon_counter = (if modulus \<noteq> 0 then if differs then 0 else (mon_counter st + 1) mod modulus else mon_counter st),
              mon_fired = mon_fired st + of_bool force\<rparr>))"

lemma monitored_pair_bits:
  "map_state (monStep cfg True) st (fst (map_state (monStep cfg False) st bs)) =
    (bs, snd (map_state (monStep cfg False) st bs))"
proof (induction bs arbitrary: st)
  case (Cons b bs)
  have "monStep cfg True st (fst (monStep cfg False st b)) = (b, snd (monStep cfg False st b))"
    by (auto simp: monStep_def Let_def)
  with Cons show ?case by (simp add: Let_def split_beta)
qed simp

lemma drop_bit_one: "drop_bit p w AND 1 = (of_bool (bit w p) :: 'a::len word)"
  by (rule bit_word_eqI) (auto simp: bit_and_iff bit_drop_bit_eq bit_1_iff bit_of_bool_iff)

lemma monitoredBit_step:
  assumes "b < bitsPerItem cfg" "bitsPerItem cfg \<le> 8"
  defines "bs \<equiv> \<lambda>x. itemBits (sc_order cfg) (bitsPerItem cfg) x"
  shows "monitoredBit cfg x b (item, st) =
    (item OR push_bit (fieldPosition (sc_order cfg) (bitsPerItem cfg) b)
       (of_bool (fst (monStep cfg (sc_mode cfg = MultiplicativeDescramble) st (bs x ! b)))),
     snd (monStep cfg (sc_mode cfg = MultiplicativeDescramble) st (bs x ! b)))"
proof -
  let ?p = "fieldPosition (sc_order cfg) (bitsPerItem cfg) b"
  have p: "?p < 8" using fieldPosition_less [OF assms(1), of "sc_order cfg"] assms(2) by simp
  have pos: "(if sc_order cfg = MsbFirst then bitsPerItem cfg - 1 - b else b) = ?p" by (simp add: fieldPosition_def)
  have source: "drop_bit ?p (ucast x) AND 1 = (of_bool (bs x ! b) :: u32)"
    using assms(1) p by (simp add: drop_bit_one bit_ucast_iff bs_def)
  have shift: "(if n = 0 then 0 else n - 1) = n - 1" for n :: nat by simp
  have differs: "(drop_bit i w XOR drop_bit j w) AND 1 \<noteq> 0 \<longleftrightarrow> bit w i \<noteq> bit w j" for w :: u64 and i j
    by (simp add: xor_and_distrib drop_bit_one of_bool_xor)
  have as_bool: "(if c then 1 else 0) = (of_bool c :: u32)" for c by simp
  have one: "of_bool c = (1 :: u32) \<longleftrightarrow> c" for c by simp
  have up: "(ucast (of_bool c :: u32) :: u64) = of_bool c" for c by simp
  have cnt: "(if c then 1 else 0) = (of_bool c :: nat)" for c by simp
  have eq: "(if c then of_bool p else of_bool q) = (of_bool (if c then p else q) :: u32)" for c p q by simp
  show ?thesis
    unfolding monitoredBit_def monStep_def Let_def prod.case pos source shift differs parity_bit as_bool of_bool_xor one up eq cnt fst_conv snd_conv
      fb_def [symmetric]
    by (simp only: eq up prod.inject simp_thms)
qed

lemma monitoredItem_run:
  assumes "bitsPerItem cfg \<le> 8"
  shows "monitoredItem cfg st x =
    (let r = map_state (monStep cfg (sc_mode cfg = MultiplicativeDescramble)) st (itemBits (sc_order cfg) (bitsPerItem cfg) x)
     in (packItem (sc_order cfg) (fst r), snd r))"
proof -
  let ?bs = "itemBits (sc_order cfg) (bitsPerItem cfg) x" and ?f = "monStep cfg (sc_mode cfg = MultiplicativeDescramble)"
  have "fold (monitoredBit cfg x) [0..<bitsPerItem cfg] (0, st) =
      fold (\<lambda>b (item, s). (item OR push_bit (fieldPosition (sc_order cfg) (length ?bs) b) (of_bool (fst (?f s (?bs ! b)))), snd (?f s (?bs ! b))))
        [0..<length ?bs] (0, st)"
    by (rule fold_cong) (auto simp: fun_eq_iff monitoredBit_step assms)
  also have "\<dots> = (packItem (sc_order cfg) (fst (map_state ?f st ?bs)), snd (map_state ?f st ?bs))"
    by (rule item_loop) (use assms in simp)
  finally show ?thesis using assms by (simp add: monitoredItem_def ucast_packItem Let_def)
qed

text \<open>Two item loops whose bit loops undo each other.\<close>

lemma inverse_items:
  fixes F G :: "'s \<Rightarrow> u8 \<Rightarrow> u8 \<times> 's"
  assumes "w \<le> 8"
    and F: "\<And>st x. F st x = (packItem order (fst (map_state f st (itemBits order w x))), snd (map_state f st (itemBits order w x)))"
    and G: "\<And>st x. G st x = (packItem order (fst (map_state g st (itemBits order w x))), snd (map_state g st (itemBits order w x)))"
    and undo: "\<And>st bs. map_state g st (fst (map_state f st bs)) = (bs, snd (map_state f st bs))"
  shows "map_state G st (fst (map_state F st xs)) = (map (take_bit w) xs, snd (map_state F st xs))"
proof (induction xs arbitrary: st)
  case (Cons x xs)
  have "G st (fst (F st x)) = (take_bit w x, snd (F st x))"
    using assms(1) by (simp add: F G undo packItem_itemBits)
  with Cons show ?case by (simp add: Let_def split_beta)
qed simp

lemma configureMonitor_result:
  assumes "configureMonitor cfg flip N ds = Inr c"
  obtains p q where "c = resetScrambler (cfg\<lparr>invertOutput := flip, forceAfter := N, monitorP := p, monitorQ := q\<rparr>)"
    "N = 0 \<Longrightarrow> p = 0 \<and> q = 0" "N \<noteq> 0 \<Longrightarrow> \<exists>t. tapsFromDelayList ds = Inr t \<and> p = minDelayOf t \<and> q = degreeOf t"
  using assms by (fastforce simp: configureMonitor_def Let_def split: if_splits sum.splits)

lemma wellConfigured_unmonitored:
  "wellConfigured cfg \<Longrightarrow> sc_mode cfg \<noteq> Additive \<Longrightarrow>
    wellConfigured (resetScrambler (cfg\<lparr>invertOutput := False, forceAfter := 0, monitorP := p, monitorQ := q\<rparr>))"
  unfolding wellConfigured_def by (elim conjE) (simp add: resetScrambler_def)

lemma scramble_monitored:
  assumes "sc_mode cfg \<noteq> Additive" "invertOutput cfg \<or> forceAfter cfg \<noteq> 0"
  shows "scramble cfg src out = Some (scrambleMonitored cfg src out)"
  using assms by (cases "sc_mode cfg") (auto simp: scramble_def)

text \<open>C21. A multiplicative descrambler configured like the scrambler, with or without the output
  inversion and the forced-transition rule, gives back every item (its significant bits) from item
  zero, and both ends finish with the same register, monitor window and forcing counter.\<close>

theorem descramble_inverts_scramble:
  assumes "configureScrambler c1 taps seed MultiplicativeScramble w order = Inr s0" "configureMonitor s0 flip N ds = Inr s"
    "configureScrambler c2 taps seed MultiplicativeDescramble w order = Inr d0" "configureMonitor d0 flip N ds = Inr d"
    "length out = length xs" "length out' = length xs" "scramble s xs out = Some (ys, s')"
  shows "\<exists>d'. scramble d ys out' = Some (map (take_bit w) xs, d') \<and> sc_reg d' = sc_reg s' \<and>
    monitorWindow d' = monitorWindow s' \<and> forceCounter d' = forceCounter s'"
proof -
  note S = configureScrambler_result [OF assms(1)] and D = configureScrambler_result [OF assms(3)]
  obtain p q where s: "s = resetScrambler (s0\<lparr>invertOutput := flip, forceAfter := N, monitorP := p, monitorQ := q\<rparr>)"
    and pq: "N = 0 \<Longrightarrow> p = 0 \<and> q = 0" "N \<noteq> 0 \<Longrightarrow> \<exists>t. tapsFromDelayList ds = Inr t \<and> p = minDelayOf t \<and> q = degreeOf t"
    using configureMonitor_result [OF assms(2)] by metis
  obtain p' q' where d: "d = resetScrambler (d0\<lparr>invertOutput := flip, forceAfter := N, monitorP := p', monitorQ := q'\<rparr>)"
    and pq': "N = 0 \<Longrightarrow> p' = 0 \<and> q' = 0" "N \<noteq> 0 \<Longrightarrow> \<exists>t. tapsFromDelayList ds = Inr t \<and> p' = minDelayOf t \<and> q' = degreeOf t"
    using configureMonitor_result [OF assms(4)] by metis
  have "p' = p" "q' = q" using pq pq' by (cases "N = 0"; force)+
  have mask: "regMask d0 = regMask s0" by (rule bit_word_eqI) (simp add: S(5) D(5))
  have both: "sc_taps d = sc_taps s" "regMask d = regMask s" "bitsPerItem s = w" "bitsPerItem d = w" "sc_order s = order" "sc_order d = order"
    "sc_mode s = MultiplicativeScramble" "sc_mode d = MultiplicativeDescramble" "sc_reg d = sc_reg s" "monitorWindow d = monitorWindow s"
    "forceCounter d = forceCounter s" "invertOutput s = flip" "invertOutput d = flip" "forceAfter s = N" "forceAfter d = N"
    "monitorP d = monitorP s" "monitorQ d = monitorQ s" "w \<le> 8" "monitorWindow s = 0" "forceCounter s = 0"
    using S(12) by (simp_all add: s d resetScrambler_def S(7-10,13,14) D(7-10,13,14) mask \<open>p' = p\<close> \<open>q' = q\<close>)
  show ?thesis
  proof (cases "flip \<or> N \<noteq> 0")
    case True
    let ?st = "\<lparr>mon_reg = sc_reg s, mon_window = monitorWindow s, mon_counter = forceCounter s, mon_fired = 0\<rparr>"
    have step: "monStep d = monStep s" by (simp only: monStep_def [abs_def] both)
    have "map_state (monitoredItem d) ?st (fst (map_state (monitoredItem s) ?st xs)) =
        (map (take_bit w) xs, snd (map_state (monitoredItem s) ?st xs))"
      by (rule inverse_items [where order = order and f = "monStep s False" and g = "monStep s True"])
        (use both step in \<open>simp_all add: monitoredItem_run monitored_pair_bits Let_def\<close>)
    moreover have "ys = fst (map_state (monitoredItem s) ?st xs)" "s' = snd (scrambleMonitored s xs out)"
      using assms(5,7) True both by (auto simp: scramble_monitored scrambleMonitored_def Let_def split_beta)
    ultimately show ?thesis
      using True both assms(5,6) by (simp add: scramble_monitored scrambleMonitored_def Let_def split_beta)
  next
    case False
    have well: "wellConfigured s" "wellConfigured d"
      using wellConfigured_unmonitored [OF S(15), of q p] wellConfigured_unmonitored [OF D(15), of q' p'] S(8) D(8) False
      by (simp_all add: s d)
    have "map_state (referenceItem d) (sc_reg s) (fst (map_state (referenceItem s) (sc_reg s) xs)) =
        (map (take_bit w) xs, snd (map_state (referenceItem s) (sc_reg s) xs))"
      by (rule inverse_items [where order = order and f = "bitStep MultiplicativeScramble (sc_taps s) (regMask s)" and
            g = "bitStep MultiplicativeDescramble (sc_taps s) (regMask s)"])
        (use both in \<open>simp_all add: referenceItem_run pair_bits\<close>)
    moreover have "ys = fst (map_state (referenceItem s) (sc_reg s) xs)" "s' = after s xs"
      using assms(5,7) by (auto simp: scramble_reference [OF well(1)] scrambleReference_after Let_def)
    ultimately show ?thesis
      using both assms(5,6) by (simp add: scramble_reference [OF well(2)] scrambleReference_after Let_def) (simp add: after_def)
  qed
qed

end
