(* ===== verification/ScramblerProperties.thy ===== *)
theory ScramblerProperties
  imports ScramblerStream
begin

section \<open>What the scramblers promise\<close>

text \<open>
  The promises of \<^verbatim>\<open>digital/Scrambler.hpp\<close> that rest on the stream reading: self-synchronization,
  the additive involution, the seed as the sequence's opening, explicit sequences and the published
  check values of the named profiles, and the round trip of the tap-set spelling.
\<close>

subsection \<open>The multiplicative pair\<close>

lemma descramble_inverts_scramble_witness:
  "\<exists>s0 s d0 d ys s' d'. configureScrambler defaultScrambler 0x95 0xFF MultiplicativeScramble 8 MsbFirst = Inr s0 \<and>
     configureMonitor s0 True 4 ''3,5'' = Inr s \<and>
     configureScrambler defaultScrambler 0x95 0xFF MultiplicativeDescramble 8 MsbFirst = Inr d0 \<and>
     configureMonitor d0 True 4 ''3,5'' = Inr d \<and>
     scramble s [0x12, 0x34, 0x56] [0, 0, 0] = Some (ys, s') \<and> scramble d ys [0, 0, 0] = Some ([0x12, 0x34, 0x56], d')"
proof -
  have "\<not> isl (configureScrambler defaultScrambler 0x95 0xFF MultiplicativeScramble 8 MsbFirst)"
    "\<not> isl (configureScrambler defaultScrambler 0x95 0xFF MultiplicativeDescramble 8 MsbFirst)" by code_simp+
  then obtain s0 d0 where s0: "configureScrambler defaultScrambler 0x95 0xFF MultiplicativeScramble 8 MsbFirst = Inr s0"
    and d0: "configureScrambler defaultScrambler 0x95 0xFF MultiplicativeDescramble 8 MsbFirst = Inr d0"
    by (metis sum.collapse(2))
  have "\<not> isl (configureMonitor c True 4 ''3,5'')" if "sc_mode c \<noteq> Additive" for c
  proof -
    have "tapsFromDelayList ''3,5'' = Inr 0x14" "popcount (0x14 :: u64) = 2" by code_simp+
    with that show ?thesis by (simp add: configureMonitor_def)
  qed
  moreover have modes: "sc_mode s0 = MultiplicativeScramble" "sc_mode d0 = MultiplicativeDescramble"
    using configureScrambler_result(8) [OF s0] configureScrambler_result(8) [OF d0] by simp_all
  ultimately obtain s d where s: "configureMonitor s0 True 4 ''3,5'' = Inr s" and d: "configureMonitor d0 True 4 ''3,5'' = Inr d"
    by (metis sum.collapse(2) ScramblerMode.distinct(1) ScramblerMode.distinct(3))
  obtain p q where "s = resetScrambler (s0\<lparr>invertOutput := True, forceAfter := 4, monitorP := p, monitorQ := q\<rparr>)"
    using configureMonitor_result [OF s] by metis
  then have "sc_mode s = MultiplicativeScramble" "invertOutput s" using modes(1) by (simp_all add: resetScrambler_def)
  then obtain ys s' where run: "scramble s [0x12, 0x34, 0x56] [0, 0, 0] = Some (ys, s')"
    by (metis scramble_monitored ScramblerMode.distinct(1) prod.collapse)
  have "\<exists>d'. scramble d ys [0, 0, 0] = Some (map (take_bit 8) [0x12, 0x34, 0x56], d') \<and> sc_reg d' = sc_reg s' \<and>
      monitorWindow d' = monitorWindow s' \<and> forceCounter d' = forceCounter s'"
    by (rule descramble_inverts_scramble [OF s0 s d0 d _ _ run]) simp_all
  then obtain d' where "scramble d ys [0, 0, 0] = Some (map (take_bit 8) [0x12, 0x34, 0x56], d')" by blast
  moreover have "map (take_bit 8) [0x12, 0x34, 0x56] = [0x12, 0x34, 0x56 :: u8]" by simp
  ultimately have "scramble d ys [0, 0, 0] = Some ([0x12, 0x34, 0x56], d')" by (simp only:)
  with s0 s d0 d run show ?thesis by blast
qed

text \<open>Self-synchronization: the register forgets where it started.\<close>

lemma descramble_reg:
  assumes "wellConfigured cfg" "sc_mode cfg = MultiplicativeDescramble" "reg AND regMask cfg = reg"
  shows "snd (map_state (referenceItem cfg) reg xs) = fed (regMask cfg) (fieldStream (sc_order cfg) (bitsPerItem cfg) xs) reg"
  using assms(3)
proof (induction xs arbitrary: reg)
  case Nil
  then show ?case by (simp add: fieldStream_def fed_Nil)
next
  case (Cons x xs)
  have w: "bitsPerItem cfg \<le> 8" and shape: "shaped (sc_taps cfg) (regMask cfg) (sc_degree cfg) (minDelay cfg)"
    using assms(1) by (simp_all add: wellConfigured_def)
  let ?bs = "itemBits (sc_order cfg) (bitsPerItem cfg) x"
  have step: "snd (referenceItem cfg reg x) = fed (regMask cfg) ?bs reg"
    by (simp add: referenceItem_run [OF w] assms(2) descramble_run [OF shape Cons.prems])
  have "fieldStream (sc_order cfg) (bitsPerItem cfg) (x # xs) = ?bs @ fieldStream (sc_order cfg) (bitsPerItem cfg) xs"
    by (simp add: fieldStream_itemBits)
  with Cons.IH [of "fed (regMask cfg) ?bs reg"] step show ?case by (simp add: Let_def split_beta fed_append [OF shape])
qed

lemma fed_forgets:
  assumes "shaped taps rmask d m" "d \<le> length bs"
  shows "fed rmask bs r1 = fed rmask bs r2"
  by (rule bit_word_eqI) (use assms in \<open>auto simp: bit_fed shaped_def\<close>)

text \<open>C22. From any two starting registers the descrambler agrees with itself on every item after the
  first degree bits, and ends in the same state.\<close>

theorem descrambler_self_synchronizes:
  assumes "live cfg" "sc_mode cfg = MultiplicativeDescramble" "r1 AND regMask cfg = r1" "r2 AND regMask cfg = r2"
    "sc_degree cfg \<le> n * bitsPerItem cfg" "n \<le> length xs" "length out = length xs"
    "scramble (cfg\<lparr>sc_reg := r1\<rparr>) xs out = Some (ys1, c1)" "scramble (cfg\<lparr>sc_reg := r2\<rparr>) xs out = Some (ys2, c2)"
  shows "drop n ys1 = drop n ys2 \<and> c1 = c2"
proof -
  have base: "wellConfigured cfg" by (rule live_wellConfigured [OF assms(1)])
  have P: "tablePeriod cfg = 0" using base assms(2) by (auto simp: wellConfigured_def)
  have well: "wellConfigured (cfg\<lparr>sc_reg := r\<rparr>)" if "r AND regMask cfg = r" for r
    using base that P unfolding wellConfigured_def by (elim conjE) simp
  let ?run = "\<lambda>r. map_state (referenceItem cfg) r xs"
  have res: "ys = fst (?run r)" "c = cfg\<lparr>sc_reg := snd (?run r)\<rparr>"
    if "scramble (cfg\<lparr>sc_reg := r\<rparr>) xs out = Some (ys, c)" "r AND regMask cfg = r" for r ys c
    using that assms(7) P
    by (auto simp: scramble_reference [OF well [OF that(2)]] scrambleReference_after Let_def after_def advancePhase_def)
  have shape: "shaped (sc_taps cfg) (regMask cfg) (sc_degree cfg) (minDelay cfg)"
    using base by (simp add: wellConfigured_def)
  have "length (fieldStream (sc_order cfg) (bitsPerItem cfg) (take n xs)) = n * bitsPerItem cfg" using assms(6) by simp
  then have same: "snd (map_state (referenceItem cfg) r1 (take n xs)) = snd (map_state (referenceItem cfg) r2 (take n xs))"
    using fed_forgets [OF shape, of "fieldStream (sc_order cfg) (bitsPerItem cfg) (take n xs)" r1 r2] assms(5)
    by (simp only: descramble_reg [OF base assms(2)] assms(3,4))
  have split: "?run r = (let (us, s) = map_state (referenceItem cfg) r (take n xs); (vs, s) = map_state (referenceItem cfg) s (drop n xs)
      in (us @ vs, s))" for r
    by (metis append_take_drop_id map_state_append)
  have "drop n (fst (?run r)) = fst (map_state (referenceItem cfg) (snd (map_state (referenceItem cfg) r (take n xs))) (drop n xs))" for r
    unfolding split using assms(6) by (simp add: split_beta Let_def)
  moreover have "snd (?run r) = snd (map_state (referenceItem cfg) (snd (map_state (referenceItem cfg) r (take n xs))) (drop n xs))" for r
    unfolding split by (simp add: split_beta Let_def)
  ultimately show ?thesis using res [OF assms(8,3)] res [OF assms(9,4)] same by simp
qed

lemma descrambler_self_synchronizes_witness:
  "\<exists>cfg ys1 ys2 c. configureScrambler defaultScrambler 0x95 0 MultiplicativeDescramble 8 MsbFirst = Inr cfg \<and>
     scramble (cfg\<lparr>sc_reg := 0x01\<rparr>) [0x12, 0x34, 0x56] [0, 0, 0] = Some (ys1, c) \<and>
     scramble (cfg\<lparr>sc_reg := 0xFF\<rparr>) [0x12, 0x34, 0x56] [0, 0, 0] = Some (ys2, c) \<and> drop 1 ys1 = drop 1 ys2"
proof -
  have "\<not> isl (configureScrambler defaultScrambler 0x95 0 MultiplicativeDescramble 8 MsbFirst)" by code_simp
  then obtain cfg where cfg: "configureScrambler defaultScrambler 0x95 0 MultiplicativeDescramble 8 MsbFirst = Inr cfg"
    by (metis sum.collapse(2))
  note r = configureScrambler_result [OF cfg]
  have degree: "degreeOf 0x95 = 8" by code_simp
  have masked: "r AND regMask cfg = r" if "\<And>i. bit r i \<Longrightarrow> i < 8" for r :: u64
    by (rule bit_word_eqI) (use that in \<open>auto simp: bit_and_iff r(5) degree\<close>)
  have small: "0x01 AND regMask cfg = 0x01" "0xFF AND regMask cfg = 0xFF"
    by (rule masked, simp add: bit_1_iff, rule masked, auto simp: word_bits)
  have well: "wellConfigured (cfg\<lparr>sc_reg := v\<rparr>)" if "v AND regMask cfg = v" for v
    using r(15) that r(8) unfolding wellConfigured_def by (elim conjE) simp
  obtain ys1 c1 ys2 c2 where "scramble (cfg\<lparr>sc_reg := 0x01\<rparr>) [0x12, 0x34, 0x56] [0, 0, 0] = Some (ys1, c1)"
    "scramble (cfg\<lparr>sc_reg := 0xFF\<rparr>) [0x12, 0x34, 0x56] [0, 0, 0] = Some (ys2, c2)"
    using scramble_reference [OF well [OF small(1)]] scramble_reference [OF well [OF small(2)]] by (metis prod.collapse)
  with descrambler_self_synchronizes [OF built [OF cfg] r(8) small, of 1 "[0x12, 0x34, 0x56]" "[0, 0, 0]" ys1 c1 ys2 c2] cfg
  show ?thesis by (auto simp: r(9,16) degree)
qed
subsection \<open>The additive mode\<close>

lemma masked_xor_twice: "((x XOR s) AND m XOR s) AND m = x AND m" for x s m :: "'a::len word"
  by (rule bit_word_eqI) (auto simp: bit_and_iff bit_xor_iff)

theorem additive_involution:
  assumes "live cfg" "sc_mode cfg = Additive" "length out = length xs" "length out' = length xs"
    "scramble cfg xs out = Some (ys, c)"
  shows "scramble cfg ys out' = Some (map (take_bit (bitsPerItem cfg)) xs, c)"
proof -
  note well = live_wellConfigured [OF assms(1)]
  let ?w = "bitsPerItem cfg"
  have w: "0 < ?w" "?w \<le> 8" using well by (simp_all add: wellConfigured_def)
  let ?K = "keySequence cfg (sc_reg cfg) [0..<length xs]"
  have run: "map_state (referenceItem cfg) (sc_reg cfg) zs =
      (map2 (\<lambda>x s. (x XOR s) AND (push_bit ?w 1 - 1)) zs (fst ?K), snd ?K)" if "length zs = length xs" for zs
    by (rule reference_keys [OF w assms(2)]) (use that in simp)
  have ys: "ys = map2 (\<lambda>x s. (x XOR s) AND (push_bit ?w 1 - 1)) xs (fst ?K)" "c = after cfg xs"
    using assms(3,5) by (auto simp: scramble_reference [OF well] scrambleReference_after Let_def run)
  have len: "length (fst ?K) = length xs" by (simp add: keySequence_def)
  have "map2 (\<lambda>x s. (x XOR s) AND (push_bit ?w 1 - 1)) ys (fst ?K) = map (take_bit ?w) xs"
    by (rule nth_equalityI) (use len in \<open>simp_all add: ys(1) masked_xor_twice take_bit_eq_mask mask_eq_exp_minus_1\<close>)
  moreover have "after cfg ys = after cfg xs" using len by (simp add: after_def run ys(1))
  ultimately show ?thesis
    using assms(4) len by (simp add: scramble_reference [OF well] scrambleReference_after Let_def run ys)
qed

text \<open>The sequence from a point of the walk, bit by bit.\<close>

lemma key_stream:
  assumes "wellConfigured cfg" "sc_mode cfg = Additive"
  shows "fieldStream (sc_order cfg) (bitsPerItem cfg) (fst (keySequence cfg (walk cfg p) xs)) =
    map (\<lambda>k. fb (sc_taps cfg) (walk cfg (p + k))) [0..<length xs * bitsPerItem cfg]"
proof (induction xs arbitrary: p)
  case (Cons x xs)
  let ?w = "bitsPerItem cfg"
  have w: "?w \<le> 8" using assms(1) by (simp add: wellConfigured_def)
  have "[0..<?w + length xs * ?w] = [0..<?w] @ map (\<lambda>k. ?w + k) [0..<length xs * ?w]"
    by (rule nth_equalityI) (auto simp: nth_append)
  with Cons [of "p + ?w"] w show ?case
    by (simp add: keySequence_def Let_def split_beta referenceItem_walk [OF assms] fieldStream_itemBits add.assoc)
qed (simp add: keySequence_def fieldStream_def)

lemma walk_fed:
  assumes "wellConfigured cfg" "sc_mode cfg = Additive"
  shows "walk cfg n = fed (regMask cfg) (map (\<lambda>k. fb (sc_taps cfg) (walk cfg k)) [0..<n]) (initialReg cfg)"
proof -
  have shape: "shaped (sc_taps cfg) (regMask cfg) (sc_degree cfg) (minDelay cfg)"
    and init: "initialReg cfg AND regMask cfg = initialReg cfg"
    using assms(1) by (simp_all add: wellConfigured_def)
  have "(\<lambda>k. fb (sc_taps cfg) ((walkStep (sc_taps cfg) (regMask cfg) ^^ k) (initialReg cfg))) = (\<lambda>k. fb (sc_taps cfg) (walk cfg k))"
    by (simp add: walk_def)
  moreover have "map2 (\<noteq>) (replicate n False) bs = bs" if "length bs = n" for bs
    by (rule nth_equalityI) (use that in simp_all)
  ultimately show ?thesis
    using run_fed [OF shape init, of Additive "replicate n False"] by (simp add: additive_walk fedBits_def walk_def)
qed

text \<open>A step backwards undoes a step of the walk.\<close>

lemma walk_back:
  assumes mask: "\<And>i. bit rmask i \<longleftrightarrow> i < d" and d: "0 < d" "d \<le> 64" and taps: "\<And>i. bit taps i \<Longrightarrow> i < d" "bit taps (d - 1)"
    and reg: "reg AND rmask = reg"
  shows "walkStep taps rmask (backStep taps rmask d reg) = reg"
proof -
  have r: "bit reg i \<Longrightarrow> i < d" for i using reg mask by (metis bit_and_iff)
  define p where "p = odd (popcount (reg AND ((push_bit 1 taps OR 1) AND rmask)))"
  define old where "old = backStep taps rmask d reg"
  have old: "bit old i \<longleftrightarrow> bit reg (Suc i) \<or> i = d - 1 \<and> p" for i
    unfolding old_def p_def by (rule bit_backStep [OF d])
  have "old AND taps = (drop_bit 1 reg AND taps) XOR push_bit (d - 1) (of_bool p)"
  proof (rule bit_word_eqI)
    fix i assume i: "i < LENGTH(64)"
    have "\<not> bit reg (Suc (d - 1))" using r [of d] d(1) by auto
    then show "bit (old AND taps) i \<longleftrightarrow> bit ((drop_bit 1 reg AND taps) XOR push_bit (d - 1) (of_bool p)) i"
      unfolding bit_and_iff bit_xor_iff bit_push_bit_iff bit_drop_bit_eq bit_of_bool_iff old
      using i taps(2) by (cases "i = d - 1") auto
  qed
  then have "odd (popcount (old AND taps)) \<longleftrightarrow> odd (popcount (drop_bit 1 reg AND taps)) \<noteq> p"
    using d by (cases p) (simp_all add: even_popcount_xor push_bit_of_1 del: popcount_eq_0_iff)
  moreover have "p \<longleftrightarrow> odd (popcount (drop_bit 1 reg AND taps)) \<noteq> bit reg 0"
  proof -
    have "reg AND ((push_bit 1 taps OR 1) AND rmask) = push_bit 1 (drop_bit 1 reg AND taps) XOR of_bool (bit reg 0)"
    proof (rule bit_word_eqI)
      fix i assume i: "i < LENGTH(64)"
      show "bit (reg AND ((push_bit 1 taps OR 1) AND rmask)) i \<longleftrightarrow> bit (push_bit 1 (drop_bit 1 reg AND taps) XOR of_bool (bit reg 0)) i"
        unfolding bit_and_iff bit_or_iff bit_xor_iff bit_push_bit_iff bit_drop_bit_eq bit_of_bool_iff bit_1_iff mask
        using r i d by (cases i) auto
    qed
    moreover have "popcount (push_bit 1 (drop_bit 1 reg AND taps)) = popcount (drop_bit 1 reg AND taps)"
      by (rule popcount_push_bit) (auto simp: bit_and_iff bit_drop_bit_eq dest: bit_imp_le_length)
    ultimately show ?thesis unfolding p_def by (cases "bit reg 0") (simp_all add: even_popcount_xor del: push_bit_of_1)
  qed
  ultimately have parity: "odd (popcount (old AND taps)) \<longleftrightarrow> bit reg 0" by blast
  have step: "walkStep taps rmask old = (push_bit 1 old OR of_bool (bit reg 0)) AND rmask"
    by (simp only: walkStep_def parity_bit parity)
  have "walkStep taps rmask old = reg"
  proof (rule bit_word_eqI)
    fix i assume i: "i < LENGTH(64)"
    then show "bit (walkStep taps rmask old) i \<longleftrightarrow> bit reg i"
      unfolding step bit_and_iff bit_or_iff bit_push_bit_iff bit_of_bool_iff mask old
      using i r [of i] d by (cases i) auto
  qed
  then show ?thesis by (simp only: old_def)
qed

lemma backwardRegister_walk:
  assumes mask: "\<And>i. bit rmask i \<longleftrightarrow> i < d" and d: "0 < d" "d \<le> 64" and taps: "\<And>i. bit taps i \<Longrightarrow> i < d" "bit taps (d - 1)"
    and reg: "reg AND rmask = reg"
  shows "(walkStep taps rmask ^^ d) (backwardRegister taps rmask d reg) = reg"
proof -
  have "(walkStep taps rmask ^^ n) ((backStep taps rmask d ^^ n) reg) = reg \<and>
      (backStep taps rmask d ^^ n) reg AND rmask = (backStep taps rmask d ^^ n) reg" for n
  proof (induction n)
    case (Suc n)
    have "(walkStep taps rmask ^^ Suc n) ((backStep taps rmask d ^^ Suc n) reg) =
        (walkStep taps rmask ^^ n) (walkStep taps rmask (backStep taps rmask d ((backStep taps rmask d ^^ n) reg)))"
      by (subst funpow_Suc_right) (simp only: funpow.simps o_apply)
    with Suc show ?case
      by (simp only: walk_back [OF mask d taps] backStep_masked [OF mask d(2,1)] funpow.simps o_apply simp_thms)
  qed (simp add: reg)
  then show ?thesis by (simp add: backwardRegister_steps)
qed

text \<open>The keystream of a fresh additive configuration, opened by the seed and continued by the recursion.\<close>

lemma keystream_recurrence:
  assumes "configureScrambler c taps seed Additive w order = Inr cfg" "distinct ds" "set ds = {j. 0 < j \<and> bit taps (j - 1)}"
  defines "s \<equiv> \<lambda>k. fb taps (walk cfg k)" and "d \<equiv> degreeOf taps"
  shows "k < d \<Longrightarrow> s k = bit seed (d - 1 - k)" "d \<le> k \<Longrightarrow> s k = odd (length (filter (\<lambda>j. s (k - j)) ds))"
proof -
  note r = configureScrambler_result [OF assms(1), folded d_def]
  have taps: "bit taps i \<Longrightarrow> i < d" for i using bit_width_bounds(2) by (simp add: d_def degreeOf_def)
  have walk: "walk cfg k = fed (regMask cfg) (map s [0..<k]) (initialReg cfg)" for k
    using walk_fed [OF r(15,8), of k] by (simp add: s_def r(7))
  have "walk cfg d = seed"
    using backwardRegister_walk [OF r(5) r(2,3) taps r(4) r(6)] by (simp add: walk_def r(7,13))
  then have seed: "bit seed i \<longleftrightarrow> i < d \<and> s (d - 1 - i)" for i
    using walk [of d] by (auto simp: bit_fed r(5))
  show "s k = bit seed (d - 1 - k)" if "k < d"
  proof -
    have "d - 1 - (d - 1 - k) = k" using that by simp
    with seed [of "d - 1 - k"] that show ?thesis by simp
  qed
  show "s k = odd (length (filter (\<lambda>j. s (k - j)) ds))" if "d \<le> k"
  proof -
    have "filter (\<lambda>j. bit (walk cfg k) (j - 1)) ds = filter (\<lambda>j. s (k - j)) ds"
    proof (rule filter_cong [OF refl])
      fix j assume "j \<in> set ds"
      then have j: "0 < j" "j - 1 < d" using assms(3) taps by auto
      then have "k - 1 - (j - 1) = k - j" "j - 1 < k" using that by simp_all
      with j that show "bit (walk cfg k) (j - 1) = s (k - j)"
        unfolding walk [of k] by (simp add: bit_fed r(5))
    qed
    then show ?thesis unfolding s_def fb_delays [OF assms(2,3)] by (simp add: s_def fb_delays [OF assms(2,3)])
  qed
qed

lemma additive_zero_stream:
  assumes "configureScrambler c taps seed Additive w order = Inr cfg" "length out = n" "scramble cfg (replicate n 0) out = Some (ys, cfg')"
  shows "fieldStream order w ys = map (\<lambda>k. fb taps (walk cfg k)) [0..<n * w]" "length ys = n"
proof -
  note r = configureScrambler_result [OF assms(1)]
  have keys: "map_state (referenceItem cfg) (sc_reg cfg) (replicate n 0) =
      (map2 (\<lambda>x s. (x XOR s) AND (push_bit w 1 - 1)) (replicate n 0) (fst (keySequence cfg (sc_reg cfg) [0..<n])),
       snd (keySequence cfg (sc_reg cfg) [0..<n]))"
    using reference_keys [of cfg "[0..<n]" "replicate n 0" "sc_reg cfg"] r(8,9,11,12) by simp
  have stream: "fieldStream order w (map2 (\<lambda>x s. (x XOR s) AND (push_bit w 1 - 1)) (replicate n 0) zs) = fieldStream order w zs"
    if "length zs = n" for zs
  proof -
    have "map2 (\<lambda>x s. (x XOR s) AND (push_bit w 1 - 1)) (replicate n 0) zs = map (take_bit w) zs"
      by (rule nth_equalityI) (use that in \<open>simp_all add: take_bit_eq_mask mask_eq_exp_minus_1\<close>)
    then show ?thesis by (simp add: fieldStream_itemBits o_def)
  qed
  have ys: "ys = map2 (\<lambda>x s. (x XOR s) AND (push_bit w 1 - 1)) (replicate n 0) (fst (keySequence cfg (sc_reg cfg) [0..<n]))"
    using assms(2,3) by (auto simp: scramble_reference [OF r(15)] scrambleReference_after Let_def keys)
  then show "length ys = n" by (simp add: keySequence_def)
  have "fieldStream order w ys = fieldStream order w (fst (keySequence cfg (walk cfg 0) [0..<n]))"
    unfolding ys
    using stream [of "fst (keySequence cfg (sc_reg cfg) [0..<n])"] by (simp add: keySequence_def walk_def r(14) del: push_bit_of_1)
  also have "\<dots> = map (\<lambda>k. fb taps (walk cfg k)) [0..<n * w]"
    using key_stream [OF r(15,8), of 0 "[0..<n]"] by (simp add: r(7,9,10))
  finally show "fieldStream order w ys = map (\<lambda>k. fb taps (walk cfg k)) [0..<n * w]" .
qed

text \<open>C23. The additive sequence opens with the seed, leftmost bit first, and every later bit is the
  parity of the bits at the tap delays before it: the register recovered by running the recursion
  backwards is the right one.\<close>

theorem additive_sequence_recurrence:
  assumes "configureScrambler c taps seed Additive w order = Inr cfg" "length out = n"
    "scramble cfg (replicate n 0) out = Some (ys, cfg')" "s = fieldStream order w ys" "k < n * w"
  shows "s ! k = (if k < degreeOf taps then bit seed (degreeOf taps - 1 - k)
    else odd (card {j. 0 < j \<and> bit taps (j - 1) \<and> s ! (k - j)}))"
proof -
  define ds where "ds = map Suc (setBits taps)"
  have ds: "distinct ds" "set ds = {j. 0 < j \<and> bit taps (j - 1)}"
    using set_delays [of taps] by (simp_all add: ds_def distinct_map setBits_def)
  have s: "s ! i = fb taps (walk cfg i)" if "i < n * w" for i
    using additive_zero_stream(1) [OF assms(1-3)] that by (simp add: assms(4))
  note rec = keystream_recurrence [OF assms(1) ds, of k]
  have "filter (\<lambda>j. fb taps (walk cfg (k - j))) ds = filter (\<lambda>j. s ! (k - j)) ds"
    by (rule filter_cong) (use s assms(5) in auto)
  moreover have "length (filter (\<lambda>j. s ! (k - j)) ds) = card {j. 0 < j \<and> bit taps (j - 1) \<and> s ! (k - j)}"
  proof -
    have "length (filter (\<lambda>j. s ! (k - j)) ds) = card (set (filter (\<lambda>j. s ! (k - j)) ds))"
      by (rule distinct_card [symmetric]) (simp add: ds(1))
    also have "set (filter (\<lambda>j. s ! (k - j)) ds) = {j. 0 < j \<and> bit taps (j - 1) \<and> s ! (k - j)}"
      by (auto simp: ds(2))
    finally show ?thesis .
  qed
  ultimately show ?thesis using rec s [OF assms(5)] by simp
qed

subsection \<open>The spelling of a tap set\<close>

lemma digit_char: "k < 10 \<Longrightarrow> isDigit (char_of (48 + k))" "k < 10 \<Longrightarrow> (of_char (char_of (48 + k)) :: nat) - 48 = k"
  by (simp_all add: isDigit_def)

lemma decimalText_small:
  "n < 10 \<Longrightarrow> decimalText n = [char_of (48 + n)]"
  "10 \<le> n \<Longrightarrow> n < 100 \<Longrightarrow> decimalText n = [char_of (48 + n div 10), char_of (48 + n mod 10)]"
proof -
  show "n < 10 \<Longrightarrow> decimalText n = [char_of (48 + n)]" by (simp add: decimalText_def decimalDigits.simps [of n])
  assume n: "10 \<le> n" "n < 100"
  then have "n div 10 < 10" "n div 10 \<noteq> 0" by (auto simp: div_eq_0_iff)
  then show "decimalText n = [char_of (48 + n div 10), char_of (48 + n mod 10)]"
    by (simp add: decimalText_def decimalDigits.simps [of n] decimalDigits.simps [of "n div 10"])
qed

lemma readDelay_decimalText:
  assumes "n \<le> 64" "rest = [] \<or> \<not> isDigit (hd rest)"
  shows "readDelay (decimalText n @ rest) 0 = Inr (n, rest)"
proof -
  have stop: "readDelay rest d = Inr (d, rest)" for d using assms(2) by (cases rest) auto
  show ?thesis
  proof (cases "n < 10")
    case True
    then show ?thesis using digit_char [of n] by (simp add: decimalText_small stop)
  next
    case False
    define a b where "a = n div 10" and "b = n mod 10"
    have "n = a * 10 + b" "a < 10" "b < 10" "decimalText n = [char_of (48 + a), char_of (48 + b)]"
      using False assms(1) by (simp_all add: a_def b_def decimalText_small)
    moreover from this have "a * 10 + b \<le> 64" "a \<le> 64" using assms(1) by simp_all
    ultimately show ?thesis using digit_char [of a] digit_char [of b] by (simp add: stop not_le del: of_char_of)
  qed
qed

lemma decimalText_start:
  assumes "n \<le> 64"
  obtains c cs where "decimalText n = c # cs" "isDigit c"
proof (cases "n < 10")
  case True
  with that digit_char(1) [of n] decimalText_small(1) [of n] show thesis by simp
next
  case False
  then have "n div 10 < 10" using assms by simp
  with False assms that digit_char(1) [of "n div 10"] decimalText_small(2) [of n] show thesis by simp
qed

definition spelled :: "nat list \<Rightarrow> string" where
  "spelled ns = concat (map (\<lambda>i. '','' @ decimalText (i + 1)) ns)"

lemma delayListLoopBack_spelled:
  "list \<noteq> [] \<Longrightarrow> delayListLoopBack rest list = list @ spelled (setBits rest)"
proof (induction rest list rule: delayListLoopBack.induct)
  case (1 rest list)
  show ?case
  proof (cases "rest = 0")
    case True
    then show ?thesis by (simp add: delayListLoopBack.simps setBits_simps spelled_def)
  next
    case False
    with 1 show ?thesis
      by (subst delayListLoopBack.simps) (simp add: setBits_simps(2) [OF False] spelled_def)
  qed
qed

lemma delayListFromTaps_spelled:
  assumes "taps \<noteq> 0"
  shows "delayListFromTaps taps = decimalText (hd (setBits taps) + 1) @ spelled (tl (setBits taps))"
proof -
  have "decimalText (countr_zero taps + 1) \<noteq> []" by (simp add: decimalText_def decimalDigits.simps)
  then show ?thesis
    unfolding delayListFromTaps_def
    by (subst delayListLoopBack.simps) (simp add: assms setBits_simps(2) [OF assms] delayListLoopBack_spelled)
qed

lemma delayListLoop_spelled:
  assumes "distinct (n # ns)" "\<forall>i\<in>set (n # ns). i < 64 \<and> \<not> bit acc i"
  shows "\<exists>taps. delayListLoop (decimalText (n + 1) @ spelled ns) acc = Inr taps \<and> (\<forall>i. bit taps i \<longleftrightarrow> bit acc i \<or> i \<in> set (n # ns))"
  using assms
proof (induction ns arbitrary: n acc)
  case (Cons m ns)
  have n: "n < 64" "n + 1 \<le> 64" "\<not> bit acc n" using Cons.prems(2) by auto
  obtain c cs where c: "decimalText (n + 1) = c # cs" "isDigit c" using n(2) by (rule decimalText_start)
  then have space: "skipSpaces (decimalText (n + 1) @ r) = decimalText (n + 1) @ r" for r
    by (auto simp: skipSpaces_def isDigit_def)
  have spell: "spelled (m # ns) = CHR '','' # (decimalText (m + 1) @ spelled ns)" by (simp add: spelled_def)
  have read: "readDelay (decimalText (n + 1) @ spelled (m # ns)) 0 = Inr (n + 1, spelled (m # ns))"
    by (rule readDelay_decimalText) (use n in \<open>simp_all add: spell isDigit_def\<close>)
  let ?b = "push_bit n 1 :: u64"
  have b: "bit ?b i \<longleftrightarrow> i = n" for i using n by (auto simp: push_bit_of_1)
  have "acc AND ?b = 0" by (rule bit_word_eqI) (use n(3) in \<open>auto simp: bit_and_iff b\<close>)
  then have loop: "delayListLoop (decimalText (n + 1) @ spelled (m # ns)) acc = delayListLoop (decimalText (m + 1) @ spelled ns) (acc OR ?b)"
    by (subst delayListLoop.simps)
      (simp only: Let_def space read sum.case prod.case, simp add: spell skipSpaces_def c [simplified] del: push_bit_of_1)
  have "\<exists>taps. delayListLoop (decimalText (m + 1) @ spelled ns) (acc OR ?b) = Inr taps \<and>
      (\<forall>i. bit taps i \<longleftrightarrow> bit (acc OR ?b) i \<or> i \<in> set (m # ns))"
    by (rule Cons.IH) (use Cons.prems in \<open>auto simp: bit_or_iff b simp del: push_bit_of_1\<close>)
  then show ?case unfolding loop by (auto simp: bit_or_iff b simp del: push_bit_of_1)
next
  case Nil
  have n: "n < 64" "n + 1 \<le> 64" "\<not> bit acc n" using Nil.prems(2) by auto
  obtain c cs where c: "decimalText (n + 1) = c # cs" "isDigit c" using n(2) by (rule decimalText_start)
  then have space: "skipSpaces (decimalText (n + 1)) = decimalText (n + 1)"
    by (auto simp: skipSpaces_def isDigit_def)
  have read: "readDelay (decimalText (n + 1)) 0 = Inr (n + 1, [])"
    using readDelay_decimalText [OF n(2), of "[]"] by simp
  let ?b = "push_bit n 1 :: u64"
  have b: "bit ?b i \<longleftrightarrow> i = n" for i using n by (auto simp: push_bit_of_1)
  have "acc AND ?b = 0" by (rule bit_word_eqI) (use n(3) in \<open>auto simp: bit_and_iff b\<close>)
  then have "delayListLoop (decimalText (n + 1)) acc = Inr (acc OR ?b)"
    by (subst delayListLoop.simps) (simp only: Let_def space read sum.case prod.case, simp add: skipSpaces_def c [simplified] del: push_bit_of_1)
  then show ?case by (auto simp: spelled_def bit_or_iff b simp del: push_bit_of_1)
qed

theorem delay_list_roundtrip:
  assumes "taps \<noteq> 0"
  shows "tapsFromDelayList (delayListFromTaps taps) = Inr taps"
proof -
  have bits: "set (setBits taps) = {i. bit taps i}" "distinct (setBits taps)"
    by (auto simp: setBits_def dest: bit_imp_le_length)
  obtain n ns where ns: "setBits taps = n # ns" using setBits_simps(2) [OF assms] by blast
  have "\<exists>t. delayListLoop (decimalText (n + 1) @ spelled ns) 0 = Inr t \<and> (\<forall>i. bit t i \<longleftrightarrow> bit (0 :: u64) i \<or> i \<in> set (n # ns))"
  proof (rule delayListLoop_spelled)
    show "distinct (n # ns)" using bits(2) ns by simp
    have "\<forall>i\<in>set (setBits taps). i < 64" by (simp add: setBits_def)
    then show "\<forall>i\<in>set (n # ns). i < 64 \<and> \<not> bit (0 :: u64) i" by (simp add: ns)
  qed
  then obtain t where t: "delayListLoop (decimalText (n + 1) @ spelled ns) 0 = Inr t" "\<And>i. bit t i \<longleftrightarrow> i \<in> set (n # ns)"
    by auto
  have "t = taps" by (rule bit_word_eqI) (use t(2) bits(1) ns in auto)
  with t(1) show ?thesis by (simp add: tapsFromDelayList_def delayListFromTaps_spelled [OF assms] ns)
qed

lemma delay_list_roundtrip_witness: "tapsFromDelayList (delayListFromTaps 0x18000) = Inr 0x18000"
  by (rule delay_list_roundtrip) simp

subsection \<open>Explicit sequences\<close>

text \<open>
  Bit \<open>i\<close> of a supplied sequence; the bit the table holds for position \<open>x\<close> of a read that starts inside the period; and the
  mask bit of bit \<open>k\<close> of the item whose first bit is bit \<open>p\<close> of an epoch.
\<close>

definition sequenceBit :: "u8 list \<Rightarrow> nat \<Rightarrow> bool" where
  "sequenceBit sequence i = bit (sequence ! (i div 8)) (7 - i mod 8)"

definition wrappedBit :: "u8 list \<Rightarrow> nat \<Rightarrow> nat \<Rightarrow> bool" where
  "wrappedBit sequence n x = sequenceBit sequence (if x < n then x else x - n)"

definition explicitBit :: "u8 list \<Rightarrow> nat \<Rightarrow> bool \<Rightarrow> nat \<Rightarrow> nat \<Rightarrow> bool" where
  "explicitBit sequence n tiled p k =
     (if tiled then wrappedBit sequence n (p mod n + k) else p + k < n \<and> sequenceBit sequence (p + k))"

lemma explicitTable_bits:
  assumes "k < n + 8"
  shows "bit (explicitTable sequence n ! (k div 8)) (7 - k mod 8) = sequenceBit sequence (if k < n then k else k - n)"
proof -
  have "explicitTable sequence n =
      fold (\<lambda>b table. table[b div 8 := table ! (b div 8) OR push_bit (7 - b mod 8) (of_bool (sequenceBit sequence (if b < n then b else b - n)))])
        [0..<n + 8] (replicate ((n + 15) div 8) 0)"
    unfolding explicitTable_def Let_def drop_bit_one sequenceBit_def ..
  moreover have "n + 8 \<le> 8 * ((n + 15) div 8)" by presburger
  ultimately show ?thesis
    using table_loop [of "n + 8" "(n + 15) div 8" k "\<lambda>b. sequenceBit sequence (if b < n then b else b - n)"] assms by simp
qed

text \<open>The additive loop over any generator that reads a sequence of items at a position.\<close>

lemma additiveChunks_positions:
  assumes gen: "\<And>c m. I c \<Longrightarrow> generateSequence c m = Some (map (\<lambda>i. key (pos c + i * w)) [0..<m], step c m)"
    and inv: "\<And>c m. I c \<Longrightarrow> I (step c m)" "\<And>c. I c \<Longrightarrow> bitsPerItem c = w"
    and pos: "\<And>c m x. I c \<Longrightarrow> key (pos (step c m) + x) = key (pos c + m * w + x)"
    and add: "\<And>c a b. I c \<Longrightarrow> step (step c a) b = step c (a + b)" "\<And>c. I c \<Longrightarrow> step c 0 = c"
  shows "I c \<Longrightarrow> additiveChunks c src =
    Some (map (\<lambda>i. (src ! i XOR key (pos c + i * w)) AND (push_bit w 1 - 1)) [0..<length src], step c (length src))"
proof (induction c src rule: additiveChunks.induct)
  case (1 c src)
  show ?case
  proof (cases "src = []")
    case True
    then show ?thesis by (simp add: additiveChunks.simps add(2) [OF 1(2)])
  next
    case False
    define m where "m = min kChunk (length src)"
    have m: "m \<le> length src" by (simp add: m_def)
    let ?f = "\<lambda>i. (src ! i XOR key (pos c + i * w)) AND (push_bit w 1 - 1)"
    note g = gen [OF 1(2), of m]
    have IH: "additiveChunks (step c m) (drop m src) =
        Some (map (\<lambda>i. (drop m src ! i XOR key (pos (step c m) + i * w)) AND (push_bit w 1 - 1)) [0..<length (drop m src)],
          step (step c m) (length (drop m src)))"
      unfolding m_def by (rule 1(1) [OF False refl refl g [unfolded m_def] refl inv(1) [OF 1(2)]])
    have "map2 (\<lambda>x s. (x XOR s) AND (push_bit w 1 - 1)) (take m src) (map (\<lambda>i. key (pos c + i * w)) [0..<m]) = map ?f [0..<m]"
      by (rule nth_equalityI) (use m in simp_all)
    moreover have "map (\<lambda>i. (drop m src ! i XOR key (pos (step c m) + i * w)) AND (push_bit w 1 - 1)) [0..<length (drop m src)] =
        map ?f [m..<length src]"
    proof -
      have "[m..<length src] = map (\<lambda>i. m + i) [0..<length (drop m src)]" by (rule nth_equalityI) simp_all
      then show ?thesis using m by (simp add: pos [OF 1(2)] distrib_right add.assoc)
    qed
    moreover have "[0..<length src] = [0..<m] @ [m..<length src]"
      using upt_add_eq_append [of 0 m "length src - m"] m by simp
    moreover have "step (step c m) (length (drop m src)) = step c (length src)" using add(1) [OF 1(2)] m by simp
    ultimately show ?thesis
      using False g IH inv(2) [OF 1(2)] by (subst additiveChunks.simps) (simp only: Let_def flip: m_def, simp del: push_bit_of_1)
  qed
qed
text \<open>The item whose bits are the mask bits from position \<open>p\<close> on.\<close>

definition maskItem :: "BitOrder \<Rightarrow> nat \<Rightarrow> (nat \<Rightarrow> bool) \<Rightarrow> nat \<Rightarrow> u8" where
  "maskItem order w E p = packItem order (map (\<lambda>k. E (p + k)) [0..<w])"

lemma streamField_mask: "0 < w \<Longrightarrow> w \<le> 8 \<Longrightarrow> streamField (ucast (bitsField (map (\<lambda>k. E (p + k)) [0..<w]) :: u32)) w order = maskItem order w E p"
  using streamField_item [of "map (\<lambda>k. E (p + k)) [0..<w]" order] by (simp add: ucast_bitsField maskItem_def)

lemma generateTable_explicit:
  assumes "regMask c = 0" "sc_reg c = 0" "bitsPerItem c = w" "0 < w" "w \<le> 8" "tablePeriod c = n" "phase c < n"
    and table: "\<And>k. k < n + 8 \<Longrightarrow> bit (table c ! (k div 8)) (7 - k mod 8) = T k"
  shows "generateTable c m = Some (map (\<lambda>i. maskItem (sc_order c) w T ((phase c + i * w) mod n)) [0..<m], c\<lparr>phase := (phase c + m * w) mod n\<rparr>)"
proof -
  define f where "f = (\<lambda>(reg, phase) (item :: nat).
    let bits = tableBits (table c) phase w; item = streamField (ucast bits) w (sc_order c);
        reg = (push_bit w reg OR ucast bits) AND regMask c
    in case wrapPhase n (phase + w) of None \<Rightarrow> None | Some phase \<Rightarrow> Some (item, (reg, phase)))"
  have n: "0 < n" using assms(7) by simp
  have step: "f (0, p) i = Some (maskItem (sc_order c) w T p, (0, (p + w) mod n))" if "p < n" for p i
    using that assms(1,4,5) n
    by (simp add: f_def Let_def tableBits_bits [OF table that assms(4,5)] streamField_mask wrapPhase_mod)
  have "map_state_opt f (0, p) xs = Some (map (\<lambda>i. maskItem (sc_order c) w T ((p + i * w) mod n)) [0..<length xs], (0, (p + length xs * w) mod n))"
    if "p < n" for p and xs :: "nat list"
    using that
  proof (induction xs arbitrary: p)
    case (Cons x xs)
    have "(p + w) mod n < n" using n by simp
    note IH = Cons.IH [OF this]
    have "map (\<lambda>i. maskItem (sc_order c) w T ((p + i * w) mod n)) [0..<Suc (length xs)] =
        maskItem (sc_order c) w T p # map (\<lambda>i. maskItem (sc_order c) w T ((p + w + i * w) mod n)) [0..<length xs]"
      using Cons.prems by (simp add: upt_rec [of 0 "Suc _"] map_Suc_upt [symmetric] add.assoc del: upt_Suc)
    then show ?case
      unfolding map_state_opt.simps step [OF Cons.prems] option.case prod.case IH
      by (simp add: mod_add_left_eq add.assoc del: upt_Suc)
  qed simp
  from this [OF assms(7), of "[0..<m]"] show ?thesis
    by (simp add: generateTable_def Let_def f_def assms(2,3,6))
qed

lemma generateExplicitOnce_mask:
  assumes "bitsPerItem c = w" "0 < w" "w \<le> 8" "tablePeriod c = n"
    and table: "\<And>k. k < n + 8 \<Longrightarrow> bit (table c ! (k div 8)) (7 - k mod 8) = T k" and E: "\<And>k. E k = (k < n \<and> T k)"
  shows "generateExplicitOnce c m =
    (map (\<lambda>i. maskItem (sc_order c) w E (phase c + i * w)) [0..<m],
     c\<lparr>phase := phase c + m * w,
       nUnscrambledItems := nUnscrambledItems c + length (filter (\<lambda>i. n \<le> phase c + i * w) [0..<m])\<rparr>)"
proof -
  define f where "f = (\<lambda>(phase, missed) (item :: nat).
      let (bits, missed) =
            (if phase \<ge> tablePeriod c then (0, missed + 1)
             else
               let left = tablePeriod c - phase; bits = tableBits (table c) phase w
               in (if left < w then bits AND ((push_bit w 1 - 1 :: u32) XOR (push_bit (w - left) 1 - 1)) else bits, missed))
      in (streamField (ucast bits) w (sc_order c), (phase + w, missed :: nat)))"
  have zero: "(0 :: u32) = bitsField (map (\<lambda>k. E (p + k)) [0..<w])" if "n \<le> p" for p
    by (rule bit_word_eqI) (use that in \<open>auto simp: bit_bitsField E\<close>)
  have whole: "maskItem (sc_order c) w T p = maskItem (sc_order c) w E p" if "p < n" "\<not> n - p < w" for p
    using that by (auto simp: E maskItem_def intro!: arg_cong [of _ _ "packItem _"])
  have part: "bitsField (map (\<lambda>k. T (p + k)) [0..<w]) AND ((push_bit w 1 - 1 :: u32) XOR (push_bit (w - (n - p)) 1 - 1)) =
      bitsField (map (\<lambda>k. E (p + k)) [0..<w])" if "p < n" "n - p < w" for p
  proof (rule bit_word_eqI)
    fix i assume i: "i < LENGTH(32)"
    show "bit (bitsField (map (\<lambda>k. T (p + k)) [0..<w]) AND ((push_bit w 1 - 1 :: u32) XOR (push_bit (w - (n - p)) 1 - 1))) i =
        bit (bitsField (map (\<lambda>k. E (p + k)) [0..<w]) :: u32) i"
      unfolding bit_and_iff bit_xor_iff bit_mask_word bit_bitsField using i that by (auto simp: E)
  qed
  have step: "f (p, u) i = (maskItem (sc_order c) w E p, (p + w, u + of_bool (n \<le> p)))" for p u i
  proof (cases "n \<le> p")
    case True
    then show ?thesis by (simp add: f_def Let_def zero [OF True] streamField_mask assms(2-4))
  next
    case False
    then have p: "p < n" by simp
    show ?thesis
      using False whole [OF p] part [OF p]
      by (simp add: f_def Let_def tableBits_bits [OF table p assms(2,3)] streamField_mask assms(2-4) del: push_bit_of_1)
  qed
  have "map_state f (p, u) xs = (map (\<lambda>i. maskItem (sc_order c) w E (p + i * w)) [0..<length xs],
      (p + length xs * w, u + length (filter (\<lambda>i. n \<le> p + i * w) [0..<length xs])))" for p u and xs :: "nat list"
  proof (induction xs arbitrary: p u)
    case (Cons x xs)
    have "[0..<Suc (length xs)] = 0 # map Suc [0..<length xs]" by (simp add: upt_rec [of 0 "Suc _"] map_Suc_upt del: upt_Suc)
    then show ?case
      by (simp add: step Cons.IH Let_def add.assoc filter_map o_def del: upt_Suc)
  qed simp
  from this [of "phase c" 0 "[0..<m]"] show ?thesis
    by (simp add: generateExplicitOnce_def Let_def f_def assms(1) del: push_bit_of_1)
qed

lemma explicit_stream:
  assumes "0 < w" "w \<le> 8" "length ys = length xs" "\<And>i. i < length xs \<Longrightarrow> ys ! i = (xs ! i XOR maskItem order w E (start i)) AND (push_bit w 1 - 1)"
    and i: "i < length xs" and k: "k < w"
  shows "fieldStream order w ys ! (i * w + k) = (fieldStream order w xs ! (i * w + k) \<noteq> E (start i + k))"
proof -
  have r: "(i * w + k) mod w = k" "(i * w + k) div w = i" "i * w + k < length xs * w"
  proof -
    have "i * w + k < Suc i * w" using k by simp
    also have "\<dots> \<le> length xs * w" using i by (intro mult_le_mono1) simp
    finally show "i * w + k < length xs * w" .
  qed (use k in simp_all)
  have "fieldPosition order w k < w" using k by (rule fieldPosition_less)
  moreover have "bit (maskItem order w E (start i)) (fieldPosition order w k) = E (start i + k)"
    using assms(2) k by (simp add: maskItem_def)
  ultimately have "bit (ys ! i) (fieldPosition order w k) = (bit (xs ! i) (fieldPosition order w k) \<noteq> E (start i + k))"
    using assms(2) unfolding assms(4) [OF i] bit_and_iff bit_xor_iff bit_mask_word by simp
  then show ?thesis using r assms(3) by (simp add: fieldStream_nth)
qed

text \<open>C39. Bit k of item i under an explicit sequence of n bits is masked, under repeat, with bit (i *
  bitsPerItem mod n) + k of the buffer, reduced by n at most once: the sequence is tiled wherever
  items are no wider than it, and where that index reaches 2n the mask is a bit of the buffer past
  the claimed end. Without repeat exactly the first n bits are masked, the rest are left
  unscrambled, and the items wholly past the end are counted.\<close>

theorem explicit_sequence:
  assumes "configureExplicit c0 sequence n w order tiled = Inr cfg" "length out = length xs"
  shows "\<exists>ys c. scramble cfg xs out = Some (ys, c) \<and> length ys = length xs \<and>
    (\<forall>i<length xs. \<forall>k<w. fieldStream order w ys ! (i * w + k) =
      (fieldStream order w xs ! (i * w + k) \<noteq> explicitBit sequence n tiled (i * w) k)) \<and>
    (tiled \<and> w \<le> n \<longrightarrow> (\<forall>i. \<forall>k<w. explicitBit sequence n tiled (i * w) k = sequenceBit sequence ((i * w + k) mod n))) \<and>
    nUnscrambledItems c = (if tiled then 0 else length (filter (\<lambda>i. n \<le> i * w) [0..<length xs]))"
proof -
  let ?T = "wrappedBit sequence n"
  have w: "0 < w" "w \<le> 8" "0 < n" and cfg: "cfg = resetScrambler
      (c0\<lparr>sc_taps := 0, sc_seed := 0, sc_mode := Additive, bitsPerItem := w, sc_order := order,
          sc_degree := 0, minDelay := 0, tapCount := 0, stepBits := 0, regMask := 0, initialReg := 0,
          delays := replicate 64 0, form := Table, table := explicitTable sequence n,
          tablePeriod := n, sc_source := Explicit, sequenceRepeat := tiled,
          invertOutput := False, forceAfter := 0, monitorP := 0, monitorQ := 0,
          nUnscrambledItems := 0, nForcedTransitions := 0\<rparr>)"
    using assms(1) by (auto simp: configureExplicit_def split: if_splits)
  have fields: "sc_mode cfg = Additive" "bitsPerItem cfg = w" "sc_order cfg = order" "regMask cfg = 0" "sc_reg cfg = 0"
    "form cfg = Table" "table cfg = explicitTable sequence n" "tablePeriod cfg = n" "sc_source cfg = Explicit"
    "sequenceRepeat cfg = tiled" "phase cfg = 0" "nUnscrambledItems cfg = 0"
    by (simp_all add: cfg resetScrambler_def)
  let ?I = "\<lambda>c. regMask c = 0 \<and> sc_reg c = 0 \<and> bitsPerItem c = w \<and> sc_order c = order \<and> form c = Table \<and>
      table c = explicitTable sequence n \<and> tablePeriod c = n \<and> sc_source c = Explicit \<and> sequenceRepeat c = tiled \<and> (tiled \<longrightarrow> phase c < n)"
  have table: "bit (explicitTable sequence n ! (k div 8)) (7 - k mod 8) = ?T k" if "k < n + 8" for k
    using explicitTable_bits [OF that, of sequence] by (simp add: wrappedBit_def)
  have run: "\<exists>E start c. additiveChunks cfg xs = Some (map (\<lambda>i. (xs ! i XOR maskItem order w E (start i)) AND (push_bit w 1 - 1)) [0..<length xs], c) \<and>
      (\<forall>i k. E (start i + k) = explicitBit sequence n tiled (i * w) k) \<and>
      nUnscrambledItems c = (if tiled then 0 else length (filter (\<lambda>i. n \<le> i * w) [0..<length xs]))"
  proof (cases tiled)
    case True
    let ?step = "\<lambda>c m. c\<lparr>phase := (phase c + m * w) mod n\<rparr>" and ?key = "\<lambda>p. maskItem order w ?T (p mod n)"
    have gen: "generateSequence c m = Some (map (\<lambda>i. ?key (phase c + i * w)) [0..<m], ?step c m)" if "?I c" for c m
      using that True w table
      by (simp add: generateSequence_def) (subst generateTable_explicit [where T = ?T and w = w and n = n], simp_all)
    have "additiveChunks cfg xs = Some (map (\<lambda>i. (xs ! i XOR ?key (phase cfg + i * w)) AND (push_bit w 1 - 1)) [0..<length xs], ?step cfg (length xs))"
      by (rule additiveChunks_positions [where I = ?I and pos = phase, OF gen])
        (use w True fields in \<open>simp_all add: mod_add_left_eq add.assoc distrib_right\<close>)
    with True show ?thesis
      by (intro exI [of _ ?T] exI [of _ "\<lambda>i. i * w mod n"] exI [of _ "?step cfg (length xs)"]) (simp add: fields explicitBit_def)
  next
    case False
    let ?E = "\<lambda>k. k < n \<and> ?T k"
    let ?step = "\<lambda>c m. c\<lparr>phase := phase c + m * w,
       nUnscrambledItems := nUnscrambledItems c + length (filter (\<lambda>i. n \<le> phase c + i * w) [0..<m])\<rparr>"
    have gen: "generateSequence c m = Some (map (\<lambda>i. maskItem order w ?E (phase c + i * w)) [0..<m], ?step c m)" if "?I c" for c m
      using that False w table
      by (simp add: generateSequence_def) (subst generateExplicitOnce_mask [where T = ?T and E = ?E and w = w and n = n], simp_all)
    have count: "length (filter (\<lambda>i. n \<le> p + i * w) [0..<a + b]) =
        length (filter (\<lambda>i. n \<le> p + i * w) [0..<a]) + length (filter (\<lambda>i. n \<le> p + a * w + i * w) [0..<b])" for p a b
    proof -
      have "[0..<a + b] = [0..<a] @ map (\<lambda>i. a + i) [0..<b]" by (rule nth_equalityI) (auto simp: nth_append)
      then show ?thesis by (simp add: filter_map o_def distrib_right add.assoc)
    qed
    have "additiveChunks cfg xs = Some (map (\<lambda>i. (xs ! i XOR maskItem order w ?E (phase cfg + i * w)) AND (push_bit w 1 - 1)) [0..<length xs], ?step cfg (length xs))"
      by (rule additiveChunks_positions [where I = ?I and pos = phase, OF gen])
        (use w False fields in \<open>simp_all add: count add.assoc distrib_right\<close>)
    with False show ?thesis
      by (intro exI [of _ ?E] exI [of _ "\<lambda>i. i * w"] exI [of _ "?step cfg (length xs)"]) (auto simp: fields explicitBit_def wrappedBit_def)
  qed
  then obtain E start c where c: "additiveChunks cfg xs = Some (map (\<lambda>i. (xs ! i XOR maskItem order w E (start i)) AND (push_bit w 1 - 1)) [0..<length xs], c)"
    "\<forall>i k. E (start i + k) = explicitBit sequence n tiled (i * w) k"
    "nUnscrambledItems c = (if tiled then 0 else length (filter (\<lambda>i. n \<le> i * w) [0..<length xs]))" by blast
  let ?ys = "map (\<lambda>i. (xs ! i XOR maskItem order w E (start i)) AND (push_bit w 1 - 1)) [0..<length xs]"
  have "scramble cfg xs out = Some (?ys, c)"
    using assms(2) by (simp add: scramble_def fields(1) scrambleAdditive_def c(1) del: push_bit_of_1)
  moreover have "fieldStream order w ?ys ! (i * w + k) = (fieldStream order w xs ! (i * w + k) \<noteq> explicitBit sequence n tiled (i * w) k)"
    if "i < length xs" "k < w" for i k
    using explicit_stream [OF w(1,2) _ _ that, of ?ys order E start] c(2) by simp
  moreover have "explicitBit sequence n tiled (i * w) k = sequenceBit sequence ((i * w + k) mod n)" if "tiled" "w \<le> n" "k < w" for i k
  proof -
    have "(r + k) mod n = (if r + k < n then r + k else r + k - n)" if "r < n" for r
      using that \<open>w \<le> n\<close> \<open>k < w\<close> by (cases "r + k < n") (simp_all add: le_mod_geq)
    from this [of "i * w mod n"] have "(i * w mod n + k) mod n = (if i * w mod n + k < n then i * w mod n + k else i * w mod n + k - n)"
      using w(3) by simp
    then show ?thesis using that(1) by (simp add: explicitBit_def wrappedBit_def mod_add_left_eq)
  qed
  ultimately show ?thesis using c(3) by auto
qed

text \<open>Three bits under repeat, in items of eight: the seventh bit is masked with bit 3 of the buffer, past the sequence.\<close>

lemma explicit_sequence_witness:
  "\<exists>cfg ys c. configureExplicit defaultScrambler [0xA0] 3 8 MsbFirst True = Inr cfg \<and>
     scramble cfg [0] [0] = Some (ys, c) \<and> fieldStream MsbFirst 8 ys ! 6 = sequenceBit [0xA0] 3 \<and>
     sequenceBit [0xA0] 3 \<noteq> sequenceBit [0xA0] (6 mod 3) \<and> nUnscrambledItems c = 0"
proof -
  obtain cfg where cfg: "configureExplicit defaultScrambler [0xA0] 3 8 MsbFirst True = Inr cfg"
    by (simp add: configureExplicit_def kMaxBits_def)
  obtain ys c where run: "scramble cfg [0] [0] = Some (ys, c)"
    "\<forall>i<length [0 :: u8]. \<forall>k<8. fieldStream MsbFirst 8 ys ! (i * 8 + k) =
       (fieldStream MsbFirst 8 [0] ! (i * 8 + k) \<noteq> explicitBit [0xA0] 3 True (i * 8) k)"
    "nUnscrambledItems c = (if True then 0 else length (filter (\<lambda>i. 3 \<le> i * 8) [0..<length [0 :: u8]]))"
    using explicit_sequence [OF cfg, of "[0]" "[0]"] by auto
  have "\<not> fieldStream MsbFirst 8 [0 :: u8] ! 6" "explicitBit [0xA0] 3 True 0 6 = sequenceBit [0xA0] 3" by code_simp+
  with run(2) have "fieldStream MsbFirst 8 ys ! 6 = sequenceBit [0xA0] 3" by (simp add: numeral_eq_Suc)
  moreover have "sequenceBit [0xA0] 3 \<noteq> sequenceBit [0xA0] (6 mod 3)" by code_simp
  ultimately show ?thesis using cfg run(1,3) by auto
qed

subsection \<open>Published sequences\<close>

text \<open>The first eight bytes a named profile's generator emits, \<open>None\<close> when it is refused.\<close>

definition firstBytes :: "string \<Rightarrow> u8 list option" where
  "firstBytes name =
     (case applyProfile defaultScrambler name Additive of
        Inl err \<Rightarrow> None
      | Inr cfg \<Rightarrow> map_option fst (scramble cfg (replicate 8 0) (replicate 8 0)))"

lemma configureScrambler_accepts:
  assumes "taps \<noteq> 0" "0 < w" "w \<le> 8" "\<And>i. bit seed i \<Longrightarrow> i < degreeOf taps"
  shows "\<exists>cfg. configureScrambler c taps seed mode w order = Inr cfg"
proof -
  let ?d = "degreeOf taps"
  have "?d \<le> 64" using bit_width_bounds(1) [of taps] by (simp add: degreeOf_def)
  have "seed AND NOT (if ?d = 64 then NOT 0 else push_bit ?d 1 - 1) = 0"
  proof (rule bit_word_eqI)
    fix i assume "i < LENGTH(64)"
    then show "bit (seed AND NOT (if ?d = 64 then NOT 0 else push_bit ?d 1 - 1)) i = bit (0 :: u64) i"
      using assms(4) by (simp add: bit_and_iff bit_not_iff bit_mask_word del: push_bit_of_1)
  qed
  with assms(1-3) show ?thesis by (simp add: configureScrambler_def Let_def del: push_bit_of_1)
qed

text \<open>The recursion on lists, most recent bit first.\<close>

fun lfsrBits :: "nat list \<Rightarrow> nat \<Rightarrow> bool list \<Rightarrow> bool list" where
  "lfsrBits ds 0 recent = rev recent"
| "lfsrBits ds (Suc n) recent = lfsrBits ds n (odd (length (filter (\<lambda>j. recent ! (j - 1)) ds)) # recent)"

lemma lfsrBits_recurrence:
  assumes "\<And>k. k0 \<le> k \<Longrightarrow> s k = odd (length (filter (\<lambda>j. s (k - j)) ds))" "k0 \<le> k" "\<And>j. j \<in> set ds \<Longrightarrow> 0 < j \<and> j \<le> k0"
  shows "lfsrBits ds n (rev (map s [0..<k])) = map s [0..<k + n]"
  using assms(2)
proof (induction n arbitrary: k)
  case (Suc n)
  have "filter (\<lambda>j. rev (map s [0..<k]) ! (j - 1)) ds = filter (\<lambda>j. s (k - j)) ds"
  proof (rule filter_cong [OF refl])
    fix j assume "j \<in> set ds"
    then have "0 < j" "j \<le> k" using assms(3) Suc.prems by fastforce+
    then show "rev (map s [0..<k]) ! (j - 1) = s (k - j)" by (simp add: rev_nth)
  qed
  then have "odd (length (filter (\<lambda>j. rev (map s [0..<k]) ! (j - 1)) ds)) # rev (map s [0..<k]) = rev (map s [0..<Suc k])"
    using assms(1) [OF Suc.prems] by simp
  with Suc.IH [of "Suc k"] Suc.prems show ?case by (simp del: upt_Suc)
qed simp

text \<open>Reading the items of a stream back.\<close>

fun packItems :: "BitOrder \<Rightarrow> nat \<Rightarrow> nat \<Rightarrow> bool list \<Rightarrow> u8 list" where
  "packItems order w 0 bs = []"
| "packItems order w (Suc n) bs = packItem order (take w bs) # packItems order w n (drop w bs)"

lemma packItems_fieldStream:
  "(\<And>y. y \<in> set ys \<Longrightarrow> take_bit w y = y) \<Longrightarrow> packItems order w (length ys) (fieldStream order w ys) = ys"
  by (induction ys) (simp_all add: fieldStream_itemBits packItem_itemBits)

lemma firstBytes_profile:
  assumes "profileByName name = Inr entry" "profile_family entry = AdditiveFamily" "profile_unrecorded entry = ''''"
    "profile_taps entry = taps" "profile_seed entry = seed" "profile_bitsPerItem entry = 8" "profile_order entry = order"
    "taps \<noteq> 0" "degreeOf taps = d" "d \<le> 64" "\<And>i. bit seed i \<Longrightarrow> i < d"
    "distinct ds" "set ds = {j. 0 < j \<and> bit taps (j - 1)}"
    "packItems order 8 8 (lfsrBits ds (64 - d) (map (bit seed) [0..<d])) = bytes"
  shows "firstBytes name = Some bytes"
proof -
  obtain cfg where cfg: "configureScrambler defaultScrambler taps seed Additive 8 order = Inr cfg"
    using configureScrambler_accepts assms(8,9,11) by (metis zero_less_numeral order_refl)
  have applied: "applyProfile defaultScrambler name Additive = Inr cfg"
    using cfg by (simp add: applyProfile_def assms(1-7))
  note r = configureScrambler_result [OF cfg]
  obtain ys cfg' where run: "scramble cfg (replicate 8 0) (replicate 8 0) = Some (ys, cfg')"
    using scramble_reference [OF r(15)] by (metis prod.collapse)
  note ys = additive_zero_stream [OF cfg length_replicate run]
  let ?s = "\<lambda>k. fb taps (walk cfg k)"
  note rec = keystream_recurrence [OF cfg assms(12,13), unfolded assms(9)]
  have "rev (map ?s [0..<d]) = map (bit seed) [0..<d]"
    by (rule nth_equalityI) (use rec(1) in \<open>simp_all add: rev_nth\<close>)
  moreover have "lfsrBits ds (64 - d) (rev (map ?s [0..<d])) = map ?s [0..<d + (64 - d)]"
    by (rule lfsrBits_recurrence [OF rec(2)])
      (use assms(9,13) bit_width_bounds(2) [of taps] in \<open>force simp: degreeOf_def\<close>)+
  ultimately have stream: "fieldStream order 8 ys = lfsrBits ds (64 - d) (map (bit seed) [0..<d])"
    using ys(1) assms(10) by simp
  have "take_bit 8 y = y" for y :: u8 by (simp add: take_bit_word_eq_self)
  then have "ys = packItems order 8 8 (fieldStream order 8 ys)"
    using packItems_fieldStream [of ys 8 order] ys(2) by simp
  then show ?thesis by (simp add: firstBytes_def applied run stream assms(14))
qed

lemma additive_involution_witness:
  "\<exists>cfg ys c. configureScrambler defaultScrambler 0x95 0xFF Additive 8 MsbFirst = Inr cfg \<and>
     scramble cfg [0x12, 0x34] [0, 0] = Some (ys, c) \<and> scramble cfg ys [0, 0] = Some ([0x12, 0x34], c)"
proof -
  have degree: "degreeOf 0x95 = 8" by code_simp
  have "bit (0xFF :: u64) i \<Longrightarrow> i < degreeOf 0x95" for i unfolding degree by (erule bits_below [rotated], simp)
  then obtain cfg where cfg: "configureScrambler defaultScrambler 0x95 0xFF Additive 8 MsbFirst = Inr cfg"
    using configureScrambler_accepts [where taps = "0x95" and w = 8 and seed = "0xFF"] by force
  note r = configureScrambler_result [OF cfg]
  obtain ys c where run: "scramble cfg [0x12, 0x34] [0, 0] = Some (ys, c)"
    using scramble_reference [OF r(15)] by (metis prod.collapse)
  have "scramble cfg ys [0, 0] = Some (map (take_bit (bitsPerItem cfg)) [0x12, 0x34], c)"
    by (rule additive_involution [OF built [OF cfg] r(8) _ _ run]) simp_all
  moreover have "map (take_bit (bitsPerItem cfg)) [0x12, 0x34] = [0x12, 0x34 :: u8]" by (simp add: r(9))
  ultimately show ?thesis using cfg run by (metis (no_types))
qed

lemma additive_sequence_recurrence_witness:
  "\<exists>cfg ys c. configureScrambler defaultScrambler 0x95 0xFF Additive 8 MsbFirst = Inr cfg \<and>
     scramble cfg (replicate 2 0) [0, 0] = Some (ys, c) \<and> fieldStream MsbFirst 8 ys ! 7"
proof -
  have degree: "degreeOf 0x95 = 8" by code_simp
  have "bit (0xFF :: u64) i \<Longrightarrow> i < degreeOf 0x95" for i unfolding degree by (erule bits_below [rotated], simp)
  then obtain cfg where cfg: "configureScrambler defaultScrambler 0x95 0xFF Additive 8 MsbFirst = Inr cfg"
    using configureScrambler_accepts [where taps = "0x95" and w = 8 and seed = "0xFF"] by force
  note r = configureScrambler_result [OF cfg]
  obtain ys c where run: "scramble cfg (replicate 2 0) [0, 0] = Some (ys, c)"
    using scramble_reference [OF r(15)] by (metis prod.collapse)
  have "fieldStream MsbFirst 8 ys ! 7 = (if 7 < degreeOf 0x95 then bit (0xFF :: u64) (degreeOf 0x95 - 1 - 7)
      else odd (card {j. 0 < j \<and> bit (0x95 :: u64) (j - 1) \<and> fieldStream MsbFirst 8 ys ! (7 - j)}))"
    by (rule additive_sequence_recurrence [OF cfg _ run refl]) simp_all
  then have "fieldStream MsbFirst 8 ys ! 7" by (simp add: degree)
  with cfg run show ?thesis by blast
qed

theorem profiles_open_as_published:
  "firstBytes ''ccsds131'' = Some [0xFF, 0x48, 0x0E, 0xC0, 0x9A, 0x0D, 0x70, 0xBC] \<and>
   firstBytes ''ccsds131_17'' = Some [0x1C, 0x71, 0xB9, 0x1B, 0xA9, 0xBA, 0x84, 0x57] \<and>
   firstBytes ''pn9'' = Some [0xFF, 0xE1, 0x1D, 0x9A, 0xED, 0x85, 0x33, 0x24] \<and>
   firstBytes ''si4463'' = Some [0x0F, 0xEF, 0xD0, 0x6C, 0x2F, 0x9C, 0x21, 0x51] \<and>
   firstBytes ''g3ruh'' = None"
proof (intro conjI)
  have names: "profileByName ''ccsds131'' = Inr (kProfiles ! 0)" "profileByName ''ccsds131_17'' = Inr (kProfiles ! 1)"
    "profileByName ''pn9'' = Inr (kProfiles ! 2)" "profileByName ''si4463'' = Inr (kProfiles ! 3)"
    "profileByName ''g3ruh'' = Inr (kProfiles ! 4)"
    by (simp_all add: profileByName_def kProfiles_def)
  have taps: "profile_taps (kProfiles ! 0) = 0x95" "profile_taps (kProfiles ! 1) = 0x10004"
    "profile_taps (kProfiles ! 2) = 0x108" "profile_taps (kProfiles ! 3) = 0x108"
    by code_simp+
  have seeds: "profile_seed (kProfiles ! 0) = 0xFF" "profile_seed (kProfiles ! 1) = 0x38E3"
    "profile_seed (kProfiles ! 2) = 0x1FF" "profile_seed (kProfiles ! 3) = 0x1E1"
    by code_simp+
  have degrees: "degreeOf 0x95 = 8" "degreeOf 0x10004 = 17" "degreeOf 0x108 = 9" by code_simp+
  have entries: "profile_family (kProfiles ! i) = AdditiveFamily" "profile_unrecorded (kProfiles ! i) = ''''"
    "profile_bitsPerItem (kProfiles ! i) = 8" if "i < 4" for i
    using that by (auto simp: kProfiles_def less_Suc_eq numeral_eq_Suc)
  have orders: "profile_order (kProfiles ! 0) = MsbFirst" "profile_order (kProfiles ! 1) = MsbFirst"
    "profile_order (kProfiles ! 2) = LsbFirst" "profile_order (kProfiles ! 3) = LsbFirst"
    by (simp_all add: kProfiles_def)
  have below: "bit (0xFF :: u64) i \<Longrightarrow> i < 8" "bit (0x38E3 :: u64) i \<Longrightarrow> i < 17" "bit (0x1FF :: u64) i \<Longrightarrow> i < 9"
    "bit (0x1E1 :: u64) i \<Longrightarrow> i < 9" for i
    by (erule bits_below [rotated], simp)+
  have delays: "set [1, 3, 5, 8] = {j. 0 < j \<and> bit (0x95 :: u64) (j - 1)}" "set [3, 17] = {j. 0 < j \<and> bit (0x10004 :: u64) (j - 1)}"
    "set [4, 9] = {j. 0 < j \<and> bit (0x108 :: u64) (j - 1)}"
  proof -
    have eq: "set ds = {j. 0 < j \<and> bit t (j - 1)}" if "setBits t = map (\<lambda>j. j - 1) ds" "\<forall>j\<in>set ds. 0 < j" for ds and t :: u64
    proof (intro set_eqI iffI)
      fix j assume "j \<in> {j. 0 < j \<and> bit t (j - 1)}"
      then have "j - 1 \<in> set (setBits t)" "0 < j" using bit_imp_le_length [of t "j - 1"] by (simp_all add: setBits_def)
      then show "j \<in> set ds" using that by (auto simp: that(1)) (metis Suc_pred)
    next
      fix j assume "j \<in> set ds"
      then have "j - 1 \<in> set (setBits t)" "0 < j" using that by auto
      then show "j \<in> {j. 0 < j \<and> bit t (j - 1)}" by (simp add: setBits_def)
    qed
    show "set [1, 3, 5, 8] = {j. 0 < j \<and> bit (0x95 :: u64) (j - 1)}" by (rule eq) (code_simp, simp)
    show "set [3, 17] = {j. 0 < j \<and> bit (0x10004 :: u64) (j - 1)}" by (rule eq) (code_simp, simp)
    show "set [4, 9] = {j. 0 < j \<and> bit (0x108 :: u64) (j - 1)}" by (rule eq) (code_simp, simp)
  qed
  show "firstBytes ''ccsds131'' = Some [0xFF, 0x48, 0x0E, 0xC0, 0x9A, 0x0D, 0x70, 0xBC]"
    by (rule firstBytes_profile [OF names(1) entries(1,2) taps(1) seeds(1) entries(3) orders(1) _ degrees(1) _ below(1) _ delays(1)])
      (simp, simp, simp, simp, simp, simp, simp, code_simp)
  show "firstBytes ''ccsds131_17'' = Some [0x1C, 0x71, 0xB9, 0x1B, 0xA9, 0xBA, 0x84, 0x57]"
    by (rule firstBytes_profile [OF names(2) entries(1,2) taps(2) seeds(2) entries(3) orders(2) _ degrees(2) _ below(2) _ delays(2)])
      (simp, simp, simp, simp, simp, simp, simp, code_simp)
  show "firstBytes ''pn9'' = Some [0xFF, 0xE1, 0x1D, 0x9A, 0xED, 0x85, 0x33, 0x24]"
    by (rule firstBytes_profile [OF names(3) entries(1,2) taps(3) seeds(3) entries(3) orders(3) _ degrees(3) _ below(3) _ delays(3)])
      (simp, simp, simp, simp, simp, simp, simp, code_simp)
  show "firstBytes ''si4463'' = Some [0x0F, 0xEF, 0xD0, 0x6C, 0x2F, 0x9C, 0x21, 0x51]"
    by (rule firstBytes_profile [OF names(4) entries(1,2) taps(4) seeds(4) entries(3) orders(4) _ degrees(3) _ below(4) _ delays(3)])
      (simp, simp, simp, simp, simp, simp, simp, code_simp)
  show "firstBytes ''g3ruh'' = None"
    by (simp add: firstBytes_def applyProfile_def names(5) kProfiles_def)
qed

end
