(* ===== verification/Delimiter.thy ===== *)
theory Delimiter
  imports BitPacking
begin

section \<open>Delimiter framing\<close>

text \<open>
  \<^verbatim>\<open>digital/Delimiter.hpp\<close>: the settings of a delimiter framing and their validation, the encoder that
  turns one payload into one delimited frame, and the scanner that finds the frames in a stream.  The
  scanner is the instance for \<^verbatim>\<open>std::uint8_t\<close> items.  Match registers, masks, absolute offsets and the
  event counters are 64-bit words, so that their wrap-around is that of the code; item widths, run
  lengths and container sizes are naturals.  The 256-entry tables are lists indexed by a byte.  A throw
  is a value of \<open>DelimiterError\<close>, one constructor per throw, and a refused configuration leaves the
  caller with the one it had.
\<close>

subsection \<open>Modes and their names\<close>

datatype Transparency = TNone | BitStuffing | ByteEscape

datatype FrameOpen = OpenDelimiter | OpenStart | OpenImmediate

datatype FrameOutcome = Emitted | Overrun | Undersize | Unaligned

datatype ScanEvent = EvNone | EvRecord | EvIdle | EvAbort | EvRestart

datatype DelimiterError =
    UnknownTransparency string | UnknownFrameOpen string
  | BitsPerItemRange nat | PackBitsRange nat | PackNeedsBits nat
  | MinPayloadZero | MaxPayloadAboveInt nat | MinAboveMax nat nat
  | StuffAfterRange nat | AbortNotAboveStuff nat nat
  | StartMissing | StartUnused string
  | StuffingNeedsBits nat | EscapeNeedsBytes nat
  | EscapeMapTooLong nat | EscapedTwice u8
  | DelimiterTooLong nat | DelimiterPartialItem nat nat | DelimiterCharacter char
  | AbortInsideDelimiter nat nat | DelimiterForgeable nat nat | DelimiterDestuffed nat nat
  | DelimiterHasIntroducer u8 | DelimiterHasEscaped u8
  | PackRefused RepackError
  | EndItemUnescaped u8 | StartItemUnescaped u8 | IntroducerUnescaped u8

definition transparencyName :: "Transparency \<Rightarrow> string" where
  "transparencyName mode =
     (case mode of BitStuffing \<Rightarrow> ''bit_stuffing'' | ByteEscape \<Rightarrow> ''byte_escape'' | TNone \<Rightarrow> ''none'')"

definition transparencyFromName :: "string \<Rightarrow> DelimiterError + Transparency" where
  "transparencyFromName name =
     (if name = transparencyName TNone then Inr TNone
      else if name = transparencyName BitStuffing then Inr BitStuffing
      else if name = transparencyName ByteEscape then Inr ByteEscape
      else Inl (UnknownTransparency name))"

definition frameOpenName :: "FrameOpen \<Rightarrow> string" where
  "frameOpenName how =
     (case how of OpenStart \<Rightarrow> ''start'' | OpenImmediate \<Rightarrow> ''immediate'' | OpenDelimiter \<Rightarrow> ''delimiter'')"

definition frameOpenFromName :: "string \<Rightarrow> DelimiterError + FrameOpen" where
  "frameOpenFromName name =
     (if name = frameOpenName OpenDelimiter then Inr OpenDelimiter
      else if name = frameOpenName OpenStart then Inr OpenStart
      else if name = frameOpenName OpenImmediate then Inr OpenImmediate
      else Inl (UnknownFrameOpen name))"

definition discardReasonName :: "FrameOutcome \<Rightarrow> string" where
  "discardReasonName verdict =
     (case verdict of Overrun \<Rightarrow> ''overrun'' | Undersize \<Rightarrow> ''undersize'' | Unaligned \<Rightarrow> ''unaligned'' | Emitted \<Rightarrow> [])"

definition escapeMapFromXor :: "u8 \<Rightarrow> u8 list \<Rightarrow> (u8 \<times> u8) list" where
  "escapeMapFromXor xorMask originals = map (\<lambda>original. (original XOR xorMask, original)) originals"

subsection \<open>Items\<close>

definition sliceBit :: "u8 \<Rightarrow> bool" where
  "sliceBit item \<longleftrightarrow> item \<noteq> 0"

definition orderedLowBits :: "u32 \<Rightarrow> nat \<Rightarrow> BitOrder \<Rightarrow> u8" where
  "orderedLowBits value width order =
     (let low = value AND (push_bit width 1 - 1)
      in if order = MsbFirst then ucast low
         else ucast (fold (\<lambda>b reversed. push_bit 1 reversed OR (drop_bit b low AND 1)) [0..<width] (0 :: u32)))"

text \<open>The value of one item of a delimiter, its first character most significant.\<close>

definition delimiterItemValue :: "string \<Rightarrow> u8" where
  "delimiterItemValue chunk =
     ucast (fold (\<lambda>c value. push_bit 1 value OR (if c = CHR ''1'' then 1 else 0)) chunk (0 :: u32))"

definition delimiterItemValues :: "string \<Rightarrow> nat \<Rightarrow> u8 list" where
  "delimiterItemValues bits width =
     map (\<lambda>i. delimiterItemValue (take width (drop (i * width) bits))) [0..<length bits div width]"

definition delimiterEmitValues :: "string \<Rightarrow> nat \<Rightarrow> BitOrder \<Rightarrow> u8 list" where
  "delimiterEmitValues bits width order =
     map (\<lambda>value. orderedLowBits (ucast value) width order) (delimiterItemValues bits width)"

subsection \<open>The configuration\<close>

record DelimiterConfig =
  endDelimiter :: string
  startDelimiter :: string
  frameOpen :: FrameOpen
  bitsPerItem :: nat
  bitOrder :: BitOrder
  transparency :: Transparency
  stuffAfterOnes :: nat
  abortOnes :: nat
  escapeItem :: u8
  escapeMap :: "(u8 \<times> u8) list"
  maxPayloadItems :: nat
  minPayloadItems :: nat
  packBits :: nat
  packOrder :: BitOrder
  endBits :: u64
  startBits :: u64
  endMask :: u64
  startMask :: u64
  endItems :: nat
  startItems :: nat
  distinctStart :: bool
  itemTable :: "u8 list"
  escapeTable :: "u8 list"
  escapeMapped :: "bool list"
  escapeOriginal :: "bool list"
  pack :: BitRepack

definition defaultDelimiterConfig :: DelimiterConfig where
  "defaultDelimiterConfig =
     \<lparr>endDelimiter = [], startDelimiter = [], frameOpen = OpenDelimiter, bitsPerItem = 1, bitOrder = MsbFirst,
      transparency = TNone, stuffAfterOnes = 5, abortOnes = 7, escapeItem = 0, escapeMap = [],
      maxPayloadItems = 0, minPayloadItems = 1, packBits = 0, packOrder = MsbFirst,
      endBits = 0, startBits = 0, endMask = 0, startMask = 0, endItems = 0, startItems = 0, distinctStart = False,
      itemTable = replicate 256 0, escapeTable = replicate 256 0, escapeMapped = replicate 256 False,
      escapeOriginal = replicate 256 False, pack = defaultRepack\<rparr>"

text \<open>The three tables of the escape map: what an escaped value stands for, and the two membership tables.\<close>

fun addEscapes :: "(u8 \<times> u8) list \<Rightarrow> u8 list \<Rightarrow> bool list \<Rightarrow> bool list \<Rightarrow>
    DelimiterError + u8 list \<times> bool list \<times> bool list" where
  "addEscapes [] table mapped originals = Inr (table, mapped, originals)"
| "addEscapes ((escaped, original) # pairs) table mapped originals =
     (if mapped ! unat escaped then Inl (EscapedTwice escaped)
      else addEscapes pairs (table[unat escaped := original]) (mapped[unat escaped := True])
             (originals[unat original := True]))"

text \<open>The two local routines of the validation: a delimiter's register word with its mask, and its longest run of ones.\<close>

fun delimiterWord :: "string \<Rightarrow> u64 \<Rightarrow> DelimiterError + u64" where
  "delimiterWord [] word = Inr word"
| "delimiterWord (c # cs) word =
     (if c \<noteq> CHR ''0'' \<and> c \<noteq> CHR ''1'' then Inl (DelimiterCharacter c)
      else delimiterWord cs (push_bit 1 word OR (if c = CHR ''1'' then 1 else 0)))"

definition parseDelimiter :: "string \<Rightarrow> nat \<Rightarrow> DelimiterError + u64 \<times> u64" where
  "parseDelimiter chars width =
     (if length chars > 64 then Inl (DelimiterTooLong (length chars))
      else if length chars mod width \<noteq> 0 then Inl (DelimiterPartialItem (length chars) width)
      else case delimiterWord chars 0 of
             Inl err \<Rightarrow> Inl err
           | Inr word \<Rightarrow>
               let bitMask = (if length chars = 64 then NOT 0 else push_bit (length chars) 1 - 1)
               in Inr (word AND bitMask, bitMask))"

definition longestOneRun :: "string \<Rightarrow> nat" where
  "longestOneRun chars =
     snd (fold (\<lambda>c (run, longest). let run = (if c = CHR ''1'' then run + 1 else 0) in (run, max longest run))
            chars (0, 0))"

text \<open>Whether the destuffing rule removes a zero of the delimiter entered behind \<open>ones\<close> ones.\<close>

fun destuffsDelimiter :: "string \<Rightarrow> nat \<Rightarrow> nat \<Rightarrow> bool" where
  "destuffsDelimiter [] stuff ones = False"
| "destuffsDelimiter (c # cs) stuff ones =
     (if c = CHR ''1'' then destuffsDelimiter cs stuff (ones + 1)
      else if ones = stuff then True else destuffsDelimiter cs stuff 0)"

definition stuffingRefusal :: "DelimiterConfig \<Rightarrow> DelimiterError option" where
  "stuffingRefusal cfg =
     (if endDelimiter cfg \<noteq> [] \<and> transparency cfg = BitStuffing then
        let longest = longestOneRun (endDelimiter cfg)
        in if longest \<le> stuffAfterOnes cfg then Some (DelimiterForgeable (stuffAfterOnes cfg) longest)
           else map_option (DelimiterDestuffed (stuffAfterOnes cfg))
                  (find (destuffsDelimiter (endDelimiter cfg) (stuffAfterOnes cfg)) [0..<stuffAfterOnes cfg])
      else None)"

definition escapeRefusal :: "DelimiterConfig \<Rightarrow> bool list \<Rightarrow> DelimiterError option" where
  "escapeRefusal cfg mapped =
     (if endDelimiter cfg \<noteq> [] \<and> transparency cfg = ByteEscape then
        map_option (\<lambda>v. if v = escapeItem cfg then DelimiterHasIntroducer v else DelimiterHasEscaped v)
          (find (\<lambda>v. v = escapeItem cfg \<or> mapped ! unat v)
             (delimiterItemValues (endDelimiter cfg) (bitsPerItem cfg)))
      else None)"

text \<open>The checks on the plain numbers, in their order.\<close>

definition settingsRefusal :: "DelimiterConfig \<Rightarrow> DelimiterError option" where
  "settingsRefusal cfg =
     (let width = bitsPerItem cfg in
      if width < 1 \<or> width > 8 then Some (BitsPerItemRange width)
      else if packBits cfg > 8 then Some (PackBitsRange (packBits cfg))
      else if packBits cfg \<noteq> 0 \<and> width \<noteq> 1 then Some (PackNeedsBits width)
      else if minPayloadItems cfg = 0 then Some MinPayloadZero
      else if maxPayloadItems cfg > 2147483647 then Some (MaxPayloadAboveInt (maxPayloadItems cfg))
      else if maxPayloadItems cfg \<noteq> 0 \<and> minPayloadItems cfg > maxPayloadItems cfg
        then Some (MinAboveMax (minPayloadItems cfg) (maxPayloadItems cfg))
      else if stuffAfterOnes cfg < 2 \<or> stuffAfterOnes cfg > 62 then Some (StuffAfterRange (stuffAfterOnes cfg))
      else if abortOnes cfg \<noteq> 0 \<and> abortOnes cfg \<le> stuffAfterOnes cfg
        then Some (AbortNotAboveStuff (abortOnes cfg) (stuffAfterOnes cfg))
      else if frameOpen cfg = OpenStart \<and> startDelimiter cfg = [] then Some StartMissing
      else if frameOpen cfg \<noteq> OpenStart \<and> startDelimiter cfg \<noteq> [] then Some (StartUnused (frameOpenName (frameOpen cfg)))
      else if transparency cfg = BitStuffing \<and> width \<noteq> 1 then Some (StuffingNeedsBits width)
      else if transparency cfg = ByteEscape \<and> width \<noteq> 8 then Some (EscapeNeedsBytes width)
      else None)"

definition configureDelimiter :: "DelimiterConfig \<Rightarrow> DelimiterError + DelimiterConfig" where
  "configureDelimiter cfg =
     (let width = bitsPerItem cfg in
      case settingsRefusal cfg of Some err \<Rightarrow> Inl err | None \<Rightarrow>
      if length (escapeMap cfg) > 256 then Inl (EscapeMapTooLong (length (escapeMap cfg))) else
      case addEscapes (escapeMap cfg) (map (\<lambda>v. of_nat v) [0..<256]) (replicate 256 False) (replicate 256 False) of
        Inl err \<Rightarrow> Inl err | Inr (table, mapped, originals) \<Rightarrow>
      case parseDelimiter (endDelimiter cfg) width of Inl err \<Rightarrow> Inl err | Inr (endWord, eMask) \<Rightarrow>
      case parseDelimiter (startDelimiter cfg) width of Inl err \<Rightarrow> Inl err | Inr (startWord, sMask) \<Rightarrow>
      let delimiterOnes = max (longestOneRun (startDelimiter cfg)) (longestOneRun (endDelimiter cfg)) in
      if transparency cfg = BitStuffing \<and> abortOnes cfg \<noteq> 0 \<and> abortOnes cfg \<le> delimiterOnes
        then Inl (AbortInsideDelimiter (abortOnes cfg) delimiterOnes) else
      case stuffingRefusal cfg of Some err \<Rightarrow> Inl err | None \<Rightarrow>
      case escapeRefusal cfg mapped of Some err \<Rightarrow> Inl err | None \<Rightarrow>
      let cfg = cfg\<lparr>endBits := endWord, endMask := eMask, endItems := length (endDelimiter cfg) div width,
            startBits := startWord, startMask := sMask, startItems := length (startDelimiter cfg) div width,
            distinctStart := (frameOpen cfg = OpenStart),
            escapeTable := table, escapeMapped := mapped, escapeOriginal := originals,
            itemTable := map (\<lambda>v. orderedLowBits (of_nat v) width (bitOrder cfg)) [0..<256]\<rparr>
      in if packBits cfg \<noteq> 0
         then case configureRepack (pack cfg) 1 (packBits cfg) MsbFirst (packOrder cfg) of
                Inl err \<Rightarrow> Inl (PackRefused err)
              | Inr conversion \<Rightarrow> Inr (cfg\<lparr>pack := conversion\<rparr>)
         else Inr cfg)"

text \<open>The value a warning is about, where the code formats it into a sentence.\<close>

definition unforgeabilityWarning :: "DelimiterConfig \<Rightarrow> u8 option" where
  "unforgeabilityWarning cfg =
     (if transparency cfg \<noteq> ByteEscape \<or> endDelimiter cfg = [] then None
      else find (\<lambda>v. \<not> escapeOriginal cfg ! unat v) (delimiterItemValues (endDelimiter cfg) (bitsPerItem cfg)))"

definition framerRefusal :: "DelimiterConfig \<Rightarrow> DelimiterError option" where
  "framerRefusal staged =
     (if transparency staged = ByteEscape then
        let missing = find (\<lambda>v. \<not> escapeOriginal staged ! unat v) in
        case missing (delimiterEmitValues (endDelimiter staged) (bitsPerItem staged) (bitOrder staged)) of
          Some v \<Rightarrow> Some (EndItemUnescaped v)
        | None \<Rightarrow>
            (case (if frameOpen staged = OpenStart
                   then missing (delimiterEmitValues (startDelimiter staged) (bitsPerItem staged) (bitOrder staged))
                   else None) of
               Some v \<Rightarrow> Some (StartItemUnescaped v)
             | None \<Rightarrow>
                 if escapeOriginal staged ! unat (escapeItem staged) then None
                 else Some (IntroducerUnescaped (escapeItem staged)))
      else None)"

definition framerConfigure :: "DelimiterConfig \<Rightarrow> DelimiterError + DelimiterConfig" where
  "framerConfigure cfg =
     (case configureDelimiter cfg of
        Inl err \<Rightarrow> Inl err
      | Inr staged \<Rightarrow> (case framerRefusal staged of Some err \<Rightarrow> Inl err | None \<Rightarrow> Inr staged))"

subsection \<open>The encoder\<close>

record EncodeResult =
  emitted :: nat
  inserted :: nat
  forged :: nat

definition framedItemsBound :: "DelimiterConfig \<Rightarrow> nat \<Rightarrow> nat" where
  "framedItemsBound cfg payloadItems =
     (let coded = (if transparency cfg = BitStuffing then payloadItems + payloadItems div stuffAfterOnes cfg
                   else if transparency cfg = ByteEscape then payloadItems + payloadItems
                   else payloadItems);
          openingLength = (if frameOpen cfg = OpenStart then startItems cfg
                           else if frameOpen cfg = OpenDelimiter then endItems cfg else 0)
      in coded + openingLength + endItems cfg)"

record DelimiterEncoder =
  encoderConfig :: DelimiterConfig
  escapeReverse :: "u8 list"
  openingItems :: "u8 list"
  closingItems :: "u8 list"
  unpack :: BitRepack
  payloadScratch :: "u8 list"
  encoderEndBits :: nat

definition defaultEncoder :: DelimiterEncoder where
  "defaultEncoder =
     \<lparr>encoderConfig = defaultDelimiterConfig, escapeReverse = replicate 256 0, openingItems = [], closingItems = [],
      unpack = defaultRepack, payloadScratch = [], encoderEndBits = 0\<rparr>"

definition prepareEncoder :: "DelimiterConfig \<Rightarrow> DelimiterEncoder \<Rightarrow> DelimiterError + DelimiterEncoder" where
  "prepareEncoder cfg enc =
     (let reverse = fold (\<lambda>(escaped, original) reverse. reverse[unat original := escaped]) (escapeMap cfg)
                      (map (\<lambda>v. of_nat v) [0..<256]);
          closing = delimiterEmitValues (endDelimiter cfg) (bitsPerItem cfg) (bitOrder cfg);
          leading = (if frameOpen cfg = OpenStart
                      then delimiterEmitValues (startDelimiter cfg) (bitsPerItem cfg) (bitOrder cfg)
                      else if frameOpen cfg = OpenDelimiter then closing else []);
          enc = enc\<lparr>encoderConfig := cfg, escapeReverse := reverse, closingItems := closing,
                  openingItems := leading, encoderEndBits := endItems cfg * bitsPerItem cfg, payloadScratch := []\<rparr>
      in if packBits cfg \<noteq> 0
         then case configureRepack (unpack enc) (packBits cfg) 1 (packOrder cfg) MsbFirst of
                Inl err \<Rightarrow> Inl (PackRefused err)
              | Inr conversion \<Rightarrow> Inr (enc\<lparr>unpack := conversion\<rparr>)
         else Inr enc)"

definition encoderConfigured :: "DelimiterEncoder \<Rightarrow> bool" where
  "encoderConfigured enc \<longleftrightarrow> endItems (encoderConfig enc) \<noteq> 0 \<and> maxPayloadItems (encoderConfig enc) \<noteq> 0"

definition unpackedItems :: "DelimiterEncoder \<Rightarrow> nat \<Rightarrow> nat" where
  "unpackedItems enc recordItems =
     (if packBits (encoderConfig enc) = 0 then recordItems else recordItems * packBits (encoderConfig enc))"

text \<open>The receiver's register as the encoder runs it: the register and the number of bits it has seen.\<close>

definition advanceRegister :: "DelimiterConfig \<Rightarrow> u8 \<Rightarrow> u64 \<times> nat \<Rightarrow> u64 \<times> nat" where
  "advanceRegister cfg item = (\<lambda>(match, seen).
     let bits = (if bitsPerItem cfg = 1 then (if sliceBit item then 1 else 0)
                 else ucast (itemTable cfg ! unat item))
     in ((push_bit (bitsPerItem cfg) match OR bits) AND endMask cfg,
         if seen < 64 then seen + bitsPerItem cfg else seen))"

text \<open>The local variables of the encoding loop.\<close>

record EncodeLoop =
  outItems :: "u8 list"
  onesRun :: nat
  registerState :: "u64 \<times> nat"
  insertedCount :: nat
  forgedCount :: nat

definition encodeItem :: "DelimiterEncoder \<Rightarrow> u8 \<Rightarrow> EncodeLoop \<Rightarrow> EncodeLoop" where
  "encodeItem enc item s =
     (let cfg = encoderConfig enc in
      case transparency cfg of
        BitStuffing \<Rightarrow>
          let s = s\<lparr>outItems := outItems s @ [item]\<rparr>
          in if sliceBit item then
               (let s = s\<lparr>onesRun := onesRun s + 1\<rparr>
                in if onesRun s = stuffAfterOnes cfg
                   then s\<lparr>outItems := outItems s @ [0], insertedCount := insertedCount s + 1, onesRun := 0\<rparr>
                   else s)
             else s\<lparr>onesRun := 0\<rparr>
      | ByteEscape \<Rightarrow>
          if escapeOriginal cfg ! unat item
          then s\<lparr>outItems := outItems s @ [escapeItem cfg, escapeReverse enc ! unat item],
                 insertedCount := insertedCount s + 1\<rparr>
          else s\<lparr>outItems := outItems s @ [item]\<rparr>
      | TNone \<Rightarrow>
          let s = s\<lparr>outItems := outItems s @ [item], registerState := advanceRegister cfg item (registerState s)\<rparr>;
              (match, seen) = registerState s
          in if seen \<ge> encoderEndBits enc \<and> match = endBits cfg
             then s\<lparr>forgedCount := forgedCount s + 1\<rparr> else s)"

definition encode :: "DelimiterEncoder \<Rightarrow> u8 list \<Rightarrow> EncodeResult \<times> u8 list \<times> DelimiterEncoder" where
  "encode enc rec =
     (let cfg = encoderConfig enc;
          enc = (if packBits cfg \<noteq> 0
                 then let room = length rec * packBits cfg;
                          scratch = take room (payloadScratch enc) @ replicate (room - length (payloadScratch enc)) 0
                      in enc\<lparr>payloadScratch := repack (unpack enc) rec scratch\<rparr>
                 else enc);
          payload = (if packBits cfg \<noteq> 0 then payloadScratch enc else rec);
          register0 = (if transparency cfg = TNone then fold (advanceRegister cfg) (openingItems enc) (0, 0) else (0, 0));
          s = fold (encodeItem enc) payload
                \<lparr>outItems = openingItems enc, onesRun = 0, registerState = register0, insertedCount = 0, forgedCount = 0\<rparr>;
          out = outItems s @ closingItems enc
      in (\<lparr>emitted = length out, inserted = insertedCount s, forged = forgedCount s\<rparr>, out, enc))"

subsection \<open>The scanner\<close>

record ScanStep =
  event :: ScanEvent
  matched :: bool
  inFrame :: bool
  removed :: bool
  index :: u64

definition defaultScanStep :: ScanStep where
  "defaultScanStep = \<lparr>event = EvNone, matched = False, inFrame = False, removed = False, index = 0\<rparr>"

record DelimiterCounters =
  nOverrunFrames :: u64
  nUndersizeFrames :: u64
  nUnalignedFrames :: u64
  nIdleDelimiters :: u64
  nAborts :: u64
  nRestarts :: u64
  nEscapeViolations :: u64
  nItemsMasked :: u64
  nItemsDiscarded :: u64

definition zeroCounters :: DelimiterCounters where
  "zeroCounters =
     \<lparr>nOverrunFrames = 0, nUndersizeFrames = 0, nUnalignedFrames = 0, nIdleDelimiters = 0, nAborts = 0,
      nRestarts = 0, nEscapeViolations = 0, nItemsMasked = 0, nItemsDiscarded = 0\<rparr>"

datatype ScanState = ScanIdle | ScanOpen

record DelimiterScanner =
  config :: DelimiterConfig
  counters :: DelimiterCounters
  scanState :: ScanState
  endRegister :: u64
  startRegister :: u64
  shifted :: nat
  offset :: u64
  sampleStart :: u64
  removedInFrame :: nat
  rawInFrame :: nat
  ones :: nat
  escaped :: bool
  frameItems :: "u8 list"
  recordItems :: "u8 list"
  packedItems :: "u8 list"
  ring :: "u8 list"
  ringFill :: nat
  ringHead :: nat
  ringItems :: nat
  frameOutcome :: FrameOutcome
  frameStart :: u64
  frameRemoved :: nat
  frameDecodedItems :: nat
  framePacked :: bool
  holding :: bool
  endBitLength :: nat
  startBitLength :: nat

definition defaultScanner :: DelimiterScanner where
  "defaultScanner =
     \<lparr>config = defaultDelimiterConfig, counters = zeroCounters, scanState = ScanIdle, endRegister = 0,
      startRegister = 0, shifted = 0, offset = 0, sampleStart = 0, removedInFrame = 0, rawInFrame = 0, ones = 0,
      escaped = False, frameItems = [], recordItems = [], packedItems = [], ring = [], ringFill = 0, ringHead = 0,
      ringItems = 0, frameOutcome = Emitted, frameStart = 0, frameRemoved = 0, frameDecodedItems = 0,
      framePacked = False, holding = False, endBitLength = 0, startBitLength = 0\<rparr>"

definition resetScanner :: "DelimiterScanner \<Rightarrow> DelimiterScanner" where
  "resetScanner sc =
     sc\<lparr>scanState := ScanIdle, endRegister := 0, startRegister := 0, shifted := 0, sampleStart := 0,
        removedInFrame := 0, rawInFrame := 0, ones := 0, escaped := False, ringFill := 0, ringHead := 0,
        holding := False, frameItems := [], recordItems := [], packedItems := []\<rparr>"

definition prepareScanner :: "DelimiterConfig \<Rightarrow> DelimiterScanner \<Rightarrow> DelimiterScanner" where
  "prepareScanner cfg sc =
     (let capacity = (if endItems cfg = 0 then 0 else endItems cfg - 1)
      in resetScanner (sc\<lparr>config := cfg, endBitLength := endItems cfg * bitsPerItem cfg,
           startBitLength := startItems cfg * bitsPerItem cfg, ringItems := capacity,
           ring := replicate capacity 0, frameItems := [], recordItems := [], packedItems := [],
           counters := zeroCounters\<rparr>))"

definition seekScanner :: "u64 \<Rightarrow> DelimiterScanner \<Rightarrow> DelimiterScanner" where
  "seekScanner absolute sc = sc\<lparr>offset := absolute\<rparr>"

definition scannerConfigured :: "DelimiterScanner \<Rightarrow> bool" where
  "scannerConfigured sc \<longleftrightarrow> endItems (config sc) \<noteq> 0 \<and> maxPayloadItems (config sc) \<noteq> 0"

definition closedFrame :: "DelimiterScanner \<Rightarrow> u8 list" where
  "closedFrame sc = (if framePacked sc then packedItems sc else recordItems sc)"

definition discardFrame :: "DelimiterScanner \<Rightarrow> DelimiterScanner" where
  "discardFrame sc = sc\<lparr>rawInFrame := 0, removedInFrame := 0, ringFill := 0, ringHead := 0, frameItems := []\<rparr>"

definition countDiscarded :: "u64 \<Rightarrow> DelimiterScanner \<Rightarrow> DelimiterScanner" where
  "countDiscarded n sc = sc\<lparr>counters := (counters sc)\<lparr>nItemsDiscarded := nItemsDiscarded (counters sc) + n\<rparr>\<rparr>"

definition abandon :: "DelimiterScanner \<Rightarrow> DelimiterScanner" where
  "abandon sc = discardFrame (countDiscarded (of_nat (rawInFrame sc)) sc)"

definition openAt :: "u64 \<Rightarrow> DelimiterScanner \<Rightarrow> DelimiterScanner" where
  "openAt firstPayloadItem sc =
     discardFrame (sc\<lparr>scanState := ScanOpen, sampleStart := firstPayloadItem, ones := 0, escaped := False\<rparr>)"

definition resynchronize :: "DelimiterScanner \<Rightarrow> DelimiterScanner" where
  "resynchronize sc = (abandon sc)\<lparr>scanState := ScanIdle, endRegister := 0, startRegister := 0, shifted := 0\<rparr>"

text \<open>The item's bits as the register reads them, with the count of items wider than their field.\<close>

definition scannerItemBits :: "u8 \<Rightarrow> DelimiterScanner \<Rightarrow> u64 \<times> DelimiterScanner" where
  "scannerItemBits item sc =
     (if bitsPerItem (config sc) = 1 then (if sliceBit item then 1 else 0, sc)
      else (ucast (itemTable (config sc) ! unat item),
            if drop_bit (bitsPerItem (config sc)) (ucast item :: u32) \<noteq> 0
            then sc\<lparr>counters := (counters sc)\<lparr>nItemsMasked := nItemsMasked (counters sc) + 1\<rparr>\<rparr> else sc))"

definition publish :: "FrameOutcome \<Rightarrow> DelimiterScanner \<Rightarrow> DelimiterScanner" where
  "publish verdict sc =
     (let sc = sc\<lparr>recordItems := frameItems sc, frameItems := []\<rparr>;
          sc = sc\<lparr>frameOutcome := verdict, frameStart := sampleStart sc, frameRemoved := removedInFrame sc,
                  frameDecodedItems := length (recordItems sc), framePacked := False, holding := True\<rparr>;
          k = packBits (config sc)
      in if k \<noteq> 0 \<and> frameDecodedItems sc mod k = 0
         then let room = frameDecodedItems sc div k;
                  resized = take room (packedItems sc) @ replicate (room - length (packedItems sc)) 0
              in sc\<lparr>packedItems := repack (pack (config sc)) (recordItems sc) resized, framePacked := True\<rparr>
         else sc)"

definition appendItem :: "ScanStep \<Rightarrow> u8 \<Rightarrow> DelimiterScanner \<Rightarrow> ScanStep \<times> DelimiterScanner" where
  "appendItem step value sc =
     (if length (frameItems sc) \<ge> maxPayloadItems (config sc) then
        let sc = countDiscarded 1 sc;
            sc = sc\<lparr>counters := (counters sc)\<lparr>nOverrunFrames := nOverrunFrames (counters sc) + 1\<rparr>\<rparr>;
            sc = discardFrame (publish Overrun sc)
        in (step\<lparr>event := EvRecord\<rparr>, sc\<lparr>scanState := ScanIdle\<rparr>)
      else (step, sc\<lparr>frameItems := frameItems sc @ [value]\<rparr>))"

definition closeRegion :: "ScanStep \<Rightarrow> u64 \<Rightarrow> DelimiterScanner \<Rightarrow> ScanStep \<times> DelimiterScanner" where
  "closeRegion step at sc =
     (let sc = sc\<lparr>ringFill := 0, ringHead := 0\<rparr>;
          decoded = length (frameItems sc);
          (step, sc) =
            (if decoded = 0
             then (step\<lparr>event := EvIdle\<rparr>,
                   sc\<lparr>counters := (counters sc)\<lparr>nIdleDelimiters := nIdleDelimiters (counters sc) + 1\<rparr>\<rparr>)
             else if decoded < minPayloadItems (config sc)
             then (step\<lparr>event := EvRecord\<rparr>,
                   publish Undersize (sc\<lparr>counters := (counters sc)\<lparr>nUndersizeFrames := nUndersizeFrames (counters sc) + 1\<rparr>\<rparr>))
             else if packBits (config sc) \<noteq> 0 \<and> decoded mod packBits (config sc) \<noteq> 0
             then (step\<lparr>event := EvRecord\<rparr>,
                   publish Unaligned (sc\<lparr>counters := (counters sc)\<lparr>nUnalignedFrames := nUnalignedFrames (counters sc) + 1\<rparr>\<rparr>))
             else (step\<lparr>event := EvRecord\<rparr>, publish Emitted sc))
      in if frameOpen (config sc) = OpenDelimiter then (step, openAt (at + 1) sc)
         else (step, (discardFrame sc)\<lparr>scanState := ScanIdle\<rparr>))"

text \<open>What the transparency decoder makes of an item of an open frame.\<close>

datatype Decoded = Keep u8 | Remove | AbortRun

definition decodeItem :: "u8 \<Rightarrow> u64 \<Rightarrow> DelimiterScanner \<Rightarrow> Decoded \<times> DelimiterScanner" where
  "decodeItem item bits sc =
     (let cfg = config sc in
      case transparency cfg of
        BitStuffing \<Rightarrow>
          if bits \<noteq> 0 then
            (let sc = sc\<lparr>ones := ones sc + 1\<rparr>
             in if abortOnes cfg \<noteq> 0 \<and> ones sc = abortOnes cfg then (AbortRun, sc) else (Keep item, sc))
          else (if ones sc = stuffAfterOnes cfg then Remove else Keep item, sc\<lparr>ones := 0\<rparr>)
      | ByteEscape \<Rightarrow>
          if escaped sc then
            (let sc = sc\<lparr>escaped := False\<rparr>;
                 sc = (if \<not> escapeMapped cfg ! unat item
                       then sc\<lparr>counters := (counters sc)\<lparr>nEscapeViolations := nEscapeViolations (counters sc) + 1\<rparr>\<rparr>
                       else sc)
             in (Keep (escapeTable cfg ! unat item), sc))
          else if item = escapeItem cfg then (Remove, sc\<lparr>escaped := True\<rparr>)
          else (Keep item, sc)
      | TNone \<Rightarrow> (Keep item, sc))"

text \<open>The delay ring: a decoded item enters it and the item it evicts, if any, joins the frame.\<close>

definition delayItem :: "ScanStep \<Rightarrow> u8 \<Rightarrow> DelimiterScanner \<Rightarrow> ScanStep \<times> DelimiterScanner" where
  "delayItem step value sc =
     (if ringItems sc = 0 then appendItem step value sc
      else if ringFill sc < ringItems sc
      then (step, sc\<lparr>ring := (ring sc)[ringFill sc := value], ringFill := ringFill sc + 1\<rparr>)
      else let evicted = ring sc ! ringHead sc;
               sc = sc\<lparr>ring := (ring sc)[ringHead sc := value],
                       ringHead := (if ringHead sc + 1 = ringItems sc then 0 else ringHead sc + 1)\<rparr>
           in appendItem step evicted sc)"

definition shiftRegisters :: "u64 \<Rightarrow> DelimiterScanner \<Rightarrow> DelimiterScanner" where
  "shiftRegisters bits sc =
     (let cfg = config sc;
          sc = sc\<lparr>endRegister := (push_bit (bitsPerItem cfg) (endRegister sc) OR bits) AND endMask cfg\<rparr>;
          sc = (if distinctStart cfg
                then sc\<lparr>startRegister := (push_bit (bitsPerItem cfg) (startRegister sc) OR bits) AND startMask cfg\<rparr>
                else sc)
      in if shifted sc < 64 then sc\<lparr>shifted := shifted sc + bitsPerItem cfg\<rparr> else sc)"

text \<open>An item of the open frame that completes no delimiter.\<close>

definition scanPayloadItem :: "ScanStep \<Rightarrow> u8 \<Rightarrow> u64 \<Rightarrow> DelimiterScanner \<Rightarrow> ScanStep \<times> DelimiterScanner" where
  "scanPayloadItem step item bits sc =
     (let sc = sc\<lparr>rawInFrame := rawInFrame sc + 1\<rparr> in
      case decodeItem item bits sc of
        (AbortRun, sc) \<Rightarrow>
          (let sc = abandon sc
           in (step\<lparr>event := EvAbort\<rparr>,
               sc\<lparr>counters := (counters sc)\<lparr>nAborts := nAborts (counters sc) + 1\<rparr>, scanState := ScanIdle\<rparr>))
      | (Remove, sc) \<Rightarrow> (step\<lparr>removed := True\<rparr>, sc\<lparr>removedInFrame := removedInFrame sc + 1\<rparr>)
      | (Keep value, sc) \<Rightarrow> delayItem step value sc)"

definition push :: "u8 \<Rightarrow> DelimiterScanner \<Rightarrow> ScanStep \<times> DelimiterScanner" where
  "push item sc =
     (let sc = (if holding sc then sc\<lparr>recordItems := [], packedItems := [], holding := False\<rparr> else sc);
          step = defaultScanStep;
          at = offset sc;
          sc = sc\<lparr>offset := offset sc + 1\<rparr>
      in if \<not> scannerConfigured sc then (step, countDiscarded 1 sc)
         else
           let cfg = config sc;
               sc = (if scanState sc = ScanIdle \<and> frameOpen cfg = OpenImmediate then openAt at sc else sc);
               open = (scanState sc = ScanOpen);
               step = step\<lparr>inFrame := open\<rparr>;
               step = (if open then step\<lparr>index := (at - sampleStart sc) - of_nat (removedInFrame sc)\<rparr> else step);
               (bits, sc) = scannerItemBits item sc;
               sc = shiftRegisters bits sc;
               endMatch = (shifted sc \<ge> endBitLength sc \<and> endRegister sc = endBits cfg);
               step = step\<lparr>matched := endMatch\<rparr>
           in if open \<and> endMatch then closeRegion step at sc
              else
                let startMatch = (if frameOpen cfg = OpenDelimiter then endMatch
                      else distinctStart cfg \<and> shifted sc \<ge> startBitLength sc \<and> startRegister sc = startBits cfg)
                in if startMatch then
                     (let (step, sc) =
                        (if open then
                           (let sc = abandon sc
                            in (step\<lparr>event := EvRestart\<rparr>,
                                sc\<lparr>counters := (counters sc)\<lparr>nRestarts := nRestarts (counters sc) + 1\<rparr>\<rparr>))
                         else (step, sc))
                      in (step, openAt (at + 1) sc))
                   else if \<not> open then (step, countDiscarded 1 sc)
                   else scanPayloadItem step item bits sc)"

subsection \<open>Published framings\<close>

definition hdlc :: "DelimiterError + DelimiterConfig" where
  "hdlc = configureDelimiter (defaultDelimiterConfig
     \<lparr>endDelimiter := ''01111110'', frameOpen := OpenDelimiter, bitsPerItem := 1, transparency := BitStuffing,
      stuffAfterOnes := 5, abortOnes := 7\<rparr>)"

definition slip :: "DelimiterError + DelimiterConfig" where
  "slip = configureDelimiter (defaultDelimiterConfig
     \<lparr>endDelimiter := ''11000000'', frameOpen := OpenDelimiter, bitsPerItem := 8, transparency := ByteEscape,
      escapeItem := 0xDB, escapeMap := [(0xDC, 0xC0), (0xDD, 0xDB)]\<rparr>)"

definition pppAsync :: "DelimiterError + DelimiterConfig" where
  "pppAsync = configureDelimiter (defaultDelimiterConfig
     \<lparr>endDelimiter := ''01111110'', frameOpen := OpenDelimiter, bitsPerItem := 8, transparency := ByteEscape,
      escapeItem := 0x7D, escapeMap := escapeMapFromXor 0x20 (map (\<lambda>v. of_nat v) [0..<32] @ [0x7D, 0x7E])\<rparr>)"

definition nmea0183 :: "DelimiterError + DelimiterConfig" where
  "nmea0183 = configureDelimiter (defaultDelimiterConfig
     \<lparr>endDelimiter := ''0000110100001010'', startDelimiter := ''00100100'', frameOpen := OpenStart,
      bitsPerItem := 8, transparency := TNone\<rparr>)"

end
