(* ===== verification/DelimiterScan.thy ===== *)
theory DelimiterScan
  imports Delimiter "HOL-Library.Sublist"
begin

section \<open>The delimiter scanner over a bit history\<close>

text \<open>
  The facts the delimiter properties rest on.  A match register is the low end of the bits shifted in
  since the last resynchronization (\<open>tracks\<close>), so a match is a statement about suffixes of that history;
  the frame buffer and the delay ring together hold the decoded items of the open frame in order
  (\<open>heldItems\<close>), the newest \<open>endItems - 1\<close> of them in the ring; and a frame is scanned in three phases,
  over its opening delimiter, its coded payload and its closing delimiter (\<open>scan_frame\<close>).
\<close>

subsection \<open>Bits of items and delimiters\<close>

definition ones_of :: "string \<Rightarrow> bool list" where
  "ones_of chars = map (\<lambda>c. c = CHR ''1'') chars"

lemma length_ones_of [simp]: "length (ones_of chars) = length chars"
  by (simp add: ones_of_def)

definition keyBits :: "DelimiterConfig \<Rightarrow> u8 \<Rightarrow> bool list" where
  "keyBits cfg item = (if bitsPerItem cfg = 1 then [sliceBit item] else itemBits (bitOrder cfg) (bitsPerItem cfg) item)"

definition streamBits :: "DelimiterConfig \<Rightarrow> u8 list \<Rightarrow> bool list" where
  "streamBits cfg items = concat (map (keyBits cfg) items)"

lemma length_keyBits [simp]: "length (keyBits cfg item) = bitsPerItem cfg"
  by (simp add: keyBits_def)

lemma streamBits_simps [simp]:
  "streamBits cfg [] = []" "streamBits cfg (x # xs) = keyBits cfg x @ streamBits cfg xs"
  "streamBits cfg (xs @ ys) = streamBits cfg xs @ streamBits cfg ys"
  by (simp_all add: streamBits_def)

lemma length_streamBits [simp]: "length (streamBits cfg items) = length items * bitsPerItem cfg"
  by (induction items) simp_all

lemma bit_shift_in: "bit (push_bit 1 r OR (y AND 1) :: 'a::len word) (Suc j) \<longleftrightarrow> Suc j < LENGTH('a) \<and> bit r j"
  unfolding bit_or_iff bit_push_bit_iff bit_and_iff bit_1_iff by (auto dest: bit_imp_le_length)

lemma bit_reverse_fold:
  assumes "n \<le> 32"
  shows "bit (fold (\<lambda>b r. push_bit 1 r OR (drop_bit b low AND 1)) [0..<n] (0 :: u32)) k \<longleftrightarrow>
    k < n \<and> bit low (n - 1 - k)"
  using assms
proof (induction n arbitrary: k)
  case (Suc n)
  let ?r = "fold (\<lambda>b r. push_bit 1 r OR (drop_bit b low AND 1)) [0..<n] (0 :: u32)"
  have "bit (push_bit 1 ?r OR (drop_bit n low AND 1)) k \<longleftrightarrow> k < Suc n \<and> bit low (n - k)"
  proof (cases k)
    case 0
    then show ?thesis unfolding bit_or_iff bit_push_bit_iff bit_and_iff bit_drop_bit_eq bit_1_iff by simp
  next
    case (Suc j)
    have "bit (push_bit 1 ?r OR (drop_bit n low AND 1)) k \<longleftrightarrow> j < 31 \<and> bit ?r j"
      unfolding Suc bit_shift_in by simp
    also have "\<dots> \<longleftrightarrow> j < n \<and> bit low (n - 1 - j)" using Suc.IH [of j] Suc.prems by auto
    finally show ?thesis using Suc by (simp add: less_Suc_eq_le Suc_le_eq)
  qed
  then show ?case by simp
qed simp

lemma bit_orderedLowBits:
  assumes "width \<le> 8"
  shows "bit (orderedLowBits value width order) k \<longleftrightarrow>
    k < width \<and> bit value (if order = MsbFirst then k else width - 1 - k)"
proof (cases "order = MsbFirst")
  case True
  have "bit (orderedLowBits value width order) k \<longleftrightarrow> k < 8 \<and> bit (value AND (push_bit width 1 - 1)) k"
    using True by (auto simp: orderedLowBits_def Let_def bit_ucast_iff)
  then show ?thesis using True assms by (auto simp: bit_and_iff bit_mask_word simp del: push_bit_of_1)
next
  case False
  have w: "width \<le> 32" using assms by simp
  have "bit (orderedLowBits value width order) k \<longleftrightarrow>
      k < 8 \<and> k < width \<and> bit (value AND (push_bit width 1 - 1)) (width - 1 - k)"
    unfolding orderedLowBits_def Let_def if_not_P [OF False] bit_ucast_iff bit_reverse_fold [OF w] by simp
  then show ?thesis using False assms by (auto simp: bit_and_iff bit_mask_word simp del: push_bit_of_1)
qed

text \<open>The table entry spells the item's bits in stream order, and ordering twice is reading them back.\<close>

lemma itemBits_ordered:
  assumes "width \<le> 8"
  shows "itemBits MsbFirst width (orderedLowBits value width order) = itemBits order width value"
    "itemBits order width (orderedLowBits value width order) = itemBits MsbFirst width value"
  by (rule nth_equalityI; use assms in \<open>auto simp: bit_orderedLowBits fieldPosition_def\<close>)+

lemma itemBits_ucast: "width \<le> 8 \<Longrightarrow> itemBits order width (ucast (x :: u8) :: u32) = itemBits order width x"
  by (rule nth_equalityI) (auto simp: bit_ucast_iff fieldPosition_def)

lemma bits_of_chars:
  "fold (\<lambda>c value. push_bit 1 value OR (if c = CHR ''1'' then 1 else 0)) chunk (bitsField bs :: 'a::len word) =
    bitsField (bs @ ones_of chunk)"
proof (induction chunk arbitrary: bs)
  case (Cons c chunk)
  have "push_bit 1 (bitsField bs) OR (if c = CHR ''1'' then 1 else 0) = (bitsField (bs @ [c = CHR ''1'']) :: 'a word)"
    by (simp add: bitsField_snoc of_bool_def del: push_bit_of_1)
  then show ?case using Cons.IH [of "bs @ [c = CHR ''1'']"] by (simp add: ones_of_def)
qed (simp add: ones_of_def)

lemma itemBits_bitsField:
  "length bs = w \<Longrightarrow> w \<le> LENGTH('a) \<Longrightarrow> itemBits MsbFirst w (bitsField bs :: 'a::len word) = bs"
  using itemBits_packItem [of bs w MsbFirst, where 'a = 'a] by (simp add: packItem_def)

lemma itemBits_delimiterItemValue:
  assumes "length chunk = w" "w \<le> 8"
  shows "itemBits MsbFirst w (delimiterItemValue chunk) = ones_of chunk"
proof -
  have "delimiterItemValue chunk = ucast (bitsField (ones_of chunk) :: u32)"
    using bits_of_chars [of chunk "[]", where 'a = 32] by (simp add: delimiterItemValue_def)
  also have "itemBits MsbFirst w (ucast (bitsField (ones_of chunk) :: u32) :: u8) =
      itemBits MsbFirst w (bitsField (ones_of chunk) :: u32)"
    using assms(2) by (intro nth_equalityI) (auto simp: bit_ucast_iff fieldPosition_def)
  finally show ?thesis using assms by (simp add: itemBits_bitsField)
qed

lemma bit_width_1: "itemBits order 1 (x :: u8) = [bit x 0]"
  by (simp add: itemBits_def fieldPosition_def)

lemma sliceBit_one_bit: "(\<And>k. bit x k \<Longrightarrow> k < 1) \<Longrightarrow> sliceBit x = bit x 0"
  unfolding sliceBit_def by (metis bit_0_eq bit_eqI bot_apply bot_bool_def less_one)

lemma delimiterEmitValues_bits:
  assumes w: "0 < bitsPerItem cfg" "bitsPerItem cfg \<le> 8" and dvd: "bitsPerItem cfg dvd length chars"
  shows "streamBits cfg (delimiterEmitValues chars (bitsPerItem cfg) (bitOrder cfg)) = ones_of chars"
proof -
  let ?w = "bitsPerItem cfg" and ?o = "bitOrder cfg"
  have item: "keyBits cfg (orderedLowBits (ucast (delimiterItemValue chunk)) ?w ?o) = ones_of chunk"
    if "length chunk = ?w" for chunk
  proof -
    let ?x = "orderedLowBits (ucast (delimiterItemValue chunk)) ?w ?o"
    have bits: "itemBits ?o ?w ?x = ones_of chunk"
      using w that by (simp add: itemBits_ordered itemBits_ucast itemBits_delimiterItemValue)
    show ?thesis
    proof (cases "?w = 1")
      case True
      then have "sliceBit ?x = bit ?x 0" by (intro sliceBit_one_bit) (simp add: bit_orderedLowBits)
      moreover have "itemBits ?o 1 ?x = ones_of chunk" using bits True by simp
      ultimately show ?thesis using True unfolding keyBits_def bit_width_1 by simp
    qed (use bits in \<open>simp add: keyBits_def\<close>)
  qed
  obtain n where n: "length chars = n * ?w" using dvd by (metis dvd_def mult.commute)
  have "concat (map (\<lambda>i. ones_of (take ?w (drop (i * ?w) chars))) [0..<m]) = ones_of (take (m * ?w) chars)"
    if "m \<le> n" for m
    using that
  proof (induction m)
    case (Suc m)
    have "take (Suc m * ?w) chars = take (m * ?w) chars @ take ?w (drop (m * ?w) chars)"
      by (simp only: mult_Suc add.commute [of ?w] take_add)
    then show ?case using Suc by (simp add: ones_of_def)
  qed (simp add: ones_of_def)
  from this [of n] have all: "concat (map (\<lambda>i. ones_of (take ?w (drop (i * ?w) chars))) [0..<n]) = ones_of chars"
    by (simp add: n)
  have len: "length (take ?w (drop (i * ?w) chars)) = ?w" if "i < n" for i
  proof -
    have "Suc i * ?w \<le> n * ?w" using that by (intro mult_le_mono1) simp
    then show ?thesis by (simp add: n)
  qed
  have items: "length chars div ?w = n" using w(1) by (simp add: n)
  have "map (keyBits cfg) (delimiterEmitValues chars ?w ?o) = map (\<lambda>i. ones_of (take ?w (drop (i * ?w) chars))) [0..<n]"
    unfolding delimiterEmitValues_def delimiterItemValues_def items map_map
    by (rule map_cong) (simp_all add: item [OF len])
  with all show ?thesis by (simp add: streamBits_def)
qed

subsection \<open>What an accepted configuration satisfies\<close>

lemma delimiterWord_Inr:
  "delimiterWord cs (bitsField bs) = Inr word \<Longrightarrow>
    set cs \<subseteq> {CHR ''0'', CHR ''1''} \<and> word = bitsField (bs @ ones_of cs)"
proof (induction cs arbitrary: bs)
  case (Cons c cs)
  have "push_bit 1 (bitsField bs) OR (if c = CHR ''1'' then 1 else 0) = (bitsField (bs @ [c = CHR ''1'']) :: u64)"
    by (simp add: bitsField_snoc of_bool_def del: push_bit_of_1)
  with Cons.prems have "delimiterWord cs (bitsField (bs @ [c = CHR ''1''])) = Inr word" "c = CHR ''0'' \<or> c = CHR ''1''"
    by (auto split: if_splits)
  with Cons.IH [of "bs @ [c = CHR ''1'']"] show ?case by (auto simp: ones_of_def)
qed (simp add: ones_of_def)

definition lowMask :: "nat \<Rightarrow> u64" where
  "lowMask n = (if n = 64 then NOT 0 else push_bit n 1 - 1)"

lemma bit_lowMask: "n \<le> 64 \<Longrightarrow> bit (lowMask n) i \<longleftrightarrow> i < n"
  by (auto simp: lowMask_def bit_mask_word bit_not_iff dest: bit_imp_le_length simp del: push_bit_of_1)

lemma parseDelimiter_Inr:
  assumes "parseDelimiter chars width = Inr (word, m)"
  shows "length chars \<le> 64" "width dvd length chars" "set chars \<subseteq> {CHR ''0'', CHR ''1''}"
    "word = bitsField (ones_of chars) AND lowMask (length chars)" "m = lowMask (length chars)"
  using assms delimiterWord_Inr [of chars "[]"]
  by (auto simp: parseDelimiter_def Let_def lowMask_def split: if_splits sum.splits)

lemma configureDelimiter_result:
  assumes "configureDelimiter c0 = Inr cfg"
  shows "settingsRefusal cfg = None" "stuffingRefusal cfg = None" "escapeRefusal cfg (escapeMapped cfg) = None"
    "parseDelimiter (endDelimiter cfg) (bitsPerItem cfg) = Inr (endBits cfg, endMask cfg)"
    "parseDelimiter (startDelimiter cfg) (bitsPerItem cfg) = Inr (startBits cfg, startMask cfg)"
    "endItems cfg = length (endDelimiter cfg) div bitsPerItem cfg"
    "startItems cfg = length (startDelimiter cfg) div bitsPerItem cfg"
    "distinctStart cfg \<longleftrightarrow> frameOpen cfg = OpenStart"
    "itemTable cfg = map (\<lambda>v. orderedLowBits (of_nat v) (bitsPerItem cfg) (bitOrder cfg)) [0..<256]"
    "addEscapes (escapeMap cfg) (map (\<lambda>v. of_nat v) [0..<256]) (replicate 256 False) (replicate 256 False) =
       Inr (escapeTable cfg, escapeMapped cfg, escapeOriginal cfg)"
    "transparency cfg = BitStuffing \<Longrightarrow> abortOnes cfg \<noteq> 0 \<Longrightarrow>
       max (longestOneRun (startDelimiter cfg)) (longestOneRun (endDelimiter cfg)) < abortOnes cfg"
    "packBits cfg \<noteq> 0 \<Longrightarrow> \<exists>p. configureRepack p 1 (packBits cfg) MsbFirst (packOrder cfg) = Inr (pack cfg)"
proof -
  obtain table mapped originals eb em sb sm p where
    ok: "settingsRefusal c0 = None" "stuffingRefusal c0 = None" "escapeRefusal c0 mapped = None"
    "addEscapes (escapeMap c0) (map (\<lambda>v. of_nat v) [0..<256]) (replicate 256 False) (replicate 256 False) = Inr (table, mapped, originals)"
    "parseDelimiter (endDelimiter c0) (bitsPerItem c0) = Inr (eb, em)"
    "parseDelimiter (startDelimiter c0) (bitsPerItem c0) = Inr (sb, sm)"
    "transparency c0 = BitStuffing \<Longrightarrow> abortOnes c0 \<noteq> 0 \<Longrightarrow>
       max (longestOneRun (startDelimiter c0)) (longestOneRun (endDelimiter c0)) < abortOnes c0"
    and cfg: "cfg = c0\<lparr>endBits := eb, endMask := em, endItems := length (endDelimiter c0) div bitsPerItem c0,
            startBits := sb, startMask := sm, startItems := length (startDelimiter c0) div bitsPerItem c0,
            distinctStart := (frameOpen c0 = OpenStart),
            escapeTable := table, escapeMapped := mapped, escapeOriginal := originals,
            itemTable := map (\<lambda>v. orderedLowBits (of_nat v) (bitsPerItem c0) (bitOrder c0)) [0..<256], pack := p\<rparr>"
    "packBits c0 \<noteq> 0 \<Longrightarrow> configureRepack (pack c0) 1 (packBits c0) MsbFirst (packOrder c0) = Inr p"
  proof -
    note D = assms [unfolded configureDelimiter_def Let_def]
    have s: "settingsRefusal c0 = None" using D by (cases "settingsRefusal c0") simp_all
    note D = D [unfolded s option.case]
    have l: "\<not> length (escapeMap c0) > 256" using D by (rule contrapos_pn) simp
    note D = D [unfolded if_not_P [OF l]]
    obtain t where t: "addEscapes (escapeMap c0) (map (\<lambda>v. of_nat v) [0..<256]) (replicate 256 False) (replicate 256 False) = Inr t"
      using D by (cases "addEscapes (escapeMap c0) (map (\<lambda>v. of_nat v) [0..<256]) (replicate 256 False) (replicate 256 False)") simp_all
    obtain table mapped originals where t3: "t = (table, mapped, originals)" by (cases t)
    note D = D [unfolded t t3 sum.case prod.case]
    obtain e where e: "parseDelimiter (endDelimiter c0) (bitsPerItem c0) = Inr e"
      using D by (cases "parseDelimiter (endDelimiter c0) (bitsPerItem c0)") simp_all
    obtain eb em where e2: "e = (eb, em)" by (cases e)
    note D = D [unfolded e e2 sum.case prod.case]
    obtain b where b: "parseDelimiter (startDelimiter c0) (bitsPerItem c0) = Inr b"
      using D by (cases "parseDelimiter (startDelimiter c0) (bitsPerItem c0)") simp_all
    obtain sb sm where b2: "b = (sb, sm)" by (cases b)
    note D = D [unfolded b b2 sum.case prod.case]
    let ?abort = "transparency c0 = BitStuffing \<and> abortOnes c0 \<noteq> 0 \<and>
      abortOnes c0 \<le> max (longestOneRun (startDelimiter c0)) (longestOneRun (endDelimiter c0))"
    have a: "\<not> ?abort" using D by (rule contrapos_pn) simp
    have a': "max (longestOneRun (startDelimiter c0)) (longestOneRun (endDelimiter c0)) < abortOnes c0"
      if "transparency c0 = BitStuffing" "abortOnes c0 \<noteq> 0"
      using a that by linarith
    note D = D [unfolded if_not_P [OF a]]
    have r: "stuffingRefusal c0 = None" using D by (cases "stuffingRefusal c0") simp_all
    note D = D [unfolded r option.case]
    have q: "escapeRefusal c0 mapped = None" using D by (cases "escapeRefusal c0 mapped") simp_all
    note D = D [unfolded q option.case]
    show thesis
    proof (cases "packBits c0 = 0")
      case True
      with D have "cfg = c0\<lparr>endBits := eb, endMask := em, endItems := length (endDelimiter c0) div bitsPerItem c0,
            startBits := sb, startMask := sm, startItems := length (startDelimiter c0) div bitsPerItem c0,
            distinctStart := (frameOpen c0 = OpenStart),
            escapeTable := table, escapeMapped := mapped, escapeOriginal := originals,
            itemTable := map (\<lambda>v. orderedLowBits (of_nat v) (bitsPerItem c0) (bitOrder c0)) [0..<256], pack := pack c0\<rparr>"
        by (cases c0) auto
      from that [OF s r q t [unfolded t3] e [unfolded e2] b [unfolded b2] a' this] show thesis using True by simp
    next
      case False
      with D obtain p where p: "configureRepack (pack c0) 1 (packBits c0) MsbFirst (packOrder c0) = Inr p"
        and e3: "cfg = c0\<lparr>endBits := eb, endMask := em, endItems := length (endDelimiter c0) div bitsPerItem c0,
            startBits := sb, startMask := sm, startItems := length (startDelimiter c0) div bitsPerItem c0,
            distinctStart := (frameOpen c0 = OpenStart),
            escapeTable := table, escapeMapped := mapped, escapeOriginal := originals,
            itemTable := map (\<lambda>v. orderedLowBits (of_nat v) (bitsPerItem c0) (bitOrder c0)) [0..<256], pack := p\<rparr>"
        by (cases "configureRepack (pack c0) 1 (packBits c0) MsbFirst (packOrder c0)") simp_all
      from that [OF s r q t [unfolded t3] e [unfolded e2] b [unfolded b2] a' e3] show thesis using p by simp
    qed
  qed
  show "settingsRefusal cfg = None" using ok(1) by (simp add: cfg(1) settingsRefusal_def Let_def cong: if_cong)
  show "stuffingRefusal cfg = None" using ok(2) by (simp add: cfg(1) stuffingRefusal_def Let_def cong: if_cong)
  show "escapeRefusal cfg (escapeMapped cfg) = None" using ok(3) by (simp add: cfg(1) escapeRefusal_def Let_def cong: if_cong)
  show "parseDelimiter (endDelimiter cfg) (bitsPerItem cfg) = Inr (endBits cfg, endMask cfg)"
    "parseDelimiter (startDelimiter cfg) (bitsPerItem cfg) = Inr (startBits cfg, startMask cfg)"
    "endItems cfg = length (endDelimiter cfg) div bitsPerItem cfg"
    "startItems cfg = length (startDelimiter cfg) div bitsPerItem cfg"
    "distinctStart cfg \<longleftrightarrow> frameOpen cfg = OpenStart"
    "itemTable cfg = map (\<lambda>v. orderedLowBits (of_nat v) (bitsPerItem cfg) (bitOrder cfg)) [0..<256]"
    "addEscapes (escapeMap cfg) (map (\<lambda>v. of_nat v) [0..<256]) (replicate 256 False) (replicate 256 False) =
       Inr (escapeTable cfg, escapeMapped cfg, escapeOriginal cfg)"
    using ok by (simp_all add: cfg(1))
  show "max (longestOneRun (startDelimiter cfg)) (longestOneRun (endDelimiter cfg)) < abortOnes cfg"
    if "transparency cfg = BitStuffing" "abortOnes cfg \<noteq> 0"
    using ok(7) that by (simp add: cfg(1))
  show "\<exists>p. configureRepack p 1 (packBits cfg) MsbFirst (packOrder cfg) = Inr (pack cfg)" if "packBits cfg \<noteq> 0"
    using cfg(2) that by (auto simp: cfg(1))
qed

subsection \<open>Histories, registers and held items\<close>

text \<open>
  \<open>tracks cfg H sc\<close>: the scanner runs \<open>cfg\<close> and has shifted in the bits \<open>H\<close> since its last
  resynchronization.
\<close>

definition ringOk :: "DelimiterScanner \<Rightarrow> bool" where
  "ringOk sc \<longleftrightarrow>
     length (ring sc) = ringItems sc \<and> ringFill sc \<le> ringItems sc \<and>
     (if ringItems sc = 0 then ringHead sc = 0 else ringHead sc < ringItems sc) \<and>
     (ringFill sc < ringItems sc \<longrightarrow> ringHead sc = 0 \<and> frameItems sc = []) \<and>
     length (frameItems sc) \<le> maxPayloadItems (config sc)"

definition ringContents :: "DelimiterScanner \<Rightarrow> u8 list" where
  "ringContents sc = drop (ringHead sc) (take (ringFill sc) (ring sc)) @ take (ringHead sc) (take (ringFill sc) (ring sc))"

definition heldItems :: "DelimiterScanner \<Rightarrow> u8 list" where
  "heldItems sc = frameItems sc @ ringContents sc"

definition historySeen :: "nat \<Rightarrow> bool list \<Rightarrow> bool" where
  "historySeen n H \<longleftrightarrow> n = length H \<or> (64 \<le> n \<and> 64 \<le> length H)"

definition runs :: "DelimiterConfig \<Rightarrow> bool list \<Rightarrow> DelimiterScanner \<Rightarrow> bool" where
  "runs cfg H sc \<longleftrightarrow>
     config sc = cfg \<and> endBitLength sc = endItems cfg * bitsPerItem cfg \<and> ringItems sc = endItems cfg - 1 \<and>
     length (ring sc) = ringItems sc \<and> endRegister sc = bitsField H AND endMask cfg \<and> historySeen (shifted sc) H \<and>
     (\<not> holding sc \<longrightarrow> packedItems sc = [])"

definition tracks :: "DelimiterConfig \<Rightarrow> bool list \<Rightarrow> DelimiterScanner \<Rightarrow> bool" where
  "tracks cfg H sc \<longleftrightarrow> runs cfg H sc \<and> ringOk sc"

definition openWith :: "u8 list \<Rightarrow> nat \<Rightarrow> bool \<Rightarrow> DelimiterScanner \<Rightarrow> bool" where
  "openWith held n esc sc \<longleftrightarrow> scanState sc = ScanOpen \<and> heldItems sc = held \<and> ones sc = n \<and> escaped sc = esc"

text \<open>The configurations the scanner properties are about: accepted, stated, delimiter to delimiter.\<close>

definition framing :: "DelimiterConfig \<Rightarrow> bool" where
  "framing cfg \<longleftrightarrow> (\<exists>c0. configureDelimiter c0 = Inr cfg) \<and> endDelimiter cfg \<noteq> [] \<and> maxPayloadItems cfg \<noteq> 0 \<and>
     frameOpen cfg = OpenDelimiter"

definition endText :: "DelimiterConfig \<Rightarrow> bool list" where
  "endText cfg = ones_of (endDelimiter cfg)"

lemma framing_facts:
  assumes "framing cfg"
  shows "1 \<le> bitsPerItem cfg" "bitsPerItem cfg \<le> 8" "0 < endItems cfg"
    "length (endText cfg) = endItems cfg * bitsPerItem cfg" "length (endText cfg) \<le> 64"
    "endBits cfg = bitsField (endText cfg) AND lowMask (length (endText cfg))"
    "endMask cfg = lowMask (length (endText cfg))" "maxPayloadItems cfg \<noteq> 0" "frameOpen cfg = OpenDelimiter"
    "\<not> distinctStart cfg" "minPayloadItems cfg \<noteq> 0" "length (itemTable cfg) = 256"
    "i < 256 \<Longrightarrow> itemTable cfg ! i = orderedLowBits (of_nat i) (bitsPerItem cfg) (bitOrder cfg)"
    "transparency cfg = ByteEscape \<Longrightarrow> bitsPerItem cfg = 8" "transparency cfg = BitStuffing \<Longrightarrow> bitsPerItem cfg = 1"
proof -
  obtain c0 where c0: "configureDelimiter c0 = Inr cfg" and cfg: "endDelimiter cfg \<noteq> []" "maxPayloadItems cfg \<noteq> 0"
    "frameOpen cfg = OpenDelimiter" using assms by (auto simp: framing_def)
  note r = configureDelimiter_result [OF c0]
  note p = parseDelimiter_Inr [OF r(4)]
  show w: "1 \<le> bitsPerItem cfg" "bitsPerItem cfg \<le> 8" "minPayloadItems cfg \<noteq> 0"
    and "transparency cfg = ByteEscape \<Longrightarrow> bitsPerItem cfg = 8" "transparency cfg = BitStuffing \<Longrightarrow> bitsPerItem cfg = 1"
    using r(1) by (auto simp: settingsRefusal_def Let_def split: if_splits)
  show L: "length (endText cfg) = endItems cfg * bitsPerItem cfg" using p(2) r(6) by (simp add: endText_def)
  have "0 < length (endText cfg)" using cfg(1) by (simp add: endText_def)
  then show "0 < endItems cfg" using L by (intro gr0I) simp
  show "length (endText cfg) \<le> 64" "endBits cfg = bitsField (endText cfg) AND lowMask (length (endText cfg))"
    "endMask cfg = lowMask (length (endText cfg))" using p by (simp_all add: endText_def)
  show "maxPayloadItems cfg \<noteq> 0" "frameOpen cfg = OpenDelimiter" "\<not> distinctStart cfg"
    using cfg r(8) by simp_all
  show "length (itemTable cfg) = 256" "i < 256 \<Longrightarrow> itemTable cfg ! i = orderedLowBits (of_nat i) (bitsPerItem cfg) (bitOrder cfg)"
    using r(9) by simp_all
qed

text \<open>A register comparison is a suffix test on the history.\<close>

lemma register_suffix:
  assumes "length D \<le> 64" "length D \<le> length H"
  shows "bitsField H AND lowMask (length D) = bitsField D AND lowMask (length D) \<longleftrightarrow> suffix D H"
proof -
  let ?n = "length D" and ?k = "length H - length D"
  have "bitsField H AND lowMask ?n = bitsField D AND lowMask ?n \<longleftrightarrow>
      (\<forall>i<?n. H ! (length H - 1 - i) = D ! (?n - 1 - i))"
    using assms
    by (auto simp: bit_eq_iff bit_and_iff bit_lowMask bit_bitsField) (metis less_le_trans)+
  also have "\<dots> \<longleftrightarrow> (\<forall>j<?n. H ! (?k + j) = D ! j)"
  proof (rule iffI; intro allI impI)
    fix j assume *: "\<forall>i<?n. H ! (length H - 1 - i) = D ! (?n - 1 - i)" "j < ?n"
    then have "?n - 1 - j < ?n" by simp
    from *(1) [rule_format, OF this] have "H ! (length H - 1 - (?n - 1 - j)) = D ! (?n - 1 - (?n - 1 - j))" .
    moreover have "length H - 1 - (?n - 1 - j) = ?k + j" "?n - 1 - (?n - 1 - j) = j" using * assms(2) by simp_all
    ultimately show "H ! (?k + j) = D ! j" by (simp only:)
  next
    fix i assume *: "\<forall>j<?n. H ! (?k + j) = D ! j" "i < ?n"
    then have "?n - 1 - i < ?n" by simp
    from *(1) [rule_format, OF this] have "H ! (?k + (?n - 1 - i)) = D ! (?n - 1 - i)" .
    moreover have "?k + (?n - 1 - i) = length H - 1 - i" using * assms(2) by simp
    ultimately show "H ! (length H - 1 - i) = D ! (?n - 1 - i)" by (simp only:)
  qed
  also have "\<dots> \<longleftrightarrow> drop ?k H = D" using assms(2) by (auto simp: list_eq_iff_nth_eq)
  also have "\<dots> \<longleftrightarrow> suffix D H"
    using assms(2) by (auto simp: suffix_def) (metis append_take_drop_id)
  finally show ?thesis .
qed

lemma item_key:
  assumes "framing cfg" "config sc = cfg"
  shows "fst (scannerItemBits item sc) = bitsField (keyBits cfg item)"
proof (cases "bitsPerItem cfg = 1")
  case False
  note f = framing_facts [OF assms(1)]
  let ?w = "bitsPerItem cfg"
  have entry: "itemTable cfg ! unat item = orderedLowBits (ucast item) ?w (bitOrder cfg)"
    using unsigned_less [of item, where 'a = nat] by (simp add: f(13))
  have "keyBits cfg item = itemBits MsbFirst ?w (itemTable cfg ! unat item)"
    using False f(2) by (simp add: keyBits_def entry itemBits_ordered itemBits_ucast)
  moreover have "(bitsField (itemBits MsbFirst ?w (itemTable cfg ! unat item)) :: u64) = ucast (itemTable cfg ! unat item)"
    by (rule bit_word_eqI)
      (use f(2) in \<open>auto simp: bit_bitsField bit_ucast_iff fieldPosition_def entry bit_orderedLowBits\<close>)
  ultimately show ?thesis using False assms by (simp add: scannerItemBits_def)
qed (use assms in \<open>simp add: scannerItemBits_def keyBits_def\<close>)

subsection \<open>One item\<close>

text \<open>The decoder without the scanner: the ones counter and the escape flag.\<close>

definition decodeStep :: "DelimiterConfig \<Rightarrow> u8 \<Rightarrow> nat \<times> bool \<Rightarrow> Decoded \<times> nat \<times> bool" where
  "decodeStep cfg item = (\<lambda>(n, esc).
     case transparency cfg of
       BitStuffing \<Rightarrow>
         if sliceBit item
         then (if abortOnes cfg \<noteq> 0 \<and> n + 1 = abortOnes cfg then AbortRun else Keep item, n + 1, esc)
         else (if n = stuffAfterOnes cfg then Remove else Keep item, 0, esc)
     | ByteEscape \<Rightarrow>
         if esc then (Keep (escapeTable cfg ! unat item), n, False)
         else if item = escapeItem cfg then (Remove, n, True) else (Keep item, n, False)
     | TNone \<Rightarrow> (Keep item, n, esc))"

fun decodeItems :: "DelimiterConfig \<Rightarrow> u8 list \<Rightarrow> nat \<times> bool \<Rightarrow> (u8 list \<times> nat \<times> bool) option" where
  "decodeItems cfg [] st = Some ([], st)"
| "decodeItems cfg (x # xs) st =
     (case decodeStep cfg x st of
        (AbortRun, st) \<Rightarrow> None
      | (Remove, st) \<Rightarrow> decodeItems cfg xs st
      | (Keep v, st) \<Rightarrow> map_option (\<lambda>(vs, st). (v # vs, st)) (decodeItems cfg xs st))"

lemma decodeItems_append:
  "decodeItems cfg (xs @ ys) st =
     (case decodeItems cfg xs st of
        None \<Rightarrow> None
      | Some (us, st) \<Rightarrow> map_option (\<lambda>(vs, st). (us @ vs, st)) (decodeItems cfg ys st))"
  by (induction xs arbitrary: st)
    (auto split: Decoded.splits prod.splits option.splits simp: option.map_comp o_def case_prod_unfold option.map_ident)

lemma length_decodeItems: "decodeItems cfg xs st = Some (vs, st') \<Longrightarrow> length vs \<le> length xs"
  by (induction xs arbitrary: st vs) (fastforce split: Decoded.splits prod.splits)+

text \<open>The ring delays by \<open>ringItems\<close>; an item enters at the end of the held items.\<close>

lemma ringContents_length:
  "ringOk sc \<Longrightarrow> length (ringContents sc) = ringFill sc"
  by (auto simp: ringOk_def ringContents_def split: if_splits)

lemma frameItems_held:
  assumes "ringOk sc"
  shows "frameItems sc = take (length (heldItems sc) - ringItems sc) (heldItems sc)"
proof (cases "ringFill sc < ringItems sc")
  case True
  then show ?thesis using assms by (auto simp: heldItems_def ringOk_def ringContents_length)
next
  case False
  then have "length (ringContents sc) = ringItems sc" using assms by (simp add: ringContents_length) (simp add: ringOk_def)
  then show ?thesis by (simp add: heldItems_def)
qed

lemma appendItem_room:
  "length (frameItems sc) < maxPayloadItems (config sc) \<Longrightarrow>
    appendItem step v sc = (step, sc\<lparr>frameItems := frameItems sc @ [v]\<rparr>)"
  by (simp add: appendItem_def)

lemma delayItem_room:
  assumes ok: "ringOk sc" and room: "length (heldItems sc) < maxPayloadItems (config sc) + ringItems sc"
  obtains sc' where "delayItem step v sc = (step, sc')" "ringOk sc'" "heldItems sc' = heldItems sc @ [v]"
    "scanState sc' = scanState sc" "ones sc' = ones sc" "escaped sc' = escaped sc"
    "\<And>cfg H. tracks cfg H sc' = tracks cfg H sc"
    "rawInFrame sc' = rawInFrame sc" "removedInFrame sc' = removedInFrame sc" "offset sc' = offset sc"
    "sampleStart sc' = sampleStart sc" "recordItems sc' = recordItems sc" "packedItems sc' = packedItems sc"
    "config sc' = config sc" "ringItems sc' = ringItems sc"
proof -
  have "ringFill sc \<le> ringItems sc" using ok by (simp add: ringOk_def)
  then consider "ringItems sc = 0" | "0 < ringItems sc" "ringFill sc < ringItems sc" | "0 < ringItems sc" "ringFill sc = ringItems sc"
    by (cases "ringItems sc = 0"; cases "ringFill sc = ringItems sc") auto
  then show thesis
  proof cases
    case 1
    have len: "ring sc = []" "ringFill sc = 0" "ringHead sc = 0" using ok 1 by (auto simp: ringOk_def)
    then have held: "heldItems sc = frameItems sc" by (simp add: heldItems_def ringContents_def)
    with room 1 have fr: "length (frameItems sc) < maxPayloadItems (config sc)" by simp
    let ?s = "sc\<lparr>frameItems := frameItems sc @ [v]\<rparr>"
    show thesis
    proof (rule that [of ?s])
      show "delayItem step v sc = (step, ?s)" using 1 fr by (simp add: delayItem_def appendItem_room)
      show r: "ringOk ?s" using ok 1 fr by (simp add: ringOk_def)
      show "heldItems ?s = heldItems sc @ [v]" by (simp add: held) (simp add: heldItems_def ringContents_def len)
      show "tracks cfg H ?s = tracks cfg H sc" for cfg H using r ok by (simp add: tracks_def runs_def)
    qed simp_all
  next
    case 2
    have len: "ringHead sc = 0" "frameItems sc = []" "length (ring sc) = ringItems sc" using ok 2 by (auto simp: ringOk_def)
    let ?s = "sc\<lparr>ring := (ring sc)[ringFill sc := v], ringFill := ringFill sc + 1\<rparr>"
    show thesis
    proof (rule that [of ?s])
      show "delayItem step v sc = (step, ?s)" using 2 by (simp add: delayItem_def)
      show r: "ringOk ?s" using ok 2 len by (simp add: ringOk_def)
      show "heldItems ?s = heldItems sc @ [v]"
        using 2 len by (simp add: heldItems_def ringContents_def take_Suc_conv_app_nth)
      show "tracks cfg H ?s = tracks cfg H sc" for cfg H using r ok by (simp add: tracks_def runs_def)
    qed simp_all
  next
    case 3
    let ?h = "ringHead sc" and ?r = "ring sc"
    let ?h' = "if ?h + 1 = ringItems sc then 0 else ?h + 1"
    have len: "length ?r = ringItems sc" "?h < length ?r" using ok 3 by (auto simp: ringOk_def)
    have held: "heldItems sc = frameItems sc @ drop ?h ?r @ take ?h ?r"
      using 3 len by (simp add: heldItems_def ringContents_def)
    then have fr: "length (frameItems sc) < maxPayloadItems (config sc)" using room len by simp
    let ?s = "sc\<lparr>ring := ?r[?h := v], ringHead := ?h', frameItems := frameItems sc @ [?r ! ?h]\<rparr>"
    have "drop ?h ?r = ?r ! ?h # drop (?h + 1) ?r" using len by (simp add: Cons_nth_drop_Suc)
    then have "heldItems sc @ [v] = (frameItems sc @ [?r ! ?h]) @ (drop (?h + 1) ?r @ take ?h ?r @ [v])"
      by (simp add: held)
    moreover have "drop (?h + 1) ?r @ take ?h ?r @ [v] = drop ?h' (?r[?h := v]) @ take ?h' (?r[?h := v])"
    proof (cases "?h + 1 = ringItems sc")
      case True
      then have "?r[?h := v] = take ?h ?r @ [v]" using len by (simp add: upd_conv_take_nth_drop)
      then show ?thesis using True len by simp
    qed (use len in \<open>simp add: take_Suc_conv_app_nth\<close>)
    ultimately have held': "heldItems ?s = heldItems sc @ [v]"
      using 3 len by (simp add: heldItems_def ringContents_def)
    show thesis
    proof (rule that [of ?s])
      show "delayItem step v sc = (step, ?s)" using 3 fr by (simp add: delayItem_def Let_def appendItem_room)
      show r: "ringOk ?s" using ok 3 len fr by (simp add: ringOk_def)
      show "heldItems ?s = heldItems sc @ [v]" by (rule held')
      show "tracks cfg H ?s = tracks cfg H sc" for cfg H using r ok by (simp add: tracks_def runs_def)
    qed simp_all
  qed
qed

text \<open>What one call of \<open>push\<close> does, by the machine's state and whether the item completes the delimiter.\<close>

definition matches :: "DelimiterConfig \<Rightarrow> bool list \<Rightarrow> bool" where
  "matches cfg H \<longleftrightarrow> suffix (endText cfg) H"

definition afterRead :: "DelimiterScanner \<Rightarrow> DelimiterScanner" where
  "afterRead sc =
     (let sc = (if holding sc then sc\<lparr>recordItems := [], packedItems := [], holding := False\<rparr> else sc)
      in sc\<lparr>offset := offset sc + 1\<rparr>)"

lemma held_update [simp]:
  "heldItems (sc\<lparr>counters := c\<rparr>) = heldItems sc" "heldItems (sc\<lparr>scanState := st\<rparr>) = heldItems sc"
  "heldItems (sc\<lparr>endRegister := w\<rparr>) = heldItems sc" "heldItems (sc\<lparr>shifted := k\<rparr>) = heldItems sc"
  "heldItems (sc\<lparr>offset := w\<rparr>) = heldItems sc" "heldItems (sc\<lparr>recordItems := xs\<rparr>) = heldItems sc"
  "heldItems (sc\<lparr>packedItems := xs\<rparr>) = heldItems sc" "heldItems (sc\<lparr>holding := b\<rparr>) = heldItems sc"
  "heldItems (sc\<lparr>rawInFrame := k\<rparr>) = heldItems sc" "heldItems (sc\<lparr>removedInFrame := k\<rparr>) = heldItems sc"
  "heldItems (sc\<lparr>ones := k\<rparr>) = heldItems sc" "heldItems (sc\<lparr>escaped := b\<rparr>) = heldItems sc"
  by (simp_all add: heldItems_def ringContents_def)

lemma ringOk_update [simp]:
  "ringOk (sc\<lparr>counters := c\<rparr>) = ringOk sc" "ringOk (sc\<lparr>scanState := st\<rparr>) = ringOk sc"
  "ringOk (sc\<lparr>endRegister := w\<rparr>) = ringOk sc" "ringOk (sc\<lparr>shifted := k\<rparr>) = ringOk sc"
  "ringOk (sc\<lparr>offset := w\<rparr>) = ringOk sc" "ringOk (sc\<lparr>recordItems := xs\<rparr>) = ringOk sc"
  "ringOk (sc\<lparr>packedItems := xs\<rparr>) = ringOk sc" "ringOk (sc\<lparr>holding := b\<rparr>) = ringOk sc"
  "ringOk (sc\<lparr>rawInFrame := k\<rparr>) = ringOk sc" "ringOk (sc\<lparr>removedInFrame := k\<rparr>) = ringOk sc"
  "ringOk (sc\<lparr>ones := k\<rparr>) = ringOk sc" "ringOk (sc\<lparr>escaped := b\<rparr>) = ringOk sc"
  by (simp_all add: ringOk_def)

lemma historySeen_step:
  assumes "historySeen n H" "length ks = w"
  shows "historySeen (if n < 64 then n + w else n) (H @ ks)"
  using assms by (auto simp: historySeen_def)

lemma historySeen_at_least: "historySeen n H \<Longrightarrow> k \<le> 64 \<Longrightarrow> k \<le> n \<longleftrightarrow> k \<le> length H"
  by (auto simp: historySeen_def)

lemma register_step:
  "(push_bit w (bitsField H AND m) OR bitsField ks) AND lowMask n = bitsField (H @ ks) AND lowMask n"
  if "length ks = w" "n \<le> 64" "m = lowMask n"
proof (rule bit_word_eqI)
  fix i assume "i < LENGTH(64)"
  then show "bit ((push_bit w (bitsField H AND m) OR bitsField ks) AND lowMask n) i =
      bit (bitsField (H @ ks) AND lowMask n) i"
    using that unfolding bitsField_append bit_and_iff bit_or_iff bit_push_bit_iff bit_lowMask [OF that(2)] that(3)
    by auto
qed

text \<open>The registers after the item, with everything the rest of the step reads.\<close>

lemma shifted_in:
  assumes cfg: "framing cfg" and t: "tracks cfg H sc"
  obtains sc' where "scannerItemBits item sc = (bitsField (keyBits cfg item), sc')"
    "tracks cfg (H @ keyBits cfg item) (shiftRegisters (bitsField (keyBits cfg item)) sc')"
    "(shifted (shiftRegisters (bitsField (keyBits cfg item)) sc') \<ge> endBitLength sc \<and>
      endRegister (shiftRegisters (bitsField (keyBits cfg item)) sc') = endBits cfg) = matches cfg (H @ keyBits cfg item)"
    "packedItems (shiftRegisters (bitsField (keyBits cfg item)) sc') = packedItems sc"
    "\<And>held n esc. openWith held n esc (shiftRegisters (bitsField (keyBits cfg item)) sc') = openWith held n esc sc"
    "scanState (shiftRegisters (bitsField (keyBits cfg item)) sc') = scanState sc"
proof -
  note f = framing_facts [OF cfg]
  let ?k = "keyBits cfg item" and ?b = "bitsField (keyBits cfg item) :: u64"
  have sc: "config sc = cfg" "endRegister sc = bitsField H AND endMask cfg" "historySeen (shifted sc) H" "ringOk sc"
    "endBitLength sc = length (endText cfg)" "ringItems sc = endItems cfg - 1" "\<not> holding sc \<longrightarrow> packedItems sc = []"
    "length (ring sc) = endItems cfg - 1"
    using t by (simp_all add: tracks_def runs_def f(4))
  obtain sc' c where sc': "scannerItemBits item sc = (?b, sc')" and same: "sc' = sc\<lparr>counters := c\<rparr>"
  proof -
    have "snd (scannerItemBits item sc) = sc\<lparr>counters := counters (snd (scannerItemBits item sc))\<rparr>"
      by (simp add: scannerItemBits_def)
    with that [OF _ this] item_key [OF cfg sc(1), of item] show thesis by (metis prod.collapse)
  qed
  let ?s = "shiftRegisters ?b sc'"
  have s: "?s = sc'\<lparr>endRegister := (push_bit (bitsPerItem cfg) (endRegister sc) OR ?b) AND endMask cfg,
      shifted := if shifted sc < 64 then shifted sc + bitsPerItem cfg else shifted sc\<rparr>"
    using sc f(10) by (simp add: shiftRegisters_def same)
  have reg: "endRegister ?s = bitsField (H @ ?k) AND endMask cfg"
    using register_step [of ?k "bitsPerItem cfg" "length (endText cfg)" "endMask cfg" H] f by (simp add: s sc(2))
  have seen: "historySeen (shifted ?s) (H @ ?k)"
    using historySeen_step [OF sc(3), of ?k] by (simp add: s)
  have tr: "tracks cfg (H @ ?k) ?s"
    unfolding tracks_def runs_def
  proof (intro conjI)
    show "endRegister ?s = bitsField (H @ ?k) AND endMask cfg" by (fact reg)
    show "historySeen (shifted ?s) (H @ ?k)" by (fact seen)
  qed (unfold s, simp_all add: same sc f(4))
  have match: "(shifted ?s \<ge> endBitLength sc \<and> endRegister ?s = endBits cfg) = matches cfg (H @ ?k)"
  proof (cases "length (endText cfg) \<le> length (H @ ?k)")
    case True
    then have "(endRegister ?s = endBits cfg) = matches cfg (H @ ?k)"
      using register_suffix [OF f(5) True] reg by (simp add: matches_def f(6,7))
    then show ?thesis using True historySeen_at_least [OF seen f(5)] sc(5) by simp
  next
    case False
    then have "\<not> matches cfg (H @ ?k)" by (auto simp: matches_def dest: suffix_length_le)
    then show ?thesis using False historySeen_at_least [OF seen f(5)] sc(5) by simp
  qed
  have "packedItems ?s = packedItems sc" unfolding s by (simp add: same)
  moreover have "openWith held n esc ?s = openWith held n esc sc" for held n esc
    unfolding openWith_def s by (simp add: same)
  moreover have "scanState ?s = scanState sc" unfolding s by (simp add: same)
  ultimately show thesis by (rule that [OF sc' tr match])
qed

lemma push_framing:
  assumes cfg: "framing cfg" and t: "tracks cfg H sc"
  obtains step at sc1 where "event step = EvNone" "tracks cfg (H @ keyBits cfg item) sc1" "packedItems sc1 = []"
    "\<And>held n esc. openWith held n esc sc1 = openWith held n esc sc" "scanState sc1 = scanState sc"
    "push item sc =
       (if scanState sc = ScanOpen \<and> matches cfg (H @ keyBits cfg item) then closeRegion step at sc1
        else if matches cfg (H @ keyBits cfg item) then (step, openAt (at + 1) sc1)
        else if scanState sc \<noteq> ScanOpen then (step, countDiscarded 1 sc1)
        else scanPayloadItem step item (bitsField (keyBits cfg item)) sc1)"
proof -
  note f = framing_facts [OF cfg]
  let ?k = "keyBits cfg item" and ?sc = "afterRead sc"
  have t': "tracks cfg H ?sc" using t by (simp add: tracks_def runs_def afterRead_def Let_def)
  have open': "openWith held n esc ?sc = openWith held n esc sc" "scanState ?sc = scanState sc" for held n esc
    by (simp_all add: openWith_def afterRead_def Let_def)
  have cfgd: "scannerConfigured ?sc" "config ?sc = cfg" using f(3,8) t' by (simp_all add: scannerConfigured_def tracks_def runs_def)
  obtain sc' where sc': "scannerItemBits item ?sc = (bitsField ?k, sc')"
    "tracks cfg (H @ ?k) (shiftRegisters (bitsField ?k) sc')"
    "(shifted (shiftRegisters (bitsField ?k) sc') \<ge> endBitLength ?sc \<and>
      endRegister (shiftRegisters (bitsField ?k) sc') = endBits cfg) = matches cfg (H @ ?k)"
    "packedItems (shiftRegisters (bitsField ?k) sc') = packedItems ?sc"
    "\<And>held n esc. openWith held n esc (shiftRegisters (bitsField ?k) sc') = openWith held n esc ?sc"
    "scanState (shiftRegisters (bitsField ?k) sc') = scanState ?sc"
    using shifted_in [OF cfg t'] by metis
  let ?sc1 = "shiftRegisters (bitsField ?k) sc'" and ?at = "offset sc"
  have len: "endBitLength ?sc1 = endBitLength ?sc" using sc'(2) t' by (simp add: tracks_def runs_def)
  define step where "step = (let step = defaultScanStep\<lparr>inFrame := (scanState ?sc = ScanOpen)\<rparr>;
      step = (if scanState ?sc = ScanOpen then step\<lparr>index := (?at - sampleStart ?sc) - of_nat (removedInFrame ?sc)\<rparr> else step)
    in step\<lparr>matched := matches cfg (H @ ?k)\<rparr>)"
  have "push item sc =
       (if scanState ?sc = ScanOpen \<and> matches cfg (H @ ?k) then closeRegion step ?at ?sc1
        else if matches cfg (H @ ?k) then (step, openAt (?at + 1) ?sc1)
        else if scanState ?sc \<noteq> ScanOpen then (step, countDiscarded 1 ?sc1)
        else scanPayloadItem step item (bitsField ?k) ?sc1)"
  proof -
    have at: "offset (if holding sc then sc\<lparr>recordItems := [], packedItems := [], holding := False\<rparr> else sc) = ?at"
      by simp
    have 1: "(if holding sc then sc\<lparr>recordItems := [], packedItems := [], holding := False\<rparr> else sc)
        \<lparr>offset := ?at + 1\<rparr> = ?sc" by (simp add: afterRead_def Let_def)
    have 2: "(if scanState ?sc = ScanIdle \<and> frameOpen cfg = OpenImmediate then openAt ?at ?sc else ?sc) = ?sc"
      using f(9) by simp
    show ?thesis
      unfolding push_def Let_def at 1 2 sc'(1) prod.case len sc'(3) cfgd(2)
      using cfgd(1) f(9)
      by (cases "matches cfg (H @ ?k)"; cases "scanState ?sc = ScanOpen") (simp_all add: step_def Let_def)
  qed
  moreover have "packedItems ?sc = []" using t by (auto simp: tracks_def runs_def afterRead_def Let_def)
  ultimately show thesis
    using sc' open' by (intro that [of step ?sc1 ?at]) (simp_all add: step_def Let_def defaultScanStep_def)
qed

lemma openAt_tracks:
  assumes "runs cfg H sc"
  shows "tracks cfg H (openAt at sc)" "openWith [] 0 False (openAt at sc)"
  using assms
  by (auto simp: tracks_def runs_def openAt_def discardFrame_def ringOk_def openWith_def heldItems_def ringContents_def)

lemma countDiscarded_tracks [simp]:
  "tracks cfg H (countDiscarded k sc) = tracks cfg H sc" "scanState (countDiscarded k sc) = scanState sc"
  "openWith held n esc (countDiscarded k sc) = openWith held n esc sc"
  by (simp_all add: countDiscarded_def tracks_def runs_def openWith_def)

text \<open>What a closed region is handed over as.\<close>

definition regionVerdict :: "DelimiterConfig \<Rightarrow> u8 list \<Rightarrow> FrameOutcome" where
  "regionVerdict cfg items =
     (if length items < minPayloadItems cfg then Undersize
      else if packBits cfg \<noteq> 0 \<and> length items mod packBits cfg \<noteq> 0 then Unaligned else Emitted)"

definition regionItems :: "DelimiterConfig \<Rightarrow> u8 list \<Rightarrow> u8 list" where
  "regionItems cfg items =
     (if packBits cfg \<noteq> 0 \<and> length items mod packBits cfg = 0
      then repack (pack cfg) items (replicate (length items div packBits cfg) 0) else items)"

lemma publish_region:
  assumes "packedItems sc = []"
  shows "frameOutcome (publish v sc) = v" "closedFrame (publish v sc) = regionItems (config sc) (frameItems sc)"
    "runs cfg H sc \<Longrightarrow> runs cfg H (publish v sc)" "config (publish v sc) = config sc"
  using assms
  by (auto simp: publish_def Let_def closedFrame_def regionItems_def runs_def)

lemma openAt_closed [simp]: "frameOutcome (openAt w sc) = frameOutcome sc" "closedFrame (openAt w sc) = closedFrame sc"
  by (simp_all add: openAt_def discardFrame_def closedFrame_def)

lemma closeRegion_result:
  assumes cfg: "framing cfg" and t: "tracks cfg H sc" and p: "packedItems sc = []"
  obtains step' sc' where "closeRegion step at sc = (step', sc')" "tracks cfg H sc'" "openWith [] 0 False sc'"
    "frameItems sc = [] \<Longrightarrow> event step' = EvIdle"
    "frameItems sc \<noteq> [] \<Longrightarrow> event step' = EvRecord \<and> frameOutcome sc' = regionVerdict cfg (frameItems sc) \<and>
       closedFrame sc' = regionItems cfg (frameItems sc)"
proof -
  note f = framing_facts [OF cfg]
  let ?sc = "sc\<lparr>ringFill := 0, ringHead := 0\<rparr>"
  have c: "config sc = cfg" "runs cfg H ?sc" using t by (simp_all add: tracks_def runs_def)
  show thesis
  proof (cases "frameItems sc = []")
    case True
    let ?s2 = "?sc\<lparr>counters := (counters sc)\<lparr>nIdleDelimiters := nIdleDelimiters (counters sc) + 1\<rparr>\<rparr>"
    have "runs cfg H ?s2" using c by (simp add: runs_def)
    moreover have "closeRegion step at sc = (step\<lparr>event := EvIdle\<rparr>, openAt (at + 1) ?s2)"
      using True c f(9) by (simp add: closeRegion_def)
    moreover have "event (step\<lparr>event := EvIdle\<rparr>) = EvIdle" by simp
    ultimately show thesis
      using True openAt_tracks [of cfg H ?s2, where at = "at + 1"] by (intro that) (assumption | simp)+
  next
    case False
    obtain ct where close: "closeRegion step at sc =
        (step\<lparr>event := EvRecord\<rparr>, openAt (at + 1) (publish (regionVerdict cfg (frameItems sc)) (?sc\<lparr>counters := ct\<rparr>)))"
    proof -
      let ?c = "\<lambda>ct. publish (regionVerdict cfg (frameItems sc)) (?sc\<lparr>counters := ct\<rparr>)"
      have cfgs: "config (?c ct) = cfg" for ct using p c by (subst publish_region) simp_all
      consider "length (frameItems sc) < minPayloadItems cfg"
        | "\<not> length (frameItems sc) < minPayloadItems cfg" "packBits cfg \<noteq> 0 \<and> length (frameItems sc) mod packBits cfg \<noteq> 0"
        | "\<not> length (frameItems sc) < minPayloadItems cfg" "\<not> (packBits cfg \<noteq> 0 \<and> length (frameItems sc) mod packBits cfg \<noteq> 0)"
        by blast
      then show thesis
      proof cases
        case 1
        show thesis
          by (rule that [of "(counters sc)\<lparr>nUndersizeFrames := nUndersizeFrames (counters sc) + 1\<rparr>"])
            (use False c f(9) 1 cfgs in \<open>simp add: closeRegion_def regionVerdict_def\<close>)
      next
        case 2
        show thesis
          by (rule that [of "(counters sc)\<lparr>nUnalignedFrames := nUnalignedFrames (counters sc) + 1\<rparr>"])
            (use False c f(9) 2 cfgs in \<open>simp add: closeRegion_def regionVerdict_def\<close>)
      next
        case 3
        then have v: "regionVerdict cfg (frameItems sc) = Emitted"
          and "packBits cfg = 0 \<or> length (frameItems sc) mod packBits cfg = 0"
          by (auto simp: regionVerdict_def)
        moreover have "?sc\<lparr>counters := counters sc\<rparr> = ?sc" by simp
        ultimately show thesis
          using False c f(9) 3(1) cfgs [of "counters sc"]
          by (intro that [of "counters sc"]) (elim disjE; simp add: closeRegion_def v)
      qed
    qed
    let ?s2 = "?sc\<lparr>counters := ct\<rparr>" and ?v = "regionVerdict cfg (frameItems sc)"
    have s2: "packedItems ?s2 = []" "config ?s2 = cfg" "runs cfg H ?s2" "frameItems ?s2 = frameItems sc"
      using p c by (simp_all add: runs_def)
    note pub = publish_region [OF s2(1), where v = ?v]
    have "frameOutcome (openAt w (publish ?v ?s2)) = ?v" "closedFrame (openAt w (publish ?v ?s2)) = regionItems cfg (frameItems sc)" for w
      using pub(1,2) s2 by simp_all
    moreover have "tracks cfg H (openAt w (publish ?v ?s2))" "openWith [] 0 False (openAt w (publish ?v ?s2))" for w
      by (rule openAt_tracks [OF pub(3) [OF s2(3)]])+
    ultimately show thesis using False that [OF close] by simp
  qed
qed

text \<open>The three outcomes of a step: idle, at the delimiter, and inside the frame.\<close>

lemma push_idle:
  assumes cfg: "framing cfg" and t: "tracks cfg H sc" and idle: "scanState sc = ScanIdle"
  obtains step sc' where "push item sc = (step, sc')" "event step = EvNone" "tracks cfg (H @ keyBits cfg item) sc'"
    "if matches cfg (H @ keyBits cfg item) then openWith [] 0 False sc' else scanState sc' = ScanIdle"
proof -
  obtain step at sc1 where p: "event step = EvNone" "tracks cfg (H @ keyBits cfg item) sc1" "scanState sc1 = scanState sc"
    "push item sc = (if matches cfg (H @ keyBits cfg item) then (step, openAt (at + 1) sc1) else (step, countDiscarded 1 sc1))"
    using push_framing [OF cfg t, of item] idle by (metis ScanState.distinct(1))
  show thesis
  proof (cases "matches cfg (H @ keyBits cfg item)")
    case True
    with p openAt_tracks [of cfg "H @ keyBits cfg item" sc1 "at + 1"] show thesis
      by (intro that [of step "openAt (at + 1) sc1"]) (simp_all add: tracks_def)
  next
    case False
    with p idle show thesis by (intro that [of step "countDiscarded 1 sc1"]) simp_all
  qed
qed

lemma openWith_open: "openWith held n esc sc \<Longrightarrow> scanState sc = ScanOpen \<and> heldItems sc = held"
  by (simp add: openWith_def)

lemma push_close:
  assumes cfg: "framing cfg" and t: "tracks cfg H sc" and op: "openWith held n esc sc"
    and m: "matches cfg (H @ keyBits cfg item)"
  obtains step sc' where "push item sc = (step, sc')" "tracks cfg (H @ keyBits cfg item) sc'" "openWith [] 0 False sc'"
    "length held < endItems cfg \<Longrightarrow> event step = EvIdle"
    "endItems cfg \<le> length held \<Longrightarrow> event step = EvRecord \<and>
       frameOutcome sc' = regionVerdict cfg (take (length held - (endItems cfg - 1)) held) \<and>
       closedFrame sc' = regionItems cfg (take (length held - (endItems cfg - 1)) held)"
proof -
  obtain step at sc1 where p: "tracks cfg (H @ keyBits cfg item) sc1" "packedItems sc1 = []"
    "openWith held n esc sc1" "push item sc = closeRegion step at sc1"
    using push_framing [OF cfg t, of item] op m openWith_open [OF op] by metis
  have ring: "ringOk sc1" "ringItems sc1 = endItems cfg - 1" "heldItems sc1 = held"
    using p(1,3) by (simp_all add: tracks_def runs_def openWith_def)
  have fr: "frameItems sc1 = take (length held - (endItems cfg - 1)) held"
    using frameItems_held [OF ring(1)] ring by simp
  have pos: "0 < endItems cfg" by (rule framing_facts(3) [OF cfg])
  obtain step' sc' where c: "closeRegion step at sc1 = (step', sc')" "tracks cfg (H @ keyBits cfg item) sc'"
    "openWith [] 0 False sc'" "frameItems sc1 = [] \<Longrightarrow> event step' = EvIdle"
    "frameItems sc1 \<noteq> [] \<Longrightarrow> event step' = EvRecord \<and> frameOutcome sc' = regionVerdict cfg (frameItems sc1) \<and>
       closedFrame sc' = regionItems cfg (frameItems sc1)"
    using closeRegion_result [OF cfg p(1,2)] by metis
  show thesis
  proof (rule that [of step' sc'])
    show "push item sc = (step', sc')" using p(4) c(1) by simp
    show "event step' = EvIdle" if "length held < endItems cfg" using c(4) fr that pos by simp
    show "event step' = EvRecord \<and> frameOutcome sc' = regionVerdict cfg (take (length held - (endItems cfg - 1)) held) \<and>
       closedFrame sc' = regionItems cfg (take (length held - (endItems cfg - 1)) held)" if "endItems cfg \<le> length held"
    proof -
      have "0 < length held - (endItems cfg - 1)" using that pos by simp
      then have "take (length held - (endItems cfg - 1)) held \<noteq> []" by auto
      then show ?thesis by (rule c(5) [unfolded fr])
    qed
  qed (fact c)+
qed

lemma decodeItem_step:
  assumes "framing cfg" "tracks cfg H sc" "openWith held n esc sc"
  obtains sc' where "decodeItem item (bitsField (keyBits cfg item)) sc = (fst (decodeStep cfg item (n, esc)), sc')"
    "tracks cfg H sc'" "openWith held (fst (snd (decodeStep cfg item (n, esc)))) (snd (snd (decodeStep cfg item (n, esc)))) sc'"
proof -
  have c: "config sc = cfg" "ones sc = n" "escaped sc = esc" using assms by (auto simp: tracks_def runs_def openWith_def)
  let ?r = "decodeItem item (bitsField (keyBits cfg item)) sc"
  have bits: "(bitsField (keyBits cfg item) :: u64) \<noteq> 0 \<longleftrightarrow> sliceBit item" if "transparency cfg = BitStuffing"
    using framing_facts(15) [OF assms(1) that] by (simp add: keyBits_def)
  show thesis
  proof (rule that [of "snd ?r"])
    show "?r = (fst (decodeStep cfg item (n, esc)), snd ?r)"
      using c by (cases "transparency cfg") (auto simp: decodeItem_def decodeStep_def Let_def bits)
    show "tracks cfg H (snd ?r)"
      using c assms(2) by (cases "transparency cfg") (auto simp: decodeItem_def Let_def tracks_def runs_def)
    show "openWith held (fst (snd (decodeStep cfg item (n, esc)))) (snd (snd (decodeStep cfg item (n, esc)))) (snd ?r)"
      using c assms(3) by (cases "transparency cfg") (auto simp: decodeItem_def decodeStep_def Let_def bits openWith_def)
  qed
qed

lemma push_payload:
  assumes cfg: "framing cfg" and t: "tracks cfg H sc" and op: "openWith held n esc sc"
    and m: "\<not> matches cfg (H @ keyBits cfg item)" and d: "decodeStep cfg item (n, esc) = (d, n', esc')" "d \<noteq> AbortRun"
    and room: "\<And>v. d = Keep v \<Longrightarrow> length held < maxPayloadItems cfg + (endItems cfg - 1)"
  obtains step sc' where "push item sc = (step, sc')" "event step = EvNone" "tracks cfg (H @ keyBits cfg item) sc'"
    "openWith (held @ (case d of Keep v \<Rightarrow> [v] | _ \<Rightarrow> [])) n' esc' sc'"
proof -
  let ?H = "H @ keyBits cfg item" and ?b = "bitsField (keyBits cfg item) :: u64"
  obtain step sc1 where p: "event step = EvNone" "tracks cfg ?H sc1" "openWith held n esc sc1"
    "push item sc = scanPayloadItem step item ?b sc1"
    using push_framing [OF cfg t, of item] op m openWith_open [OF op] by metis
  let ?sc2 = "sc1\<lparr>rawInFrame := rawInFrame sc1 + 1\<rparr>"
  have "tracks cfg ?H ?sc2" "openWith held n esc ?sc2" using p(2,3) by (simp_all add: tracks_def runs_def openWith_def)
  then obtain sc3 where s: "decodeItem item ?b ?sc2 = (d, sc3)" "tracks cfg ?H sc3" "openWith held n' esc' sc3"
    using decodeItem_step [OF cfg, of ?H ?sc2 held n esc item] d(1) by (metis fst_conv snd_conv)
  show thesis
  proof (cases d)
    case (Keep v)
    have "length (heldItems sc3) < maxPayloadItems (config sc3) + ringItems sc3" "ringOk sc3"
      using room [OF Keep] s(2,3) by (simp_all add: tracks_def runs_def openWith_def)
    then obtain sc4 where "delayItem step v sc3 = (step, sc4)" "heldItems sc4 = heldItems sc3 @ [v]"
      "scanState sc4 = scanState sc3" "ones sc4 = ones sc3" "escaped sc4 = escaped sc3" "tracks cfg ?H sc4"
      using delayItem_room [of sc3 step v] s(2) by metis
    then show thesis using s p(1,4) Keep
      by (intro that [of step sc4]) (simp_all add: scanPayloadItem_def openWith_def)
  next
    case Remove
    then show thesis using s p(1,4)
      by (intro that [of "step\<lparr>removed := True\<rparr>" "sc3\<lparr>removedInFrame := removedInFrame sc3 + 1\<rparr>"])
        (simp_all add: scanPayloadItem_def openWith_def tracks_def runs_def)
  qed (use d(2) in simp)
qed

subsection \<open>Runs of items\<close>

text \<open>Every record a run of items yields: under which outcome and with which items the scanner hands it over.\<close>

fun scanRecords :: "u8 list \<Rightarrow> DelimiterScanner \<Rightarrow> (FrameOutcome \<times> u8 list) list \<times> DelimiterScanner" where
  "scanRecords [] sc = ([], sc)"
| "scanRecords (x # xs) sc =
     (let (step, sc) = push x sc;
          record = (if event step = EvRecord then [(frameOutcome sc, closedFrame sc)] else []);
          (records, sc) = scanRecords xs sc
      in (record @ records, sc))"

lemma scanRecords_append:
  "scanRecords (xs @ ys) sc =
     (let (us, sc) = scanRecords xs sc; (vs, sc) = scanRecords ys sc in (us @ vs, sc))"
  by (induction xs arbitrary: sc) (simp_all add: split_beta Let_def)

lemma scanRecords_step:
  assumes "push x sc = (step, sc1)" "scanRecords xs sc1 = (rs, sc2)"
  shows "event step \<noteq> EvRecord \<Longrightarrow> scanRecords (x # xs) sc = (rs, sc2)"
    "event step = EvRecord \<Longrightarrow> scanRecords (x # xs) sc = ((frameOutcome sc1, closedFrame sc1) # rs, sc2)"
  using assms by simp_all

lemma scan_payload:
  assumes cfg: "framing cfg" and "tracks cfg H sc" "openWith held n esc sc"
    and "decodeItems cfg xs (n, esc) = Some (vs, n', esc')"
    and "\<And>ys. ys \<noteq> [] \<Longrightarrow> prefix ys xs \<Longrightarrow> \<not> matches cfg (H @ streamBits cfg ys)"
    and "length held + length vs \<le> maxPayloadItems cfg + (endItems cfg - 1)"
  shows "\<exists>sc'. scanRecords xs sc = ([], sc') \<and> tracks cfg (H @ streamBits cfg xs) sc' \<and> openWith (held @ vs) n' esc' sc'"
  using assms(2-)
proof (induction xs arbitrary: H sc held n esc vs)
  case (Cons x xs)
  let ?k = "keyBits cfg x"
  obtain d n1 esc1 where d: "decodeStep cfg x (n, esc) = (d, n1, esc1)" by (metis prod_cases3)
  have noabort: "d \<noteq> AbortRun" using Cons.prems(3) d by auto
  define us where "us = (case d of Keep v \<Rightarrow> [v] | _ \<Rightarrow> [])"
  obtain ws where ws: "decodeItems cfg xs (n1, esc1) = Some (ws, n', esc')" "vs = us @ ws"
    using Cons.prems(3) d noabort by (auto simp: us_def split: Decoded.splits)
  have nomatch: "\<not> matches cfg (H @ ?k)" using Cons.prems(4) [of "[x]"] by simp
  obtain step sc1 where p: "push x sc = (step, sc1)" "event step = EvNone" "tracks cfg (H @ ?k) sc1"
    "openWith (held @ us) n1 esc1 sc1"
  proof -
    have "length held < maxPayloadItems cfg + (endItems cfg - 1)" if "d = Keep v" for v
      using Cons.prems(5) that ws(2) by (simp add: us_def)
    then show thesis
      by (rule push_payload [OF cfg Cons.prems(1,2) nomatch d noabort]) (assumption, rule that, simp_all add: us_def)
  qed
  have "\<exists>sc'. scanRecords xs sc1 = ([], sc') \<and> tracks cfg ((H @ ?k) @ streamBits cfg xs) sc' \<and>
      openWith ((held @ us) @ ws) n' esc' sc'"
  proof (rule Cons.IH [OF p(3,4) ws(1)])
    fix ys assume "ys \<noteq> []" "prefix ys xs"
    then show "\<not> matches cfg ((H @ ?k) @ streamBits cfg ys)" using Cons.prems(4) [of "x # ys"] by simp
  qed (use Cons.prems(5) ws(2) in simp)
  then show ?case using p(1,2) ws(2) by auto
qed simp

lemma matches_append: "length (endText cfg) \<le> length B \<Longrightarrow> matches cfg (A @ B) = matches cfg B"
  unfolding matches_def by (auto simp: suffix_append dest: suffix_length_le)

text \<open>
  The opening delimiter, entered idle or in an empty open frame: a partial overlap may close empty
  regions on the way, but nothing is handed over.
\<close>

definition settled :: "DelimiterScanner \<Rightarrow> bool" where
  "settled sc \<longleftrightarrow> scanState sc = ScanIdle \<or> openWith [] 0 False sc"

lemma scan_lead:
  assumes cfg: "framing cfg" and "tracks cfg H sc" "i + length ys < endItems cfg"
    and "scanState sc = ScanIdle \<or> (\<exists>held n esc. openWith held n esc sc \<and> length held \<le> i \<and> decodeItems cfg ys (n, esc) \<noteq> None)"
    and "\<And>zs. suffix zs ys \<Longrightarrow> decodeItems cfg zs (0, False) \<noteq> None"
  shows "\<exists>sc'. scanRecords ys sc = ([], sc') \<and> tracks cfg (H @ streamBits cfg ys) sc' \<and>
    (scanState sc' = ScanIdle \<or> (\<exists>held n esc. openWith held n esc sc' \<and> length held < endItems cfg))"
  using assms(2-)
proof (induction ys arbitrary: H sc i)
  case Nil
  then show ?case by auto (meson le_less_trans)
next
  case (Cons y ys)
  let ?k = "keyBits cfg y"
  have decode: "decodeItems cfg zs (0, False) \<noteq> None" if "suffix zs ys" for zs
    using Cons.prems(4) [of zs] that by (simp add: suffix_ConsI)
  obtain step sc1 where p: "push y sc = (step, sc1)" "event step \<noteq> EvRecord" "tracks cfg (H @ ?k) sc1"
    "scanState sc1 = ScanIdle \<or> (\<exists>held n esc. openWith held n esc sc1 \<and> length held \<le> Suc i \<and> decodeItems cfg ys (n, esc) \<noteq> None)"
  proof (cases "scanState sc = ScanIdle")
    case True
    from push_idle [OF cfg Cons.prems(1) True, of y] obtain step sc1
      where p: "push y sc = (step, sc1)" "event step = EvNone" "tracks cfg (H @ ?k) sc1"
        "if matches cfg (H @ ?k) then openWith [] 0 False sc1 else scanState sc1 = ScanIdle" by metis
    from p(4) have "scanState sc1 = ScanIdle \<or> openWith [] 0 False sc1" by metis
    with p(1-3) decode [of ys] show thesis by (intro that [OF p(1)]) (force simp del: decodeItems.simps)+
  next
    case False
    with Cons.prems(3) obtain held n esc where op: "openWith held n esc sc" "length held \<le> i"
      "decodeItems cfg (y # ys) (n, esc) \<noteq> None" by blast
    show thesis
    proof (cases "matches cfg (H @ ?k)")
      case True
      have "length held < endItems cfg" using op(2) Cons.prems(2) by simp
      with push_close [OF cfg Cons.prems(1) op(1) True] obtain step sc1
        where p: "push y sc = (step, sc1)" "event step = EvIdle" "tracks cfg (H @ ?k) sc1" "openWith [] 0 False sc1"
        by metis
      with decode [of ys] show thesis by (intro that [OF p(1)]) (force simp del: decodeItems.simps)+
    next
      case False
      obtain d n1 esc1 where d: "decodeStep cfg y (n, esc) = (d, n1, esc1)" by (metis prod_cases3)
      have "d \<noteq> AbortRun" "decodeItems cfg ys (n1, esc1) \<noteq> None"
        using op(3) d by (auto split: Decoded.splits)
      moreover have "length held < maxPayloadItems cfg + (endItems cfg - 1)"
        using op(2) Cons.prems(2) framing_facts(8) [OF cfg] by simp
      ultimately obtain step sc1 where p: "push y sc = (step, sc1)" "event step = EvNone" "tracks cfg (H @ ?k) sc1"
        "openWith (held @ (case d of Keep v \<Rightarrow> [v] | _ \<Rightarrow> [])) n1 esc1 sc1" "decodeItems cfg ys (n1, esc1) \<noteq> None"
        using push_payload [OF cfg Cons.prems(1) op(1) False d] by metis
      moreover have "length (held @ (case d of Keep v \<Rightarrow> [v] | _ \<Rightarrow> [])) \<le> Suc i"
        using op(2) by (simp split: Decoded.splits)
      ultimately show thesis by (intro that [OF p(1)]) (force simp del: decodeItems.simps)+
    qed
  qed
  from Cons.IH [OF p(3) _ p(4) decode] Cons.prems(2) obtain sc' where
    "scanRecords ys sc1 = ([], sc')" "tracks cfg ((H @ ?k) @ streamBits cfg ys) sc'"
    "scanState sc' = ScanIdle \<or> (\<exists>held n esc. openWith held n esc sc' \<and> length held < endItems cfg)" by auto
  with p(1,2) show ?case by auto
qed

text \<open>
  One frame as the encoder writes it, from the opening delimiter to the closing one: exactly one record,
  holding exactly the payload.
\<close>

lemma scan_frame:
  assumes cfg: "framing cfg" and t: "tracks cfg H sc" and st: "settled sc"
    and ds: "streamBits cfg ds = endText cfg" "length ds = endItems cfg"
    and noabort: "\<And>zs. suffix zs (butlast ds) \<Longrightarrow> decodeItems cfg zs (0, False) \<noteq> None"
    and nomatch: "\<And>ys. ys \<noteq> [] \<Longrightarrow> strict_prefix ys (cs @ ds) \<Longrightarrow> \<not> matches cfg (endText cfg @ streamBits cfg ys)"
    and dec: "decodeItems cfg (cs @ butlast ds) (0, False) = Some (payload @ es, n, esc)"
    and len: "length es = endItems cfg - 1" "payload \<noteq> []" "length payload \<le> maxPayloadItems cfg"
  shows "\<exists>H' sc'. scanRecords (ds @ cs @ ds) sc = ([(regionVerdict cfg payload, regionItems cfg payload)], sc') \<and>
    tracks cfg H' sc' \<and> settled sc'"
proof -
  note f = framing_facts [OF cfg]
  have dsne: "ds \<noteq> []" using ds(2) f(3) by auto
  define d where "d = last ds"
  have split: "ds = butlast ds @ [d]" using dsne by (simp add: d_def)
  have lead: "length (butlast ds) < endItems cfg" using ds(2) f(3) by simp
  let ?H0 = "H @ streamBits cfg (butlast ds)" and ?H1 = "H @ endText cfg"
  have H1: "?H0 @ keyBits cfg d = ?H1"
    using arg_cong [OF split, of "streamBits cfg"] ds(1) by simp
  have m1: "matches cfg (?H0 @ keyBits cfg d)" unfolding H1 matches_def by (rule suffixI) (rule refl)
  obtain sc0 where a: "scanRecords (butlast ds) sc = ([], sc0)" "tracks cfg ?H0 sc0"
    "scanState sc0 = ScanIdle \<or> (\<exists>held n esc. openWith held n esc sc0 \<and> length held < endItems cfg)"
  proof -
    have "scanState sc = ScanIdle \<or> (\<exists>held n esc. openWith held n esc sc \<and> length held \<le> 0 \<and>
        decodeItems cfg (butlast ds) (n, esc) \<noteq> None)"
      using st noabort [of "butlast ds"] by (auto simp: settled_def)
    from scan_lead [OF cfg t _ this noabort] lead that show thesis by auto
  qed
  obtain step1 sc1 where b: "push d sc0 = (step1, sc1)" "event step1 \<noteq> EvRecord" "tracks cfg ?H1 sc1" "openWith [] 0 False sc1"
  proof (cases "scanState sc0 = ScanIdle")
    case True
    from push_idle [OF cfg a(2) True, of d] m1 obtain step sc1
      where "push d sc0 = (step, sc1)" "event step = EvNone" "tracks cfg ?H1 sc1" "openWith [] 0 False sc1"
      unfolding H1 by metis
    with that show thesis by auto
  next
    case False
    with a(3) obtain held n esc where op: "openWith held n esc sc0" "length held < endItems cfg" by blast
    from push_close [OF cfg a(2) op(1) m1] op(2) obtain step sc1
      where "push d sc0 = (step, sc1)" "event step = EvIdle" "tracks cfg ?H1 sc1" "openWith [] 0 False sc1"
      unfolding H1 by metis
    with that show thesis by auto
  qed
  have lead_run: "scanRecords ds sc = ([], sc1)"
    by (subst split) (simp add: scanRecords_append a(1) b(1,2))
  let ?body = "cs @ butlast ds"
  have long: "length (endText cfg) \<le> length (endText cfg @ B)" for B by simp
  have nom: "\<not> matches cfg (?H1 @ streamBits cfg ys)" if "ys \<noteq> []" "prefix ys ?body" for ys
  proof -
    have "strict_prefix ?body (?body @ [d])" by (simp add: strict_prefix_def)
    moreover have "?body @ [d] = cs @ ds" by (subst (2) split) simp
    ultimately have "strict_prefix ys (cs @ ds)" using that(2) by (metis prefix_order.le_less_trans)
    then show ?thesis using nomatch [OF that(1)] matches_append [OF long, of H] by simp
  qed
  have room: "length ([] :: u8 list) + length (payload @ es) \<le> maxPayloadItems cfg + (endItems cfg - 1)"
    using len by simp
  obtain sc2 where c: "scanRecords ?body sc1 = ([], sc2)" "tracks cfg (?H1 @ streamBits cfg ?body) sc2"
    "openWith (payload @ es) n esc sc2"
    using scan_payload [OF cfg b(3,4) dec nom room] by auto
  let ?H3 = "(?H1 @ streamBits cfg ?body) @ keyBits cfg d"
  have "?H3 = (?H1 @ streamBits cfg cs) @ endText cfg" using H1 by simp
  then have m3: "matches cfg ?H3" unfolding matches_def by (rule suffixI)
  have "endItems cfg \<le> length (payload @ es)" "take (length (payload @ es) - (endItems cfg - 1)) (payload @ es) = payload"
    using len f(3) by (cases payload; simp)+
  with push_close [OF cfg c(2,3) m3] obtain step3 sc3 where e: "push d sc2 = (step3, sc3)" "tracks cfg ?H3 sc3"
    "openWith [] 0 False sc3" "event step3 = EvRecord" "frameOutcome sc3 = regionVerdict cfg payload"
    "closedFrame sc3 = regionItems cfg payload" by metis
  have "scanRecords (?body @ [d]) sc1 = ([(regionVerdict cfg payload, regionItems cfg payload)], sc3)"
    using scanRecords_append [of ?body "[d]" sc1] c(1) e by simp
  moreover have "?body @ [d] = cs @ ds" by (subst (2) split) simp
  ultimately have "scanRecords (cs @ ds) sc1 = ([(regionVerdict cfg payload, regionItems cfg payload)], sc3)"
    by (simp only:)
  then have "scanRecords (ds @ cs @ ds) sc = ([(regionVerdict cfg payload, regionItems cfg payload)], sc3)"
    using scanRecords_append [of ds "cs @ ds" sc] lead_run by simp
  then show ?thesis using e(2,3) by (auto simp: settled_def)
qed

end
