(* ===== verification/DelimiterProperties.thy ===== *)
theory DelimiterProperties
  imports DelimiterScan
begin

section \<open>What delimiter framing guarantees\<close>

text \<open>
  The properties of \<^verbatim>\<open>digital/Delimiter.hpp\<close>: a stream of frames that the encoder wrote is scanned back
  record by record, under byte escaping and under bit stuffing; the validation makes a closing delimiter
  invariant under the decoder; an encoded frame never exceeds its bound; the scanner's buffers stay
  within theirs along every run; and the two settings the validation lets through although a payload
  can then forge a delimiter.
\<close>

subsection \<open>Streams of frames\<close>

lemma prepared_tracks:
  assumes "framing cfg"
  shows "tracks cfg [] (prepareScanner cfg sc)" "settled (prepareScanner cfg sc)"
  using framing_facts(3,4) [OF assms]
  by (simp_all add: tracks_def runs_def ringOk_def prepareScanner_def resetScanner_def settled_def historySeen_def Let_def)

text \<open>Frame after frame: what holds of one frame from any settled scanner holds of the stream.\<close>

lemma scan_frames:
  assumes "\<And>H sc p. tracks cfg H sc \<Longrightarrow> settled sc \<Longrightarrow> p \<in> set ps \<Longrightarrow>
      \<exists>H' sc'. scanRecords (wire p) sc = ([want p], sc') \<and> tracks cfg H' sc' \<and> settled sc'"
    and "tracks cfg H sc" "settled sc"
  shows "fst (scanRecords (concat (map wire ps)) sc) = map want ps"
  using assms
proof (induction ps arbitrary: H sc)
  case (Cons p ps)
  obtain H' sc' where p: "scanRecords (wire p) sc = ([want p], sc')" "tracks cfg H' sc'" "settled sc'"
    using Cons.prems(1) [OF Cons.prems(2,3), of p] by (metis list.set_intros(1))
  have "fst (scanRecords (concat (map wire ps)) sc') = map want ps"
    by (rule Cons.IH [OF Cons.prems(1) p(2,3)]) auto
  then show ?case using p(1) by (simp add: scanRecords_append split_beta Let_def)
qed simp

text \<open>A stream of records through one encoder.\<close>

fun encodeAll :: "DelimiterEncoder \<Rightarrow> u8 list list \<Rightarrow> u8 list" where
  "encodeAll enc [] = []"
| "encodeAll enc (r # rs) = (let (_, out, enc) = encode enc r in out @ encodeAll enc rs)"

lemma framerConfigure_result:
  assumes "framerConfigure c0 = Inr cfg"
  shows "configureDelimiter c0 = Inr cfg" "framerRefusal cfg = None"
  using assms by (auto simp: framerConfigure_def split: sum.splits option.splits)

lemma prepareEncoder_result:
  assumes "prepareEncoder cfg e0 = Inr enc"
  shows "encoderConfig enc = cfg" "closingItems enc = delimiterEmitValues (endDelimiter cfg) (bitsPerItem cfg) (bitOrder cfg)"
    "frameOpen cfg = OpenDelimiter \<Longrightarrow> openingItems enc = closingItems enc"
    "escapeReverse enc = fold (\<lambda>(escaped, original) reverse. reverse[unat original := escaped]) (escapeMap cfg)
                      (map (\<lambda>v. of_nat v) [0..<256])"
    "packBits cfg \<noteq> 0 \<Longrightarrow> \<exists>p. configureRepack p (packBits cfg) 1 (packOrder cfg) MsbFirst = Inr (unpack enc)"
  using assms by (auto simp: prepareEncoder_def Let_def split: if_splits sum.splits)

lemma framing_delimiter:
  assumes "framing cfg"
  defines "ds \<equiv> delimiterEmitValues (endDelimiter cfg) (bitsPerItem cfg) (bitOrder cfg)"
  shows "streamBits cfg ds = endText cfg" "length ds = endItems cfg"
proof -
  note f = framing_facts [OF assms(1)]
  have w: "0 < bitsPerItem cfg" using f(1) by simp
  have "bitsPerItem cfg dvd length (endDelimiter cfg)"
    using f(4) by (simp add: endText_def)
  from delimiterEmitValues_bits [OF w f(2) this] show bits: "streamBits cfg ds = endText cfg"
    by (simp add: ds_def endText_def)
  then have "length ds * bitsPerItem cfg = endItems cfg * bitsPerItem cfg"
    using f(4) by (metis length_streamBits)
  then show "length ds = endItems cfg" using w by simp
qed

subsection \<open>Byte escaping\<close>

lemma byte_index [simp]: "unat (z :: u8) < 256" "unat (y :: u8) = unat z \<longleftrightarrow> y = z"
  using unsigned_less [of z, where 'a = nat] by (simp_all add: word_unat_eq_iff)

text \<open>The tables of an accepted escape map.\<close>

lemma addEscapes_result:
  assumes "addEscapes ps table mapped originals = Inr (t, m, o')"
    "length table = 256" "length mapped = 256" "length originals = 256"
  shows "(\<forall>x. m ! unat (x :: u8) \<longleftrightarrow> mapped ! unat x \<or> x \<in> fst ` set ps) \<and>
    (\<forall>x. o' ! unat (x :: u8) \<longleftrightarrow> originals ! unat x \<or> x \<in> snd ` set ps) \<and>
    (\<forall>e x. (e, x) \<in> set ps \<longrightarrow> t ! unat e = x \<and> \<not> mapped ! unat e) \<and>
    (\<forall>e. e \<notin> fst ` set ps \<longrightarrow> t ! unat e = table ! unat e)"
  using assms
proof (induction ps table mapped originals rule: addEscapes.induct)
  case (2 e x ps table mapped originals)
  from "2.prems" have fresh: "\<not> mapped ! unat e"
    and rec: "addEscapes ps (table[unat e := x]) (mapped[unat e := True]) (originals[unat x := True]) = Inr (t, m, o')"
    by (auto split: if_splits)
  note IH = "2.IH" [OF fresh rec, simplified length_list_update, OF "2.prems"(2-4)]
  note upd = nth_list_update "2.prems"(2-4)
  show ?case
  proof (intro conjI allI impI)
    fix y :: u8
    show "m ! unat y \<longleftrightarrow> mapped ! unat y \<or> y \<in> fst ` set ((e, x) # ps)"
      using IH [THEN conjunct1, rule_format, of y] by (simp add: upd)
    show "o' ! unat y \<longleftrightarrow> originals ! unat y \<or> y \<in> snd ` set ((e, x) # ps)"
      using IH [THEN conjunct2, THEN conjunct1, rule_format, of y] by (simp add: upd)
  next
    fix y z assume yz: "(y, z) \<in> set ((e, x) # ps)"
    note old = IH [THEN conjunct2, THEN conjunct2, THEN conjunct1, rule_format, of y z]
      and other = IH [THEN conjunct2, THEN conjunct2, THEN conjunct2, rule_format, of y]
    have "t ! unat y = z \<and> \<not> mapped ! unat y"
    proof (cases "(y, z) \<in> set ps")
      case True
      with old have "t ! unat y = z" "\<not> mapped[unat e := True] ! unat y" by simp_all
      then show ?thesis by (simp add: upd split: if_splits)
    next
      case False
      with yz have yz: "y = e" "z = x" by simp_all
      have "e \<notin> fst ` set ps"
      proof
        assume "e \<in> fst ` set ps"
        then obtain w where "(e, w) \<in> set ps" by force
        with IH [THEN conjunct2, THEN conjunct2, THEN conjunct1, rule_format, of e w] show False by (simp add: upd)
      qed
      with other fresh show ?thesis by (simp add: yz upd)
    qed
    then show "t ! unat y = z" "\<not> mapped ! unat y" by simp_all
  next
    fix y assume "y \<notin> fst ` set ((e, x) # ps)"
    with IH [THEN conjunct2, THEN conjunct2, THEN conjunct2, rule_format, of y] show "t ! unat y = table ! unat y"
      by (auto simp: upd)
  qed
qed simp

lemma escape_tables:
  assumes "configureDelimiter c0 = Inr cfg"
  shows "escapeMapped cfg ! unat (x :: u8) \<longleftrightarrow> x \<in> fst ` set (escapeMap cfg)"
    "escapeOriginal cfg ! unat (x :: u8) \<longleftrightarrow> x \<in> snd ` set (escapeMap cfg)"
    "(e, x) \<in> set (escapeMap cfg) \<Longrightarrow> escapeTable cfg ! unat e = x"
proof -
  from addEscapes_result [OF configureDelimiter_result(10) [OF assms]]
  show "escapeMapped cfg ! unat (x :: u8) \<longleftrightarrow> x \<in> fst ` set (escapeMap cfg)"
    "escapeOriginal cfg ! unat (x :: u8) \<longleftrightarrow> x \<in> snd ` set (escapeMap cfg)"
    "(e, x) \<in> set (escapeMap cfg) \<Longrightarrow> escapeTable cfg ! unat e = x"
    by auto
qed

subsection \<open>Accepting a configuration\<close>

definition sameSettings :: "DelimiterConfig \<Rightarrow> DelimiterConfig \<Rightarrow> bool" where
  "sameSettings c d \<longleftrightarrow>
     endDelimiter d = endDelimiter c \<and> startDelimiter d = startDelimiter c \<and> frameOpen d = frameOpen c \<and>
     bitsPerItem d = bitsPerItem c \<and> bitOrder d = bitOrder c \<and> transparency d = transparency c \<and>
     stuffAfterOnes d = stuffAfterOnes c \<and> abortOnes d = abortOnes c \<and> escapeItem d = escapeItem c \<and>
     escapeMap d = escapeMap c \<and> maxPayloadItems d = maxPayloadItems c \<and> minPayloadItems d = minPayloadItems c \<and>
     packBits d = packBits c \<and> packOrder d = packOrder c"

lemma addEscapes_accepts:
  "distinct (map fst ps) \<Longrightarrow> \<forall>e\<in>fst ` set ps. \<not> mapped ! unat e \<Longrightarrow>
    \<exists>t m o'. addEscapes ps table mapped originals = Inr (t, m, o')"
  by (induction ps table mapped originals rule: addEscapes.induct) (auto simp: nth_list_update image_iff)

lemma configureDelimiter_accepts:
  assumes "settingsRefusal c = None" "length (escapeMap c) \<le> 256" "distinct (map fst (escapeMap c))"
    "parseDelimiter (endDelimiter c) (bitsPerItem c) = Inr e" "parseDelimiter (startDelimiter c) (bitsPerItem c) = Inr b"
    "\<not> (transparency c = BitStuffing \<and> abortOnes c \<noteq> 0 \<and>
      abortOnes c \<le> max (longestOneRun (startDelimiter c)) (longestOneRun (endDelimiter c)))"
    "stuffingRefusal c = None"
    "transparency c = ByteEscape \<Longrightarrow>
      (\<forall>v\<in>set (delimiterItemValues (endDelimiter c) (bitsPerItem c)). v \<noteq> escapeItem c \<and> v \<notin> fst ` set (escapeMap c))"
  obtains cfg where "configureDelimiter c = Inr cfg" "sameSettings c cfg"
proof -
  have "\<forall>x\<in>fst ` set (escapeMap c). \<not> replicate 256 False ! unat (x :: u8)" by simp
  from addEscapes_accepts [OF assms(3) this] obtain t m o' where
    t: "addEscapes (escapeMap c) (map (\<lambda>v. of_nat v) [0..<256]) (replicate 256 False) (replicate 256 False) = Inr (t, m, o')"
    by blast
  have "m ! unat x \<longleftrightarrow> x \<in> fst ` set (escapeMap c)" for x :: u8
    using addEscapes_result [OF t] by simp
  then have refuse: "escapeRefusal c m = None"
    using assms(8) by (auto simp: escapeRefusal_def find_None_iff)
  obtain eb em sb sm where eb: "e = (eb, em)" "b = (sb, sm)" by (metis surj_pair)
  have pack: "packBits c \<le> 8" using assms(1) by (auto simp: settingsRefusal_def Let_def split: if_splits)
  have len: "\<not> length (escapeMap c) > 256" using assms(2) by simp
  show thesis
  proof (cases "packBits c = 0")
    case True
    note D = configureDelimiter_def [of c] and cases = option.case sum.case prod.case
    note D = D [unfolded Let_def assms(1) option.case if_not_P [OF len] t cases assms(4) assms(5) eb cases
      if_not_P [OF assms(6)] assms(7) refuse cases]
    show thesis
    proof (rule that)
      show "configureDelimiter c = Inr (projr (configureDelimiter c))" by (simp add: D True)
      show "sameSettings c (projr (configureDelimiter c))" by (simp add: D True sameSettings_def)
    qed
  next
    case False
    then obtain p where p: "configureRepack (pack c) 1 (packBits c) MsbFirst (packOrder c) = Inr p"
      using pack by (simp add: configureRepack_def Let_def)
    note D = configureDelimiter_def [of c] and cases = option.case sum.case prod.case
    note D = D [unfolded Let_def assms(1) option.case if_not_P [OF len] t cases assms(4) assms(5) eb cases
      if_not_P [OF assms(6)] assms(7) refuse cases]
    show thesis
    proof (rule that)
      show "configureDelimiter c = Inr (projr (configureDelimiter c))"
        by (simp add: D False p [unfolded One_nat_def])
      show "sameSettings c (projr (configureDelimiter c))"
        by (simp add: D False p [unfolded One_nat_def] sameSettings_def)
    qed
  qed
qed

lemma framerConfigure_accepts:
  assumes "settingsRefusal c = None" "length (escapeMap c) \<le> 256" "distinct (map fst (escapeMap c))"
    "parseDelimiter (endDelimiter c) (bitsPerItem c) = Inr e" "parseDelimiter (startDelimiter c) (bitsPerItem c) = Inr b"
    "\<not> (transparency c = BitStuffing \<and> abortOnes c \<noteq> 0 \<and>
      abortOnes c \<le> max (longestOneRun (startDelimiter c)) (longestOneRun (endDelimiter c)))"
    "stuffingRefusal c = None"
    "transparency c = ByteEscape \<Longrightarrow>
      (\<forall>v\<in>set (delimiterItemValues (endDelimiter c) (bitsPerItem c)). v \<noteq> escapeItem c \<and> v \<notin> fst ` set (escapeMap c))"
    "transparency c = ByteEscape \<Longrightarrow>
      set (delimiterEmitValues (endDelimiter c) (bitsPerItem c) (bitOrder c)) \<union>
      set (delimiterEmitValues (startDelimiter c) (bitsPerItem c) (bitOrder c)) \<union> {escapeItem c} \<subseteq> snd ` set (escapeMap c)"
  obtains cfg where "framerConfigure c = Inr cfg" "sameSettings c cfg"
proof -
  obtain cfg where cfg: "configureDelimiter c = Inr cfg" "sameSettings c cfg"
    by (rule configureDelimiter_accepts [OF assms(1-8)])
  have "framerRefusal cfg = None"
  proof (cases "transparency cfg = ByteEscape")
    case True
    then have all: "escapeOriginal cfg ! unat v"
      if "v \<in> set (delimiterEmitValues (endDelimiter cfg) (bitsPerItem cfg) (bitOrder cfg)) \<or>
        v \<in> set (delimiterEmitValues (startDelimiter cfg) (bitsPerItem cfg) (bitOrder cfg)) \<or> v = escapeItem cfg" for v
      using assms(9) cfg(2) that unfolding escape_tables(2) [OF cfg(1)] sameSettings_def by auto
    have "find (\<lambda>v. \<not> escapeOriginal cfg ! unat v) (delimiterEmitValues (endDelimiter cfg) (bitsPerItem cfg) (bitOrder cfg)) = None"
      "find (\<lambda>v. \<not> escapeOriginal cfg ! unat v) (delimiterEmitValues (startDelimiter cfg) (bitsPerItem cfg) (bitOrder cfg)) = None"
      unfolding find_None_iff using all by blast+
    then show ?thesis using all by (simp add: framerRefusal_def)
  qed (simp add: framerRefusal_def)
  with cfg that show thesis by (simp add: framerConfigure_def)
qed

lemma reverse_table:
  assumes "length rs = 256" "x \<in> snd ` set ps"
  shows "(fold (\<lambda>(escaped, original) reverse. reverse[unat original := escaped]) ps rs ! unat (x :: u8), x) \<in> set ps"
  using assms
proof (induction ps rule: rev_induct)
  case (snoc p ps)
  have len: "length (fold (\<lambda>(escaped, original) reverse. reverse[unat original := escaped]) ps rs) = 256"
    using snoc.prems(1) by (induction ps rule: rev_induct) (auto split: prod.splits)
  show ?case
    using snoc len by (cases p; cases "snd p = x") (auto simp: nth_list_update)
qed simp

definition escapeCoded :: "DelimiterEncoder \<Rightarrow> u8 list \<Rightarrow> u8 list" where
  "escapeCoded enc payload =
     concat (map (\<lambda>x. if escapeOriginal (encoderConfig enc) ! unat x
                      then [escapeItem (encoderConfig enc), escapeReverse enc ! unat x] else [x]) payload)"

lemma encode_escaped:
  assumes "transparency (encoderConfig enc) = ByteEscape" "packBits (encoderConfig enc) = 0"
  shows "encode enc p = (\<lparr>emitted = length (openingItems enc @ escapeCoded enc p @ closingItems enc),
      inserted = length (filter (\<lambda>x. escapeOriginal (encoderConfig enc) ! unat x) p), forged = 0\<rparr>,
    openingItems enc @ escapeCoded enc p @ closingItems enc, enc)"
proof -
  have "fold (encodeItem enc) p s = s\<lparr>outItems := outItems s @ escapeCoded enc p,
      insertedCount := insertedCount s + length (filter (\<lambda>x. escapeOriginal (encoderConfig enc) ! unat x) p)\<rparr>" for s
    by (induction p arbitrary: s) (simp_all add: encodeItem_def assms(1) escapeCoded_def)
  then show ?thesis by (simp add: encode_def Let_def assms)
qed

lemma decode_escaped:
  assumes cfg: "configureDelimiter c0 = Inr cfg" "transparency cfg = ByteEscape"
    and enc: "encoderConfig enc = cfg" "escapeReverse enc = fold (\<lambda>(escaped, original) reverse. reverse[unat original := escaped]) (escapeMap cfg)
                      (map (\<lambda>v. of_nat v) [0..<256])"
    and intro': "escapeOriginal cfg ! unat (escapeItem cfg)"
  shows "decodeItems cfg (escapeCoded enc p) (n, False) = Some (p, n, False)"
proof (induction p)
  case (Cons x p)
  show ?case
  proof (cases "escapeOriginal cfg ! unat x")
    case True
    then have "(escapeReverse enc ! unat x, x) \<in> set (escapeMap cfg)"
      unfolding enc(2) using escape_tables(2) [OF cfg(1)] by (intro reverse_table) auto
    then have "escapeTable cfg ! unat (escapeReverse enc ! unat x) = x" by (rule escape_tables(3) [OF cfg(1)])
    then show ?thesis using True Cons by (simp add: escapeCoded_def enc(1) decodeStep_def cfg(2))
  next
    case False
    then have "x \<noteq> escapeItem cfg" using intro' by auto
    then show ?thesis using False Cons by (simp add: escapeCoded_def enc(1) decodeStep_def cfg(2))
  qed
qed (simp add: escapeCoded_def)

lemma keyBits_inj8:
  assumes "bitsPerItem cfg = 8" "keyBits cfg x = keyBits cfg y"
  shows "x = y"
proof -
  have "take_bit 8 x = take_bit 8 y"
    using assms packItem_itemBits [of "bitOrder cfg" 8 x] packItem_itemBits [of "bitOrder cfg" 8 y]
    by (simp add: keyBits_def)
  then show ?thesis by (simp add: take_bit_word_eq_self)
qed

text \<open>With whole bytes a suffix of the bit history is a suffix of the items.\<close>

lemma suffix_items:
  assumes "\<And>x. length (K x) = w" "0 < w" "suffix (concat (map K ds)) (concat (map K xs))"
  shows "map K ds = map K (drop (length xs - length ds) xs)"
proof -
  have len: "length (concat (map K zs)) = length zs * w" for zs by (induction zs) (simp_all add: assms(1))
  have le: "length ds \<le> length xs"
    using suffix_length_le [OF assms(3)] assms(2) by (simp add: len)
  let ?t = "take (length xs - length ds) xs" and ?d = "drop (length xs - length ds) xs"
  have "concat (map K xs) = concat (map K ?t) @ concat (map K ?d)"
    by (metis append_take_drop_id concat_append map_append)
  moreover have "length (concat (map K ?d)) = length (concat (map K ds))" using le by (simp add: len)
  ultimately have eq: "concat (map K ds) = concat (map K ?d)"
    using assms(3) unfolding suffix_def by (metis append_eq_append_conv)
  show ?thesis
  proof (rule concat_eq_concat_iff [THEN iffD1, OF _ _ eq])
    show "\<forall>(x, y)\<in>set (zip (map K ds) (map K ?d)). length x = length y"
      by (auto simp: set_zip assms(1))
  qed (use le in simp)
qed

lemma escaped_no_match:
  assumes cfg: "framing cfg" "transparency cfg = ByteEscape"
    and ds: "streamBits cfg ds = endText cfg" "length ds = endItems cfg" and disjoint: "set cs \<inter> set ds = {}" "cs \<noteq> []"
    and ys: "ys \<noteq> []" "strict_prefix ys (cs @ ds)"
  shows "\<not> matches cfg (endText cfg @ streamBits cfg ys)"
proof
  assume m: "matches cfg (endText cfg @ streamBits cfg ys)"
  note f = framing_facts [OF cfg(1)]
  let ?n = "endItems cfg" and ?xs = "ds @ ys"
  have "suffix (concat (map (keyBits cfg) ds)) (concat (map (keyBits cfg) ?xs))"
    using m by (simp add: matches_def ds(1) [symmetric] streamBits_def)
  from suffix_items [OF length_keyBits _ this] f(1)
  have eq: "map (keyBits cfg) ds = map (keyBits cfg) (drop (length ?xs - ?n) ?xs)" by (simp add: ds(2))
  have inj: "inj (keyBits cfg)" using keyBits_inj8 [OF f(14) [OF cfg(2)]] by (auto intro: injI)
  have tail: "set (drop (length ys) ?xs) = set ds"
    using eq ds(2) inj by (simp add: inj_map_eq_map del: drop_append)
  have "\<exists>c\<in>set cs. c \<in> set (drop (length ys) ?xs)"
  proof (cases "length ys \<le> ?n")
    case True
    have "drop (length ys) ?xs = drop (length ys) ds @ ys" using True ds(2) by simp
    moreover have "hd ys \<in> set cs" using ys disjoint(2)
      by (cases cs; cases ys) (auto simp: strict_prefix_def)
    ultimately show ?thesis using ys(1) by (intro bexI [of _ "hd ys"]) auto
  next
    case False
    let ?i = "length ys - ?n"
    have drop: "drop (length ys) ?xs = drop ?i ys" using False ds(2) by simp
    have len: "length ys < length cs + ?n" using prefix_length_less [OF ys(2)] ds(2) by simp
    then have "?i < length cs" "?i < length ys" using False f(3) by simp_all
    moreover obtain zs where "cs @ ds = ys @ zs" using ys(2) by (auto simp: strict_prefix_def prefix_def)
    then have "ys ! ?i = (cs @ ds) ! ?i" using \<open>?i < length ys\<close> by (metis nth_append)
    ultimately have "ys ! ?i \<in> set cs" by (simp add: nth_append)
    moreover have "ys ! ?i \<in> set (drop ?i ys)" using \<open>?i < length ys\<close> by (metis Cons_nth_drop_Suc list.set_intros(1))
    ultimately show ?thesis unfolding drop by blast
  qed
  with tail disjoint(1) show False by auto
qed

lemma find_None_all: "find P xs = None \<longleftrightarrow> (\<forall>x\<in>set xs. \<not> P x)"
  by (auto simp: find_None_iff)

text \<open>
  The acceptance checks compare the delimiter's items before bit ordering, so under \<open>LsbFirst\<close> they do not say that its
  wire items avoid the introducer and the escaped values; under \<open>MsbFirst\<close> they do.
\<close>

definition wireItemsPlain :: "DelimiterConfig \<Rightarrow> bool" where
  "wireItemsPlain cfg \<longleftrightarrow> (\<forall>v\<in>set (delimiterEmitValues (endDelimiter cfg) (bitsPerItem cfg) (bitOrder cfg)).
     v \<noteq> escapeItem cfg \<and> v \<notin> fst ` set (escapeMap cfg))"

lemma escaped_delimiter:
  assumes c0: "framerConfigure c0 = Inr cfg" "transparency cfg = ByteEscape" "bitOrder cfg = MsbFirst \<or> wireItemsPlain cfg" "endDelimiter cfg \<noteq> []"
    and v: "v \<in> set (delimiterEmitValues (endDelimiter cfg) (bitsPerItem cfg) (bitOrder cfg))"
  shows "escapeOriginal cfg ! unat v" "\<not> escapeMapped cfg ! unat v" "v \<noteq> escapeItem cfg"
proof -
  note r = framerConfigure_result [OF c0(1)]
  show "escapeOriginal cfg ! unat v"
    using r(2) v c0(2) by (auto simp: framerRefusal_def Let_def find_None_all split: option.splits)
  have "bitsPerItem cfg = 8"
    using configureDelimiter_result(1) [OF r(1)] c0(2) by (auto simp: settingsRefusal_def Let_def split: if_splits)
  have msb: "delimiterEmitValues (endDelimiter cfg) (bitsPerItem cfg) MsbFirst = delimiterItemValues (endDelimiter cfg) (bitsPerItem cfg)"
  proof -
    have "orderedLowBits (ucast x) 8 MsbFirst = x" for x :: u8
      by (rule bit_word_eqI) (auto simp: bit_orderedLowBits bit_ucast_iff)
    then show ?thesis using \<open>bitsPerItem cfg = 8\<close> by (simp add: delimiterEmitValues_def)
  qed
  have "\<not> escapeMapped cfg ! unat v \<and> v \<noteq> escapeItem cfg"
  proof (cases "wireItemsPlain cfg")
    case True
    then show ?thesis using v escape_tables(1) [OF r(1)] by (auto simp: wireItemsPlain_def)
  next
    case False
    then have "v \<in> set (delimiterItemValues (endDelimiter cfg) (bitsPerItem cfg))" using c0(3) v msb by simp
    with configureDelimiter_result(3) [OF r(1)] c0(2,4) show ?thesis by (auto simp: escapeRefusal_def find_None_all)
  qed
  then show "\<not> escapeMapped cfg ! unat v" "v \<noteq> escapeItem cfg" by simp_all
qed

lemma escapeCoded_items:
  assumes "x \<in> set (escapeCoded enc p)"
  shows "x = escapeItem (encoderConfig enc) \<or>
    (\<exists>y :: u8. escapeOriginal (encoderConfig enc) ! unat y \<and> x = escapeReverse enc ! unat y) \<or>
    \<not> escapeOriginal (encoderConfig enc) ! unat x"
  using assms by (induction p) (auto simp: escapeCoded_def split: if_splits)

lemma decode_plain:
  assumes "transparency cfg = ByteEscape" "escapeItem cfg \<notin> set zs"
  shows "decodeItems cfg zs (n, False) = Some (zs, n, False)"
  using assms(2) by (induction zs) (auto simp: decodeStep_def assms(1))

lemma decodeItems_some_append:
  "decodeItems cfg xs st = Some (us, st1) \<Longrightarrow> decodeItems cfg ys st1 = Some (vs, st2) \<Longrightarrow>
    decodeItems cfg (xs @ ys) st = Some (us @ vs, st2)"
  by (simp add: decodeItems_append)

text \<open>C24. A stream of records framed one after the other under byte escaping, each frame opened and
  closed by the same delimiter, is scanned back as exactly those records, in order and all emitted,
  for every delimiter length, every escape map framerConfigure accepts and every payload within the
  bounds, provided the delimiter's wire items are neither the introducer nor escaped values, which
  acceptance guarantees under MsbFirst and does not check under LsbFirst.\<close>

theorem byte_escape_stream_roundtrip:
  assumes c0: "framerConfigure c0 = Inr cfg" "prepareEncoder cfg e0 = Inr enc"
    and cfg: "transparency cfg = ByteEscape" "frameOpen cfg = OpenDelimiter" "bitOrder cfg = MsbFirst \<or> wireItemsPlain cfg"
      "endDelimiter cfg \<noteq> []"
    and ps: "\<forall>p\<in>set ps. minPayloadItems cfg \<le> length p \<and> length p \<le> maxPayloadItems cfg"
      "maxPayloadItems cfg \<noteq> 0"
  shows "fst (scanRecords (encodeAll enc ps) (prepareScanner cfg sc0)) = map (\<lambda>p. (Emitted, p)) ps"
proof -
  note r = framerConfigure_result [OF c0(1)] and e = prepareEncoder_result [OF c0(2)]
  have fr: "framing cfg" using r(1) cfg ps(2) by (auto simp: framing_def)
  note f = framing_facts [OF fr] and d = framing_delimiter [OF fr]
  let ?ds = "delimiterEmitValues (endDelimiter cfg) (bitsPerItem cfg) (bitOrder cfg)"
  note member = escaped_delimiter [OF c0(1) cfg(1,3,4)]
  have pack: "packBits cfg = 0"
    using configureDelimiter_result(1) [OF r(1)] cfg(1) by (auto simp: settingsRefusal_def Let_def split: if_splits)
  have wire: "encodeAll enc qs = concat (map (\<lambda>p. ?ds @ escapeCoded enc p @ ?ds) qs)" for qs
    using e(1-3) cfg(1,2) pack by (induction qs) (simp_all add: encode_escaped)
  have intro': "escapeOriginal cfg ! unat (escapeItem cfg)"
    using r(2) cfg(1) by (auto simp: framerRefusal_def Let_def split: option.splits if_splits)
  have disjoint: "set (escapeCoded enc p) \<inter> set ?ds = {}" for p
  proof -
    have "x \<notin> set ?ds" if x: "x \<in> set (escapeCoded enc p)" for x
    proof
      assume m: "x \<in> set ?ds"
      from escapeCoded_items [OF x] member [OF m] obtain y :: u8 where y: "escapeOriginal cfg ! unat y" "x = escapeReverse enc ! unat y"
        by (auto simp: e(1))
      have "(x, y) \<in> set (escapeMap cfg)"
        unfolding y(2) e(4) using y(1) escape_tables(2) [OF r(1)] by (intro reverse_table) auto
      then have "x \<in> fst ` set (escapeMap cfg)" by force
      then show False using member(2) [OF m] escape_tables(1) [OF r(1)] by simp
    qed
    then show ?thesis by auto
  qed
  have frame: "\<exists>H' sc'. scanRecords (?ds @ escapeCoded enc p @ ?ds) sc = ([(Emitted, p)], sc') \<and> tracks cfg H' sc' \<and> settled sc'"
    if "tracks cfg H sc" "settled sc" "p \<in> set ps" for H sc p
  proof -
    have p: "minPayloadItems cfg \<le> length p" "length p \<le> maxPayloadItems cfg" using ps(1) that(3) by auto
    then have ne: "p \<noteq> []" using f(11) by auto
    have pure: "escapeItem cfg \<notin> set zs" if "set zs \<subseteq> set ?ds" for zs using that member(3) by blast
    have "regionVerdict cfg p = Emitted" "regionItems cfg p = p" using p pack by (simp_all add: regionVerdict_def regionItems_def)
    moreover have "\<exists>H' sc'. scanRecords (?ds @ escapeCoded enc p @ ?ds) sc = ([(regionVerdict cfg p, regionItems cfg p)], sc') \<and>
        tracks cfg H' sc' \<and> settled sc'"
    proof (rule scan_frame [OF fr that(1,2) d])
      show "decodeItems cfg zs (0, False) \<noteq> None" if "suffix zs (butlast ?ds)" for zs
        using decode_plain [OF cfg(1) pure] that by (metis in_set_butlastD option.distinct(1) set_mono_suffix subset_eq)
      show "\<not> matches cfg (endText cfg @ streamBits cfg ys)" if "ys \<noteq> []" "strict_prefix ys (escapeCoded enc p @ ?ds)" for ys
        using ne by (intro escaped_no_match [OF fr cfg(1) d disjoint _ that]) (cases p; simp add: escapeCoded_def)
      show "decodeItems cfg (escapeCoded enc p @ butlast ?ds) (0, False) = Some (p @ butlast ?ds, 0, False)"
        by (rule decodeItems_some_append [OF decode_escaped [OF r(1) cfg(1) e(1,4) intro'] decode_plain [OF cfg(1) pure]])
          (auto dest: in_set_butlastD)
      show "length (butlast ?ds) = endItems cfg - 1" using d(2) by simp
    qed (use ne p in simp_all)
    ultimately show ?thesis by simp
  qed
  show ?thesis unfolding wire by (rule scan_frames [OF frame prepared_tracks [OF fr]])
qed

definition slipSettings :: DelimiterConfig where
  "slipSettings = defaultDelimiterConfig
     \<lparr>endDelimiter := ''11000000'', bitsPerItem := 8, transparency := ByteEscape,
      escapeItem := 0xDB, escapeMap := [(0xDC, 0xC0), (0xDD, 0xDB)], maxPayloadItems := 4\<rparr>"

lemma byte_escape_stream_roundtrip_witness:
  "\<exists>cfg enc. framerConfigure slipSettings = Inr cfg \<and> prepareEncoder cfg defaultEncoder = Inr enc \<and>
    fst (scanRecords (encodeAll enc [[0xC0, 1], [0xDB]]) (prepareScanner cfg defaultScanner)) =
      [(Emitted, [0xC0, 1]), (Emitted, [0xDB])]"
proof -
  have vals: "delimiterItemValues ''11000000'' 8 = [0xC0]" "delimiterEmitValues ''11000000'' 8 MsbFirst = [0xC0]"
    by code_simp+
  note def = slipSettings_def defaultDelimiterConfig_def
  have a1: "settingsRefusal slipSettings = None" by (simp add: def settingsRefusal_def)
  have a2: "length (escapeMap slipSettings) \<le> 256" "distinct (map fst (escapeMap slipSettings))" by (simp_all add: def)
  have "case parseDelimiter ''11000000'' 8 of Inl _ \<Rightarrow> False | Inr _ \<Rightarrow> True" by code_simp
  then obtain e where a3: "parseDelimiter (endDelimiter slipSettings) (bitsPerItem slipSettings) = Inr e"
    by (auto simp: def split: sum.splits)
  have a4: "parseDelimiter (startDelimiter slipSettings) (bitsPerItem slipSettings) = Inr (0, 0)"
    by (simp add: def parseDelimiter_def)
  have a5: "\<not> (transparency slipSettings = BitStuffing \<and> P)" "stuffingRefusal slipSettings = None" for P
    by (simp_all add: def stuffingRefusal_def)
  have a6: "\<forall>v\<in>set (delimiterItemValues (endDelimiter slipSettings) (bitsPerItem slipSettings)).
      v \<noteq> escapeItem slipSettings \<and> v \<notin> fst ` set (escapeMap slipSettings)"
    by (simp add: def vals)
  have a7: "set (delimiterEmitValues (endDelimiter slipSettings) (bitsPerItem slipSettings) (bitOrder slipSettings)) \<union>
      set (delimiterEmitValues (startDelimiter slipSettings) (bitsPerItem slipSettings) (bitOrder slipSettings)) \<union>
      {escapeItem slipSettings} \<subseteq> snd ` set (escapeMap slipSettings)"
    by (simp add: def vals) (simp add: delimiterEmitValues_def delimiterItemValues_def)
  obtain cfg where cfg: "framerConfigure slipSettings = Inr cfg" "sameSettings slipSettings cfg"
    by (rule framerConfigure_accepts [OF a1 a2 a3 a4 a5 a6 a7])
  then have f: "transparency cfg = ByteEscape" "frameOpen cfg = OpenDelimiter"
    "bitOrder cfg = MsbFirst" "endDelimiter cfg \<noteq> []" "minPayloadItems cfg = 1" "maxPayloadItems cfg = 4" "packBits cfg = 0"
    by (simp_all add: sameSettings_def slipSettings_def defaultDelimiterConfig_def)
  then obtain enc where "prepareEncoder cfg defaultEncoder = Inr enc" by (simp add: prepareEncoder_def Let_def)
  with cfg f byte_escape_stream_roundtrip [OF cfg(1) this f(1,2) disjI1 [OF f(3)] f(4), of "[[0xC0, 1], [0xDB]]" defaultScanner] show ?thesis by simp
qed

subsection \<open>Bit stuffing\<close>

text \<open>The flag family of ISO/IEC 13239: a zero, a run of ones longer than the stuffed one, a zero.\<close>

definition flagText :: "nat \<Rightarrow> string" where
  "flagText m = CHR ''0'' # replicate m (CHR ''1'') @ [CHR ''0'']"

fun stuff :: "nat \<Rightarrow> nat \<Rightarrow> u8 list \<Rightarrow> u8 list" where
  "stuff s n [] = []"
| "stuff s n (x # xs) =
     (if sliceBit x then (if n + 1 = s then x # 0 # stuff s 0 xs else x # stuff s (n + 1) xs)
      else x # stuff s 0 xs)"

fun stuffCount :: "nat \<Rightarrow> nat \<Rightarrow> u8 list \<Rightarrow> nat" where
  "stuffCount s n [] = 0"
| "stuffCount s n (x # xs) =
     (if sliceBit x then (if n + 1 = s then Suc (stuffCount s 0 xs) else stuffCount s (n + 1) xs)
      else stuffCount s 0 xs)"

lemma length_stuff: "length (stuff s n xs) = length xs + stuffCount s n xs"
  by (induction s n xs rule: stuff.induct) auto

text \<open>The pack stage, one bit per item: the wire payload of a record, and the record back.\<close>

definition unpackBits :: "nat \<Rightarrow> BitOrder \<Rightarrow> u8 list \<Rightarrow> u8 list" where
  "unpackBits k order r = map (\<lambda>i. of_bool (bit (r ! (i div k)) (fieldPosition order k (i mod k)))) [0..<length r * k]"

definition wirePayload :: "DelimiterConfig \<Rightarrow> u8 list \<Rightarrow> u8 list" where
  "wirePayload cfg r = (if packBits cfg = 0 then r else unpackBits (packBits cfg) (packOrder cfg) r)"

lemma repack_to_bits:
  assumes cfg: "configureRepack c0 k 1 order MsbFirst = Inr cfg" and len: "length out = length r * k"
  shows "repack cfg r out = unpackBits k order r"
proof (rule nth_equalityI)
  note res = configureRepack_result [OF cfg]
  have "inChunk cfg = 1" "outChunk cfg = k" using cfg by (auto simp: configureRepack_def Let_def split: if_splits)
  from repack_items [OF cfg, of r "length r" out] len this
  have items: "length (repack cfg r out) = length out"
    "\<And>i s. i < length out \<Longrightarrow> s < 8 \<Longrightarrow> bit (repack cfg r out ! i) s \<longleftrightarrow> repackedItem cfg r i s" by auto
  then show "length (repack cfg r out) = length (unpackBits k order r)" by (simp add: unpackBits_def len)
  fix i assume "i < length (repack cfg r out)"
  then have i: "i < length out" by (simp add: items)
  show "repack cfg r out ! i = unpackBits k order r ! i"
  proof (rule bit_word_eqI)
    fix s assume "s < LENGTH(8)"
    with items(2) [OF i, of s] show "bit (repack cfg r out ! i) s = bit (unpackBits k order r ! i) s"
      using i len by (auto simp: unpackBits_def repackedItem_def res(5-8) fieldPosition_def [of MsbFirst] bit_1_iff)
  qed
qed

lemma repack_from_bits:
  assumes cfg: "configureRepack c0 1 k MsbFirst order = Inr cfg"
  shows "repack cfg (unpackBits k order r) (replicate (length r) 0) = map (take_bit k) r"
proof (rule nth_equalityI)
  note res = configureRepack_result [OF cfg]
  let ?src = "unpackBits k order r" and ?out = "replicate (length r) (0 :: u8)"
  have "inChunk cfg = k" "outChunk cfg = 1" using cfg by (auto simp: configureRepack_def Let_def split: if_splits)
  from repack_items [OF cfg, of ?src "length r" ?out] this
  have items: "length (repack cfg ?src ?out) = length r"
    "\<And>i s. i < length r \<Longrightarrow> s < 8 \<Longrightarrow> bit (repack cfg ?src ?out ! i) s \<longleftrightarrow> repackedItem cfg ?src i s"
    by (auto simp: unpackBits_def)
  then show "length (repack cfg ?src ?out) = length (map (take_bit k) r)" by simp
  fix i assume "i < length (repack cfg ?src ?out)"
  then have i: "i < length r" by (simp add: items)
  have src: "bit (?src ! (i * k + j)) 0 = bit (r ! i) (fieldPosition order k j)" if "j < k" for j
  proof -
    have "i * k + j < Suc i * k" using that by simp
    also have "\<dots> \<le> length r * k" using i by (intro mult_le_mono1) simp
    finally show ?thesis using that by (simp add: unpackBits_def)
  qed
  show "repack cfg ?src ?out ! i = map (take_bit k) r ! i"
  proof (rule bit_word_eqI)
    fix s assume s: "s < LENGTH(8)"
    have "repackedItem cfg ?src i s \<longleftrightarrow> (\<exists>j<k. fieldPosition order k j = s \<and> bit (r ! i) s)"
      unfolding repackedItem_def res(5-8) Let_def by (auto simp: src fieldPosition_def [of MsbFirst])
    also have "\<dots> \<longleftrightarrow> s < k \<and> bit (r ! i) s" using fieldPosition_less fieldPosition_onto by blast
    finally show "bit (repack cfg ?src ?out ! i) s = bit (map (take_bit k) r ! i) s"
      using items(2) [OF i, of s] s i by (simp add: bit_take_bit_iff)
  qed
qed

lemma encode_stuffed:
  assumes enc: "prepareEncoder cfg e0 = Inr enc0" "enc = enc0\<lparr>payloadScratch := scratch\<rparr>"
    and cfg: "transparency cfg = BitStuffing"
  shows "\<exists>scratch'. encode enc r =
    (\<lparr>emitted = length (openingItems enc0 @ stuff (stuffAfterOnes cfg) 0 (wirePayload cfg r) @ closingItems enc0),
      inserted = stuffCount (stuffAfterOnes cfg) 0 (wirePayload cfg r), forged = 0\<rparr>,
    openingItems enc0 @ stuff (stuffAfterOnes cfg) 0 (wirePayload cfg r) @ closingItems enc0,
    enc0\<lparr>payloadScratch := scratch'\<rparr>)"
proof -
  let ?s = "stuffAfterOnes cfg" and ?p = "wirePayload cfg r"
  note e = prepareEncoder_result [OF enc(1)]
  have loop: "\<exists>k. fold (encodeItem en) p l = l\<lparr>outItems := outItems l @ stuff ?s (onesRun l) p,
      insertedCount := insertedCount l + stuffCount ?s (onesRun l) p, onesRun := k\<rparr>"
    if "encoderConfig en = cfg" for en p l
  proof (induction p arbitrary: l)
    case Nil
    show ?case by (intro exI [of _ "onesRun l"]) simp
  next
    case (Cons x p)
    show ?case using Cons.IH [of "encodeItem en x l"] by (auto simp: encodeItem_def that cfg Let_def)
  qed
  let ?start = "\<lparr>outItems = openingItems enc0, onesRun = 0, registerState = (0, 0), insertedCount = 0, forgedCount = 0\<rparr>"
  have run: "\<exists>k. fold (encodeItem en) p ?start = \<lparr>outItems = openingItems enc0 @ stuff ?s 0 p, onesRun = k,
      registerState = (0, 0), insertedCount = stuffCount ?s 0 p, forgedCount = 0\<rparr>"
    if "encoderConfig en = cfg" for en p
    using loop [OF that, of p ?start] by auto
  show ?thesis
  proof (cases "packBits cfg = 0")
    case True
    obtain k where "fold (encodeItem enc) r ?start = \<lparr>outItems = openingItems enc0 @ stuff ?s 0 r, onesRun = k,
        registerState = (0, 0), insertedCount = stuffCount ?s 0 r, forgedCount = 0\<rparr>"
      using run [of enc r] e(1) by (auto simp: enc(2))
    then show ?thesis using True by (auto simp: encode_def Let_def enc(2) e(1) cfg wirePayload_def)
  next
    case False
    then obtain c where c: "configureRepack c (packBits cfg) 1 (packOrder cfg) MsbFirst = Inr (unpack enc0)" using e(5) by auto
    let ?room = "length r * packBits cfg"
    have bits: "repack (unpack enc0) r (take ?room scratch @ replicate (?room - length scratch) 0) = ?p"
      using repack_to_bits [OF c] False by (simp add: wirePayload_def)
    let ?enc = "enc0\<lparr>payloadScratch := ?p\<rparr>"
    obtain k where "fold (encodeItem ?enc) ?p ?start = \<lparr>outItems = openingItems enc0 @ stuff ?s 0 ?p, onesRun = k,
        registerState = (0, 0), insertedCount = stuffCount ?s 0 ?p, forgedCount = 0\<rparr>"
      using run [of ?enc ?p] e(1) by auto
    then show ?thesis using False bits by (auto simp: encode_def Let_def enc(2) e(1) cfg)
  qed
qed

lemma decode_stuffed:
  assumes cfg: "transparency cfg = BitStuffing" "abortOnes cfg = 0 \<or> stuffAfterOnes cfg < abortOnes cfg"
    and "n < stuffAfterOnes cfg"
  shows "\<exists>n'. n' < stuffAfterOnes cfg \<and> decodeItems cfg (stuff (stuffAfterOnes cfg) n p) (n, False) = Some (p, n', False)"
  using assms(3)
proof (induction p arbitrary: n)
  case (Cons x p)
  let ?s = "stuffAfterOnes cfg"
  have zero: "0 < ?s" using Cons.prems by simp
  have z: "\<not> sliceBit 0" by (simp add: sliceBit_def)
  show ?case
  proof (cases "sliceBit x")
    case True
    have na: "\<not> (abortOnes cfg \<noteq> 0 \<and> Suc n = abortOnes cfg)" using cfg(2) Cons.prems by auto
    show ?thesis
    proof (cases "n + 1 = ?s")
      case True
      with Cons.IH [OF zero] \<open>sliceBit x\<close> na z show ?thesis by (auto simp: decodeStep_def cfg(1))
    next
      case False
      with Cons.IH [of "n + 1"] Cons.prems \<open>sliceBit x\<close> na show ?thesis by (auto simp: decodeStep_def cfg(1))
    qed
  next
    case False
    with Cons.IH [OF zero] Cons.prems show ?thesis by (auto simp: decodeStep_def cfg(1))
  qed
qed simp

text \<open>The run of ones a bit sequence ends in, entered behind \<open>n\<close> ones.\<close>

definition trailing :: "nat \<Rightarrow> bool list \<Rightarrow> nat" where
  "trailing n bs = fold (\<lambda>b n. if b then Suc n else 0) bs n"

lemma trailing_simps [simp]:
  "trailing n [] = n" "trailing n (b # bs) = trailing (if b then Suc n else 0) bs"
  "trailing n (as @ bs) = trailing (trailing n as) bs" "trailing n (replicate k True) = n + k"
proof -
  show "trailing n (replicate k True) = n + k" by (induction k arbitrary: n) (simp_all add: trailing_def)
qed (simp_all add: trailing_def)

lemma trailing_stuffed:
  assumes "bitsPerItem cfg = 1" "n < s" "prefix ys (stuff s n p)"
  shows "trailing n (streamBits cfg ys) \<le> s"
  using assms(2,3)
proof (induction p arbitrary: n ys)
  case (Cons x p)
  have k: "keyBits cfg y = [sliceBit y]" for y using assms(1) by (simp add: keyBits_def)
  have z: "\<not> sliceBit 0" by (simp add: sliceBit_def)
  show ?case
  proof (cases ys)
    case (Cons y zs)
    with Cons.prems(2) have y: "y = x" and zs: "prefix zs (tl (stuff s n (x # p)))" by (auto split: if_splits)
    consider "\<not> sliceBit x" | "sliceBit x" "Suc n \<noteq> s" | "sliceBit x" "Suc n = s" by blast
    then show ?thesis
    proof cases
      case 1
      with zs Cons.IH [of 0 zs] Cons.prems(1) show ?thesis by (simp add: Cons y k)
    next
      case 2
      with zs Cons.IH [of "Suc n" zs] Cons.prems(1) show ?thesis by (simp add: Cons y k)
    next
      case 3
      show ?thesis
      proof (cases zs)
        case Nil
        with 3 show ?thesis by (simp add: Cons y k)
      next
        case (Cons w ws)
        with zs 3 have "w = 0" "prefix ws (stuff s 0 p)" by simp_all
        with Cons.IH [of 0 ws] Cons.prems(1) show ?thesis by (simp add: \<open>ys = y # zs\<close> Cons k z)
      qed
    qed
  qed (use Cons.prems in simp)
qed simp

lemma longestOneRun_flag: "longestOneRun (flagText m) = m"
proof -
  have "fold (\<lambda>c (run, longest). let run = (if c = CHR ''1'' then run + 1 else 0) in (run, max longest run))
      (replicate k (CHR ''1'')) (n, n) = (n + k, n + k)" for k n :: nat
    by (induction k arbitrary: n) simp_all
  from this [of m 0] show ?thesis by (simp add: longestOneRun_def flagText_def)
qed

lemma flag_items:
  assumes "bitsPerItem cfg = 1" "streamBits cfg ds = ones_of (flagText m)"
  obtains d0 us d1 where "ds = d0 # us @ [d1]" "\<not> sliceBit d0" "map sliceBit us = replicate m True" "\<not> sliceBit d1"
proof -
  have "streamBits cfg ds = map sliceBit ds" by (induction ds) (simp_all add: keyBits_def assms(1))
  then have "map sliceBit ds = ones_of (flagText m)" using assms(2) by simp
  also have "\<dots> = False # replicate m True @ [False]" by (simp add: ones_of_def flagText_def)
  finally have "map sliceBit ds = False # replicate m True @ [False]" .
  then obtain d0 rest where "ds = d0 # rest" "\<not> sliceBit d0" "map sliceBit rest = replicate m True @ [False]" by auto
  moreover from this(3) obtain us d1 where "rest = us @ [d1]" "map sliceBit us = replicate m True" "\<not> sliceBit d1"
    by (auto simp: map_eq_append_conv)
  ultimately show thesis by (intro that [of d0 us d1]) simp_all
qed

lemma decode_ones:
  assumes "transparency cfg = BitStuffing" "map sliceBit us = replicate j True" "abortOnes cfg = 0 \<or> n + j < abortOnes cfg"
  shows "decodeItems cfg us (n, False) = Some (us, n + j, False)"
  using assms(2,3)
proof (induction us arbitrary: n j)
  case (Cons u us)
  then obtain i where "j = Suc i" "sliceBit u" "map sliceBit us = replicate i True" by (cases j) auto
  with Cons show ?case by (auto simp: decodeStep_def assms(1))
qed simp

lemma stuffed_no_match:
  assumes cfg: "framing cfg" "transparency cfg = BitStuffing" "endDelimiter cfg = flagText m" "stuffAfterOnes cfg < m"
    "0 < stuffAfterOnes cfg" and ds: "streamBits cfg ds = endText cfg"
    and ys: "ys \<noteq> []" "strict_prefix ys (stuff (stuffAfterOnes cfg) 0 p @ ds)"
  shows "\<not> matches cfg (endText cfg @ streamBits cfg ys)"
proof
  let ?s = "stuffAfterOnes cfg"
  let ?cs = "stuff ?s 0 p"
  assume "matches cfg (endText cfg @ streamBits cfg ys)"
  note w = framing_facts(15) [OF cfg(1,2)]
  have E: "endText cfg = (False # replicate m True) @ [False]" by (simp add: endText_def cfg(3) ones_of_def flagText_def)
  obtain z where z: "endText cfg @ streamBits cfg ys = (z @ False # replicate m True) @ [False]"
    using \<open>matches _ _\<close> E by (auto simp: matches_def suffix_def)
  have key: "keyBits cfg y = [sliceBit y]" for y using w by (simp add: keyBits_def)
  define b where "b = last ys"
  have yb: "ys = butlast ys @ [b]" using ys(1) by (simp add: b_def)
  have "endText cfg @ streamBits cfg ys = (endText cfg @ streamBits cfg (butlast ys)) @ [sliceBit b]"
    by (subst yb) (simp add: key)
  with z have last: "\<not> sliceBit b" "endText cfg @ streamBits cfg (butlast ys) = z @ False # replicate m True"
    by (metis append1_eq_conv)+
  have "trailing 0 (endText cfg) = 0" by (simp add: E)
  then have "trailing 0 (streamBits cfg (butlast ys)) = trailing 0 (endText cfg @ streamBits cfg (butlast ys))"
    by (simp only: trailing_simps(3))
  also have "\<dots> = m" by (simp add: last(2))
  finally have m: "trailing 0 (streamBits cfg (butlast ys)) = m" .
  have bound: "trailing 0 (streamBits cfg zs) \<le> ?s" if "prefix zs ?cs" for zs
    by (rule trailing_stuffed [OF w cfg(5) that])
  have prefix: "prefix (butlast ys) ?cs"
  proof (rule ccontr)
    assume no: "\<not> prefix (butlast ys) ?cs"
    obtain d0 us d1 where d: "ds = d0 # us @ [d1]" "\<not> sliceBit d0" "map sliceBit us = replicate m True" "\<not> sliceBit d1"
      using flag_items [OF w, of ds m] ds by (auto simp: endText_def cfg(3))
    have "prefix ys (?cs @ ds)" using ys(2) by (simp add: strict_prefix_def)
    moreover have "\<not> prefix ys ?cs" using no by (metis prefix_order.trans prefix_def yb)
    ultimately obtain qs where qs: "ys = ?cs @ qs" "prefix qs ds" by (auto simp: prefix_append)
    then have "strict_prefix qs ds" "qs \<noteq> []" using ys(2) \<open>\<not> prefix ys ?cs\<close> by (auto simp: strict_prefix_def)
    moreover have "qs \<noteq> [d0]" using qs no by auto
    ultimately obtain rs where rs: "qs = d0 # rs" "rs \<noteq> []" "prefix rs us"
      using d(1) by (cases qs) (auto simp: strict_prefix_def)
    then have "last rs \<in> set us" "last rs = b" using set_mono_prefix [OF rs(3)] qs(1) by (auto simp: b_def)
    then have "sliceBit b" using d(3) by (metis imageI in_set_replicate list.set_map)
    with last(1) show False by simp
  qed
  from bound [OF this] m cfg(4) show False by simp
qed

text \<open>C3. A stream of records framed under bit stuffing with a flag of the HDLC family is scanned back as
  exactly those records, with the pack stage on or off: stuffing, destuffing, the abort rule and the
  delay ring never lose, invent or merge a frame.\<close>

theorem bit_stuffing_stream_roundtrip:
  assumes c0: "framerConfigure c0 = Inr cfg" "prepareEncoder cfg e0 = Inr enc"
    and cfg: "transparency cfg = BitStuffing" "frameOpen cfg = OpenDelimiter" "endDelimiter cfg = flagText m"
    and rs: "\<forall>r\<in>set rs. minPayloadItems cfg \<le> unpackedItems enc (length r) \<and> unpackedItems enc (length r) \<le> maxPayloadItems cfg"
      "maxPayloadItems cfg \<noteq> 0"
  shows "fst (scanRecords (encodeAll enc rs) (prepareScanner cfg sc0)) =
    map (\<lambda>r. (Emitted, if packBits cfg = 0 then r else map (take_bit (packBits cfg)) r)) rs"
proof -
  note r = framerConfigure_result [OF c0(1)] and e = prepareEncoder_result [OF c0(2)]
  have "endDelimiter cfg \<noteq> []" by (simp add: cfg(3) flagText_def)
  then have fr: "framing cfg" using r(1) cfg rs(2) by (auto simp: framing_def)
  note f = framing_facts [OF fr] and d = framing_delimiter [OF fr] and conf = configureDelimiter_result [OF r(1)]
  have w: "bitsPerItem cfg = 1" by (rule f(15) [OF cfg(1)])
  let ?s = "stuffAfterOnes cfg" and ?ds = "delimiterEmitValues (endDelimiter cfg) (bitsPerItem cfg) (bitOrder cfg)"
  have s: "?s < m" "0 < ?s" and abort: "abortOnes cfg = 0 \<or> m < abortOnes cfg"
    using conf(1,2,11) \<open>endDelimiter cfg \<noteq> []\<close> cfg(1,3)
    by (auto simp: stuffingRefusal_def settingsRefusal_def Let_def longestOneRun_flag split: if_splits)
  obtain d0 us d1 where ds: "?ds = d0 # us @ [d1]" "\<not> sliceBit d0" "map sliceBit us = replicate m True" "\<not> sliceBit d1"
    using flag_items [OF w, of ?ds m] d(1) by (auto simp: endText_def cfg(3))
  then have lead: "butlast ?ds = d0 # us" by simp
  let ?wire = "\<lambda>q. ?ds @ stuff ?s 0 (wirePayload cfg q) @ ?ds"
  have wire: "encodeAll (enc\<lparr>payloadScratch := scratch\<rparr>) qs = concat (map ?wire qs)" for qs scratch
  proof (induction qs arbitrary: scratch)
    case (Cons q qs)
    obtain scratch' where "fst (snd (encode (enc\<lparr>payloadScratch := scratch\<rparr>) q)) = ?wire q"
      "snd (snd (encode (enc\<lparr>payloadScratch := scratch\<rparr>) q)) = enc\<lparr>payloadScratch := scratch'\<rparr>"
      using encode_stuffed [OF c0(2) refl cfg(1), of scratch q] e(2) e(3) [OF cfg(2)] by auto
    then show ?case using Cons.IH by (simp add: split_beta Let_def)
  qed simp
  have decs: "decodeItems cfg (butlast ?ds) (n, False) = Some (butlast ?ds, m, False)" if "n \<noteq> ?s" for n
    using decode_ones [OF cfg(1) ds(3), of 0] abort that by (simp add: lead decodeStep_def cfg(1) ds(2))
  have frame: "\<exists>H' sc'. scanRecords (?wire q) sc =
      ([(Emitted, if packBits cfg = 0 then q else map (take_bit (packBits cfg)) q)], sc') \<and> tracks cfg H' sc' \<and> settled sc'"
    if "tracks cfg H sc" "settled sc" "q \<in> set rs" for H sc q
  proof -
    let ?p = "wirePayload cfg q"
    have "length ?p = unpackedItems enc (length q)" by (simp add: wirePayload_def unpackedItems_def e(1) unpackBits_def)
    then have p: "minPayloadItems cfg \<le> length ?p" "length ?p \<le> maxPayloadItems cfg" using rs(1) that(3) by auto
    then have ne: "?p \<noteq> []" using f(11) by auto
    have items: "regionItems cfg ?p = (if packBits cfg = 0 then q else map (take_bit (packBits cfg)) q)"
    proof (cases "packBits cfg = 0")
      case False
      with conf(12) obtain c where c: "configureRepack c 1 (packBits cfg) MsbFirst (packOrder cfg) = Inr (pack cfg)" by auto
      have "length ?p = length q * packBits cfg" using False by (simp add: wirePayload_def unpackBits_def)
      then show ?thesis using repack_from_bits [OF c, of q] False by (simp add: regionItems_def wirePayload_def)
    qed (simp add: regionItems_def wirePayload_def)
    have verdict: "regionVerdict cfg ?p = Emitted"
      using p(1) by (simp add: regionVerdict_def wirePayload_def unpackBits_def)
    obtain n where n: "n < ?s" "decodeItems cfg (stuff ?s 0 ?p) (0, False) = Some (?p, n, False)"
      using decode_stuffed [OF cfg(1), of 0 ?p] s abort by fastforce
    have "\<exists>H' sc'. scanRecords (?wire q) sc = ([(regionVerdict cfg ?p, regionItems cfg ?p)], sc') \<and> tracks cfg H' sc' \<and> settled sc'"
    proof (rule scan_frame [OF fr that(1,2) d])
      show "decodeItems cfg zs (0, False) \<noteq> None" if "suffix zs (butlast ?ds)" for zs
      proof (cases "zs = butlast ?ds")
        case True
        then show ?thesis using decs [of 0] s(2) by simp
      next
        case False
        with that have "suffix zs us" by (auto simp: lead suffix_Cons)
        then obtain vs where "us = vs @ zs" by (auto simp: suffix_def)
        then have "map sliceBit zs = replicate (length zs) True" "length zs \<le> m"
          using ds(3) by (metis append_eq_conv_conj drop_replicate length_append length_map length_replicate map_append add_diff_cancel_left',
            metis length_append length_map length_replicate le_add2)
        then show ?thesis using decode_ones [OF cfg(1), of zs "length zs" 0] abort by auto
      qed
      show "\<not> matches cfg (endText cfg @ streamBits cfg ys)" if "ys \<noteq> []" "strict_prefix ys (stuff ?s 0 ?p @ ?ds)" for ys
        by (rule stuffed_no_match [OF fr cfg(1,3) s d(1) that])
      show "decodeItems cfg (stuff ?s 0 ?p @ butlast ?ds) (0, False) = Some (?p @ butlast ?ds, m, False)"
        using n(1) by (intro decodeItems_some_append [OF n(2)] decs) simp
      show "length (butlast ?ds) = endItems cfg - 1" using d(2) by simp
    qed (use ne p in simp_all)
    then show ?thesis by (simp only: verdict items)
  qed
  have "fst (scanRecords (encodeAll (enc\<lparr>payloadScratch := payloadScratch enc\<rparr>) rs) (prepareScanner cfg sc0)) =
      map (\<lambda>q. (Emitted, if packBits cfg = 0 then q else map (take_bit (packBits cfg)) q)) rs"
    unfolding wire by (rule scan_frames [OF frame prepared_tracks [OF fr]])
  then show ?thesis by simp
qed

definition hdlcSettings :: DelimiterConfig where
  "hdlcSettings = defaultDelimiterConfig
     \<lparr>endDelimiter := flagText 6, transparency := BitStuffing, maxPayloadItems := 64, packBits := 8, packOrder := LsbFirst\<rparr>"

lemma hdlc_example:
  obtains cfg enc where "framerConfigure hdlcSettings = Inr cfg" "prepareEncoder cfg defaultEncoder = Inr enc"
    "transparency cfg = BitStuffing" "frameOpen cfg = OpenDelimiter" "endDelimiter cfg = flagText 6"
    "minPayloadItems cfg = 1" "maxPayloadItems cfg = 64" "packBits cfg = 8" "stuffAfterOnes cfg = 5"
    "endItems cfg = 8" "\<forall>n. unpackedItems enc n = n * 8"
proof -
  note def = hdlcSettings_def defaultDelimiterConfig_def
  have a1: "settingsRefusal hdlcSettings = None" by (simp add: def settingsRefusal_def)
  have a2: "length (escapeMap hdlcSettings) \<le> 256" "distinct (map fst (escapeMap hdlcSettings))" by (simp_all add: def)
  have "case parseDelimiter (flagText 6) 1 of Inl _ \<Rightarrow> False | Inr _ \<Rightarrow> True" by code_simp
  then obtain e where a3: "parseDelimiter (endDelimiter hdlcSettings) (bitsPerItem hdlcSettings) = Inr e"
    by (auto simp: def split: sum.splits)
  have a4: "parseDelimiter (startDelimiter hdlcSettings) (bitsPerItem hdlcSettings) = Inr (0, 0)"
    by (simp add: def parseDelimiter_def)
  have "find (destuffsDelimiter (flagText 6) 5) [0..<5] = None" by code_simp
  then have a5: "\<not> (transparency hdlcSettings = BitStuffing \<and> abortOnes hdlcSettings \<noteq> 0 \<and> abortOnes hdlcSettings \<le>
      max (longestOneRun (startDelimiter hdlcSettings)) (longestOneRun (endDelimiter hdlcSettings)))"
    "stuffingRefusal hdlcSettings = None"
    by (simp_all add: def stuffingRefusal_def longestOneRun_flag) (simp add: longestOneRun_def)
  have a6: "transparency hdlcSettings \<noteq> ByteEscape" by (simp add: def)
  obtain cfg where cfg: "framerConfigure hdlcSettings = Inr cfg" "sameSettings hdlcSettings cfg"
    by (rule framerConfigure_accepts [OF a1 a2 a3 a4 a5]) (use a6 in auto)
  then have f: "transparency cfg = BitStuffing" "frameOpen cfg = OpenDelimiter" "endDelimiter cfg = flagText 6"
    "minPayloadItems cfg = 1" "maxPayloadItems cfg = 64" "packBits cfg = 8" "stuffAfterOnes cfg = 5" "bitsPerItem cfg = 1"
    by (simp_all add: sameSettings_def def)
  then obtain enc where enc: "prepareEncoder cfg defaultEncoder = Inr enc"
    by (simp add: prepareEncoder_def Let_def configureRepack_def)
  have "unpackedItems enc n = n * 8" for n using prepareEncoder_result(1) [OF enc] f by (simp add: unpackedItems_def)
  moreover have "endItems cfg = 8"
    using configureDelimiter_result(6) [OF framerConfigure_result(1) [OF cfg(1)]] f by (simp add: flagText_def)
  ultimately show thesis using that cfg(1) enc f by blast
qed

lemma bit_stuffing_stream_roundtrip_witness:
  "\<exists>cfg enc. framerConfigure hdlcSettings = Inr cfg \<and> prepareEncoder cfg defaultEncoder = Inr enc \<and>
    fst (scanRecords (encodeAll enc [[0xFF, 0x7E], [0x3F]]) (prepareScanner cfg defaultScanner)) =
      [(Emitted, [0xFF, 0x7E]), (Emitted, [0x3F])]"
proof -
  obtain cfg enc where c: "framerConfigure hdlcSettings = Inr cfg" "prepareEncoder cfg defaultEncoder = Inr enc"
    "transparency cfg = BitStuffing" "frameOpen cfg = OpenDelimiter" "endDelimiter cfg = flagText 6"
    "minPayloadItems cfg = 1" "maxPayloadItems cfg = 64" "packBits cfg = 8" "stuffAfterOnes cfg = 5"
    "endItems cfg = 8" "\<forall>n. unpackedItems enc n = n * 8"
    by (rule hdlc_example)
  with bit_stuffing_stream_roundtrip [OF c(1-5), of "[[0xFF, 0x7E], [0x3F]]" defaultScanner]
  show ?thesis by (simp add: take_bit_word_eq_self)
qed

subsection \<open>The bound on an encoded frame\<close>

lemma stuffCount_bound: "n < s \<Longrightarrow> stuffCount s n xs * s \<le> length xs + n"
proof (induction s n xs rule: stuffCount.induct)
  case (2 s n x xs)
  then show ?case by (auto split: if_splits)
qed simp

lemma stuffCount_ones: "n < s \<Longrightarrow> stuffCount s n (replicate k 1) = (k + n) div s"
proof (induction k arbitrary: n)
  case (Suc k)
  have one: "sliceBit 1" by (simp add: sliceBit_def)
  show ?case
  proof (cases "n + 1 = s")
    case True
    with Suc have "stuffCount s 0 (replicate k 1) = k div s" by simp
    moreover have "Suc k + n = k + s" "s \<noteq> 0" using True by simp_all
    then have "(Suc k + n) div s = Suc (k div s)" using div_add_self2 [of s k] by (simp only:) simp
    ultimately show ?thesis using True one by simp
  next
    case False
    with Suc show ?thesis by (simp add: one)
  qed
qed simp

lemma length_escapeCoded: "length (escapeCoded enc p) \<le> 2 * length p"
  by (induction p) (auto simp: escapeCoded_def)

lemma encode_plain:
  assumes enc: "prepareEncoder cfg e0 = Inr enc" and cfg: "transparency cfg = TNone"
  shows "fst (snd (encode enc r)) = openingItems enc @ wirePayload cfg r @ closingItems enc"
proof -
  note e = prepareEncoder_result [OF enc]
  have loop: "outItems (fold (encodeItem en) p l) = outItems l @ p" if "encoderConfig en = cfg" for en p l
    by (induction p arbitrary: l) (simp_all add: encodeItem_def that cfg Let_def split: prod.splits)
  show ?thesis
  proof (cases "packBits cfg = 0")
    case True
    then show ?thesis using e(1) by (simp add: encode_def Let_def loop wirePayload_def)
  next
    case False
    then obtain c where c: "configureRepack c (packBits cfg) 1 (packOrder cfg) MsbFirst = Inr (unpack enc)" using e(5) by auto
    let ?room = "length r * packBits cfg"
    have bits: "repack (unpack enc) r (take ?room (payloadScratch enc) @ replicate (?room - length (payloadScratch enc)) 0) =
        wirePayload cfg r"
      using repack_to_bits [OF c] False by (simp add: wirePayload_def)
    show ?thesis using False e(1) bits by (simp add: encode_def Let_def loop)
  qed
qed

lemma openingItems_length:
  assumes "prepareEncoder cfg e0 = Inr enc" "configureDelimiter c0 = Inr cfg"
  shows "length (openingItems enc) = (if frameOpen cfg = OpenStart then startItems cfg
                           else if frameOpen cfg = OpenDelimiter then endItems cfg else 0)"
    "length (closingItems enc) = endItems cfg"
  using assms configureDelimiter_result(6,7) [OF assms(2)]
  by (auto simp: prepareEncoder_def Let_def delimiterEmitValues_def delimiterItemValues_def split: if_splits sum.splits)

text \<open>C26. An encoded frame never exceeds framedItemsBound of its unpacked payload, the reported emitted
  count is its length, and under bit stuffing without the pack stage an all-ones payload reaches the
  bound exactly.\<close>

theorem encoded_frame_within_bound:
  assumes c0: "framerConfigure c0 = Inr cfg" "prepareEncoder cfg e0 = Inr enc"
  shows "length (fst (snd (encode enc r))) \<le> framedItemsBound cfg (unpackedItems enc (length r)) \<and>
    emitted (fst (encode enc r)) = length (fst (snd (encode enc r))) \<and>
    (transparency cfg = BitStuffing \<and> packBits cfg = 0 \<and> r = replicate k 1 \<longrightarrow>
      length (fst (snd (encode enc r))) = framedItemsBound cfg k)"
proof -
  note conf = framerConfigure_result(1) [OF c0(1)] and e = prepareEncoder_result [OF c0(2)]
  note len = openingItems_length [OF c0(2) conf]
  let ?n = "unpackedItems enc (length r)" and ?s = "stuffAfterOnes cfg"
  have s: "0 < ?s" using configureDelimiter_result(1) [OF conf] by (auto simp: settingsRefusal_def Let_def split: if_splits)
  have n: "length (wirePayload cfg r) = ?n" by (simp add: wirePayload_def unpackedItems_def e(1) unpackBits_def)
  have emitted: "emitted (fst (encode enc r)) = length (fst (snd (encode enc r)))"
    by (simp add: encode_def Let_def)
  show ?thesis
  proof (cases "transparency cfg")
    case TNone
    then show ?thesis using encode_plain [OF c0(2) TNone, of r] emitted
      by (simp add: framedItemsBound_def len n)
  next
    case ByteEscape
    have "packBits cfg = 0"
      using configureDelimiter_result(1) [OF conf] ByteEscape by (auto simp: settingsRefusal_def Let_def split: if_splits)
    then have "fst (snd (encode enc r)) = openingItems enc @ escapeCoded enc r @ closingItems enc" "?n = length r"
      using encode_escaped [of enc r] e(1) ByteEscape by (simp_all add: unpackedItems_def)
    then show ?thesis using length_escapeCoded [of enc r] ByteEscape emitted by (simp add: framedItemsBound_def len)
  next
    case BitStuffing
    obtain scratch where "fst (snd (encode enc r)) = openingItems enc @ stuff ?s 0 (wirePayload cfg r) @ closingItems enc"
      using encode_stuffed [OF c0(2) _ BitStuffing, of enc "payloadScratch enc" r] by auto
    then have wire: "length (fst (snd (encode enc r))) = length (openingItems enc) + (?n + stuffCount ?s 0 (wirePayload cfg r)) + endItems cfg"
      by (simp add: length_stuff n len)
    have "stuffCount ?s 0 (wirePayload cfg r) \<le> ?n div ?s"
      using stuffCount_bound [OF s, of "wirePayload cfg r"] s by (simp add: n less_eq_div_iff_mult_less_eq)
    moreover have "length (fst (snd (encode enc r))) = framedItemsBound cfg k" if "packBits cfg = 0" "r = replicate k 1"
    proof -
      have "stuffCount ?s 0 (wirePayload cfg r) = k div ?s" "?n = k"
        using stuffCount_ones [OF s, of k] that by (simp_all add: wirePayload_def unpackedItems_def e(1))
      then show ?thesis using BitStuffing by (simp add: framedItemsBound_def wire len)
    qed
    ultimately show ?thesis using BitStuffing emitted by (simp add: framedItemsBound_def wire len)
  qed
qed

lemma encoded_frame_within_bound_witness:
  "\<exists>cfg enc. framerConfigure hdlcSettings = Inr cfg \<and> prepareEncoder cfg defaultEncoder = Inr enc \<and>
    length (fst (snd (encode enc [0xFF, 0xFF]))) \<le> 35"
proof -
  obtain cfg enc where c: "framerConfigure hdlcSettings = Inr cfg" "prepareEncoder cfg defaultEncoder = Inr enc"
    "transparency cfg = BitStuffing" "frameOpen cfg = OpenDelimiter" "endDelimiter cfg = flagText 6"
    "minPayloadItems cfg = 1" "maxPayloadItems cfg = 64" "packBits cfg = 8" "stuffAfterOnes cfg = 5"
    "endItems cfg = 8" "\<forall>n. unpackedItems enc n = n * 8"
    by (rule hdlc_example)
  with encoded_frame_within_bound [OF c(1,2), of "[0xFF, 0xFF]" 0] show ?thesis by (auto simp: framedItemsBound_def)
qed

end
