(* ===== verification/DelimiterSafety.thy ===== *)
theory DelimiterSafety
  imports DelimiterProperties
begin

section \<open>The scanner's invariant, and the gaps of the validation\<close>

text \<open>
  What holds of a \<open>DelimiterScanner\<close> along every sequence of its public operations, whatever the
  configuration and the stream; the meaning of the destuffing check of \<open>configureDelimiter\<close>; and three
  accepted configurations under which a conforming encoder's frame is not scanned back.
\<close>

subsection \<open>The scanner along every run\<close>

inductive scannerRun :: "DelimiterConfig \<Rightarrow> DelimiterScanner \<Rightarrow> bool" for cfg where
  run_prepare: "scannerRun cfg (prepareScanner cfg sc)"
| run_push: "scannerRun cfg sc \<Longrightarrow> scannerRun cfg (snd (push item sc))"
| run_resynchronize: "scannerRun cfg sc \<Longrightarrow> scannerRun cfg (resynchronize sc)"
| run_reset: "scannerRun cfg sc \<Longrightarrow> scannerRun cfg (resetScanner sc)"
| run_seek: "scannerRun cfg sc \<Longrightarrow> scanState sc = ScanIdle \<Longrightarrow> scannerRun cfg (seekScanner at sc)"

text \<open>The sizes of the buffers, and what the open frame's items and offsets add up to.\<close>

definition buffersOk :: "DelimiterConfig \<Rightarrow> DelimiterScanner \<Rightarrow> bool" where
  "buffersOk cfg sc \<longleftrightarrow>
     config sc = cfg \<and> ringItems sc = endItems cfg - 1 \<and> ringOk sc \<and>
     length (recordItems sc) \<le> maxPayloadItems cfg \<and> length (packedItems sc) \<le> maxPayloadItems cfg"

definition frameAccounted :: "DelimiterScanner \<Rightarrow> bool" where
  "frameAccounted sc \<longleftrightarrow>
     length (heldItems sc) + removedInFrame sc = rawInFrame sc \<and>
     offset sc = sampleStart sc + of_nat (rawInFrame sc)"

definition stated :: "DelimiterConfig \<Rightarrow> bool" where
  "stated cfg \<longleftrightarrow> endItems cfg \<noteq> 0 \<and> maxPayloadItems cfg \<noteq> 0"

definition scannerOk :: "DelimiterConfig \<Rightarrow> DelimiterScanner \<Rightarrow> bool" where
  "scannerOk cfg sc \<longleftrightarrow> buffersOk cfg sc \<and> (scanState sc = ScanOpen \<longrightarrow> stated cfg \<and> frameAccounted sc)"

lemma length_repack [simp]: "length (repack cfg src out) = length out"
proof -
  have store: "length (storeItemWord xs at w) = length xs" for xs at w by (simp add: storeItemWord_def)
  have fold_len: "length (fold F is xs) = length xs" if "\<And>i xs. length (F i xs) = length xs"
    for F :: "nat \<Rightarrow> u8 list \<Rightarrow> u8 list" and "is" xs
    by (induction "is" arbitrary: xs) (simp_all add: that)
  have "length (packEightBits src out order) = length out" for order
    by (simp add: packEightBits_def Let_def fold_len)
  moreover have "length (unpackEightBits src out order) = length out" for order
    by (simp add: unpackEightBits_def Let_def fold_len store)
  moreover have "length (repackGeneral cfg src out) = length out"
    by (simp add: repackGeneral_def Let_def fold_len)
  ultimately show ?thesis by (simp add: repack_def)
qed

lemma discardFrame_ok:
  assumes "config sc = cfg" "ringItems sc = endItems cfg - 1" "length (ring sc) = ringItems sc"
    "length (recordItems sc) \<le> maxPayloadItems cfg" "length (packedItems sc) \<le> maxPayloadItems cfg"
  shows "buffersOk cfg (discardFrame sc)" "heldItems (discardFrame sc) = []"
    "rawInFrame (discardFrame sc) = 0" "removedInFrame (discardFrame sc) = 0"
    "offset (discardFrame sc) = offset sc" "sampleStart (discardFrame sc) = sampleStart sc"
    "scanState (discardFrame sc) = scanState sc"
  using assms by (auto simp: discardFrame_def buffersOk_def ringOk_def heldItems_def ringContents_def)

lemma buffersOk_fields:
  "buffersOk cfg sc \<Longrightarrow> config sc = cfg \<and> ringItems sc = endItems cfg - 1 \<and> length (ring sc) = ringItems sc \<and>
    length (recordItems sc) \<le> maxPayloadItems cfg \<and> length (packedItems sc) \<le> maxPayloadItems cfg \<and>
    length (frameItems sc) \<le> maxPayloadItems cfg"
  by (auto simp: buffersOk_def ringOk_def)

lemma publish_ok:
  assumes "config sc = cfg" "length (frameItems sc) \<le> maxPayloadItems cfg" "length (packedItems sc) \<le> maxPayloadItems cfg"
  shows "config (publish v sc) = cfg" "ringItems (publish v sc) = ringItems sc" "ring (publish v sc) = ring sc"
    "length (recordItems (publish v sc)) \<le> maxPayloadItems cfg" "length (packedItems (publish v sc)) \<le> maxPayloadItems cfg"
    "offset (publish v sc) = offset sc" "scanState (publish v sc) = scanState sc"
proof -
  have "min n m + (m - n) = m" for n m :: nat by simp
  moreover have "length (frameItems sc) div k \<le> maxPayloadItems cfg" for k
    using assms(2) div_le_dividend le_trans by blast
  ultimately show "config (publish v sc) = cfg" "ringItems (publish v sc) = ringItems sc" "ring (publish v sc) = ring sc"
    "length (recordItems (publish v sc)) \<le> maxPayloadItems cfg" "length (packedItems (publish v sc)) \<le> maxPayloadItems cfg"
    "offset (publish v sc) = offset sc" "scanState (publish v sc) = scanState sc"
    using assms by (auto simp: publish_def Let_def)
qed

lemma openAt_ok:
  assumes "config sc = cfg" "ringItems sc = endItems cfg - 1" "length (ring sc) = ringItems sc"
    "length (recordItems sc) \<le> maxPayloadItems cfg" "length (packedItems sc) \<le> maxPayloadItems cfg" "offset sc = at" "stated cfg"
  shows "scannerOk cfg (openAt at sc)"
  using assms discardFrame_ok [of "sc\<lparr>scanState := ScanOpen, sampleStart := at, ones := 0, escaped := False\<rparr>" cfg]
  by (simp add: openAt_def scannerOk_def frameAccounted_def)

lemma idle_ok:
  assumes "config sc = cfg" "ringItems sc = endItems cfg - 1" "length (ring sc) = ringItems sc"
    "length (recordItems sc) \<le> maxPayloadItems cfg" "length (packedItems sc) \<le> maxPayloadItems cfg"
  shows "scannerOk cfg ((discardFrame sc)\<lparr>scanState := ScanIdle\<rparr>)"
  using discardFrame_ok(1) [OF assms] by (simp add: scannerOk_def buffersOk_def)

lemma closeRegion_ok:
  assumes b: "buffersOk cfg sc" and at: "offset sc = at + 1" and stated: "stated cfg"
  shows "scannerOk cfg (snd (closeRegion step at sc))"
proof -
  note f = buffersOk_fields [OF b]
  define sc2 where "sc2 = (let sc = sc\<lparr>ringFill := 0, ringHead := 0\<rparr>; decoded = length (frameItems sc) in
            if decoded = 0
             then sc\<lparr>counters := (counters sc)\<lparr>nIdleDelimiters := nIdleDelimiters (counters sc) + 1\<rparr>\<rparr>
             else if decoded < minPayloadItems (config sc)
             then publish Undersize (sc\<lparr>counters := (counters sc)\<lparr>nUndersizeFrames := nUndersizeFrames (counters sc) + 1\<rparr>\<rparr>)
             else if packBits (config sc) \<noteq> 0 \<and> decoded mod packBits (config sc) \<noteq> 0
             then publish Unaligned (sc\<lparr>counters := (counters sc)\<lparr>nUnalignedFrames := nUnalignedFrames (counters sc) + 1\<rparr>\<rparr>)
             else publish Emitted sc)"
  have two: "config sc2 = cfg" "ringItems sc2 = endItems cfg - 1" "length (ring sc2) = ringItems sc2"
    "length (recordItems sc2) \<le> maxPayloadItems cfg" "length (packedItems sc2) \<le> maxPayloadItems cfg" "offset sc2 = at + 1"
    using f at by (simp_all add: sc2_def Let_def publish_ok)
  have "snd (closeRegion step at sc) = (if frameOpen (config sc2) = OpenDelimiter then openAt (at + 1) sc2
      else (discardFrame sc2)\<lparr>scanState := ScanIdle\<rparr>)"
    by (simp add: closeRegion_def sc2_def Let_def)
  then show ?thesis using openAt_ok [OF two stated] idle_ok [OF two(1-5)] by simp
qed

lemma counted_ok:
  "scannerOk cfg (sc\<lparr>counters := c\<rparr>) = scannerOk cfg sc" "buffersOk cfg (sc\<lparr>counters := c\<rparr>) = buffersOk cfg sc"
  "buffersOk cfg (sc\<lparr>scanState := s\<rparr>) = buffersOk cfg sc" "buffersOk cfg (sc\<lparr>offset := w\<rparr>) = buffersOk cfg sc"
  "buffersOk cfg (sc\<lparr>rawInFrame := k\<rparr>) = buffersOk cfg sc" "buffersOk cfg (sc\<lparr>removedInFrame := k\<rparr>) = buffersOk cfg sc"
  by (simp_all add: scannerOk_def buffersOk_def frameAccounted_def)

text \<open>The overrun branch: an item that does not fit closes the frame.\<close>

lemma overrun_ok:
  assumes b: "buffersOk cfg sc" and full: "\<not> length (frameItems sc) < maxPayloadItems cfg"
  shows "scannerOk cfg (snd (appendItem step v sc))"
proof -
  note f = buffersOk_fields [OF b]
  let ?sc = "sc\<lparr>counters := (counters (countDiscarded 1 sc))\<lparr>nOverrunFrames := nOverrunFrames (counters (countDiscarded 1 sc)) + 1\<rparr>\<rparr>"
  have "snd (appendItem step v sc) = (discardFrame (publish Overrun ?sc))\<lparr>scanState := ScanIdle\<rparr>"
    using full f by (simp add: appendItem_def Let_def countDiscarded_def)
  then show ?thesis using f idle_ok [of "publish Overrun ?sc" cfg] publish_ok [of ?sc cfg Overrun] by simp
qed

lemma delayItem_ok:
  assumes b: "buffersOk cfg sc" and stated: "stated cfg"
    and raw: "length (heldItems sc) + 1 + removedInFrame sc = rawInFrame sc"
    and off: "offset sc = sampleStart sc + of_nat (rawInFrame sc)"
  shows "scannerOk cfg (snd (delayItem step v sc))"
proof (cases "length (heldItems sc) < maxPayloadItems (config sc) + ringItems sc")
  case True
  have ok: "ringOk sc" using b by (simp add: buffersOk_def)
  note f = buffersOk_fields [OF b]
  obtain sc' where "delayItem step v sc = (step, sc')" "ringOk sc'" "heldItems sc' = heldItems sc @ [v]" "scanState sc' = scanState sc"
    "rawInFrame sc' = rawInFrame sc" "removedInFrame sc' = removedInFrame sc" "offset sc' = offset sc"
    "sampleStart sc' = sampleStart sc" "recordItems sc' = recordItems sc" "packedItems sc' = packedItems sc"
    "config sc' = config sc" "ringItems sc' = ringItems sc"
    by (rule delayItem_room [OF ok True]) blast
  with raw off f stated show ?thesis
    by (simp add: scannerOk_def buffersOk_def frameAccounted_def)
next
  case False
  have ok: "ringOk sc" using b by (simp add: buffersOk_def)
  note f = buffersOk_fields [OF b]
  have "length (frameItems sc) + ringFill sc = length (heldItems sc)" by (simp add: heldItems_def ringContents_length [OF ok])
  then have full: "ringFill sc = ringItems sc" "length (frameItems sc) = maxPayloadItems cfg"
    using False ok f by (auto simp: ringOk_def)
  show ?thesis
  proof (cases "ringItems sc = 0")
    case True
    then show ?thesis using overrun_ok [OF b, of step v] full by (simp add: delayItem_def)
  next
    case False
    let ?sc = "sc\<lparr>ring := (ring sc)[ringHead sc := v], ringHead := if ringHead sc + 1 = ringItems sc then 0 else ringHead sc + 1\<rparr>"
    have "buffersOk cfg ?sc" using b False full by (auto simp: buffersOk_def ringOk_def)
    then show ?thesis using overrun_ok [of cfg ?sc step "ring sc ! ringHead sc"] full False by (simp add: delayItem_def Let_def)
  qed
qed

text \<open>The parts of the state the invariant reads, and the steps that leave them alone.\<close>

definition frameCore where
  "frameCore sc = (config sc, ringItems sc, ring sc, ringFill sc, ringHead sc, frameItems sc, recordItems sc, packedItems sc,
     scanState sc, rawInFrame sc, removedInFrame sc, offset sc, sampleStart sc)"

lemma frameCore_cong:
  assumes "frameCore sc' = frameCore sc"
  shows "buffersOk cfg sc' = buffersOk cfg sc" "heldItems sc' = heldItems sc" "scanState sc' = scanState sc"
    "rawInFrame sc' = rawInFrame sc" "removedInFrame sc' = removedInFrame sc" "offset sc' = offset sc"
    "sampleStart sc' = sampleStart sc" "scannerOk cfg sc' = scannerOk cfg sc" "config sc' = config sc"
    "frameItems sc' = frameItems sc"
  using assms
  by (simp_all add: frameCore_def buffersOk_def ringOk_def heldItems_def ringContents_def scannerOk_def frameAccounted_def)

lemma frameCore_steps:
  "frameCore (snd (decodeItem item bits sc)) = frameCore sc"
  "frameCore (snd (scannerItemBits item sc)) = frameCore sc"
  "frameCore (shiftRegisters bits sc) = frameCore sc"
  "frameCore (countDiscarded k sc) = frameCore sc"
  "frameCore (sc\<lparr>counters := c\<rparr>) = frameCore sc"
  by (cases "transparency (config sc)";
      simp add: frameCore_def decodeItem_def scannerItemBits_def shiftRegisters_def countDiscarded_def Let_def)+

lemma abandon_ok:
  assumes "buffersOk cfg sc"
  shows "buffersOk cfg (abandon sc)" "offset (abandon sc) = offset sc"
  using buffersOk_fields [OF assms] discardFrame_ok [of "countDiscarded (of_nat (rawInFrame sc)) sc" cfg]
  by (simp_all add: abandon_def countDiscarded_def)

lemma scanPayloadItem_ok:
  assumes b: "buffersOk cfg sc" and stated: "stated cfg"
    and raw: "length (heldItems sc) + removedInFrame sc = rawInFrame sc"
    and off: "offset sc = sampleStart sc + of_nat (rawInFrame sc) + 1"
  shows "scannerOk cfg (snd (scanPayloadItem step item bits sc))"
proof -
  let ?sc = "sc\<lparr>rawInFrame := rawInFrame sc + 1\<rparr>"
  obtain d sc2 where d: "decodeItem item bits ?sc = (d, sc2)" by (metis prod.collapse)
  then have "frameCore sc2 = frameCore ?sc" using frameCore_steps(1) [of item bits ?sc] by simp
  note core = frameCore_cong [OF this]
  have b2: "buffersOk cfg sc2" and raw2: "length (heldItems sc2) + removedInFrame sc2 + 1 = rawInFrame sc2"
    and off2: "offset sc2 = sampleStart sc2 + of_nat (rawInFrame sc2)"
    using b raw off by (simp_all add: core counted_ok)
  show ?thesis
  proof (cases d)
    case (Keep v)
    with d delayItem_ok [OF b2 stated _ off2, of step v] raw2 show ?thesis by (simp add: scanPayloadItem_def)
  next
    case Remove
    with d b2 raw2 off2 stated show ?thesis
      by (simp add: scanPayloadItem_def scannerOk_def counted_ok frameAccounted_def)
  next
    case AbortRun
    with d abandon_ok [OF b2] show ?thesis
      by (simp add: scanPayloadItem_def Let_def scannerOk_def counted_ok)
  qed
qed

lemma push_ok:
  assumes ok: "scannerOk cfg sc"
  shows "scannerOk cfg (snd (push item sc))"
proof -
  define sc1 where "sc1 = afterRead sc"
  let ?at = "offset sc"
  have sc1: "buffersOk cfg sc1" "offset sc1 = ?at + 1" "scanState sc1 = scanState sc" "config sc1 = cfg"
    "scanState sc = ScanOpen \<Longrightarrow> length (heldItems sc1) + removedInFrame sc1 = rawInFrame sc1 \<and>
       ?at = sampleStart sc1 + of_nat (rawInFrame sc1)"
    using ok by (auto simp: sc1_def afterRead_def Let_def scannerOk_def buffersOk_def frameAccounted_def)
  show ?thesis
  proof (cases "scannerConfigured sc1")
    case False
    then have "snd (push item sc) = countDiscarded 1 sc1" by (simp add: push_def sc1_def afterRead_def Let_def)
    moreover have "scanState sc \<noteq> ScanOpen"
      using False ok sc1(4) by (auto simp: scannerOk_def stated_def scannerConfigured_def)
    ultimately show ?thesis using sc1(1,3)
      by (simp add: frameCore_cong(8) [OF frameCore_steps(4)]) (simp add: scannerOk_def)
  next
    case True
    then have stated: "stated cfg" using sc1(4) by (simp add: stated_def scannerConfigured_def)
    define sc2 where "sc2 = (if scanState sc1 = ScanIdle \<and> frameOpen cfg = OpenImmediate then openAt ?at sc1 else sc1)"
    let ?op = "scanState sc2 = ScanOpen"
    obtain bits sc3 where bits: "scannerItemBits item sc2 = (bits, sc3)" by (metis prod.collapse)
    define sc4 where "sc4 = shiftRegisters bits sc3"
    have "frameCore sc4 = frameCore sc2"
      using frameCore_steps(2) [of item sc2] frameCore_steps(3) [of bits sc3] by (simp add: sc4_def bits)
    note core = frameCore_cong [OF this]
    note f1 = buffersOk_fields [OF sc1(1)]
    have opened: "openAt ?at sc1 = discardFrame (sc1\<lparr>scanState := ScanOpen, sampleStart := ?at, ones := 0, escaped := False\<rparr>)"
      by (simp add: openAt_def)
    have sc2: "buffersOk cfg sc2" "offset sc2 = ?at + 1"
      "?op \<Longrightarrow> length (heldItems sc2) + removedInFrame sc2 = rawInFrame sc2 \<and> ?at = sampleStart sc2 + of_nat (rawInFrame sc2)"
      using discardFrame_ok [of "sc1\<lparr>scanState := ScanOpen, sampleStart := ?at, ones := 0, escaped := False\<rparr>" cfg]
        f1 sc1 by (auto simp: sc2_def opened)
    have b4: "buffersOk cfg sc4" "offset sc4 = ?at + 1" using sc2(1,2) by (simp_all add: core)
    define endMatch where "endMatch = (shifted sc4 \<ge> endBitLength sc4 \<and> endRegister sc4 = endBits cfg)"
    define startMatch where "startMatch = (if frameOpen cfg = OpenDelimiter then endMatch
      else distinctStart cfg \<and> shifted sc4 \<ge> startBitLength sc4 \<and> startRegister sc4 = startBits cfg)"
    define step where "step = (if ?op then defaultScanStep\<lparr>inFrame := ?op\<rparr>\<lparr>index := (?at - sampleStart sc2) - of_nat (removedInFrame sc2)\<rparr>
      else defaultScanStep\<lparr>inFrame := ?op\<rparr>)\<lparr>matched := endMatch\<rparr>"
    have push: "snd (push item sc) =
      (if ?op \<and> endMatch then snd (closeRegion step ?at sc4)
       else if startMatch then
         (if ?op then openAt (?at + 1) ((abandon sc4)\<lparr>counters := (counters (abandon sc4))\<lparr>nRestarts := nRestarts (counters (abandon sc4)) + 1\<rparr>\<rparr>)
          else openAt (?at + 1) sc4)
       else if \<not> ?op then countDiscarded 1 sc4
       else snd (scanPayloadItem step item bits sc4))"
    proof -
      have 1: "(if holding sc then sc\<lparr>recordItems := [], packedItems := [], holding := False\<rparr> else sc)
          \<lparr>offset := offset (if holding sc then sc\<lparr>recordItems := [], packedItems := [], holding := False\<rparr> else sc) + 1\<rparr> = sc1"
        by (simp add: sc1_def afterRead_def Let_def)
      have 2: "offset (if holding sc then sc\<lparr>recordItems := [], packedItems := [], holding := False\<rparr> else sc) = ?at" by simp
      have 3: "(\<not> scannerConfigured sc1) = False" using True by simp
      have "push item sc =
        (if ?op \<and> endMatch then closeRegion step ?at sc4
         else if startMatch then
           (let (step, sc) = (if ?op then (step\<lparr>event := EvRestart\<rparr>, (abandon sc4)\<lparr>counters := (counters (abandon sc4))\<lparr>nRestarts := nRestarts (counters (abandon sc4)) + 1\<rparr>\<rparr>)
              else (step, sc4)) in (step, openAt (?at + 1) sc))
         else if \<not> ?op then (step, countDiscarded 1 sc4)
         else scanPayloadItem step item bits sc4)"
        unfolding push_def Let_def 1 unfolding 2 3 if_False sc1(4) sc2_def [symmetric] bits prod.case
          sc4_def [symmetric] endMatch_def [symmetric] startMatch_def [symmetric] step_def [symmetric] ..
      then show ?thesis by simp
    qed
    have close: "scannerOk cfg (snd (closeRegion step ?at sc4))" by (rule closeRegion_ok [OF b4 stated])
    have restart: "scannerOk cfg (openAt (?at + 1) ((abandon sc4)\<lparr>counters := c\<rparr>))" for c
      using abandon_ok [OF b4(1)] b4(2) buffersOk_fields [OF abandon_ok(1) [OF b4(1)]] stated by (intro openAt_ok) simp_all
    have start: "scannerOk cfg (openAt (?at + 1) sc4)"
      using b4(2) buffersOk_fields [OF b4(1)] stated by (intro openAt_ok) simp_all
    have idle: "scannerOk cfg (countDiscarded 1 sc4)" if "\<not> ?op"
      unfolding frameCore_cong(8) [OF frameCore_steps(4)] using that b4(1) core(3) by (simp add: scannerOk_def)
    have payload: "scannerOk cfg (snd (scanPayloadItem step item bits sc4))" if ?op
      using sc2(3) [OF that] sc2(2) by (intro scanPayloadItem_ok [OF b4(1) stated]) (simp_all add: core)
    show ?thesis unfolding push using close restart start idle payload by auto
  qed
qed

text \<open>C12. After any sequence of prepare, push, resynchronize, reset and idle-time seek the frame and
  record buffers stay within maxPayloadItems and the delay ring within its capacity, items enter the
  frame only once the ring is full, and in an open frame the raw items are the held ones plus the
  removed ones, so that the index reported for the next item is the number of items held.\<close>

theorem scanner_invariant:
  assumes "scannerRun cfg sc"
  shows "length (frameItems sc) \<le> maxPayloadItems cfg \<and> length (closedFrame sc) \<le> maxPayloadItems cfg \<and>
    length (ring sc) = endItems cfg - 1 \<and> ringFill sc \<le> endItems cfg - 1 \<and>
    (ringFill sc < endItems cfg - 1 \<longrightarrow> frameItems sc = []) \<and>
    (scanState sc = ScanOpen \<longrightarrow>
       length (heldItems sc) + removedInFrame sc = rawInFrame sc \<and>
       (offset sc - sampleStart sc) - of_nat (removedInFrame sc) = of_nat (length (heldItems sc)))"
proof -
  have "scannerOk cfg sc"
    using assms
  proof induction
    case (run_prepare sc)
    show ?case
      by (simp add: scannerOk_def buffersOk_def ringOk_def prepareScanner_def resetScanner_def Let_def)
  next
    case (run_push sc item)
    show ?case by (rule push_ok [OF run_push.IH])
  next
    case (run_resynchronize sc)
    then have b: "buffersOk cfg sc" by (simp add: scannerOk_def)
    from abandon_ok(1) [OF b] show ?case
      by (auto simp: resynchronize_def scannerOk_def buffersOk_def ringOk_def)
  next
    case (run_reset sc)
    then show ?case
      by (auto simp: scannerOk_def buffersOk_def ringOk_def resetScanner_def)
  next
    case (run_seek sc at)
    then show ?case by (simp add: scannerOk_def buffersOk_def seekScanner_def)
  qed
  then have b: "buffersOk cfg sc" and acc: "scanState sc = ScanOpen \<Longrightarrow> frameAccounted sc" by (simp_all add: scannerOk_def)
  have "(offset sc - sampleStart sc) - of_nat (removedInFrame sc) = of_nat (length (heldItems sc))" if "scanState sc = ScanOpen"
  proof -
    have "rawInFrame sc = length (heldItems sc) + removedInFrame sc" "offset sc = sampleStart sc + of_nat (rawInFrame sc)"
      using acc [OF that] by (simp_all add: frameAccounted_def)
    then show ?thesis by (simp only:) simp
  qed
  with b acc show ?thesis
    by (auto simp: buffersOk_def ringOk_def closedFrame_def frameAccounted_def)
qed

text \<open>A scanner of the two-item delimiter \<open>11\<close>, three items into a frame.\<close>

definition pairConfig :: DelimiterConfig where
  "pairConfig =
     \<lparr>endDelimiter = ''11'', startDelimiter = [], frameOpen = OpenDelimiter, bitsPerItem = 1, bitOrder = MsbFirst,
      transparency = TNone, stuffAfterOnes = 5, abortOnes = 0, escapeItem = 0, escapeMap = [],
      maxPayloadItems = 4, minPayloadItems = 1, packBits = 0, packOrder = MsbFirst,
      endBits = 3, startBits = 0, endMask = 3, startMask = 0, endItems = 2, startItems = 0, distinctStart = False,
      itemTable = [0, 1], escapeTable = [], escapeMapped = [], escapeOriginal = [], pack = defaultRepack\<rparr>"

lemma pairConfig_prepared:
  "prepareScanner pairConfig defaultScanner =
     \<lparr>config = pairConfig, counters = zeroCounters, scanState = ScanIdle, endRegister = 0,
      startRegister = 0, shifted = 0, offset = 0, sampleStart = 0, removedInFrame = 0, rawInFrame = 0, ones = 0,
      escaped = False, frameItems = [], recordItems = [], packedItems = [], ring = [0], ringFill = 0, ringHead = 0,
      ringItems = 1, frameOutcome = Emitted, frameStart = 0, frameRemoved = 0, frameDecodedItems = 0,
      framePacked = False, holding = False, endBitLength = 2, startBitLength = 0\<rparr>"
  by (simp add: prepareScanner_def resetScanner_def defaultScanner_def pairConfig_def)

lemma scanner_invariant_witness:
  "\<exists>sc. scannerRun pairConfig sc \<and> scanState sc = ScanOpen \<and> ringFill sc = 1 \<and> frameItems sc = [0, 1] \<and>
    length (heldItems sc) + removedInFrame sc = 3 \<and> (offset sc - sampleStart sc) - of_nat (removedInFrame sc) = 3"
proof -
  define sc where "sc = fold (\<lambda>item sc. snd (push item sc)) [1, 1, 0, 1, 0] (prepareScanner pairConfig defaultScanner)"
  have run: "scannerRun pairConfig sc" unfolding sc_def by (simp add: run_push run_prepare)
  have state: "scanState sc = ScanOpen \<and> rawInFrame sc = 3 \<and> ringFill sc = 1 \<and> frameItems sc = [0, 1] \<and> removedInFrame sc = 0"
    unfolding sc_def pairConfig_prepared by code_simp
  then have "length (heldItems sc) + removedInFrame sc = 3" "(offset sc - sampleStart sc) - of_nat (removedInFrame sc) = 3"
    using scanner_invariant [OF run] by simp_all
  then show ?thesis using run state by blast
qed

subsection \<open>The destuffing check\<close>

lemma destuffs_decode:
  assumes "transparency cfg = BitStuffing" "bitsPerItem cfg = 1"
  shows "streamBits cfg ds = ones_of chars \<Longrightarrow> set chars \<subseteq> {CHR ''0'', CHR ''1''} \<Longrightarrow>
    \<not> destuffsDelimiter chars (stuffAfterOnes cfg) n \<Longrightarrow>
    \<exists>n'. decodeItems (cfg\<lparr>abortOnes := 0\<rparr>) ds (n, False) = Some (ds, n', False)"
proof (induction ds arbitrary: chars n)
  case (Cons d ds)
  from Cons.prems(1) obtain c cs where c: "chars = c # cs" "sliceBit d \<longleftrightarrow> c = CHR ''1''" "streamBits cfg ds = ones_of cs"
    by (cases chars) (auto simp: ones_of_def keyBits_def assms(2))
  have "\<not> destuffsDelimiter cs (stuffAfterOnes cfg) (if sliceBit d then n + 1 else 0)"
    using Cons.prems(3) c(1,2) by (auto split: if_splits)
  with Cons.IH [OF c(3)] Cons.prems(2) c(1) obtain n' where
    "decodeItems (cfg\<lparr>abortOnes := 0\<rparr>) ds (if sliceBit d then n + 1 else 0, False) = Some (ds, n', False)" by auto
  then show ?case using Cons.prems(3) c(1,2) by (auto simp: decodeStep_def assms(1) split: if_splits)
qed simp

text \<open>C25. An accepted closing delimiter under bit stuffing passes the destuffing rule (the abort rule set
  aside) unchanged behind every run of ones a coded payload can end in, carries a run a conforming
  encoder cannot produce, and that run is shorter than the abort run where there is one.\<close>

theorem configured_delimiter_survives_destuffing:
  assumes "configureDelimiter c0 = Inr cfg" "transparency cfg = BitStuffing" "endDelimiter cfg \<noteq> []"
    and "n < stuffAfterOnes cfg" "streamBits cfg ds = endText cfg"
  shows "(\<exists>n'. decodeItems (cfg\<lparr>abortOnes := 0\<rparr>) ds (n, False) = Some (ds, n', False)) \<and>
    stuffAfterOnes cfg < longestOneRun (endDelimiter cfg) \<and>
    (abortOnes cfg \<noteq> 0 \<longrightarrow> longestOneRun (endDelimiter cfg) < abortOnes cfg)"
proof -
  note r = configureDelimiter_result [OF assms(1)]
  note p = parseDelimiter_Inr [OF r(4)]
  have w: "bitsPerItem cfg = 1" using r(1) assms(2) by (auto simp: settingsRefusal_def Let_def split: if_splits)
  have long: "stuffAfterOnes cfg < longestOneRun (endDelimiter cfg)"
    and none: "find (destuffsDelimiter (endDelimiter cfg) (stuffAfterOnes cfg)) [0..<stuffAfterOnes cfg] = None"
    using r(2) assms(2,3) by (auto simp: stuffingRefusal_def Let_def split: if_splits)
  then have "\<not> destuffsDelimiter (endDelimiter cfg) (stuffAfterOnes cfg) n" using assms(4) by (auto simp: find_None_iff)
  from destuffs_decode [OF assms(2) w _ p(3) this] assms(5) long r(11) [OF assms(2)] show ?thesis
    by (simp add: endText_def)
qed

lemma configured_delimiter_survives_destuffing_witness:
  "\<exists>cfg n'. framerConfigure hdlcSettings = Inr cfg \<and>
    decodeItems (cfg\<lparr>abortOnes := 0\<rparr>) [0, 1, 1, 1, 1, 1, 1, 0] (4, False) = Some ([0, 1, 1, 1, 1, 1, 1, 0], n', False)"
proof -
  obtain cfg enc where c: "framerConfigure hdlcSettings = Inr cfg" "prepareEncoder cfg defaultEncoder = Inr enc"
    "transparency cfg = BitStuffing" "frameOpen cfg = OpenDelimiter" "endDelimiter cfg = flagText 6"
    "minPayloadItems cfg = 1" "maxPayloadItems cfg = 64" "packBits cfg = 8" "stuffAfterOnes cfg = 5"
    "endItems cfg = 8" "\<forall>n. unpackedItems enc n = n * 8"
    by (rule hdlc_example)
  note conf = framerConfigure_result(1) [OF c(1)]
  have "bitsPerItem cfg = 1"
    using configureDelimiter_result(1) [OF conf] c(3) by (auto simp: settingsRefusal_def Let_def split: if_splits)
  then have "streamBits cfg [0, 1, 1, 1, 1, 1, 1, 0] = endText cfg"
    by (simp add: endText_def c(5) flagText_def ones_of_def keyBits_def sliceBit_def numeral_eq_Suc)
  with configured_delimiter_survives_destuffing [OF conf c(3), of 4 "[0, 1, 1, 1, 1, 1, 1, 0]"] c(1,5,9)
  show ?thesis by (auto simp: flagText_def)
qed

end
