(* ===== verification/HeaderFormat.thy ===== *)
theory HeaderFormat
  imports Crc Golay
begin

section \<open>Packet headers\<close>

text \<open>
  \<^verbatim>\<open>digital/HeaderFormat.hpp\<close>: the five header layouts, for hard-bit items (\<^verbatim>\<open>std::uint8_t\<close>, one bit per
  item).  Item counts are 64-bit words, because the count arithmetic guards against their overflow, and
  header fields 32-bit words.  \<open>format\<close> returns the updated output span, or nothing where the code
  returns \<^verbatim>\<open>false\<close>, which it does before its first write.  The metadata of a record is a map from names
  to values of a type that is not part of the repository: the model is parametric in that type \<open>'v\<close>, in
  the injection \<open>ofU64\<close> of an unsigned integer into it, and in the reader \<open>getU64\<close> that is nothing for a
  value of another type.
\<close>

subsection \<open>Fields\<close>

definition kMaxHeaderItems :: nat where
  "kMaxHeaderItems = 32"

record 'v ParsedHeader =
  payloadItems :: u64
  meta :: "string \<Rightarrow> 'v option"

definition headerBit :: "u8 \<Rightarrow> bool" where
  "headerBit item \<longleftrightarrow> item \<noteq> 0"

definition headerItem :: "bool \<Rightarrow> u8" where
  "headerItem b = (if b then 1 else 0)"

definition readHeaderField :: "u8 list \<Rightarrow> nat \<Rightarrow> nat \<Rightarrow> u32" where
  "readHeaderField header offset bits =
     fold (\<lambda>i value. push_bit 1 value OR (if headerBit (header ! (offset + i)) then 1 else 0)) [0..<bits] 0"

definition writeHeaderField :: "u8 list \<Rightarrow> nat \<Rightarrow> nat \<Rightarrow> u32 \<Rightarrow> u8 list" where
  "writeHeaderField header offset bits value =
     fold (\<lambda>i header. header[offset + i := headerItem (drop_bit (bits - 1 - i) value AND 1 \<noteq> 0)]) [0..<bits] header"

subsection \<open>The fixed and the repeated length\<close>

definition parseFixed :: "u64 \<Rightarrow> u8 list \<Rightarrow> 'v ParsedHeader option" where
  "parseFixed items header = Some \<lparr>payloadItems = items, meta = (\<lambda>_. None)\<rparr>"

definition formatFixed :: "u64 \<Rightarrow> u64 \<Rightarrow> (string \<Rightarrow> 'v option) \<Rightarrow> u8 list \<Rightarrow> u8 list option" where
  "formatFixed items requested extra out = (if requested = items then Some out else None)"

definition parseRepeated :: "u8 list \<Rightarrow> 'v ParsedHeader option" where
  "parseRepeated header =
     (let first = readHeaderField header 0 16; second = readHeaderField header 16 16
      in if first \<noteq> second then None else Some \<lparr>payloadItems = ucast first, meta = (\<lambda>_. None)\<rparr>)"

definition formatRepeated :: "u64 \<Rightarrow> (string \<Rightarrow> 'v option) \<Rightarrow> u8 list \<Rightarrow> u8 list option" where
  "formatRepeated n extra out =
     (if n > 0xFFFF \<or> length out < 32 then None
      else Some (writeHeaderField (writeHeaderField out 0 16 (ucast n)) 16 16 (ucast n)))"

subsection \<open>The length under a CRC\<close>

definition kLengthBits :: nat where "kLengthBits = 12"
definition kNumberBits :: nat where "kNumberBits = 12"
definition kCrcBits :: nat where "kCrcBits = 8"
definition kMaxLength :: u32 where "kMaxLength = push_bit kLengthBits 1 - 1"

definition headerCrc :: "CrcError + Crc" where
  "headerCrc = Crc_new 8 0x07 0xFF 0x00 False False"

definition coveredBytes :: "u32 \<Rightarrow> u32 \<Rightarrow> u8 list" where
  "coveredBytes len number =
     [ucast (len AND 0xFF), ucast (drop_bit 8 len), ucast (number AND 0xFF), ucast (drop_bit 8 number)]"

definition parseCrc :: "(u64 \<Rightarrow> 'v) \<Rightarrow> Crc \<Rightarrow> u8 list \<Rightarrow> 'v ParsedHeader option" where
  "parseCrc ofU64 crc header =
     (let len = readHeaderField header 0 kLengthBits;
          number = readHeaderField header kLengthBits kNumberBits;
          carried = readHeaderField header (kLengthBits + kNumberBits) kCrcBits
      in if carried \<noteq> ucast (crcCompute crc (coveredBytes len number)) then None
         else Some \<lparr>payloadItems = ucast len, meta = [''packet_number'' \<mapsto> ofU64 (ucast number)]\<rparr>)"

text \<open>The packet number a caller states, if any: nothing stated is zero, anything but a 12-bit integer a refusal.\<close>

definition statedNumber :: "('v \<Rightarrow> u64 option) \<Rightarrow> u32 \<Rightarrow> string \<Rightarrow> (string \<Rightarrow> 'v option) \<Rightarrow> u32 option" where
  "statedNumber getU64 limit name extra =
     (case extra name of
        None \<Rightarrow> Some 0
      | Some v \<Rightarrow> (case getU64 v of None \<Rightarrow> None | Some n \<Rightarrow> if n > ucast limit then None else Some (ucast n)))"

definition formatCrc :: "('v \<Rightarrow> u64 option) \<Rightarrow> Crc \<Rightarrow> u64 \<Rightarrow> (string \<Rightarrow> 'v option) \<Rightarrow> u8 list \<Rightarrow> u8 list option" where
  "formatCrc getU64 crc n extra out =
     (if n > ucast kMaxLength \<or> length out < kLengthBits + kNumberBits + kCrcBits then None
      else case statedNumber getU64 kMaxLength ''packet_number'' extra of
             None \<Rightarrow> None
           | Some number \<Rightarrow>
               let len = ucast n;
                   out = writeHeaderField out 0 kLengthBits len;
                   out = writeHeaderField out kLengthBits kNumberBits number
               in Some (writeHeaderField out (kLengthBits + kNumberBits) kCrcBits
                    (ucast (crcCompute crc (coveredBytes len number)))))"

subsection \<open>What a length field counts\<close>

datatype CountCovers = Payload | PayloadAndCheck | WholeFrame
datatype HeaderByteOrder = Big | Little
datatype FlagsPosition = High | Low

record LengthCount =
  covers :: CountCovers
  unitItems :: u64
  checkItems :: u64
  framePrefixItems :: u64

definition defaultLengthCount :: LengthCount where
  "defaultLengthCount = \<lparr>covers = PayloadAndCheck, unitItems = 8, checkItems = 0, framePrefixItems = 0\<rparr>"

datatype HeaderError =
  UnitItemsRange u64 | CheckItemsUnused u64 | FramePrefixUnused u64
  | LengthBitsRange nat | LittleNeedsBytes nat | GolayLengthBitsRange nat

definition validateLengthCount :: "LengthCount \<Rightarrow> HeaderError option" where
  "validateLengthCount count =
     (if unitItems count < 1 \<or> unitItems count > 64 then Some (UnitItemsRange (unitItems count))
      else if checkItems count \<noteq> 0 \<and> covers count \<noteq> Payload then Some (CheckItemsUnused (checkItems count))
      else if framePrefixItems count \<noteq> 0 \<and> covers count \<noteq> WholeFrame then Some (FramePrefixUnused (framePrefixItems count))
      else None)"

definition payloadItemsFromCount :: "LengthCount \<Rightarrow> u32 \<Rightarrow> u64 \<Rightarrow> u64 option" where
  "payloadItemsFromCount count len headerItems =
     (let unit = unitItems count; check = checkItems count;
          prefix = (if framePrefixItems count \<noteq> 0 then framePrefixItems count else headerItems);
          value = ucast len :: u64
      in if unit = 0 \<or> value > (- 1 - check) div unit then None
         else
           let items = unit * value;
               counted = (case covers count of
                   Payload \<Rightarrow> Some (items + check)
                 | PayloadAndCheck \<Rightarrow> Some items
                 | WholeFrame \<Rightarrow> if items \<le> prefix then None else Some (items - prefix))
           in case counted of None \<Rightarrow> None | Some items \<Rightarrow> if items = 0 then None else Some items)"

definition countFromPayloadItems :: "LengthCount \<Rightarrow> u64 \<Rightarrow> u64 \<Rightarrow> u32 \<Rightarrow> u32 option" where
  "countFromPayloadItems count n headerItems maxValue =
     (let unit = unitItems count; check = checkItems count;
          prefix = (if framePrefixItems count \<noteq> 0 then framePrefixItems count else headerItems)
      in if unit = 0 then None
         else
           let counted = (case covers count of
                   Payload \<Rightarrow> if n < check then None else Some (n - check)
                 | PayloadAndCheck \<Rightarrow> Some n
                 | WholeFrame \<Rightarrow> if n > - 1 - prefix then None else Some (n + prefix))
           in case counted of
                None \<Rightarrow> None
              | Some counted \<Rightarrow>
                  if counted mod unit \<noteq> 0 then None
                  else let value = counted div unit
                       in if value > ucast maxValue then None else Some (ucast value))"

subsection \<open>The plain length field\<close>

record LengthPlainHeader =
  lengthBits :: nat
  byteOrder :: HeaderByteOrder
  plainCount :: LengthCount
  maxValue :: u32

definition kMaxLengthBits :: nat where "kMaxLengthBits = 32"

definition newLengthPlain :: "nat \<Rightarrow> HeaderByteOrder \<Rightarrow> LengthCount \<Rightarrow> HeaderError + LengthPlainHeader" where
  "newLengthPlain bits order count =
     (if bits < 1 \<or> bits > kMaxLengthBits then Inl (LengthBitsRange bits)
      else if order = Little \<and> bits mod 8 \<noteq> 0 then Inl (LittleNeedsBytes bits)
      else case validateLengthCount count of
             Some err \<Rightarrow> Inl err
           | None \<Rightarrow> Inr \<lparr>lengthBits = bits, byteOrder = order, plainCount = count,
                          maxValue = (if bits = 32 then NOT 0 else push_bit bits 1 - 1)\<rparr>)"

definition readPlainField :: "LengthPlainHeader \<Rightarrow> u8 list \<Rightarrow> u32" where
  "readPlainField self header =
     (if byteOrder self = Big then readHeaderField header 0 (lengthBits self)
      else fold (\<lambda>byte value. value OR push_bit (byte * 8) (readHeaderField header (byte * 8) 8))
             [0..<(lengthBits self + 7) div 8] 0)"

definition writePlainField :: "LengthPlainHeader \<Rightarrow> u8 list \<Rightarrow> u32 \<Rightarrow> u8 list" where
  "writePlainField self out value =
     (if byteOrder self = Big then writeHeaderField out 0 (lengthBits self) value
      else fold (\<lambda>byte out. writeHeaderField out (byte * 8) 8 (drop_bit (byte * 8) value AND 0xFF))
             [0..<(lengthBits self + 7) div 8] out)"

definition parsePlain :: "LengthPlainHeader \<Rightarrow> u8 list \<Rightarrow> 'v ParsedHeader option" where
  "parsePlain self header =
     (case payloadItemsFromCount (plainCount self) (readPlainField self header) (of_nat (lengthBits self)) of
        None \<Rightarrow> None
      | Some items \<Rightarrow> Some \<lparr>payloadItems = items, meta = (\<lambda>_. None)\<rparr>)"

definition formatPlain :: "LengthPlainHeader \<Rightarrow> u64 \<Rightarrow> (string \<Rightarrow> 'v option) \<Rightarrow> u8 list \<Rightarrow> u8 list option" where
  "formatPlain self n extra out =
     (if length out < lengthBits self then None
      else case countFromPayloadItems (plainCount self) n (of_nat (lengthBits self)) (maxValue self) of
             None \<Rightarrow> None
           | Some value \<Rightarrow> Some (writePlainField self out value))"

subsection \<open>The Golay-coded header\<close>

record LengthGolay24Header =
  golayLengthBits :: nat
  flagsPosition :: FlagsPosition
  golayCount :: LengthCount
  flagBits :: nat
  golayMaxValue :: u32
  maxFlags :: u32

definition kCodewordItems :: nat where "kCodewordItems = 24"
definition kHeaderInfoBits :: nat where "kHeaderInfoBits = 12"

definition newLengthGolay24 :: "nat \<Rightarrow> FlagsPosition \<Rightarrow> LengthCount \<Rightarrow> HeaderError + LengthGolay24Header" where
  "newLengthGolay24 bits flags count =
     (if bits < 1 \<or> bits > kHeaderInfoBits then Inl (GolayLengthBitsRange bits)
      else case validateLengthCount count of
             Some err \<Rightarrow> Inl err
           | None \<Rightarrow> let spare = kHeaderInfoBits - bits
                     in Inr \<lparr>golayLengthBits = bits, flagsPosition = flags, golayCount = count, flagBits = spare,
                             golayMaxValue = push_bit bits 1 - 1,
                             maxFlags = (if spare = 0 then 0 else push_bit spare 1 - 1)\<rparr>)"

definition parseGolay :: "(u64 \<Rightarrow> 'v) \<Rightarrow> LengthGolay24Header \<Rightarrow> u8 list \<Rightarrow> 'v ParsedHeader option" where
  "parseGolay ofU64 self header =
     (let decoded = golay24Decode (readHeaderField header 0 kCodewordItems)
      in if \<not> gvalid decoded then None
         else
           let info = ucast (ginfo decoded) :: u32;
               len = (if flagsPosition self = High then info AND golayMaxValue self else drop_bit (flagBits self) info);
               flags = (if flagsPosition self = High then drop_bit (golayLengthBits self) info else info AND maxFlags self)
           in case payloadItemsFromCount (golayCount self) len (of_nat kCodewordItems) of
                None \<Rightarrow> None
              | Some items \<Rightarrow>
                  let m = [''header_corrected_errors'' \<mapsto> ofU64 (of_nat (gerrors decoded))];
                      m = (if flagBits self \<noteq> 0 then m(''header_flags'' \<mapsto> ofU64 (ucast flags)) else m)
                  in Some \<lparr>payloadItems = items, meta = m\<rparr>)"

definition formatGolay :: "('v \<Rightarrow> u64 option) \<Rightarrow> LengthGolay24Header \<Rightarrow> u64 \<Rightarrow> (string \<Rightarrow> 'v option) \<Rightarrow> u8 list \<Rightarrow> u8 list option" where
  "formatGolay getU64 self n extra out =
     (if length out < kCodewordItems then None
      else case countFromPayloadItems (golayCount self) n (of_nat kCodewordItems) (golayMaxValue self) of
             None \<Rightarrow> None
           | Some value \<Rightarrow>
               (case statedNumber getU64 (maxFlags self) ''header_flags'' extra of
                  None \<Rightarrow> None
                | Some flags \<Rightarrow>
                    let info = (if flagsPosition self = High then push_bit (golayLengthBits self) flags OR value
                                else push_bit (flagBits self) value OR flags)
                    in Some (writeHeaderField out 0 kCodewordItems (golay24Encode (ucast info)))))"

subsection \<open>The closed set of layouts\<close>

datatype HeaderFormat =
    LengthCrc Crc
  | LengthRepeated
  | FixedLength u64
  | LengthPlain LengthPlainHeader
  | LengthGolay24 LengthGolay24Header

definition headerItemsOf :: "HeaderFormat \<Rightarrow> nat" where
  "headerItemsOf layout =
     (case layout of
        LengthCrc _ \<Rightarrow> kLengthBits + kNumberBits + kCrcBits
      | LengthRepeated \<Rightarrow> 32
      | FixedLength _ \<Rightarrow> 0
      | LengthPlain self \<Rightarrow> lengthBits self
      | LengthGolay24 _ \<Rightarrow> kCodewordItems)"

definition parseHeader :: "(u64 \<Rightarrow> 'v) \<Rightarrow> HeaderFormat \<Rightarrow> u8 list \<Rightarrow> 'v ParsedHeader option" where
  "parseHeader ofU64 layout header =
     (case layout of
        LengthCrc crc \<Rightarrow> parseCrc ofU64 crc header
      | LengthRepeated \<Rightarrow> parseRepeated header
      | FixedLength items \<Rightarrow> parseFixed items header
      | LengthPlain self \<Rightarrow> parsePlain self header
      | LengthGolay24 self \<Rightarrow> parseGolay ofU64 self header)"

definition formatHeader :: "('v \<Rightarrow> u64 option) \<Rightarrow> HeaderFormat \<Rightarrow> u64 \<Rightarrow> (string \<Rightarrow> 'v option) \<Rightarrow> u8 list \<Rightarrow> u8 list option" where
  "formatHeader getU64 layout n extra out =
     (case layout of
        LengthCrc crc \<Rightarrow> formatCrc getU64 crc n extra out
      | LengthRepeated \<Rightarrow> formatRepeated n extra out
      | FixedLength items \<Rightarrow> formatFixed items n extra out
      | LengthPlain self \<Rightarrow> formatPlain self n extra out
      | LengthGolay24 self \<Rightarrow> formatGolay getU64 self n extra out)"

end
