(* ===== verification/HeaderProperties.thy ===== *)
theory HeaderProperties
  imports HeaderFormat
begin

section \<open>What the header layouts promise\<close>

text \<open>
  Field lemmas by bits, the arithmetic of the three count conventions against natural numbers, the contract
  every layout keeps for the framer (locale \<open>header_layout\<close>, interpreted on each of the five), and the
  behaviour of the Golay-coded layout on a noisy channel.
\<close>

subsection \<open>Fields by bits\<close>

lemma headerBit_item [simp]: "headerBit (headerItem b) = b"
  by (simp add: headerBit_def headerItem_def)

lemma readHeaderField_0 [simp]: "readHeaderField header offset 0 = 0"
  by (simp add: readHeaderField_def)

lemma bit_readHeaderField_Suc:
  "bit (readHeaderField header offset (Suc n)) j \<longleftrightarrow>
     (if j = 0 then headerBit (header ! (offset + n)) else j < 32 \<and> bit (readHeaderField header offset n) (j - 1))"
proof -
  have "readHeaderField header offset (Suc n) =
      push_bit 1 (readHeaderField header offset n) OR (if headerBit (header ! (offset + n)) then 1 else 0)"
    unfolding readHeaderField_def by simp
  then show ?thesis
    by (simp only: bit_or_iff bit_push_bit_iff) (auto simp: bit_1_iff)
qed

lemma bit_readHeaderField [word_bits]:
  "bit (readHeaderField header offset n) j \<longleftrightarrow>
     j < 32 \<and> j < n \<and> headerBit (header ! (offset + (n - 1 - j)))"
proof (induction n arbitrary: j)
  case (Suc n)
  show ?case by (cases j) (auto simp: bit_readHeaderField_Suc Suc.IH)
qed simp

lemma length_writeHeaderField [simp]: "length (writeHeaderField out offset n value) = length out"
  by (simp add: writeHeaderField_def)

lemma drop_bit_and_one: "drop_bit k w AND 1 \<noteq> 0 \<longleftrightarrow> bit w k" for w :: "'a::len word"
  by (simp add: and_one_eq odd_iff_mod_2_eq_one [symmetric] bit_iff_odd_drop_bit)

lemma writeHeaderField_nth:
  "k < length out \<Longrightarrow> writeHeaderField out offset n value ! k =
    (if offset \<le> k \<and> k < offset + n then headerItem (bit value (n - 1 - (k - offset))) else out ! k)"
  unfolding writeHeaderField_def by (simp add: fold_update_nth drop_bit_and_one)

lemma read_write_same [simp]:
  "offset + n \<le> length out \<Longrightarrow>
    readHeaderField (writeHeaderField out offset n value) offset n = take_bit n value"
proof (rule bit_word_eqI)
  fix j assume room: "offset + n \<le> length out" and "j < LENGTH(32)"
  then show "bit (readHeaderField (writeHeaderField out offset n value) offset n) j = bit (take_bit n value) j"
  proof (cases "j < n")
    case True
    then have "offset \<le> offset + (n - 1 - j)" "n - 1 - (offset + (n - 1 - j) - offset) = j" by simp_all
    then show ?thesis
      using True room writeHeaderField_nth [of "offset + (n - 1 - j)" out offset n "value"]
      by (simp only: bit_readHeaderField bit_take_bit_iff) (auto dest: bit_imp_le_length)
  qed (simp add: bit_readHeaderField bit_take_bit_iff)
qed

lemma read_write_other:
  "offset' + n' \<le> offset \<or> offset + n \<le> offset' \<Longrightarrow> offset' + n' \<le> length out \<Longrightarrow>
    readHeaderField (writeHeaderField out offset n value) offset' n' = readHeaderField out offset' n'"
proof (rule bit_word_eqI)
  fix j assume apart: "offset' + n' \<le> offset \<or> offset + n \<le> offset'" "offset' + n' \<le> length out"
  show "bit (readHeaderField (writeHeaderField out offset n value) offset' n') j =
      bit (readHeaderField out offset' n') j"
    using apart writeHeaderField_nth [of "offset' + (n' - 1 - j)" out offset n "value"]
    by (cases "j < n'") (auto simp: bit_readHeaderField)
qed

lemma drop_writeHeaderField: "offset + n \<le> k \<Longrightarrow> drop k (writeHeaderField out offset n value) = drop k out"
  by (rule nth_equalityI) (auto simp: writeHeaderField_nth)

lemma readHeaderField_take: "offset + n \<le> k \<Longrightarrow> k \<le> length header \<Longrightarrow>
    readHeaderField (take k header) offset n = readHeaderField header offset n"
  by (rule bit_word_eqI) (auto simp: bit_readHeaderField)


subsection \<open>The count conventions, against natural numbers\<close>

text \<open>
  What a field value \<open>L\<close> says about a payload of \<open>n\<close> items, with no machine arithmetic in it; \<open>h\<close> is the
  layout's own length.
\<close>

definition countNames :: "LengthCount \<Rightarrow> nat \<Rightarrow> nat \<Rightarrow> nat \<Rightarrow> bool" where
  "countNames count h L n \<longleftrightarrow>
     (case covers count of
        Payload \<Rightarrow> n = unat (unitItems count) * L + unat (checkItems count)
      | PayloadAndCheck \<Rightarrow> n = unat (unitItems count) * L
      | WholeFrame \<Rightarrow> n + (if framePrefixItems count = 0 then h else unat (framePrefixItems count)) =
          unat (unitItems count) * L)"

lemma validateLengthCount_None:
  "validateLengthCount count = None \<longleftrightarrow>
     1 \<le> unat (unitItems count) \<and> unat (unitItems count) \<le> 64 \<and>
     (checkItems count = 0 \<or> covers count = Payload) \<and> (framePrefixItems count = 0 \<or> covers count = WholeFrame)"
  by (auto simp: validateLengthCount_def word_less_nat_alt word_le_nat_alt not_less unat_eq_0 Suc_le_eq unat_gt_0
      split: if_splits)

lemma unat_widened [simp]: "unat (ucast L :: u64) = unat L" for L :: u32
proof -
  have "unat L < 2 ^ 32" using unsigned_less [of L, where ?'a = nat] by simp
  then show ?thesis by (simp add: unsigned_ucast_eq take_bit_nat_eq_self)
qed

text \<open>The overflow guard is exact: it refuses the counts whose total does not fit the machine integer.\<close>

lemma overflow_guard:
  fixes u c L :: u64
  assumes "u \<noteq> 0"
  shows "L > (- 1 - c) div u \<longleftrightarrow> 2 ^ 64 \<le> unat u * unat L + unat c"
proof -
  have "unat (- 1 - c) = 2 ^ 64 - 1 - unat c"
    by (simp add: unat_sub unsigned_minus_1_eq_mask mask_eq_exp_minus_1)
  moreover have "0 < unat u" using assms by (simp add: unat_gt_0)
  moreover have "unat c < 2 ^ 64" using unsigned_less [of c] by simp
  ultimately show ?thesis
    unfolding word_less_nat_alt unat_div div_less_iff_less_mult [OF \<open>0 < unat u\<close>]
    by (auto simp: mult.commute)
qed

lemma unit_times_value:
  fixes u :: u64 and L :: u32
  assumes "unat u \<le> 64"
  shows "unat (u * ucast L) = unat u * unat L" "unat u * unat L < 2 ^ 38"
proof -
  have L: "unat L < 2 ^ 32" using unsigned_less [of L] by simp
  have "unat u * unat L \<le> 64 * unat L" using assms by (rule mult_le_mono1)
  also have "\<dots> < 64 * 2 ^ 32" using L by simp
  finally show small: "unat u * unat L < 2 ^ 38" by simp
  then show "unat (u * ucast L) = unat u * unat L"
    by (subst unat_mult_fits) simp_all
qed

lemma payloadItemsFromCount_exact:
  assumes "validateLengthCount count = None"
  shows "payloadItemsFromCount count L h = Some n \<longleftrightarrow> n \<noteq> 0 \<and> countNames count (unat h) (unat L) (unat n)"
proof -
  let ?u = "unitItems count" and ?c = "checkItems count"
  note ok = assms [unfolded validateLengthCount_None]
  have u: "?u \<noteq> 0" using ok by auto
  note items = unit_times_value [of ?u L] ok
  have guard: "(ucast L :: u64) > (- 1 - ?c) div ?u \<longleftrightarrow> 2 ^ 64 \<le> unat ?u * unat L + unat ?c"
    using overflow_guard [OF u, of ?c "ucast L"] by simp
  have n: "unat n < 2 ^ 64" using unsigned_less [of n] by simp
  show ?thesis
  proof (cases "covers count")
    case Payload
    show ?thesis
    proof (cases "2 ^ 64 \<le> unat ?u * unat L + unat ?c")
      case True
      then have "payloadItemsFromCount count L h = None"
        using guard by (simp add: payloadItemsFromCount_def Let_def)
      moreover have "unat n \<noteq> unat ?u * unat L + unat ?c" using True n by simp
      ultimately show ?thesis by (simp add: countNames_def Payload)
    next
      case False
      then have "unat (?u * ucast L + ?c) = unat ?u * unat L + unat ?c"
        using items(1) ok by (subst unat_add_fits) simp_all
      then show ?thesis
        using False guard u
        by (auto simp: payloadItemsFromCount_def Let_def countNames_def Payload word_unat_eq_iff split: if_splits)
          (metis add_gr_0 nat_0_less_mult_iff)
    qed
  next
    case PayloadAndCheck
    then show ?thesis
      using guard u items
      by (auto simp: payloadItemsFromCount_def Let_def countNames_def word_unat_eq_iff split: if_splits)
        (metis nat_0_less_mult_iff not_less_eq_eq le0 not_less)
  next
    case WholeFrame
    let ?p = "if framePrefixItems count \<noteq> 0 then framePrefixItems count else h"
    have p: "(if framePrefixItems count = 0 then unat h else unat (framePrefixItems count)) = unat ?p" by simp
    show ?thesis
    proof (cases "?u * ucast L \<le> ?p")
      case True
      then show ?thesis
        using guard u items
        by (auto simp: payloadItemsFromCount_def Let_def countNames_def WholeFrame word_le_nat_alt word_unat_eq_iff
            simp flip: p split: if_splits)
    next
      case False
      then have "unat (?u * ucast L - ?p) = unat ?u * unat L - unat ?p"
        using items ok by (simp add: unat_sub word_le_nat_alt)
      then show ?thesis
        using False guard u items
        by (auto simp: payloadItemsFromCount_def Let_def countNames_def WholeFrame word_le_nat_alt word_unat_eq_iff
            simp flip: p split: if_splits)
    qed
  qed
qed


lemma countFromPayloadItems_exact:
  assumes "validateLengthCount count = None"
  shows "countFromPayloadItems count n h limit = Some L \<longleftrightarrow>
    unat L \<le> unat limit \<and> countNames count (unat h) (unat L) (unat n)"
proof -
  let ?u = "unitItems count" and ?c = "checkItems count"
  let ?p = "if framePrefixItems count \<noteq> 0 then framePrefixItems count else h"
  note ok = assms [unfolded validateLengthCount_None]
  have u: "?u \<noteq> 0" "0 < unat ?u" using ok by auto
  have p: "(if framePrefixItems count = 0 then unat h else unat (framePrefixItems count)) = unat ?p" by simp
  define named where "named m = (if m mod ?u \<noteq> 0 then None else if m div ?u > ucast limit then None
    else Some (ucast (m div ?u) :: u32))" for m
  have divided: "named m = Some L \<longleftrightarrow> unat L \<le> unat limit \<and> unat m = unat ?u * unat L" for m
  proof
    assume "named m = Some L"
    then have whole: "m mod ?u = 0" and bound: "m div ?u \<le> ucast limit" and L: "L = ucast (m div ?u)"
      by (simp_all add: named_def not_less split: if_splits)
    have "unat (m div ?u) \<le> unat limit" using bound by (simp add: word_le_nat_alt)
    moreover have "unat limit < 2 ^ 32" using unsigned_less [of limit, where ?'a = nat] by simp
    ultimately have "unat L = unat (m div ?u)" "unat L \<le> unat limit"
      unfolding L by (simp_all add: unsigned_ucast_eq take_bit_nat_eq_self)
    moreover have "unat m mod unat ?u = 0" using whole by (simp add: word_unat_eq_iff unat_mod)
    ultimately show "unat L \<le> unat limit \<and> unat m = unat ?u * unat L"
      using mult_div_mod_eq [of "unat ?u" "unat m"] by (simp add: unat_div)
  next
    assume eq: "unat L \<le> unat limit \<and> unat m = unat ?u * unat L"
    then have "m mod ?u = 0" by (simp add: word_unat_eq_iff unat_mod)
    moreover have quotient: "m div ?u = ucast L" using eq u by (simp add: word_unat_eq_iff unat_div)
    moreover have "\<not> m div ?u > ucast limit" using eq unfolding quotient by (simp add: word_less_nat_alt)
    moreover have "ucast (ucast L :: u64) = L" by (rule bit_word_eqI) (auto simp: bit_ucast_iff)
    ultimately show "named m = Some L" by (simp add: named_def)
  qed
  show ?thesis
  proof (cases "covers count")
    case Payload
    show ?thesis
    proof (cases "n < ?c")
      case True
      then show ?thesis
        using u by (auto simp: countFromPayloadItems_def Let_def countNames_def Payload word_less_nat_alt)
    next
      case False
      then have "unat (n - ?c) = unat n - unat ?c" "unat ?c \<le> unat n"
        by (simp_all add: unat_sub word_less_nat_alt word_le_nat_alt)
      moreover have "countFromPayloadItems count n h limit = named (n - ?c)"
        using False u by (simp add: countFromPayloadItems_def Let_def Payload named_def)
      ultimately show ?thesis by (auto simp: divided countNames_def Payload)
    qed
  next
    case PayloadAndCheck
    then have "countFromPayloadItems count n h limit = named n"
      using u by (simp add: countFromPayloadItems_def Let_def named_def)
    then show ?thesis by (simp add: divided countNames_def PayloadAndCheck)
  next
    case WholeFrame
    have guard: "n > - 1 - ?p \<longleftrightarrow> 2 ^ 64 \<le> unat n + unat ?p"
      using overflow_guard [of 1 ?p n] by simp
    show ?thesis
    proof (cases "2 ^ 64 \<le> unat n + unat ?p")
      case True
      then have "countFromPayloadItems count n h limit = None"
        using guard u by (simp add: countFromPayloadItems_def Let_def WholeFrame)
      moreover have "unat n + unat ?p \<noteq> unat ?u * unat L"
        using True unit_times_value(2) [of ?u L] ok by simp
      ultimately show ?thesis by (simp add: countNames_def WholeFrame p)
    next
      case False
      then have "unat (n + ?p) = unat n + unat ?p" by (subst unat_add_fits) simp_all
      moreover have "countFromPayloadItems count n h limit = named (n + ?p)"
        using False guard u unfolding countFromPayloadItems_def Let_def WholeFrame named_def by simp
      ultimately show ?thesis by (simp add: divided countNames_def WholeFrame p)
    qed
  qed
qed

subsection \<open>The framer's contract\<close>

text \<open>
  What a framer and a modulator rely on, for any family of layouts: \<open>format\<close> fills exactly the header's
  items, \<open>parse\<close> reads nothing else, and parsing a formatted header yields the length and what the
  metadata carried.
\<close>

locale header_layout =
  fixes built :: "'l \<Rightarrow> bool"
    and items :: "'l \<Rightarrow> nat"
    and parse :: "'l \<Rightarrow> u8 list \<Rightarrow> 'v ParsedHeader option"
    and format :: "'l \<Rightarrow> u64 \<Rightarrow> (string \<Rightarrow> 'v option) \<Rightarrow> u8 list \<Rightarrow> u8 list option"
    and carried :: "'l \<Rightarrow> (string \<Rightarrow> 'v option) \<Rightarrow> string \<Rightarrow> 'v option"
  assumes room: "built l \<Longrightarrow> format l n extra out = Some header \<Longrightarrow> items l \<le> length out"
    and stays: "built l \<Longrightarrow> format l n extra out = Some header \<Longrightarrow>
      length header = length out \<and> drop (items l) header = drop (items l) out"
    and local: "built l \<Longrightarrow> items l \<le> length header \<Longrightarrow> parse l (take (items l) header) = parse l header"
    and parse_format: "built l \<Longrightarrow> format l n extra out = Some header \<Longrightarrow> n \<noteq> 0 \<Longrightarrow>
      parse l header = Some \<lparr>payloadItems = n, meta = carried l extra\<rparr>"
begin

lemma framed:
  assumes "built l" "format l n extra out = Some header" "n \<noteq> 0"
  shows "parse l (take (items l) (header @ payload)) = Some \<lparr>payloadItems = n, meta = carried l extra\<rparr> \<and>
    drop (items l) (header @ payload) = drop (items l) out @ payload"
  using room [OF assms(1,2)] stays [OF assms(1,2)] parse_format [OF assms] local [OF assms(1), of header]
  by simp

lemma exact_header:
  assumes "built l" "format l n extra out = Some header" "n \<noteq> 0" "length out = items l"
  shows "drop (items l) (header @ payload) = payload"
  using framed [OF assms(1-3)] assms(4) by simp

end

subsection \<open>The contract, layout by layout\<close>

lemma take_bit_fits: "unat w < 2 ^ n \<Longrightarrow> take_bit n w = w" for w :: "'a::len word"
  by (rule bit_word_eqI) (auto simp: bit_take_bit_iff dest: bits_below)

text \<open>A stated metadata number within its field, and the value a parser later reports for it.\<close>

definition statedValue :: "('v \<Rightarrow> u64 option) \<Rightarrow> string \<Rightarrow> (string \<Rightarrow> 'v option) \<Rightarrow> u64" where
  "statedValue getU64 name extra =
     (case extra name of None \<Rightarrow> 0 | Some v \<Rightarrow> (case getU64 v of None \<Rightarrow> 0 | Some n \<Rightarrow> n))"

lemma statedNumber_Some:
  assumes "statedNumber getU64 limit name extra = Some k"
  shows "unat k \<le> unat limit" "ucast k = statedValue getU64 name extra"
proof -
  have "unat k \<le> unat limit \<and> ucast k = statedValue getU64 name extra"
  proof (cases "extra name")
    case None
    with assms show ?thesis by (auto simp: statedNumber_def statedValue_def)
  next
    case (Some v)
    then obtain n where n: "getU64 v = Some n" "\<not> n > ucast limit" "k = ucast n"
      using assms by (auto simp: statedNumber_def split: option.splits if_splits)
    have "unat n \<le> unat limit" using n(2) by (simp add: not_less word_le_nat_alt)
    moreover have "unat limit < 2 ^ 32" using unsigned_less [of limit, where ?'a = nat] by simp
    ultimately have "unat k = unat n"
      unfolding n(3) by (simp add: unsigned_ucast_eq take_bit_nat_eq_self)
    then show ?thesis
      using \<open>unat n \<le> unat limit\<close> Some n(1) by (simp add: statedValue_def word_unat_eq_iff)
  qed
  then show "unat k \<le> unat limit" "ucast k = statedValue getU64 name extra" by simp_all
qed

lemma narrowed: "n \<le> ucast limit \<Longrightarrow> unat (ucast n :: u32) = unat n" for n :: u64 and limit :: u32
  using unsigned_less [of limit, where ?'a = nat]
  by (simp add: word_le_nat_alt unsigned_ucast_eq take_bit_nat_eq_self)

lemma widened_narrowed: "n \<le> ucast limit \<Longrightarrow> ucast (ucast n :: u32) = n" for n :: u64 and limit :: u32
  using narrowed [of n limit] by (simp add: word_unat_eq_iff)

lemma length_small: "unat w \<le> 0xFFF \<Longrightarrow> take_bit 12 w = w" for w :: u32
  by (rule take_bit_fits) simp

subsubsection \<open>Fixed and repeated\<close>

interpretation fixed: header_layout "\<lambda>_. True" "\<lambda>_. 0" parseFixed formatFixed "\<lambda>_ _ _. None"
  by unfold_locales (auto simp: parseFixed_def formatFixed_def split: if_splits)

interpretation repeated: header_layout "\<lambda>_. True" "\<lambda>_. 32" "\<lambda>_. parseRepeated" "\<lambda>_. formatRepeated" "\<lambda>_ _ _. None"
proof (unfold_locales, goal_cases)
  case (4 l n extra out header)
  then have fits: "n \<le> 0xFFFF" and room: "32 \<le> length out"
    and header: "header = writeHeaderField (writeHeaderField out 0 16 (ucast n)) 16 16 (ucast n)"
    by (simp_all add: formatRepeated_def not_less split: if_splits)
  have "n \<le> ucast (0xFFFF :: u32)" using fits by simp
  then have "take_bit 16 (ucast n :: u32) = ucast n" "ucast (ucast n :: u32) = n"
    using fits narrowed [of n "0xFFFF"] widened_narrowed [of n "0xFFFF"]
    by (auto simp: word_le_nat_alt intro!: take_bit_fits)
  then show ?case
    using room by (simp add: parseRepeated_def header read_write_other Let_def)
qed (auto simp: formatRepeated_def parseRepeated_def readHeaderField_take drop_writeHeaderField split: if_splits)


subsubsection \<open>The length under a CRC\<close>

lemma crcCompute_masked: "crcCompute c message AND crc_mask c = crcCompute c message"
  by (cases "crc_form c") (simp_all add: crcCompute_def crcFinish_def Let_def and.assoc)

lemma headerCrc_fits:
  assumes "headerCrc = Inr crc"
  shows "take_bit 8 (ucast (crcCompute crc message) :: u32) = ucast (crcCompute crc message)"
proof (rule bit_word_eqI)
  have "crc_mask crc = mask 8"
    using Crc_new_result(4) [OF assms [unfolded headerCrc_def]] by simp
  then have "crcCompute crc message AND mask 8 = crcCompute crc message"
    using crcCompute_masked [of crc message] by simp
  then have low: "bit (crcCompute crc message) i \<Longrightarrow> i < 8" for i
    by (metis bit_and_iff bit_mask_iff)
  fix i assume "i < LENGTH(32)"
  then show "bit (take_bit 8 (ucast (crcCompute crc message) :: u32)) i = bit (ucast (crcCompute crc message) :: u32) i"
    using low [of i] by (auto simp: bit_take_bit_iff bit_ucast_iff)
qed

lemmas header_fields = kLengthBits_def kNumberBits_def kCrcBits_def kCodewordItems_def kHeaderInfoBits_def

lemma kMaxLength_eq: "kMaxLength = 0xFFF"
  by (simp add: kMaxLength_def kLengthBits_def)

lemma formatCrc_Some:
  assumes "formatCrc getU64 crc n extra out = Some header"
  obtains number where "n \<le> ucast kMaxLength" "32 \<le> length out"
    "statedNumber getU64 kMaxLength ''packet_number'' extra = Some number"
    "header = writeHeaderField (writeHeaderField (writeHeaderField out 0 12 (ucast n)) 12 12 number) 24 8
       (ucast (crcCompute crc (coveredBytes (ucast n) number)))"
  using assms by (auto simp: formatCrc_def header_fields Let_def not_less split: if_splits option.splits)

interpretation crc: header_layout "\<lambda>crc. headerCrc = Inr crc" "\<lambda>_. 32" "parseCrc ofU64" "formatCrc getU64"
  "\<lambda>_ extra. [''packet_number'' \<mapsto> ofU64 (statedValue getU64 ''packet_number'' extra)]" for ofU64 getU64
proof (unfold_locales, goal_cases)
  case (4 crc n extra out header)
  obtain number where fits: "n \<le> ucast kMaxLength" and room: "32 \<le> length out"
    and number: "statedNumber getU64 kMaxLength ''packet_number'' extra = Some number"
    and header: "header = writeHeaderField (writeHeaderField (writeHeaderField out 0 12 (ucast n)) 12 12 number) 24 8
       (ucast (crcCompute crc (coveredBytes (ucast n) number)))"
    using 4(2) by (rule formatCrc_Some)
  have "unat (ucast n :: u32) \<le> 0xFFF"
    using fits narrowed [OF fits] by (simp add: kMaxLength_eq word_le_nat_alt)
  moreover have "unat number \<le> 0xFFF" using statedNumber_Some(1) [OF number] by (simp add: kMaxLength_eq)
  ultimately have "readHeaderField header 0 12 = ucast n" "readHeaderField header 12 12 = number"
    "readHeaderField header 24 8 = ucast (crcCompute crc (coveredBytes (ucast n) number))"
    using room by (simp_all add: header read_write_other length_small headerCrc_fits [OF 4(1)])
  then show ?case
    using widened_narrowed [OF fits] statedNumber_Some(2) [OF number]
    by (simp add: parseCrc_def header_fields Let_def)
qed (auto elim!: formatCrc_Some simp: parseCrc_def header_fields Let_def readHeaderField_take drop_writeHeaderField)

subsubsection \<open>The plain length field\<close>

lemma readBytes_below:
  "fold (\<lambda>byte v. v OR push_bit (byte * 8) (take_bit 8 (drop_bit (byte * 8) value AND 0xFF))) [0..<n] 0 =
     take_bit (8 * n) (value :: u32)"
proof (induction n)
  case (Suc n)
  have byte: "bit (0xFF :: u32) k \<longleftrightarrow> k < 8" for k by (auto simp: word_bits)
  have "take_bit (8 * n) value OR push_bit (n * 8) (take_bit 8 (drop_bit (n * 8) value AND 0xFF)) =
      take_bit (8 * Suc n) value"
  proof (rule bit_word_eqI)
    fix i assume "i < LENGTH(32)"
    then have room: "possible_bit TYPE(32 word) i" by simp
    show "bit (take_bit (8 * n) value OR push_bit (n * 8) (take_bit 8 (drop_bit (n * 8) value AND 0xFF))) i =
        bit (take_bit (8 * Suc n) value) i"
    proof (cases "n * 8 \<le> i")
      case True
      then have "n * 8 + (i - n * 8) = i" "i - n * 8 < 8 \<longleftrightarrow> i < 8 * Suc n" "\<not> i < 8 * n" by auto
      with True room show ?thesis
        by (simp only: bit_or_iff bit_push_bit_iff bit_take_bit_iff bit_and_iff bit_drop_bit_eq o_apply byte simp_thms) blast
    next
      case False
      then have "i < 8 * n" "i < 8 * Suc n" by simp_all
      with False show ?thesis by (simp only: bit_or_iff bit_push_bit_iff bit_take_bit_iff simp_thms)
    qed
  qed
  then show ?case using Suc.IH by simp
qed simp

definition writeBytes :: "u32 \<Rightarrow> nat \<Rightarrow> u8 list \<Rightarrow> u8 list" where
  "writeBytes value n out =
     fold (\<lambda>byte out. writeHeaderField out (byte * 8) 8 (drop_bit (byte * 8) value AND 0xFF)) [0..<n] out"

lemma writeBytes_simps [simp]:
  "writeBytes value 0 out = out"
  "writeBytes value (Suc n) out = writeHeaderField (writeBytes value n out) (n * 8) 8 (drop_bit (n * 8) value AND 0xFF)"
  by (simp_all add: writeBytes_def)

lemma length_writeBytes [simp]: "length (writeBytes value n out) = length out"
  by (induction n) simp_all

lemma drop_writeBytes: "n * 8 \<le> k \<Longrightarrow> drop k (writeBytes value n out) = drop k out"
  by (induction n) (simp_all add: drop_writeHeaderField)

lemma read_writeBytes:
  "b < n \<Longrightarrow> n * 8 \<le> length out \<Longrightarrow>
    readHeaderField (writeBytes value n out) (b * 8) 8 = take_bit 8 (drop_bit (b * 8) value AND 0xFF)"
proof (induction n)
  case (Suc n)
  show ?case
  proof (cases "b = n")
    case False
    then have "b * 8 + 8 \<le> n * 8" using Suc.prems by simp
    then show ?thesis using Suc False by (simp add: read_write_other)
  qed (use Suc.prems in simp)
qed simp

lemma readBytes_cong:
  "(\<And>b. b < n \<Longrightarrow> f b = g b) \<Longrightarrow>
    fold (\<lambda>byte v. v OR push_bit (byte * 8) (f byte)) [0..<n] s = fold (\<lambda>byte v. v OR push_bit (byte * 8) (g byte)) [0..<n] (s :: u32)"
  by (induction n) simp_all

definition builtPlain :: "LengthPlainHeader \<Rightarrow> bool" where
  "builtPlain self \<longleftrightarrow> (\<exists>bits order count. newLengthPlain bits order count = Inr self)"

lemma builtPlain_facts:
  assumes "builtPlain self"
  shows "1 \<le> lengthBits self" "lengthBits self \<le> 32" "byteOrder self = Big \<or> lengthBits self mod 8 = 0"
    "validateLengthCount (plainCount self) = None" "unat (maxValue self) < 2 ^ lengthBits self"
proof -
  obtain bits order count where new: "newLengthPlain bits order count = Inr self"
    using assms unfolding builtPlain_def by auto
  then have self: "1 \<le> bits" "bits \<le> 32" "order = Little \<longrightarrow> bits mod 8 = 0" "validateLengthCount count = None"
    "self = \<lparr>lengthBits = bits, byteOrder = order, plainCount = count,
       maxValue = (if bits = 32 then NOT 0 else push_bit bits 1 - 1)\<rparr>"
    by (auto simp: newLengthPlain_def kMaxLengthBits_def not_less Suc_le_eq split: if_splits option.splits)
  show "1 \<le> lengthBits self" "lengthBits self \<le> 32" "validateLengthCount (plainCount self) = None"
    using self by simp_all
  show "byteOrder self = Big \<or> lengthBits self mod 8 = 0"
    using self by (cases order) simp_all
  show "unat (maxValue self) < 2 ^ lengthBits self"
  proof (cases "bits = 32")
    case True
    then show ?thesis using self(5) unsigned_less [of "maxValue self", where ?'a = nat] by simp
  next
    case False
    have "maxValue self = mask bits" using self False by (simp add: push_bit_of_1 mask_eq_decr_exp)
    then show ?thesis
      using self(5) take_bit_nat_less_exp [of bits "unat (- 1 :: u32)"]
      by (simp add: unsigned_take_bit_eq take_bit_minus_one_eq_mask [symmetric] del: take_bit_minus_one_eq_mask)
  qed
qed

lemma plain_bytes:
  assumes "builtPlain self" "byteOrder self = Little"
  shows "(lengthBits self + 7) div 8 * 8 = lengthBits self"
proof -
  have "lengthBits self mod 8 = 0" using builtPlain_facts(3) [OF assms(1)] assms(2) by simp
  then show ?thesis by presburger
qed

lemma readPlain_writePlain:
  assumes "builtPlain self" "lengthBits self \<le> length out" "unat value \<le> unat (maxValue self)"
  shows "readPlainField self (writePlainField self out value) = value"
proof -
  note built = builtPlain_facts [OF assms(1)]
  have "unat value < 2 ^ lengthBits self" using assms(3) built(5) by linarith
  then have fits: "take_bit (lengthBits self) value = value" by (rule take_bit_fits)
  show ?thesis
  proof (cases "byteOrder self")
    case Big
    then show ?thesis using assms(2) fits by (simp add: readPlainField_def writePlainField_def)
  next
    case Little
    then have whole: "(lengthBits self + 7) div 8 * 8 = lengthBits self" using plain_bytes [OF assms(1)] by simp
    let ?n = "(lengthBits self + 7) div 8"
    have "readPlainField self (writePlainField self out value) =
        fold (\<lambda>byte v. v OR push_bit (byte * 8) (readHeaderField (writeBytes value ?n out) (byte * 8) 8)) [0..<?n] 0"
      using Little by (simp add: readPlainField_def writePlainField_def writeBytes_def)
    also have "\<dots> = fold (\<lambda>byte v. v OR push_bit (byte * 8) (take_bit 8 (drop_bit (byte * 8) value AND 0xFF))) [0..<?n] 0"
      by (rule readBytes_cong) (use assms(2) whole in \<open>simp add: read_writeBytes\<close>)
    also have "\<dots> = take_bit (8 * ?n) value" by (rule readBytes_below)
    also have "\<dots> = value" using fits whole by (simp add: mult.commute)
    finally show ?thesis .
  qed
qed

lemma writePlain_stays:
  assumes "builtPlain self"
  shows "length (writePlainField self out value) = length out \<and>
    drop (lengthBits self) (writePlainField self out value) = drop (lengthBits self) out"
proof (cases "byteOrder self")
  case Big
  then show ?thesis by (simp add: writePlainField_def drop_writeHeaderField)
next
  case Little
  then have "(lengthBits self + 7) div 8 * 8 = lengthBits self" using plain_bytes [OF assms] by simp
  then show ?thesis
    using Little by (simp add: writePlainField_def drop_writeBytes flip: writeBytes_def)
qed

lemma readPlain_take:
  assumes "builtPlain self" "lengthBits self \<le> length header"
  shows "readPlainField self (take (lengthBits self) header) = readPlainField self header"
proof (cases "byteOrder self")
  case Big
  then show ?thesis using assms(2) by (simp add: readPlainField_def readHeaderField_take)
next
  case Little
  then have whole: "(lengthBits self + 7) div 8 * 8 = lengthBits self" using plain_bytes [OF assms(1)] by simp
  have "b * 8 + 8 \<le> lengthBits self" if "b < (lengthBits self + 7) div 8" for b
    using that whole by linarith
  then have "readHeaderField (take (lengthBits self) header) (b * 8) 8 = readHeaderField header (b * 8) 8"
    if "b < (lengthBits self + 7) div 8" for b
    using assms(2) that by (simp add: readHeaderField_take)
  then show ?thesis
    using Little unfolding readPlainField_def by (simp cong: readBytes_cong)
qed


lemma unat_layout_length: "m \<le> 32 \<Longrightarrow> unat (of_nat m :: u64) = m"
  by (simp add: unsigned_of_nat take_bit_nat_eq_self)

text \<open>The two directions of the count agree on the field's value.\<close>

lemma count_roundtrip:
  assumes "validateLengthCount count = None" "countFromPayloadItems count n h limit = Some L" "n \<noteq> 0"
  shows "unat L \<le> unat limit" "payloadItemsFromCount count L h = Some n"
  using assms(2,3) countFromPayloadItems_exact [OF assms(1), of n h limit L]
    payloadItemsFromCount_exact [OF assms(1), of L h n] by simp_all

interpretation plain: header_layout builtPlain lengthBits parsePlain formatPlain "\<lambda>_ _ _. None"
proof (unfold_locales, goal_cases)
  case (4 self n extra out header)
  then obtain L where L: "countFromPayloadItems (plainCount self) n (of_nat (lengthBits self)) (maxValue self) = Some L"
    and header: "header = writePlainField self out L" and room: "lengthBits self \<le> length out"
    by (auto simp: formatPlain_def not_less split: if_splits option.splits)
  note facts = count_roundtrip [OF builtPlain_facts(4) [OF 4(1)] L 4(3)]
  have "readPlainField self header = L"
    unfolding header by (rule readPlain_writePlain [OF 4(1) room facts(1)])
  then show ?case using facts(2) by (simp add: parsePlain_def)
qed (auto simp: formatPlain_def parsePlain_def writePlain_stays readPlain_take split: if_splits option.splits)

subsubsection \<open>The Golay-coded header\<close>

definition builtGolay :: "LengthGolay24Header \<Rightarrow> bool" where
  "builtGolay self \<longleftrightarrow> (\<exists>bits flags count. newLengthGolay24 bits flags count = Inr self)"

lemma builtGolay_facts:
  assumes "builtGolay self"
  shows "1 \<le> golayLengthBits self" "golayLengthBits self \<le> 12" "flagBits self = 12 - golayLengthBits self"
    "validateLengthCount (golayCount self) = None"
    "golayMaxValue self = mask (golayLengthBits self)" "maxFlags self = mask (flagBits self)"
proof -
  obtain bits flags count where new: "newLengthGolay24 bits flags count = Inr self"
    using assms unfolding builtGolay_def by auto
  then have self: "1 \<le> bits" "bits \<le> 12" "validateLengthCount count = None"
    "self = \<lparr>golayLengthBits = bits, flagsPosition = flags, golayCount = count, flagBits = 12 - bits,
       golayMaxValue = push_bit bits 1 - 1, maxFlags = (if 12 - bits = 0 then 0 else push_bit (12 - bits) 1 - 1)\<rparr>"
    by (auto simp: newLengthGolay24_def header_fields Let_def not_less Suc_le_eq split: if_splits option.splits)
  show "1 \<le> golayLengthBits self" "golayLengthBits self \<le> 12" "flagBits self = 12 - golayLengthBits self"
    "validateLengthCount (golayCount self) = None" "golayMaxValue self = mask (golayLengthBits self)"
    using self by (simp_all add: mask_eq_decr_exp)
  show "maxFlags self = mask (flagBits self)"
    using self by (cases "bits = 12") (simp_all add: mask_eq_decr_exp)
qed

text \<open>The twelve information bits, and how the length and the flags are read back out of them.\<close>

definition golayInfoField :: "LengthGolay24Header \<Rightarrow> u32 \<Rightarrow> u32 \<Rightarrow> u32" where
  "golayInfoField self value flags =
     (if flagsPosition self = High then push_bit (golayLengthBits self) flags OR value
      else push_bit (flagBits self) value OR flags)"

definition golayLengthOf :: "LengthGolay24Header \<Rightarrow> u32 \<Rightarrow> u32" where
  "golayLengthOf self info =
     (if flagsPosition self = High then info AND golayMaxValue self else drop_bit (flagBits self) info)"

definition golayFlagsOf :: "LengthGolay24Header \<Rightarrow> u32 \<Rightarrow> u32" where
  "golayFlagsOf self info =
     (if flagsPosition self = High then drop_bit (golayLengthBits self) info else info AND maxFlags self)"

lemma below_mask: "unat w \<le> unat (mask n :: u32) \<Longrightarrow> bit w i \<Longrightarrow> i < n" for w :: u32
proof (cases "n \<le> 31")
  case True
  assume "unat w \<le> unat (mask n :: u32)" "bit w i"
  moreover have "unat (mask n :: u32) < 2 ^ n"
    using take_bit_nat_less_exp [of n "unat (- 1 :: u32)"]
    by (simp add: unsigned_take_bit_eq take_bit_minus_one_eq_mask [symmetric] del: take_bit_minus_one_eq_mask)
  ultimately show ?thesis using bits_below [of w n i] by simp
next
  case False
  assume "bit w i"
  then show ?thesis using False bit_imp_le_length [of w i] by simp
qed

lemma golayInfo_fields:
  assumes "builtGolay self" "unat value \<le> unat (golayMaxValue self)" "unat flags \<le> unat (maxFlags self)"
  shows "golayLengthOf self (golayInfoField self value flags) = value"
    "golayFlagsOf self (golayInfoField self value flags) = flags"
    "\<And>i. bit (golayInfoField self value flags) i \<Longrightarrow> i < 12"
proof -
  note built = builtGolay_facts [OF assms(1)]
  let ?l = "golayLengthBits self" and ?f = "flagBits self"
  have v: "bit value i \<Longrightarrow> i < ?l" and f: "bit flags i \<Longrightarrow> i < ?f" for i
    using assms(2,3) below_mask unfolding built by blast+
  have sum: "?l + ?f = 12" using built by simp
  show "golayLengthOf self (golayInfoField self value flags) = value"
    "golayFlagsOf self (golayInfoField self value flags) = flags"
    using v f sum
    by (intro bit_word_eqI; cases "flagsPosition self";
        force simp: golayLengthOf_def golayFlagsOf_def golayInfoField_def built bit_or_iff bit_and_iff bit_push_bit_iff
          bit_drop_bit_eq bit_mask_iff)+
  show "bit (golayInfoField self value flags) i \<Longrightarrow> i < 12" for i
    using v [of i] v [of "i - ?f"] f [of i] f [of "i - ?l"] sum
    by (cases "flagsPosition self") (auto simp: golayInfoField_def bit_or_iff bit_push_bit_iff)
qed


lemma golay24Encode_bits: "bit (golay24Encode info) i \<Longrightarrow> i < 24"
proof -
  have "bit (golay23Encode info) i \<Longrightarrow> i < 23" for i
    using golay23Encode_fits [of info] unfolding fits23_subset by auto
  then show "bit (golay24Encode info) i \<Longrightarrow> i < 24"
    unfolding golay24Encode_def Let_def bit_or_iff bit_push_bit_iff and_one
    by (cases i) (auto simp: of_bool_def bit_1_iff split: if_splits)
qed

text \<open>The positions in which two headers of 24 items disagree, and the word they differ by.\<close>

definition flipped :: "u8 list \<Rightarrow> u8 list \<Rightarrow> nat" where
  "flipped header header' = length (filter (\<lambda>j. headerBit (header ! j) \<noteq> headerBit (header' ! j)) [0..<24])"

lemma received_word:
  obtains e where "readHeaderField header' 0 24 = readHeaderField header 0 24 XOR e"
    "\<forall>i. bit e i \<longrightarrow> i < 24" "popcount e = flipped header header'"
proof -
  define e where "e = readHeaderField header 0 24 XOR readHeaderField header' 0 24"
  have bits: "bit e i \<longleftrightarrow> i < 24 \<and> headerBit (header ! (23 - i)) \<noteq> headerBit (header' ! (23 - i))" for i
    by (auto simp: e_def bit_xor_iff bit_readHeaderField)
  have "{i. bit e i} = (\<lambda>j. 23 - j) ` set (filter (\<lambda>j. headerBit (header ! j) \<noteq> headerBit (header' ! j)) [0..<24])"
  proof (intro set_eqI iffI)
    fix i assume "i \<in> {i. bit e i}"
    then have "i = 23 - (23 - i)" "23 - i \<in> set (filter (\<lambda>j. headerBit (header ! j) \<noteq> headerBit (header' ! j)) [0..<24])"
      by (simp_all add: bits)
    then show "i \<in> (\<lambda>j. 23 - j) ` set (filter (\<lambda>j. headerBit (header ! j) \<noteq> headerBit (header' ! j)) [0..<24])"
      by (rule image_eqI)
  qed (auto simp: bits)
  moreover have "inj_on (\<lambda>j. 23 - j) (set (filter (\<lambda>j. headerBit (header ! j) \<noteq> headerBit (header' ! j)) [0..<24]))"
    by (auto simp: inj_on_def)
  ultimately have "popcount e = flipped header header'"
    unfolding popcount_card flipped_def by (simp only: card_image distinct_card [OF distinct_filter [OF distinct_upt]])
  then show thesis by (intro that [of e]) (simp_all add: e_def bits [unfolded e_def])
qed

definition golayMeta :: "(u64 \<Rightarrow> 'v) \<Rightarrow> LengthGolay24Header \<Rightarrow> u64 \<Rightarrow> nat \<Rightarrow> string \<Rightarrow> 'v option" where
  "golayMeta ofU64 self flags errors =
     (let m = [''header_corrected_errors'' \<mapsto> ofU64 (of_nat errors)]
      in if flagBits self \<noteq> 0 then m(''header_flags'' \<mapsto> ofU64 flags) else m)"

lemma formatGolay_Some:
  assumes "formatGolay getU64 self n extra out = Some header"
  obtains L flags where "24 \<le> length out"
    "countFromPayloadItems (golayCount self) n 24 (golayMaxValue self) = Some L"
    "statedNumber getU64 (maxFlags self) ''header_flags'' extra = Some flags"
    "header = writeHeaderField out 0 24 (golay24Encode (ucast (golayInfoField self L flags)))"
  using assms
  by (auto simp: formatGolay_def header_fields Let_def not_less golayInfoField_def split: if_splits option.splits)

lemma parseGolay_fields:
  "parseGolay ofU64 self header =
     (let decoded = golay24Decode (readHeaderField header 0 24)
      in if \<not> gvalid decoded then None
         else case payloadItemsFromCount (golayCount self) (golayLengthOf self (ucast (ginfo decoded))) 24 of
                None \<Rightarrow> None
              | Some items \<Rightarrow> Some \<lparr>payloadItems = items,
                  meta = golayMeta ofU64 self (ucast (golayFlagsOf self (ucast (ginfo decoded)))) (gerrors decoded)\<rparr>)"
  unfolding parseGolay_def golayMeta_def golayLengthOf_def golayFlagsOf_def header_fields Let_def
  by simp

lemma golay_header_channel:
  assumes built: "builtGolay self" and formatted: "formatGolay getU64 self n extra out = Some header" and n: "n \<noteq> 0"
  shows "flipped header header' \<le> 3 \<Longrightarrow> parseGolay ofU64 self header' =
      Some \<lparr>payloadItems = n,
        meta = golayMeta ofU64 self (statedValue getU64 ''header_flags'' extra) (flipped header header')\<rparr>"
    "flipped header header' = 4 \<Longrightarrow> parseGolay ofU64 self header' = None"
proof -
  obtain L flags where room: "24 \<le> length out"
    and L: "countFromPayloadItems (golayCount self) n 24 (golayMaxValue self) = Some L"
    and flags: "statedNumber getU64 (maxFlags self) ''header_flags'' extra = Some flags"
    and header: "header = writeHeaderField out 0 24 (golay24Encode (ucast (golayInfoField self L flags)))"
    using formatted by (rule formatGolay_Some)
  note count = count_roundtrip [OF builtGolay_facts(4) [OF built] L n]
  note fields = golayInfo_fields [OF built count(1) statedNumber_Some(1) [OF flags]]
  let ?info = "golayInfoField self L flags" and ?w = "ucast (golayInfoField self L flags) :: u16"
  have "?w AND 0x0FFF = ?w" and info: "ucast ?w = ?info"
    by (rule bit_word_eqI; auto simp: bit_and_iff bit_ucast_iff word_bits dest: fields(3))+
  moreover have "readHeaderField header 0 24 = golay24Encode ?w"
    using room golay24Encode_bits [of ?w] unfolding header
    by simp (auto intro!: bit_word_eqI simp: bit_take_bit_iff)
  moreover obtain e where "readHeaderField header' 0 24 = readHeaderField header 0 24 XOR e"
    "\<forall>i. bit e i \<longrightarrow> i < 24" "popcount e = flipped header header'"
    by (rule received_word [of header' header])
  ultimately have decode: "flipped header header' \<le> 3 \<Longrightarrow> golay24Decode (readHeaderField header' 0 24) =
      \<lparr>ginfo = ?w, gerrors = flipped header header', gvalid = True\<rparr>"
    "flipped header header' = 4 \<Longrightarrow> \<not> gvalid (golay24Decode (readHeaderField header' 0 24))"
    using golay24_channel [of e ?w] by simp_all
  show "flipped header header' \<le> 3 \<Longrightarrow> parseGolay ofU64 self header' =
      Some \<lparr>payloadItems = n,
        meta = golayMeta ofU64 self (statedValue getU64 ''header_flags'' extra) (flipped header header')\<rparr>"
    using decode(1) count(2) fields(1,2) statedNumber_Some(2) [OF flags]
    by (simp add: parseGolay_fields Let_def info)
  show "flipped header header' = 4 \<Longrightarrow> parseGolay ofU64 self header' = None"
    using decode(2) by (simp add: parseGolay_fields Let_def)
qed


lemma flipped_self [simp]: "flipped header header = 0"
  by (simp add: flipped_def)

interpretation golay: header_layout builtGolay "\<lambda>_. 24" "parseGolay ofU64" "formatGolay getU64"
  "\<lambda>self extra. golayMeta ofU64 self (statedValue getU64 ''header_flags'' extra) 0" for ofU64 getU64
proof (unfold_locales, goal_cases)
  case (4 self n extra out header)
  then show ?case using golay_header_channel(1) [OF 4, of header] by simp
qed (auto elim!: formatGolay_Some simp: parseGolay_fields readHeaderField_take drop_writeHeaderField)

subsection \<open>The closed set\<close>

text \<open>The layouts a constructor built, and the metadata each one carries over the air.\<close>

definition builtHeader :: "HeaderFormat \<Rightarrow> bool" where
  "builtHeader layout =
     (case layout of
        LengthCrc crc \<Rightarrow> headerCrc = Inr crc
      | LengthPlain self \<Rightarrow> builtPlain self
      | LengthGolay24 self \<Rightarrow> builtGolay self
      | _ \<Rightarrow> True)"

definition carriedMeta ::
    "(u64 \<Rightarrow> 'v) \<Rightarrow> ('v \<Rightarrow> u64 option) \<Rightarrow> HeaderFormat \<Rightarrow> (string \<Rightarrow> 'v option) \<Rightarrow> string \<Rightarrow> 'v option" where
  "carriedMeta ofU64 getU64 layout extra =
     (case layout of
        LengthCrc _ \<Rightarrow> [''packet_number'' \<mapsto> ofU64 (statedValue getU64 ''packet_number'' extra)]
      | LengthGolay24 self \<Rightarrow> golayMeta ofU64 self (statedValue getU64 ''header_flags'' extra) 0
      | _ \<Rightarrow> (\<lambda>_. None))"

lemmas header_cases = builtHeader_def headerItemsOf_def parseHeader_def formatHeader_def carriedMeta_def header_fields

interpretation header: header_layout builtHeader headerItemsOf "parseHeader ofU64" "formatHeader getU64"
  "carriedMeta ofU64 getU64" for ofU64 getU64
proof (unfold_locales, goal_cases)
  case (1 layout n extra out header)
  then show ?case
    by (cases layout) (simp_all add: header_cases crc.room repeated.room plain.room golay.room)
next
  case (2 layout n extra out header)
  then show ?case
    using fixed.stays repeated.stays crc.stays plain.stays golay.stays
    by (cases layout) (simp_all add: header_cases, blast+)
next
  case (3 layout header)
  then show ?case
    using fixed.local repeated.local crc.local plain.local golay.local
    by (cases layout) (simp_all add: header_cases)
next
  case (4 layout n extra out header)
  then show ?case
    using fixed.parse_format repeated.parse_format crc.parse_format plain.parse_format golay.parse_format
    by (cases layout) (simp_all add: header_cases, blast+)
qed

subsection \<open>Properties\<close>

text \<open>C5. Whatever layout a constructor built, a header that format accepts for a non-empty payload is
  parsed back from the head of the packet as exactly that payload length and the metadata the layout
  carries (what the caller stated for the CRC and Golay layouts, none for the other three), the
  payload follows untouched, and the header fits the fixed buffer.\<close>

theorem header_format_roundtrip:
  assumes "builtHeader layout" "formatHeader getU64 layout n extra out = Some header" "n \<noteq> 0"
  shows "parseHeader ofU64 layout (take (headerItemsOf layout) (header @ payload)) =
      Some \<lparr>payloadItems = n, meta = carriedMeta ofU64 getU64 layout extra\<rparr> \<and>
    drop (headerItemsOf layout) (header @ payload) = drop (headerItemsOf layout) out @ payload \<and>
    headerItemsOf layout \<le> kMaxHeaderItems"
proof -
  have "headerItemsOf layout \<le> kMaxHeaderItems"
    using assms(1) builtPlain_facts(2) by (cases layout) (simp_all add: header_cases kMaxHeaderItems_def)
  then show ?thesis using header.framed [OF assms] by simp
qed

text \<open>C27. A Golay-coded header of which the channel flipped up to three items frames the same payload
  with the same flags and reports the number of flips; with exactly four it is refused.\<close>

theorem golay_header_corrects_three_refuses_four:
  assumes "newLengthGolay24 bits flags count = Inr self"
    and "formatHeader getU64 (LengthGolay24 self) n extra out = Some header" and "n \<noteq> 0"
  shows "(flipped header header' \<le> 3 \<longrightarrow> parseHeader ofU64 (LengthGolay24 self) header' =
      Some \<lparr>payloadItems = n,
        meta = golayMeta ofU64 self (statedValue getU64 ''header_flags'' extra) (flipped header header')\<rparr>) \<and>
    (flipped header header' = 4 \<longrightarrow> parseHeader ofU64 (LengthGolay24 self) header' = None)"
proof -
  have "builtGolay self" using assms(1) by (auto simp: builtGolay_def)
  then show ?thesis
    using golay_header_channel [of self getU64 n extra out header header' ofU64] assms(2,3)
    by (simp add: parseHeader_def formatHeader_def)
qed

text \<open>C28. In all three count conventions the 64-bit arithmetic, guards included, computes exactly the
  natural-number relation between field value and payload length: no accepted value ever wraps, and
  the two directions invert each other.\<close>

theorem length_count_exact:
  assumes "validateLengthCount count = None"
  shows "(payloadItemsFromCount count L h = Some n \<longleftrightarrow> n \<noteq> 0 \<and> countNames count (unat h) (unat L) (unat n)) \<and>
    (countFromPayloadItems count n h limit = Some L \<longleftrightarrow>
      unat L \<le> unat limit \<and> countNames count (unat h) (unat L) (unat n))"
  using payloadItemsFromCount_exact [OF assms] countFromPayloadItems_exact [OF assms] by simp


subsection \<open>The worked examples\<close>

text \<open>
  The header comment's example: a 34-byte region whose last two bytes are a check, behind a 16-bit field.
  Metadata values are the integers themselves.
\<close>

definition wholeFrameCount :: LengthCount where
  "wholeFrameCount = \<lparr>covers = WholeFrame, unitItems = 8, checkItems = 0, framePrefixItems = 0\<rparr>"

definition exampleField :: LengthPlainHeader where
  "exampleField = \<lparr>lengthBits = 16, byteOrder = Little, plainCount = wholeFrameCount, maxValue = 0xFFFF\<rparr>"

definition exampleGolay :: LengthGolay24Header where
  "exampleGolay = \<lparr>golayLengthBits = 8, flagsPosition = High, golayCount = defaultLengthCount, flagBits = 4,
     golayMaxValue = 0xFF, maxFlags = 0xF\<rparr>"

definition exampleItems :: "u8 list" where
  "exampleItems = [0,0,1,0,0,1,0,0, 0,0,0,0,0,0,0,0]"

definition exampleCodeword :: "u8 list" where
  "exampleCodeword = writeHeaderField (replicate 24 0) 0 24 (golay24Encode 0x508)"

definition flipItem :: "nat \<Rightarrow> u8 list \<Rightarrow> u8 list" where
  "flipItem j header = header[j := headerItem (\<not> headerBit (header ! j))]"

lemma header_format_roundtrip_witness:
  "parseHeader id (LengthPlain exampleField) (take 16 (exampleItems @ [1, 1])) =
     Some \<lparr>payloadItems = 272, meta = (\<lambda>_. None)\<rparr>"
proof -
  have "newLengthPlain 16 Little wholeFrameCount = Inr exampleField" by code_simp
  then have "builtHeader (LengthPlain exampleField)" by (auto simp: builtHeader_def builtPlain_def)
  moreover have "formatPlain exampleField 272 (\<lambda>_. None) (replicate 16 0) = Some exampleItems" by code_simp
  then have "formatHeader Some (LengthPlain exampleField) 272 (\<lambda>_. None) (replicate 16 0) = Some exampleItems"
    by (simp add: formatHeader_def)
  ultimately show ?thesis
    using header_format_roundtrip [of "LengthPlain exampleField" Some 272 "\<lambda>_. None" "replicate 16 0" exampleItems id "[1, 1]"]
    by (simp add: headerItemsOf_def exampleField_def carriedMeta_def)
qed


lemma length_count_exact_witness:
  "payloadItemsFromCount wholeFrameCount 36 16 = Some 272 \<and> countFromPayloadItems wholeFrameCount 272 16 0xFFFF = Some 36 \<and>
   payloadItemsFromCount wholeFrameCount 2 16 \<noteq> Some 0"
proof -
  have "validateLengthCount wholeFrameCount = None" by code_simp
  moreover have "countNames wholeFrameCount 16 36 272" by code_simp
  ultimately show ?thesis
    using length_count_exact [of wholeFrameCount 36 16 272 "0xFFFF"] length_count_exact [of wholeFrameCount 2 16 0 "0xFFFF"]
    by simp
qed


lemma golay_header_corrects_three_refuses_four_witness:
  "parseHeader id (LengthGolay24 exampleGolay) (flipItem 0 (flipItem 7 (flipItem 23 exampleCodeword))) =
     Some \<lparr>payloadItems = 64, meta = [''header_corrected_errors'' \<mapsto> 3, ''header_flags'' \<mapsto> 5]\<rparr>"
proof -
  let ?header' = "flipItem 0 (flipItem 7 (flipItem 23 exampleCodeword))"
  have built: "newLengthGolay24 8 High defaultLengthCount = Inr exampleGolay" by code_simp
  have "countFromPayloadItems defaultLengthCount 64 24 0xFF = Some 8" by code_simp
  then have formatted: "formatHeader Some (LengthGolay24 exampleGolay) 64 [''header_flags'' \<mapsto> 5] (replicate 24 0) = Some exampleCodeword"
    by (simp add: formatHeader_def formatGolay_def exampleGolay_def exampleCodeword_def header_fields statedNumber_def)
  have "headerBit (exampleCodeword ! j) \<noteq> headerBit (?header' ! j) \<longleftrightarrow> j \<in> {0, 7, 23}" if "j \<in> set [0..<24]" for j
    using that by (auto simp: flipItem_def nth_list_update exampleCodeword_def)
  then have "flipped exampleCodeword ?header' = length (filter (\<lambda>j. j \<in> {0, 7, 23}) [0..<24])"
    unfolding flipped_def by (intro arg_cong [of _ _ length] filter_cong refl)
  moreover have "length (filter (\<lambda>j. j \<in> {0, 7, 23}) [0..<24 :: nat]) = 3" by code_simp
  ultimately have three: "flipped exampleCodeword ?header' = 3" by simp
  show ?thesis
    using built formatted three golay_header_corrects_three_refuses_four [of 8 High defaultLengthCount exampleGolay Some 64
      "[''header_flags'' \<mapsto> 5]" "replicate 24 0" exampleCodeword ?header' id]
    by (simp add: golayMeta_def exampleGolay_def statedValue_def)
qed

end
