(* ===== verification/Manchester.thy ===== *)
theory Manchester
  imports BitStream
begin

section \<open>The Manchester line code\<close>

text \<open>
  \<^verbatim>\<open>digital/Manchester.hpp\<close>: the two conventions, the configuration with its chip table, the encoder and the
  two forms of the decoder, and the grid realignment.  Items are 8-bit words, the table entries 16-bit
  words, the loop accumulators (\<open>unsigned\<close> in the code) 32-bit words and the counters 64-bit words.  The
  spans a call writes are list arguments returned updated.
\<close>

datatype ManchesterConvention = Ieee8023 | GeThomas

datatype ManchesterError = UnknownConvention string | BitsPerItemRange nat | ChipPhaseRange nat

definition conventionName :: "ManchesterConvention \<Rightarrow> string" where
  "conventionName c = (if c = GeThomas then ''ge_thomas'' else ''ieee802_3'')"

definition conventionFromName :: "string \<Rightarrow> ManchesterError + ManchesterConvention" where
  "conventionFromName name =
     (if name = conventionName Ieee8023 then Inr Ieee8023
      else if name = conventionName GeThomas then Inr GeThomas
      else Inl (UnknownConvention name))"

definition conventionXor :: "ManchesterConvention \<Rightarrow> u8" where
  "conventionXor c = (if c = Ieee8023 then 1 else 0)"

definition ethernet :: ManchesterConvention where "ethernet = Ieee8023"
definition mil1553 :: ManchesterConvention where "mil1553 = GeThomas"
definition dali :: ManchesterConvention where "dali = Ieee8023"

record ManchesterConfig =
  convention :: ManchesterConvention
  bitsPerItem :: nat
  order :: BitOrder
  chipPhase :: u8
  kXor :: u8
  chipTable :: "u16 list"
  gridParity :: u8
  carry :: u8
  hasCarry :: bool
  nOrphanItems :: u64
  nDroppedChips :: u64

definition defaultManchester :: ManchesterConfig where
  "defaultManchester = \<lparr>convention = Ieee8023, bitsPerItem = 8, order = MsbFirst, chipPhase = 0, kXor = 1,
     chipTable = replicate 256 0, gridParity = 0, carry = 0, hasCarry = False, nOrphanItems = 0, nDroppedChips = 0\<rparr>"

definition resetManchester :: "ManchesterConfig \<Rightarrow> ManchesterConfig" where
  "resetManchester cfg = cfg\<lparr>gridParity := chipPhase cfg, carry := 0, hasCarry := False\<rparr>"

definition streamPosition :: "nat \<Rightarrow> nat \<Rightarrow> BitOrder \<Rightarrow> nat" where
  "streamPosition index width ord = (if ord = MsbFirst then width - 1 - index else index)"

subsection \<open>The chip table\<close>

text \<open>One chip of a bit, put into the first or the second output item.\<close>

definition placeChip :: "nat \<Rightarrow> BitOrder \<Rightarrow> u32 \<Rightarrow> nat \<Rightarrow> u32 \<times> u32 \<Rightarrow> u32 \<times> u32" where
  "placeChip width ord chip index pair =
     (if index < width then (fst pair OR push_bit (streamPosition index width ord) chip, snd pair)
      else (fst pair, snd pair OR push_bit (streamPosition (index - width) width ord) chip))"

definition chipPair :: "u32 \<Rightarrow> nat \<Rightarrow> u32 \<Rightarrow> BitOrder \<Rightarrow> u32 \<times> u32" where
  "chipPair item width k ord =
     fold (\<lambda>i pair.
         let high = (drop_bit (streamPosition i width ord) item AND 1) XOR k
         in fold (\<lambda>half. placeChip width ord (high XOR of_nat half) (2 * i + half)) [0..<2] pair)
       [0..<width] (0, 0)"

definition chipPairItems :: "u32 \<Rightarrow> nat \<Rightarrow> u32 \<Rightarrow> BitOrder \<Rightarrow> u16" where
  "chipPairItems item width k ord =
     (let pair = chipPair item width k ord in ucast (push_bit 8 (fst pair) OR snd pair))"

definition configureManchester ::
    "ManchesterConfig \<Rightarrow> ManchesterConvention \<Rightarrow> nat \<Rightarrow> BitOrder \<Rightarrow> nat \<Rightarrow> ManchesterError + ManchesterConfig" where
  "configureManchester cfg conv width ord phase =
     (if width < 1 \<or> width > 8 then Inl (BitsPerItemRange width)
      else if phase > 1 then Inl (ChipPhaseRange phase)
      else
        let k = conventionXor conv;
            cfg = cfg\<lparr>chipTable := map (\<lambda>v. chipPairItems (of_nat v) width (ucast k) ord) [0..<256]\<rparr>;
            cfg = cfg\<lparr>convention := conv, bitsPerItem := width, order := ord, chipPhase := of_nat phase, kXor := k\<rparr>
        in Inr (resetManchester cfg))"

subsection \<open>The encoder\<close>

text \<open>The definition one bit at a time, its loops written out apart from the table's, and the sample path through the table.\<close>

definition encodeReference :: "ManchesterConfig \<Rightarrow> u8 list \<Rightarrow> u8 list \<Rightarrow> u8 list" where
  "encodeReference cfg inp out =
     (let width = bitsPerItem cfg; k = ucast (kXor cfg) :: u32; ord = order cfg;
          count = min (length inp) (length out div 2)
      in fold (\<lambda>n out.
             let (first, second) = fold (\<lambda>i (first, second).
                   let b = drop_bit (streamPosition i width ord) (ucast (inp ! n)) AND 1;
                       high = b XOR k
                   in fold (\<lambda>half (first, second).
                        let chip = high XOR of_nat half; index = 2 * i + half
                        in if index < width then (first OR push_bit (streamPosition index width ord) chip, second)
                           else (first, second OR push_bit (streamPosition (index - width) width ord) chip))
                      [0..<2] (first, second)) [0..<width] (0, 0)
             in out[2 * n := ucast first, 2 * n + 1 := ucast second])
           [0..<count] out)"

definition encodeManchester :: "ManchesterConfig \<Rightarrow> u8 list \<Rightarrow> u8 list \<Rightarrow> u8 list" where
  "encodeManchester cfg inp out =
     (let count = min (length inp) (length out div 2)
      in fold (\<lambda>n out.
             let pair = chipTable cfg ! unat (inp ! n)
             in out[2 * n := ucast (drop_bit 8 pair), 2 * n + 1 := ucast (pair AND 0xFF)])
           [0..<count] out)"

subsection \<open>The decoder\<close>

definition compactEvenBits :: "u16 \<Rightarrow> u32" where
  "compactEvenBits word =
     (let bits = ucast word AND 0x5555;
          bits = (bits OR drop_bit 1 bits) AND 0x3333;
          bits = (bits OR drop_bit 2 bits) AND 0x0F0F
      in (bits OR drop_bit 4 bits) AND 0x00FF)"

definition compactOddBits :: "u16 \<Rightarrow> u32" where
  "compactOddBits word = compactEvenBits (drop_bit 1 word)"

definition alignedItem :: "ManchesterConfig \<Rightarrow> u8 \<Rightarrow> u8 \<Rightarrow> u8 \<times> u8" where
  "alignedItem cfg item0 item1 =
     (let width = bitsPerItem cfg;
          fieldMask = push_bit width 1 - 1 :: u32;
          broadcast = (if kXor cfg \<noteq> 0 then fieldMask else 0);
          msbFirst = (order cfg = MsbFirst);
          early = ucast item0 AND fieldMask;
          late = ucast item1 AND fieldMask;
          chips = ucast (if msbFirst then push_bit width early OR late else early OR push_bit width late) :: u16;
          heads = (if msbFirst then compactOddBits chips else compactEvenBits chips);
          tails = (if msbFirst then compactEvenBits chips else compactOddBits chips)
      in (ucast (heads XOR broadcast), ucast (NOT (heads XOR tails) AND fieldMask)))"

definition decodeAligned ::
    "ManchesterConfig \<Rightarrow> u8 list \<Rightarrow> u8 list \<Rightarrow> u8 list \<Rightarrow> nat \<Rightarrow> u8 list \<times> u8 list" where
  "decodeAligned cfg inp out violation count =
     fold (\<lambda>i (out, violation).
         let item = alignedItem cfg (inp ! (2 * i)) (inp ! (2 * i + 1))
         in (out[i := fst item], violation[i := snd item]))
       [0..<count] (out, violation)"

text \<open>The locals of the reference loop, and what one chip does to them.\<close>

record ChipLoop =
  loopCarry :: u8
  loopHas :: bool
  loopOrphan :: bool
  loopOrphans :: u64
  loopIndex :: nat
  loopSlot :: nat
  loopBits :: u32
  loopFlags :: u32
  outItems :: "u8 list"
  violations :: "u8 list"

definition emitBit :: "nat \<Rightarrow> BitOrder \<Rightarrow> u32 \<Rightarrow> u32 \<Rightarrow> ChipLoop \<Rightarrow> ChipLoop" where
  "emitBit width ord b flag l =
     (let bs = loopBits l OR push_bit (streamPosition (loopSlot l) width ord) b;
          fs = loopFlags l OR push_bit (streamPosition (loopSlot l) width ord) flag
      in if loopSlot l + 1 = width
         then l\<lparr>outItems := (outItems l)[loopIndex l := ucast bs], violations := (violations l)[loopIndex l := ucast fs],
                loopIndex := loopIndex l + 1, loopBits := 0, loopFlags := 0, loopSlot := 0\<rparr>
         else l\<lparr>loopBits := bs, loopFlags := fs, loopSlot := loopSlot l + 1\<rparr>)"

definition decodeChip :: "nat \<Rightarrow> BitOrder \<Rightarrow> u32 \<Rightarrow> u32 \<Rightarrow> ChipLoop \<Rightarrow> ChipLoop" where
  "decodeChip width ord k chip l =
     (if loopOrphan l
      then emitBit width ord (chip XOR k) 1 (l\<lparr>loopOrphan := False, loopOrphans := loopOrphans l + 1\<rparr>)
      else if \<not> loopHas l then l\<lparr>loopCarry := ucast chip, loopHas := True\<rparr>
      else emitBit width ord (ucast (loopCarry l) XOR k) (1 - (ucast (loopCarry l) XOR chip)) (l\<lparr>loopHas := False\<rparr>))"

definition decodeReference ::
    "ManchesterConfig \<Rightarrow> u8 list \<Rightarrow> u8 list \<Rightarrow> u8 list \<Rightarrow> ManchesterConfig \<times> u8 list \<times> u8 list" where
  "decodeReference cfg inp out violation =
     (let width = bitsPerItem cfg; k = ucast (kXor cfg); ord = order cfg;
          count = min (length inp div 2) (min (length out) (length violation));
          l = \<lparr>loopCarry = carry cfg, loopHas = hasCarry cfg, loopOrphan = (gridParity cfg = 1 \<and> \<not> hasCarry cfg),
               loopOrphans = nOrphanItems cfg, loopIndex = 0, loopSlot = 0, loopBits = 0, loopFlags = 0,
               outItems = out, violations = violation\<rparr>;
          l = fold (\<lambda>n. fold (\<lambda>i. decodeChip width ord k
                (drop_bit (streamPosition i width ord) (ucast (inp ! n)) AND 1)) [0..<width]) [0..<2 * count] l
      in (cfg\<lparr>carry := (if loopHas l then loopCarry l else 0), hasCarry := loopHas l, nOrphanItems := loopOrphans l\<rparr>,
          outItems l, violations l))"

definition decodeManchester ::
    "ManchesterConfig \<Rightarrow> u8 list \<Rightarrow> u8 list \<Rightarrow> u8 list \<Rightarrow> ManchesterConfig \<times> u8 list \<times> u8 list" where
  "decodeManchester cfg inp out violation =
     (let count = min (length inp div 2) (min (length out) (length violation))
      in if \<not> hasCarry cfg \<and> gridParity cfg = 0
         then (cfg, decodeAligned cfg inp out violation count)
         else decodeReference cfg inp out violation)"

definition realignManchester :: "ManchesterConfig \<Rightarrow> u64 \<Rightarrow> ManchesterConfig \<times> nat" where
  "realignManchester cfg chipIndex =
     (let wanted = ucast (chipIndex AND 1) :: u8
      in if wanted = gridParity cfg then (cfg, 0)
         else
           let cfg = cfg\<lparr>gridParity := wanted\<rparr>
           in if wanted = 0 \<and> hasCarry cfg
              then (cfg\<lparr>carry := 0, hasCarry := False, nDroppedChips := nDroppedChips cfg + 1\<rparr>, 1)
              else (cfg, 0))"

end
