(* ===== verification/ManchesterProperties.thy ===== *)
theory ManchesterProperties
  imports Manchester
begin

section \<open>What the Manchester coder promises\<close>

text \<open>
  The chip stream as a list of bits, the encoder and the reference decoder as functions of it, the
  agreement of the table-driven and bit-parallel forms with their one-bit definitions, and the round trip.
  Grid, held chip and orphan are those of any state reachable by configuring, decoding and realigning.
\<close>

subsection \<open>Positions and fields\<close>

lemma streamPosition_field: "streamPosition i w ord = fieldPosition ord w i"
  by (simp add: streamPosition_def fieldPosition_def)

lemma chip_of_bool: "drop_bit p (ucast item) AND 1 = (of_bool (bit item p) :: u32)" for item :: u8
proof (rule bit_word_eqI)
  fix i assume "i < LENGTH(32)"
  show "bit (drop_bit p (ucast item) AND 1 :: u32) i = bit (of_bool (bit item p) :: u32) i"
    using bit_imp_le_length [of item p]
    by (cases i) (auto simp: bit_and_iff bit_drop_bit_eq bit_ucast_iff bit_1_iff)
qed

lemma xor_of_bools: "of_bool a XOR of_bool b = (of_bool (a \<noteq> b) :: 'a::len word)"
  by (cases a; cases b) simp_all

lemma bit_of_bool_word: "bit (of_bool b :: 'a::len word) p \<longleftrightarrow> b \<and> p = 0"
  by (cases b) (auto simp: bit_1_iff)

text \<open>A field under construction: its first bits in stream order.\<close>

definition fieldOf :: "BitOrder \<Rightarrow> nat \<Rightarrow> bool list \<Rightarrow> u32" where
  "fieldOf ord w bs =
     fold (\<lambda>s v. v OR push_bit (fieldPosition ord w s) (of_bool (bs ! s))) [0..<length bs] 0"

lemma fieldOf_Nil [simp]: "fieldOf ord w [] = 0"
  by (simp add: fieldOf_def)

lemma fieldOf_snoc: "fieldOf ord w (bs @ [b]) = fieldOf ord w bs OR push_bit (fieldPosition ord w (length bs)) (of_bool b)"
proof -
  have "fold (\<lambda>s v. v OR push_bit (fieldPosition ord w s) (of_bool ((bs @ [b]) ! s))) [0..<length bs] (0 :: u32) =
      fold (\<lambda>s v. v OR push_bit (fieldPosition ord w s) (of_bool (bs ! s))) [0..<length bs] 0"
    by (rule fold_cong) (simp_all add: nth_append)
  then show ?thesis by (simp add: fieldOf_def)
qed

lemma bit_fieldOf: "bit (fieldOf ord w bs) p \<longleftrightarrow> p < 32 \<and> (\<exists>s<length bs. p = fieldPosition ord w s \<and> bs ! s)"
proof (induction bs rule: rev_induct)
  case (snoc b bs)
  have "bit (push_bit q (of_bool b) :: u32) p \<longleftrightarrow> p < 32 \<and> p = q \<and> b" for q
    by (auto simp: bit_push_bit_iff bit_of_bool_word)
  then show ?case
    by (auto simp: fieldOf_snoc bit_or_iff snoc.IH nth_append less_Suc_eq)
qed simp

lemma fieldOf_packItem:
  assumes "length bs = w" "w \<le> 8"
  shows "ucast (fieldOf ord w bs) = (packItem ord bs :: u8)"
proof (rule bit_word_eqI)
  fix p assume "p < LENGTH(8)"
  show "bit (ucast (fieldOf ord w bs) :: u8) p = bit (packItem ord bs :: u8) p"
  proof (cases "p < w")
    case True
    then obtain s where s: "s < w" "fieldPosition ord w s = p" using fieldPosition_onto by blast
    then have "bit (packItem ord bs :: u8) p = bs ! s"
      using bit_packItem_nth [of bs w s ord, where ?'a = 8] assms by simp
    moreover have "bit (ucast (fieldOf ord w bs) :: u8) p = bs ! s"
      using s True assms \<open>p < LENGTH(8)\<close> by (auto simp: bit_ucast_iff bit_fieldOf fieldPosition_inj)
    ultimately show ?thesis by simp
  next
    case False
    then have "\<not> bit (packItem ord bs :: u8) p" using bit_packItem_above [of ord bs p] assms by auto
    moreover have "\<not> bit (ucast (fieldOf ord w bs) :: u8) p"
      using False assms fieldPosition_less [of _ w ord] by (auto simp: bit_ucast_iff bit_fieldOf)
    ultimately show ?thesis by simp
  qed
qed

subsection \<open>The reference decoder on the chip stream\<close>

text \<open>The decode rule: from the first chip of a pair the bit, from their equality the flag.\<close>

fun readPairs :: "bool \<Rightarrow> bool list \<Rightarrow> (bool \<times> bool) list" where
  "readPairs k (c0 # c1 # cs) = (c0 \<noteq> k, c0 = c1) # readPairs k cs"
| "readPairs k _ = []"

definition loopView :: "ChipLoop \<Rightarrow> nat \<times> nat \<times> u32 \<times> u32 \<times> u8 list \<times> u8 list" where
  "loopView l = (loopIndex l, loopSlot l, loopBits l, loopFlags l, outItems l, violations l)"

definition emitPair :: "nat \<Rightarrow> BitOrder \<Rightarrow> bool \<times> bool \<Rightarrow> ChipLoop \<Rightarrow> ChipLoop" where
  "emitPair w ord p = emitBit w ord (of_bool (fst p)) (of_bool (snd p))"

lemma emit_frame [simp]:
  "loopCarry (emitPair w ord p l) = loopCarry l" "loopHas (emitPair w ord p l) = loopHas l"
  "loopOrphan (emitPair w ord p l) = loopOrphan l" "loopOrphans (emitPair w ord p l) = loopOrphans l"
  by (simp_all add: emitPair_def emitBit_def Let_def)

lemma emitBit_view:
  "loopView (emitBit w ord b f l) =
     (let bs = loopBits l OR push_bit (streamPosition (loopSlot l) w ord) b;
          fs = loopFlags l OR push_bit (streamPosition (loopSlot l) w ord) f
      in if loopSlot l + 1 = w
         then (loopIndex l + 1, 0, 0, 0, (outItems l)[loopIndex l := ucast bs], (violations l)[loopIndex l := ucast fs])
         else (loopIndex l, loopSlot l + 1, bs, fs, outItems l, violations l))"
  by (simp add: emitBit_def loopView_def Let_def)

lemma emit_view: "loopView l = loopView m \<Longrightarrow> loopView (emitPair w ord p l) = loopView (emitPair w ord p m)"
proof -
  assume "loopView l = loopView m"
  then have "loopSlot l = loopSlot m" "loopBits l = loopBits m" "loopFlags l = loopFlags m" "loopIndex l = loopIndex m"
    "outItems l = outItems m" "violations l = violations m" by (simp_all add: loopView_def)
  then show ?thesis unfolding emitPair_def emitBit_view by (simp only:)
qed

lemma emits_view: "loopView l = loopView m \<Longrightarrow>
    loopView (fold (emitPair w ord) ps l) = loopView (fold (emitPair w ord) ps m)"
proof (induction ps arbitrary: l m)
  case (Cons p ps)
  show ?case unfolding fold_simps by (rule Cons.IH [OF emit_view [OF Cons.prems]])
qed simp

lemma view_updates [simp]:
  "loopView (l\<lparr>loopCarry := h\<rparr>) = loopView l" "loopView (l\<lparr>loopHas := b\<rparr>) = loopView l"
  "loopView (l\<lparr>loopOrphan := b\<rparr>) = loopView l" "loopView (l\<lparr>loopOrphans := n\<rparr>) = loopView l"
  by (simp_all add: loopView_def)

definition heldChip :: "ChipLoop \<Rightarrow> bool option" where
  "heldChip l = (if loopHas l then Some (loopCarry l \<noteq> 0) else None)"

definition chipStep :: "nat \<Rightarrow> BitOrder \<Rightarrow> bool \<Rightarrow> bool \<Rightarrow> ChipLoop \<Rightarrow> ChipLoop" where
  "chipStep w ord k c = decodeChip w ord (of_bool k) (of_bool c)"

lemma chipStep_orphan:
  "loopOrphan l \<Longrightarrow> chipStep w ord k c l = emitPair w ord (c \<noteq> k, True) (l\<lparr>loopOrphan := False, loopOrphans := loopOrphans l + 1\<rparr>)"
  by (simp add: chipStep_def decodeChip_def emitPair_def xor_of_bools)

lemma chipStep_hold:
  "\<not> loopOrphan l \<Longrightarrow> \<not> loopHas l \<Longrightarrow> chipStep w ord k c l = l\<lparr>loopCarry := of_bool c, loopHas := True\<rparr>"
  by (cases c) (simp_all add: chipStep_def decodeChip_def)

lemma chipStep_pair:
  "\<not> loopOrphan l \<Longrightarrow> loopHas l \<Longrightarrow> loopCarry l = of_bool h \<Longrightarrow>
    chipStep w ord k c l = emitPair w ord (h \<noteq> k, h = c) (l\<lparr>loopHas := False\<rparr>)"
  by (cases h; cases c; cases k) (simp_all add: chipStep_def decodeChip_def emitPair_def)

text \<open>From the second chip on nothing is owed any more.\<close>

lemma chips_paired:
  assumes "\<not> loopOrphan l" "loopCarry l \<le> 1"
  defines "start \<equiv> (if loopHas l then [loopCarry l \<noteq> 0] else [])"
  shows "loopView (fold (chipStep w ord k) chips l) = loopView (fold (emitPair w ord) (readPairs k (start @ chips)) l) \<and>
    loopOrphans (fold (chipStep w ord k) chips l) = loopOrphans l \<and>
    heldChip (fold (chipStep w ord k) chips l) =
      (if even (length (start @ chips)) then None else Some (last (start @ chips))) \<and>
    \<not> loopOrphan (fold (chipStep w ord k) chips l) \<and> loopCarry (fold (chipStep w ord k) chips l) \<le> 1"
  using assms(1,2) unfolding start_def
proof (induction chips arbitrary: l)
  case Nil
  then show ?case by (simp add: heldChip_def)
next
  case (Cons c cs)
  show ?case
  proof (cases "loopHas l")
    case False
    let ?m = "l\<lparr>loopCarry := of_bool c, loopHas := True\<rparr>"
    have "loopView (fold (emitPair w ord) ps ?m) = loopView (fold (emitPair w ord) ps l)" for ps
      by (rule emits_view) (simp add: loopView_def)
    then show ?thesis
      using Cons.IH [of ?m] Cons.prems False by (cases c) (auto simp: chipStep_hold)
  next
    case True
    have "loopCarry l = 0 \<or> loopCarry l = 1"
      using Cons.prems(2) by (auto simp: word_le_nat_alt le_Suc_eq word_unat_eq_iff)
    then obtain h where h: "loopCarry l = of_bool h" by (metis of_bool_eq)
    let ?m = "emitPair w ord (h \<noteq> k, h = c) (l\<lparr>loopHas := False\<rparr>)"
    have "loopView (fold (emitPair w ord) ps ?m) = loopView (fold (emitPair w ord) ps (emitPair w ord (h \<noteq> k, h = c) l))" for ps
      by (intro emits_view emit_view) simp
    then show ?thesis
      using Cons.IH [of ?m] Cons.prems True h by (auto simp: chipStep_pair)
  qed
qed


subsection \<open>Collecting the emitted bits into items\<close>

definition packedItems :: "BitOrder \<Rightarrow> nat \<Rightarrow> bool list \<Rightarrow> u8 list" where
  "packedItems ord w bs = map (\<lambda>i. packItem ord (take w (drop (i * w) bs))) [0..<length bs div w]"

lemma length_packedItems [simp]: "length (packedItems ord w bs) = length bs div w"
  by (simp add: packedItems_def)

lemma packedItems_snoc:
  assumes "0 < w"
  shows "packedItems ord w (bs @ [b]) =
    (if Suc (length bs mod w) = w
     then packedItems ord w bs @ [packItem ord (drop (length bs div w * w) bs @ [b])] else packedItems ord w bs)"
proof -
  let ?q = "length bs div w"
  have whole: "?q * w \<le> length bs" and len: "length bs = ?q * w + length bs mod w" by simp_all
  have old: "take w (drop (i * w) (bs @ [b])) = take w (drop (i * w) bs)" if "i < ?q" for i
  proof -
    have "Suc i * w \<le> ?q * w" using that by (intro mult_le_mono1) simp
    then have "i * w + w \<le> length bs" using whole unfolding mult_Suc by linarith
    then show ?thesis by simp
  qed
  have maps: "map (\<lambda>i. packItem ord (take w (drop (i * w) (bs @ [b])))) [0..<?q] = (packedItems ord w bs :: u8 list)"
    unfolding packedItems_def by (rule map_cong [OF refl]) (simp only: old set_upt atLeastLessThan_iff)
  show ?thesis
  proof (cases "Suc (length bs mod w) = w")
    case True
    then have "Suc (length bs) div w = Suc ?q" using div_Suc [of "length bs" w] assms mod_Suc [of "length bs" w] by simp
    moreover have "length (drop (?q * w) bs @ [b]) = w" using True by (simp add: minus_div_mult_eq_mod)
    moreover have "packedItems ord w (bs @ [b]) = map (\<lambda>i. packItem ord (take w (drop (i * w) (bs @ [b])))) [0..<Suc (length bs) div w]"
      by (simp add: packedItems_def)
    ultimately show ?thesis
      using True whole by (simp add: maps [simplified])
  next
    case False
    then have "Suc (length bs) div w = ?q" using div_Suc [of "length bs" w] mod_Suc [of "length bs" w] by simp
    moreover have "packedItems ord w (bs @ [b]) = map (\<lambda>i. packItem ord (take w (drop (i * w) (bs @ [b])))) [0..<Suc (length bs) div w]"
      by (simp add: packedItems_def)
    ultimately show ?thesis using False by (simp add: maps [simplified])
  qed
qed

lemma emits_collect:
  assumes "1 \<le> w" "w \<le> 8" "length ps div w \<le> length out" "length ps div w \<le> length viol"
    and "loopView l = (0, 0, 0, 0, out, viol)"
  shows "loopView (fold (emitPair w ord) ps l) =
    (length ps div w, length ps mod w,
     fieldOf ord w (drop (length ps div w * w) (map fst ps)), fieldOf ord w (drop (length ps div w * w) (map snd ps)),
     packedItems ord w (map fst ps) @ drop (length ps div w) out,
     packedItems ord w (map snd ps) @ drop (length ps div w) viol)"
  using assms(3,4)
proof (induction ps rule: rev_induct)
  case Nil
  then show ?case using assms(5) by (simp add: packedItems_def)
next
  case (snoc p ps)
  let ?q = "length ps div w" and ?r = "length ps mod w" and ?m = "fold (emitPair w ord) ps l"
  have w: "0 < w" using assms(1) by simp
  have le: "?q \<le> length (ps @ [p]) div w" by (simp add: div_le_mono)
  then have IH: "loopIndex ?m = ?q" "loopSlot ?m = ?r"
    "loopBits ?m = fieldOf ord w (drop (?q * w) (map fst ps))" "loopFlags ?m = fieldOf ord w (drop (?q * w) (map snd ps))"
    "outItems ?m = packedItems ord w (map fst ps) @ drop ?q out"
    "violations ?m = packedItems ord w (map snd ps) @ drop ?q viol"
    using snoc.IH [OF le_trans [OF le snoc.prems(1)] le_trans [OF le snoc.prems(2)]]
    by (simp_all add: loopView_def)
  have tail: "length (drop (?q * w) xs) = ?r" if "length xs = length ps" for xs :: "bool list"
    using that by (simp add: minus_div_mult_eq_mod)
  have whole: "?q * w \<le> length ps" by simp
  have field: "fieldOf ord w (drop (?q * w) xs) OR push_bit (streamPosition ?r w ord) (of_bool b) =
      fieldOf ord w (drop (?q * w) xs @ [b])" if "length xs = length ps" for xs b
    using tail [OF that] by (simp add: fieldOf_snoc streamPosition_field)
  have step: "loopView (fold (emitPair w ord) (ps @ [p]) l) =
      (let bs = fieldOf ord w (drop (?q * w) (map fst ps) @ [fst p]); fs = fieldOf ord w (drop (?q * w) (map snd ps) @ [snd p])
       in if Suc ?r = w
          then (Suc ?q, 0, 0, 0, (packedItems ord w (map fst ps) @ drop ?q out)[?q := ucast bs],
                (packedItems ord w (map snd ps) @ drop ?q viol)[?q := ucast fs])
          else (?q, Suc ?r, bs, fs, packedItems ord w (map fst ps) @ drop ?q out, packedItems ord w (map snd ps) @ drop ?q viol))"
    unfolding fold_append fold_simps o_apply emitPair_def [of w ord p] emitBit_view IH
      field [OF length_map] Suc_eq_plus1 [symmetric] ..
  show ?case
  proof (cases "Suc ?r = w")
    case True
    then have q: "length (ps @ [p]) div w = Suc ?q" "length (ps @ [p]) mod w = 0"
      using div_Suc [of "length ps" w] mod_Suc [of "length ps" w] w by simp_all
    then have room: "?q < length out" "?q < length viol" using snoc.prems by simp_all
    have update: "(packedItems ord w xs @ drop ?q ys)[?q := y] = packedItems ord w xs @ y # drop (Suc ?q) ys"
      if "?q < length ys" "length xs = length ps" for ys xs and y :: u8
      using that by (simp add: list_update_append Cons_nth_drop_Suc [symmetric])
    have packed: "ucast (fieldOf ord w (drop (?q * w) xs @ [b])) = (packItem ord (drop (?q * w) xs @ [b]) :: u8)"
      if "length xs = length ps" for xs b
      by (rule fieldOf_packItem) (use tail [OF that] True assms(2) in simp_all)
    have "loopView (fold (emitPair w ord) (ps @ [p]) l) =
        (Suc ?q, 0, 0, 0, packedItems ord w (map fst ps) @ packItem ord (drop (?q * w) (map fst ps) @ [fst p]) # drop (Suc ?q) out,
         packedItems ord w (map snd ps) @ packItem ord (drop (?q * w) (map snd ps) @ [snd p]) # drop (Suc ?q) viol)"
      unfolding step using True room by (simp add: packed update)
    moreover have "Suc ?q * w = length (ps @ [p])"
      unfolding mult_Suc length_append_singleton using True div_mult_mod_eq [of "length ps" w] by linarith
    then have "drop (Suc ?q * w) (map f (ps @ [p])) = []" for f :: "bool \<times> bool \<Rightarrow> bool" by simp
    ultimately show ?thesis using True unfolding q by (simp add: packedItems_snoc w del: mult_Suc)
  next
    case False
    then have q: "length (ps @ [p]) div w = ?q" "length (ps @ [p]) mod w = Suc ?r"
      using div_Suc [of "length ps" w] mod_Suc [of "length ps" w] w by simp_all
    show ?thesis
      unfolding step using False q whole by (simp add: packedItems_snoc w)
  qed
qed


subsection \<open>The decoder as a stream transformation\<close>

text \<open>The convention's constant and the held chip are single bits, and no chip is held on an even grid.\<close>

definition coderState :: "ManchesterConfig \<Rightarrow> bool" where
  "coderState cfg \<longleftrightarrow> 1 \<le> bitsPerItem cfg \<and> bitsPerItem cfg \<le> 8 \<and> kXor cfg \<le> 1 \<and> carry cfg \<le> 1 \<and> gridParity cfg \<le> 1 \<and>
     (\<not> hasCarry cfg \<longrightarrow> carry cfg = 0) \<and> (hasCarry cfg \<longrightarrow> gridParity cfg = 1)"

definition grid :: "ManchesterConfig \<Rightarrow> bool list" where
  "grid cfg = (if hasCarry cfg then [carry cfg \<noteq> 0] else [])"

definition owesOrphan :: "ManchesterConfig \<Rightarrow> bool" where
  "owesOrphan cfg \<longleftrightarrow> gridParity cfg = 1 \<and> \<not> hasCarry cfg"

text \<open>
  The pairs a call decodes: behind the held chip where there is one, behind the flagged orphan where the
  grid owes one.
\<close>

definition decodedPairs :: "ManchesterConfig \<Rightarrow> bool list \<Rightarrow> (bool \<times> bool) list" where
  "decodedPairs cfg chips =
     (if chips \<noteq> [] \<and> owesOrphan cfg then (hd chips \<noteq> (kXor cfg \<noteq> 0), True) # readPairs (kXor cfg \<noteq> 0) (tl chips)
      else readPairs (kXor cfg \<noteq> 0) (grid cfg @ chips))"

definition unpaired :: "ManchesterConfig \<Rightarrow> bool list \<Rightarrow> bool option" where
  "unpaired cfg chips =
     (let rest = (if chips \<noteq> [] \<and> owesOrphan cfg then tl chips else grid cfg @ chips)
      in if even (length rest) then None else Some (last rest))"

lemma length_readPairs [simp]: "length (readPairs k chips) = length chips div 2"
  by (induction k chips rule: readPairs.induct) simp_all

lemma small_word: "w \<le> 1 \<Longrightarrow> w = 0 \<or> w = 1" for w :: u8
  by (auto simp: word_le_nat_alt le_Suc_eq word_unat_eq_iff)

lemma heldChip_result:
  "loopCarry l \<le> 1 \<Longrightarrow> (if loopHas l then loopCarry l else 0) = of_bool (heldChip l = Some True)"
  "loopHas l \<longleftrightarrow> heldChip l \<noteq> None"
  using small_word [of "loopCarry l"] by (auto simp: heldChip_def)

lemma fold_items:
  assumes "n \<le> length inp"
  shows "fold (\<lambda>n. fold (\<lambda>i. decodeChip w ord k (drop_bit (streamPosition i w ord) (ucast (inp ! n)) AND 1)) [0..<w]) [0..<n] l =
    fold (\<lambda>c. decodeChip w ord k (of_bool c)) (fieldStream ord w (take n inp)) l"
proof -
  have item: "fold (\<lambda>i. decodeChip w ord k (drop_bit (streamPosition i w ord) (ucast x) AND 1)) [0..<w] l =
      fold (\<lambda>c. decodeChip w ord k (of_bool c)) (itemBits ord w x) l" for x :: u8 and l
    by (simp add: itemBits_def fold_map o_def streamPosition_field chip_of_bool)
  show ?thesis
    using assms by (induction n) (simp_all add: fieldStream_itemBits item take_Suc_conv_app_nth)
qed

lemma decodeReference_stream:
  fixes cfg inp out viol
  assumes ok: "coderState cfg"
  defines "w \<equiv> bitsPerItem cfg" and "ord \<equiv> order cfg"
  defines "count \<equiv> min (length inp div 2) (min (length out) (length viol))"
  defines "chips \<equiv> fieldStream ord w (take (2 * count) inp)"
  shows "decodeReference cfg inp out viol =
    (cfg\<lparr>carry := of_bool (unpaired cfg chips = Some True), hasCarry := unpaired cfg chips \<noteq> None,
         nOrphanItems := nOrphanItems cfg + of_bool (chips \<noteq> [] \<and> owesOrphan cfg)\<rparr>,
     packedItems ord w (map fst (decodedPairs cfg chips)) @ drop count out,
     packedItems ord w (map snd (decodedPairs cfg chips)) @ drop count viol)"
    and "length (decodedPairs cfg chips) = count * w"
proof -
  let ?k = "kXor cfg \<noteq> 0"
  let ?l = "\<lparr>loopCarry = carry cfg, loopHas = hasCarry cfg, loopOrphan = (gridParity cfg = 1 \<and> \<not> hasCarry cfg),
     loopOrphans = nOrphanItems cfg, loopIndex = 0, loopSlot = 0, loopBits = 0, loopFlags = 0,
     outItems = out, violations = viol\<rparr>"
  have w: "1 \<le> w" "w \<le> 8" and k: "ucast (kXor cfg) = (of_bool ?k :: u32)" and held: "carry cfg \<le> 1"
    using ok small_word [of "kXor cfg"] by (auto simp: coderState_def w_def)
  have two: "2 * count \<le> length inp" by (simp add: count_def)
  have len: "length chips = 2 * (count * w)" using two by (simp add: chips_def)
  have pairs: "length (decodedPairs cfg chips) = count * w"
    by (cases chips) (use len in \<open>auto simp: decodedPairs_def grid_def\<close>)
  then show "length (decodedPairs cfg chips) = count * w" .
  let ?fin = "fold (chipStep w ord ?k) chips ?l"
  have loop: "decodeReference cfg inp out viol =
      (cfg\<lparr>carry := (if loopHas ?fin then loopCarry ?fin else 0), hasCarry := loopHas ?fin, nOrphanItems := loopOrphans ?fin\<rparr>,
       outItems ?fin, violations ?fin)"
    unfolding decodeReference_def Let_def k chipStep_def [abs_def]
    using fold_items [OF two, of w ord "of_bool ?k"] by (simp add: w_def ord_def count_def chips_def)
  have "loopView ?fin = loopView (fold (emitPair w ord) (decodedPairs cfg chips) ?l) \<and>
      loopOrphans ?fin = nOrphanItems cfg + of_bool (chips \<noteq> [] \<and> owesOrphan cfg) \<and>
      heldChip ?fin = unpaired cfg chips \<and> loopCarry ?fin \<le> 1"
  proof (cases "chips \<noteq> [] \<and> owesOrphan cfg")
    case True
    then obtain c cs where chips: "chips = c # cs" by (cases chips) auto
    let ?m = "emitPair w ord (c \<noteq> ?k, True) (?l\<lparr>loopOrphan := False, loopOrphans := nOrphanItems cfg + 1\<rparr>)"
    have first: "fold (chipStep w ord ?k) chips ?l = fold (chipStep w ord ?k) cs ?m"
      unfolding chips fold_simps using True by (subst chipStep_orphan) (simp_all add: owesOrphan_def)
    have "loopView (fold (emitPair w ord) ps ?m) = loopView (fold (emitPair w ord) ps (emitPair w ord (c \<noteq> ?k, True) ?l))" for ps
      by (intro emits_view emit_view) (simp add: loopView_def)
    then show ?thesis
      using chips_paired [of ?m w ord ?k cs] True held unfolding first
      by (simp add: decodedPairs_def unpaired_def chips owesOrphan_def)
  next
    case False
    show ?thesis
    proof (cases "chips = []")
      case True
      then show ?thesis
        using held by (simp add: decodedPairs_def unpaired_def grid_def heldChip_def)
    next
      case False
      then have "\<not> owesOrphan cfg" using \<open>\<not> (chips \<noteq> [] \<and> owesOrphan cfg)\<close> by simp
      then show ?thesis
        using chips_paired [of ?l w ord ?k chips] held
        by (simp add: decodedPairs_def unpaired_def grid_def owesOrphan_def)
    qed
  qed
  note run = this
  have count: "count * w div w = count" "count * w mod w = 0" using w by simp_all
  have rest: "drop (count * w) (map f (decodedPairs cfg chips)) = []" for f :: "bool \<times> bool \<Rightarrow> bool"
    by (simp add: pairs)
  have room: "count \<le> length out" "count \<le> length viol" by (simp_all add: count_def)
  have collected: "loopView (fold (emitPair w ord) (decodedPairs cfg chips) ?l) =
      (count, 0, 0, 0, packedItems ord w (map fst (decodedPairs cfg chips)) @ drop count out,
       packedItems ord w (map snd (decodedPairs cfg chips)) @ drop count viol)"
    using emits_collect [OF w, of "decodedPairs cfg chips" out viol ?l ord] room
    unfolding pairs count by (simp add: loopView_def rest)
  have "loopView ?fin = (count, 0, 0, 0, packedItems ord w (map fst (decodedPairs cfg chips)) @ drop count out,
       packedItems ord w (map snd (decodedPairs cfg chips)) @ drop count viol)"
    using run collected by (simp only:)
  then have items: "outItems ?fin = packedItems ord w (map fst (decodedPairs cfg chips)) @ drop count out"
    "violations ?fin = packedItems ord w (map snd (decodedPairs cfg chips)) @ drop count viol"
    unfolding loopView_def prod.inject by blast+
  have "loopCarry ?fin \<le> 1" and heldChip: "heldChip ?fin = unpaired cfg chips"
    and counted: "loopOrphans ?fin = nOrphanItems cfg + of_bool (chips \<noteq> [] \<and> owesOrphan cfg)"
    using run by blast+
  note carried = heldChip_result(1) [OF this(1), unfolded heldChip] heldChip_result(2) [of ?fin, unfolded heldChip]
  show "decodeReference cfg inp out viol =
    (cfg\<lparr>carry := of_bool (unpaired cfg chips = Some True), hasCarry := unpaired cfg chips \<noteq> None,
         nOrphanItems := nOrphanItems cfg + of_bool (chips \<noteq> [] \<and> owesOrphan cfg)\<rparr>,
     packedItems ord w (map fst (decodedPairs cfg chips)) @ drop count out,
     packedItems ord w (map snd (decodedPairs cfg chips)) @ drop count viol)"
    unfolding loop items counted carried(1) unfolding carried(2) ..
qed


subsection \<open>The bit-parallel decoder\<close>

lemma bit_compactEvenBits: "bit (compactEvenBits x) j \<longleftrightarrow> j < 8 \<and> bit x (2 * j)"
proof (cases "j < 8")
  case True
  then have "j \<in> {0, 1, 2, 3, 4, 5, 6, 7}" by auto
  then show ?thesis
    by (elim insertE emptyE; simp add: compactEvenBits_def Let_def bit_and_iff bit_or_iff bit_drop_bit_eq bit_ucast_iff;
        simp add: numeral_2_eq_2)
next
  case False
  have "bit (0xFF :: u32) j \<longleftrightarrow> j < 8" by (auto simp: word_bits)
  with False show ?thesis by (simp add: compactEvenBits_def Let_def bit_and_iff)
qed

lemma bit_compactOddBits: "bit (compactOddBits x) j \<longleftrightarrow> j < 8 \<and> bit x (2 * j + 1)"
  by (auto simp: compactOddBits_def bit_compactEvenBits bit_drop_bit_eq)

lemma alignedItem_bits:
  fixes a b :: u8
  assumes ok: "coderState cfg"
  defines "w \<equiv> bitsPerItem cfg" and "ord \<equiv> order cfg"
  defines "ch \<equiv> (!) (itemBits ord w a @ itemBits ord w b)"
  shows "alignedItem cfg a b =
    (packItem ord (map (\<lambda>s. ch (2 * s) \<noteq> (kXor cfg \<noteq> 0)) [0..<w]),
     packItem ord (map (\<lambda>s. ch (2 * s) = ch (2 * s + 1)) [0..<w]))"
proof -
  have w: "1 \<le> w" "w \<le> 8" using ok by (simp_all add: coderState_def w_def)
  let ?mask = "push_bit w 1 - 1 :: u32"
  have mask: "bit ?mask p \<longleftrightarrow> p < w" for p unfolding bit_mask_word using w by auto
  define early late :: u32 where "early = ucast a AND ?mask" and "late = ucast b AND ?mask"
  define chips :: u16 where
    "chips = ucast (if ord = MsbFirst then push_bit w early OR late else early OR push_bit w late)"
  have early: "bit early p \<longleftrightarrow> p < w \<and> bit a p" and late: "bit late p \<longleftrightarrow> p < w \<and> bit b p" for p
    using w unfolding early_def late_def bit_and_iff mask by (auto simp: bit_ucast_iff)
  have chip: "bit chips (if ord = MsbFirst then 2 * w - 1 - j else j) = ch j" if "j < 2 * w" for j
    using that w
    by (auto simp: chips_def ch_def bit_ucast_iff bit_or_iff bit_push_bit_iff early late nth_append fieldPosition_def
        mult_2)
  have above: "\<not> bit chips p" if "2 * w \<le> p" for p
    using that by (auto simp: chips_def bit_ucast_iff bit_or_iff bit_push_bit_iff early late)
  define heads where "heads = (if ord = MsbFirst then compactOddBits chips else compactEvenBits chips)"
  define tails where "tails = (if ord = MsbFirst then compactEvenBits chips else compactOddBits chips)"
  have aligned: "alignedItem cfg a b =
      (ucast (heads XOR (if kXor cfg \<noteq> 0 then ?mask else 0)), ucast (NOT (heads XOR tails) AND ?mask))"
    unfolding alignedItem_def Let_def heads_def tails_def chips_def early_def late_def w_def ord_def ..
  have heads: "bit heads (fieldPosition ord w s) = ch (2 * s)" and tails: "bit tails (fieldPosition ord w s) = ch (2 * s + 1)"
    if "s < w" for s
  proof -
    have index: "2 * (w - 1 - s) + 1 = 2 * w - 1 - 2 * s" "2 * (w - 1 - s) = 2 * w - 1 - (2 * s + 1)" "w - 1 - s < 8" "s < 8"
      "2 * s < 2 * w" "2 * s + 1 < 2 * w"
      using that w by auto
    show "bit heads (fieldPosition ord w s) = ch (2 * s)" "bit tails (fieldPosition ord w s) = ch (2 * s + 1)"
    proof (atomize (full), cases "ord = MsbFirst")
      case True
      then have "fieldPosition ord w s = w - 1 - s" by (simp add: fieldPosition_def)
      moreover have "bit heads (w - 1 - s) \<longleftrightarrow> bit chips (2 * (w - 1 - s) + 1)" "bit tails (w - 1 - s) \<longleftrightarrow> bit chips (2 * (w - 1 - s))"
        unfolding heads_def tails_def bit_compactEvenBits bit_compactOddBits if_P [OF True] using index(3) by blast+
      ultimately show "bit heads (fieldPosition ord w s) = ch (2 * s) \<and> bit tails (fieldPosition ord w s) = ch (2 * s + 1)"
        using chip [OF index(5)] chip [OF index(6)] unfolding if_P [OF True] index(1) unfolding index(2) by (simp only:)
    next
      case False
      then have "fieldPosition ord w s = s" by (simp add: fieldPosition_def)
      moreover have "bit heads s \<longleftrightarrow> bit chips (2 * s)" "bit tails s \<longleftrightarrow> bit chips (2 * s + 1)"
        unfolding heads_def tails_def bit_compactEvenBits bit_compactOddBits if_not_P [OF False] using index(4) by blast+
      ultimately show "bit heads (fieldPosition ord w s) = ch (2 * s) \<and> bit tails (fieldPosition ord w s) = ch (2 * s + 1)"
        using chip [OF index(5)] chip [OF index(6)] unfolding if_not_P [OF False] by (simp only:)
    qed
  qed
  have high: "\<not> bit heads p" "\<not> bit tails p" if "w \<le> p" for p
    using that above [of "2 * p"] above [of "2 * p + 1"]
    by (auto simp: heads_def tails_def bit_compactEvenBits bit_compactOddBits)
  have item: "ucast v = (packItem ord bs :: u8)"
    if "length bs = w" "\<And>s. s < w \<Longrightarrow> bit v (fieldPosition ord w s) = bs ! s" "\<And>p. w \<le> p \<Longrightarrow> \<not> bit v p" for v :: u32 and bs
  proof (rule bit_word_eqI)
    fix p assume "p < LENGTH(8)"
    show "bit (ucast v :: u8) p = bit (packItem ord bs :: u8) p"
    proof (cases "p < w")
      case True
      then obtain s where s: "s < w" "fieldPosition ord w s = p" using fieldPosition_onto by blast
      have "bit v p = bs ! s" "bit (packItem ord bs :: u8) p = bs ! s"
        using that(2) [OF s(1)] bit_packItem_nth [of bs w s ord, where ?'a = 8] s that(1) w by simp_all
      then show ?thesis using \<open>p < LENGTH(8)\<close> by (simp add: bit_ucast_iff)
    next
      case False
      then have "\<not> bit v p" "\<not> bit (packItem ord bs :: u8) p"
        using that(1) that(3) [of p] bit_packItem_above [of ord bs p] by (simp, force)
      then show ?thesis by (simp add: bit_ucast_iff)
    qed
  qed
  have "ucast (heads XOR (if kXor cfg \<noteq> 0 then ?mask else 0)) = (packItem ord (map (\<lambda>s. ch (2 * s) \<noteq> (kXor cfg \<noteq> 0)) [0..<w]) :: u8)"
  proof (rule item)
    show "bit (heads XOR (if kXor cfg \<noteq> 0 then ?mask else 0)) (fieldPosition ord w s) =
        map (\<lambda>s. ch (2 * s) \<noteq> (kXor cfg \<noteq> 0)) [0..<w] ! s" if "s < w" for s
      using heads [OF that] fieldPosition_less [OF that, of ord] that mask
      by (cases "kXor cfg = 0") (simp_all only: bit_xor_iff if_True if_False simp_thms bit_0_eq bot_fun_def nth_map_upt, simp_all)
    show "\<not> bit (heads XOR (if kXor cfg \<noteq> 0 then ?mask else 0)) p" if "w \<le> p" for p
      using high(1) [OF that] that mask [of p] by (simp only: bit_xor_iff split: if_splits) simp
  qed simp
  moreover have "ucast (NOT (heads XOR tails) AND ?mask) = (packItem ord (map (\<lambda>s. ch (2 * s) = ch (2 * s + 1)) [0..<w]) :: u8)"
  proof (rule item)
    show "bit (NOT (heads XOR tails) AND ?mask) (fieldPosition ord w s) = map (\<lambda>s. ch (2 * s) = ch (2 * s + 1)) [0..<w] ! s"
      if "s < w" for s
      using heads [OF that] tails [OF that] fieldPosition_less [OF that, of ord] that w
      unfolding bit_and_iff bit_not_iff bit_xor_iff mask by auto
    show "\<not> bit (NOT (heads XOR tails) AND ?mask) p" if "w \<le> p" for p
      using that unfolding bit_and_iff mask by simp
  qed simp
  ultimately show ?thesis unfolding aligned by (simp only:)
qed


lemma readPairs_nth:
  "j < length chips div 2 \<Longrightarrow> readPairs k chips ! j = (chips ! (2 * j) \<noteq> k, chips ! (2 * j) = chips ! (2 * j + 1))"
proof (induction k chips arbitrary: j rule: readPairs.induct)
  case (1 k c0 c1 cs)
  then show ?case by (cases j) simp_all
qed simp_all

lemma fold_update_pair:
  "fold (\<lambda>i (xs, ys). (xs[i := f i], ys[i := g i])) is (xs, ys) =
    (fold (\<lambda>i xs. xs[i := f i]) is xs, fold (\<lambda>i ys. ys[i := g i]) is ys)"
  by (induction "is" arbitrary: xs ys) simp_all

lemma fold_update_prefix:
  "n \<le> length xs \<Longrightarrow> fold (\<lambda>i xs. xs[i := f i]) [0..<n] xs = map f [0..<n] @ drop n xs"
proof (induction n)
  case (Suc n)
  then show ?case by (simp add: list_update_append Cons_nth_drop_Suc [symmetric])
qed simp

lemma readPairs_append: "even (length xs) \<Longrightarrow> readPairs k (xs @ ys) = readPairs k xs @ readPairs k ys"
  by (induction k xs rule: readPairs.induct) simp_all

lemma packedItems_append:
  assumes "w dvd length bs" "length cs = w" "0 < w"
  shows "packedItems ord w (bs @ cs) = packedItems ord w bs @ [packItem ord cs]"
proof -
  let ?q = "length bs div w"
  have whole: "?q * w = length bs" using assms(1) by simp
  have "length (bs @ cs) div w = Suc ?q" using assms(2,3) by (simp add: div_add_self2)
  moreover have "take w (drop (i * w) (bs @ cs)) = take w (drop (i * w) bs)" if "i < ?q" for i
  proof -
    have "Suc i * w \<le> ?q * w" using that by (intro mult_le_mono1) simp
    then have "i * w + w \<le> length bs" unfolding whole mult_Suc by linarith
    then show ?thesis by simp
  qed
  then have "map (\<lambda>i. packItem ord (take w (drop (i * w) (bs @ cs)))) [0..<?q] = (packedItems ord w bs :: u8 list)"
    unfolding packedItems_def by (intro map_cong refl) (simp only: set_upt atLeastLessThan_iff)
  ultimately show ?thesis using assms(2) whole by (simp add: packedItems_def [of _ _ "bs @ cs"])
qed

lemma packedItems_blocks:
  assumes "0 < w" "\<And>i. i < n \<Longrightarrow> length (f i) = w"
  shows "length (concat (map f [0..<n])) = n * w \<and>
    packedItems ord w (concat (map f [0..<n])) = map (\<lambda>i. packItem ord (f i)) [0..<n]"
  using assms(2)
proof (induction n)
  case 0
  then show ?case by (simp add: packedItems_def)
next
  case (Suc n)
  then show ?case
    using packedItems_append [of w "concat (map f [0..<n])" "f n" ord] assms(1) by simp
qed

text \<open>On an even grid with nothing held every pair of input items decodes by itself.\<close>

lemma readPairs_items:
  assumes "2 * n \<le> length inp"
  shows "readPairs k (fieldStream ord w (take (2 * n) inp)) =
    concat (map (\<lambda>i. readPairs k (itemBits ord w (inp ! (2 * i)) @ itemBits ord w (inp ! (2 * i + 1)))) [0..<n])"
  using assms
proof (induction n)
  case (Suc n)
  have "take (2 * Suc n) inp = take (2 * n) inp @ [inp ! (2 * n), inp ! (2 * n + 1)]"
    using Suc.prems by (simp add: take_Suc_conv_app_nth)
  then show ?case
    using Suc by (simp add: fieldStream_itemBits readPairs_append length_concat o_def sum_list_triv)
qed (simp add: fieldStream_def)

lemma decodeAligned_stream:
  assumes ok: "coderState cfg"
  defines "w \<equiv> bitsPerItem cfg" and "ord \<equiv> order cfg"
  defines "chips n inp \<equiv> fieldStream ord w (take (2 * n) inp)"
  assumes room: "2 * n \<le> length inp" "n \<le> length out" "n \<le> length viol"
  shows "decodeAligned cfg inp out viol n =
    (packedItems ord w (map fst (readPairs (kXor cfg \<noteq> 0) (chips n inp))) @ drop n out,
     packedItems ord w (map snd (readPairs (kXor cfg \<noteq> 0) (chips n inp))) @ drop n viol)"
proof -
  let ?k = "kXor cfg \<noteq> 0"
  let ?pairs = "\<lambda>i. readPairs ?k (itemBits ord w (inp ! (2 * i)) @ itemBits ord w (inp ! (2 * i + 1)))"
  have w: "0 < w" using ok by (simp add: coderState_def w_def)
  have item: "alignedItem cfg (inp ! (2 * i)) (inp ! (2 * i + 1)) =
      (packItem ord (map fst (?pairs i)), packItem ord (map snd (?pairs i)))" for i
  proof -
    have "map fst (?pairs i) = map (\<lambda>s. (itemBits ord w (inp ! (2 * i)) @ itemBits ord w (inp ! (2 * i + 1))) ! (2 * s) \<noteq> ?k) [0..<w]"
      "map snd (?pairs i) = map (\<lambda>s. (itemBits ord w (inp ! (2 * i)) @ itemBits ord w (inp ! (2 * i + 1))) ! (2 * s) =
        (itemBits ord w (inp ! (2 * i)) @ itemBits ord w (inp ! (2 * i + 1))) ! (2 * s + 1)) [0..<w]"
      by (rule nth_equalityI; simp add: readPairs_nth)+
    then show ?thesis using alignedItem_bits [OF ok, folded w_def ord_def] by simp
  qed
  have "packedItems ord w (concat (map (\<lambda>i. map f (?pairs i)) [0..<n])) = (map (\<lambda>i. packItem ord (map f (?pairs i))) [0..<n] :: u8 list)"
    for f using packedItems_blocks [OF w, of n "\<lambda>i. map f (?pairs i)" ord] by simp
  then show ?thesis
    using room unfolding decodeAligned_def chips_def Let_def
    by (simp add: item [simplified] fold_update_pair fold_update_prefix readPairs_items map_concat o_def)
qed

lemma fresh_decodedPairs:
  assumes "\<not> hasCarry cfg" "gridParity cfg = 0"
  shows "decodedPairs cfg chips = readPairs (kXor cfg \<noteq> 0) chips" "\<not> owesOrphan cfg"
    "even (length chips) \<Longrightarrow> unpaired cfg chips = None"
  using assms by (simp_all add: decodedPairs_def owesOrphan_def grid_def unpaired_def)

text \<open>The fast path and the definition agree, in their outputs and in the state they leave.\<close>

lemma decode_forms_agree:
  assumes ok: "coderState cfg"
  shows "decodeManchester cfg inp out viol = decodeReference cfg inp out viol"
proof (cases "\<not> hasCarry cfg \<and> gridParity cfg = 0")
  case True
  define n where "n = min (length inp div 2) (min (length out) (length viol))"
  have room: "2 * n \<le> length inp" "n \<le> length out" "n \<le> length viol" by (simp_all add: n_def)
  let ?w = "bitsPerItem cfg" and ?chips = "fieldStream (order cfg) (bitsPerItem cfg) (take (2 * n) inp)"
  have "even (length ?chips)" using room by simp
  then have fresh: "decodedPairs cfg ?chips = readPairs (kXor cfg \<noteq> 0) ?chips" "\<not> owesOrphan cfg" "unpaired cfg ?chips = None"
    using True fresh_decodedPairs [of cfg] by blast+
  have "carry cfg = 0" "\<not> hasCarry cfg" using ok True by (simp_all add: coderState_def)
  then have "cfg\<lparr>carry := 0, hasCarry := False\<rparr> = cfg" by simp
  then have "decodeReference cfg inp out viol = (cfg, decodeAligned cfg inp out viol n)"
    unfolding decodeReference_stream(1) [OF ok] n_def [symmetric] decodeAligned_stream [OF ok room] fresh(1,3)
    by (simp add: fresh(2))
  then show ?thesis using True unfolding decodeManchester_def Let_def n_def by simp
qed (auto simp: decodeManchester_def Let_def)


subsection \<open>The encoder on the chip stream\<close>

definition chipsOf :: "bool \<Rightarrow> bool list \<Rightarrow> bool list" where
  "chipsOf k bs = concat (map (\<lambda>b. [b \<noteq> k, b = k]) bs)"

lemma chipsOf_simps [simp]:
  "chipsOf k [] = []" "chipsOf k (b # bs) = (b \<noteq> k) # (b = k) # chipsOf k bs"
  "chipsOf k (bs @ cs) = chipsOf k bs @ chipsOf k cs"
  by (simp_all add: chipsOf_def)

lemma length_chipsOf [simp]: "length (chipsOf k bs) = 2 * length bs"
  by (induction bs) simp_all

lemma readPairs_chipsOf: "readPairs k' (chipsOf k bs) = map (\<lambda>b. (b \<noteq> (k \<noteq> k'), False)) bs"
  by (induction bs) auto

definition itemPair :: "BitOrder \<Rightarrow> nat \<Rightarrow> bool list \<Rightarrow> u32 \<times> u32" where
  "itemPair ord w cs = (fieldOf ord w (take w cs), fieldOf ord w (drop w cs))"

lemma placeChip_next:
  "n = length cs \<Longrightarrow> placeChip w ord (of_bool c) n (itemPair ord w cs) = itemPair ord w (cs @ [c])"
  by (cases "length cs < w") (simp_all add: placeChip_def itemPair_def streamPosition_field fieldOf_snoc)

lemma chipPair_chips:
  "chipPair (ucast item) w (of_bool k) ord = itemPair ord w (chipsOf k (itemBits ord w item))" for item :: u8
proof -
  have two: "[0..<2] = [0, 1 :: nat]" by (simp add: numeral_2_eq_2)
  have high: "drop_bit (streamPosition i w ord) (ucast item) AND 1 XOR of_bool k =
      (of_bool (bit item (fieldPosition ord w i) \<noteq> k) :: u32)" for i
    by (simp only: chip_of_bool xor_of_bools streamPosition_field)
  define step where "step = (\<lambda>i pair.
      let high = (drop_bit (streamPosition i w ord) (ucast item) AND 1) XOR of_bool k
      in fold (\<lambda>half. placeChip w ord (high XOR of_nat half) (2 * i + half)) [0..<2] pair)"
  have step: "step n (itemPair ord w cs) = itemPair ord w (cs @ [b \<noteq> k, b = k])"
    if "length cs = 2 * n" "b = bit item (fieldPosition ord w n)" for n cs b
  proof -
    have flip: "of_bool (b \<noteq> k) XOR of_nat 1 = (of_bool (b = k) :: u32)" "of_bool (b \<noteq> k) XOR of_nat 0 = (of_bool (b \<noteq> k) :: u32)"
      using xor_of_bools [of "b \<noteq> k" True, where ?'a = 32] by simp_all
    have "placeChip w ord (of_bool (b \<noteq> k)) (2 * n) (itemPair ord w cs) = itemPair ord w (cs @ [b \<noteq> k])"
      by (rule placeChip_next) (simp add: that)
    moreover have "placeChip w ord (of_bool (b = k)) (2 * n + 1) (itemPair ord w (cs @ [b \<noteq> k])) =
        itemPair ord w ((cs @ [b \<noteq> k]) @ [b = k])"
      by (rule placeChip_next) (simp add: that)
    ultimately show ?thesis
      unfolding step_def Let_def high that(2) [symmetric] two fold_simps flip add_0_right by simp
  qed
  have "fold step [0..<n] (itemPair ord w []) =
      itemPair ord w (chipsOf k (map (\<lambda>i. bit item (fieldPosition ord w i)) [0..<n]))" for n
    by (induction n) (simp_all add: step)
  moreover have "itemPair ord w [] = (0, 0)" by (simp add: itemPair_def)
  ultimately show ?thesis unfolding chipPair_def itemBits_def step_def by simp
qed

text \<open>The table entry holds both items of a value, the first in its high byte.\<close>

lemma chipPairItems_bytes:
  fixes item :: u8 and k :: bool and ord :: BitOrder
  assumes "1 \<le> w" "w \<le> 8"
  defines "cs \<equiv> chipsOf k (itemBits ord w item)"
  shows "ucast (drop_bit 8 (chipPairItems (ucast item) w (of_bool k) ord)) = (packItem ord (take w cs) :: u8)"
    and "ucast (chipPairItems (ucast item) w (of_bool k) ord AND 0xFF) = (packItem ord (drop w cs) :: u8)"
proof -
  let ?f = "fieldOf ord w (take w cs)" and ?s = "fieldOf ord w (drop w cs)"
  have len: "length cs = 2 * w" by (simp add: cs_def)
  have f: "bit ?f p \<Longrightarrow> p < 8" and s: "bit ?s p \<Longrightarrow> p < 8" for p
    using assms(2) len fieldPosition_less [of _ w ord] by (fastforce simp: bit_fieldOf)+
  have pair: "chipPairItems (ucast item) w (of_bool k) ord = ucast (push_bit 8 ?f OR ?s)"
    unfolding chipPairItems_def chipPair_chips itemPair_def cs_def by simp
  have "ucast (drop_bit 8 (chipPairItems (ucast item) w (of_bool k) ord)) = (ucast ?f :: u8)"
    unfolding pair by (rule bit_word_eqI) (auto simp: bit_ucast_iff bit_drop_bit_eq bit_or_iff bit_push_bit_iff dest: s)
  then show "ucast (drop_bit 8 (chipPairItems (ucast item) w (of_bool k) ord)) = (packItem ord (take w cs) :: u8)"
    using fieldOf_packItem [of "take w cs" w ord] len assms(2) by simp
  have "ucast (chipPairItems (ucast item) w (of_bool k) ord AND 0xFF) = (ucast ?s :: u8)"
    unfolding pair by (rule bit_word_eqI) (auto simp: bit_ucast_iff bit_and_iff word_bits bit_or_iff bit_push_bit_iff)
  then show "ucast (chipPairItems (ucast item) w (of_bool k) ord AND 0xFF) = (packItem ord (drop w cs) :: u8)"
    using fieldOf_packItem [of "drop w cs" w ord] len assms(2) by simp
qed


definition encodedPair :: "bool \<Rightarrow> BitOrder \<Rightarrow> nat \<Rightarrow> u8 \<Rightarrow> u8 list" where
  "encodedPair k ord w item =
     (let cs = chipsOf k (itemBits ord w item) in [packItem ord (take w cs), packItem ord (drop w cs)])"

lemma fieldStream_append: "fieldStream ord w (xs @ ys) = fieldStream ord w xs @ fieldStream ord w ys"
  by (simp add: fieldStream_itemBits)

lemma fieldStream_encoded:
  "w \<le> 8 \<Longrightarrow> fieldStream ord w (concat (map (encodedPair k ord w) items)) = chipsOf k (fieldStream ord w items)"
proof (induction items)
  case (Cons item items)
  then show ?case by (simp add: fieldStream_itemBits encodedPair_def Let_def)
qed (simp add: fieldStream_def)

lemma fold_update_pairs:
  "2 * n \<le> length xs \<Longrightarrow> fold (\<lambda>i xs. xs[2 * i := f i, 2 * i + 1 := g i]) [0..<n] xs =
    concat (map (\<lambda>i. [f i, g i]) [0..<n]) @ drop (2 * n) xs"
proof (induction n)
  case (Suc n)
  have len: "length (concat (map (\<lambda>i. [f i, g i]) [0..<n])) = 2 * n" by (induction n) simp_all
  have "drop (2 * n) xs = xs ! (2 * n) # xs ! (2 * n + 1) # drop (2 * Suc n) xs"
    using Suc.prems by (simp add: Cons_nth_drop_Suc)
  then show ?case using Suc len by (simp add: list_update_append)
qed simp

definition tableOk :: "ManchesterConfig \<Rightarrow> bool" where
  "tableOk cfg \<longleftrightarrow>
     chipTable cfg = map (\<lambda>v. chipPairItems (of_nat v) (bitsPerItem cfg) (ucast (kXor cfg)) (order cfg)) [0..<256]"

lemma kXor_bit: "coderState cfg \<Longrightarrow> (ucast (kXor cfg) :: u32) = of_bool (kXor cfg \<noteq> 0)"
  using small_word [of "kXor cfg"] by (auto simp: coderState_def)

lemma table_entry:
  fixes item :: u8
  assumes "tableOk cfg" "coderState cfg"
  shows "chipTable cfg ! unat item = chipPairItems (ucast item) (bitsPerItem cfg) (of_bool (kXor cfg \<noteq> 0)) (order cfg)"
proof -
  have "unat item < 256" using unsigned_less [of item, where ?'a = nat] by simp
  moreover have "of_nat (unat item) = (ucast item :: u32)" by simp
  ultimately show ?thesis using assms(1) kXor_bit [OF assms(2)] by (simp add: tableOk_def)
qed

text \<open>The reference's own loops put the same chips into the same two items as the table's.\<close>

lemma encodeReference_chipPair:
  "encodeReference cfg inp out =
     fold (\<lambda>n out.
         let pair = chipPair (ucast (inp ! n)) (bitsPerItem cfg) (ucast (kXor cfg)) (order cfg)
         in out[2 * n := ucast (fst pair), 2 * n + 1 := ucast (snd pair)])
       [0..<min (length inp) (length out div 2)] out"
proof -
  have place: "(\<lambda>half (first, second).
       let chip = high XOR of_nat half; index = 2 * i + half
       in if index < width then (first OR push_bit (streamPosition index width ord) chip, second)
          else (first, second OR push_bit (streamPosition (index - width) width ord) chip)) =
      (\<lambda>half. placeChip width ord (high XOR of_nat half) (2 * i + half))" for high i width ord
    by (intro ext) (simp add: placeChip_def split_beta Let_def)
  show ?thesis
    unfolding encodeReference_def Let_def [of "bitsPerItem cfg"] Let_def [of "ucast (kXor cfg)"] Let_def [of "order cfg"]
      Let_def [of "min (length inp) (length out div 2)"] place chipPair_def
    by (simp add: split_beta Let_def)
qed

lemma encode_list:
  assumes ok: "coderState cfg" and "tableOk cfg"
  defines "count out inp \<equiv> min (length inp) (length out div 2)"
  shows "encodeManchester cfg inp out =
      concat (map (encodedPair (kXor cfg \<noteq> 0) (order cfg) (bitsPerItem cfg)) (take (count out inp) inp)) @ drop (2 * count out inp) out"
    "encodeReference cfg inp out = encodeManchester cfg inp out"
proof -
  let ?k = "kXor cfg \<noteq> 0" and ?ord = "order cfg" and ?w = "bitsPerItem cfg"
  let ?cs = "\<lambda>n. chipsOf ?k (itemBits ?ord ?w (inp ! n))"
  have w: "1 \<le> ?w" "?w \<le> 8" using ok by (simp_all add: coderState_def)
  define n where "n = count out inp"
  have room: "2 * n \<le> length out" "n \<le> length inp" by (simp_all add: n_def count_def)
  have manchester: "encodeManchester cfg inp out =
      fold (\<lambda>n out. out[2 * n := packItem ?ord (take ?w (?cs n)), 2 * n + 1 := packItem ?ord (drop ?w (?cs n))]) [0..<n] out"
    unfolding encodeManchester_def Let_def table_entry [OF assms(2) ok] chipPairItems_bytes [OF w]
    by (simp add: n_def count_def)
  have "ucast (fst (chipPair (ucast (inp ! n)) ?w (of_bool ?k) ?ord)) = (packItem ?ord (take ?w (?cs n)) :: u8)"
    "ucast (snd (chipPair (ucast (inp ! n)) ?w (of_bool ?k) ?ord)) = (packItem ?ord (drop ?w (?cs n)) :: u8)" for n
    unfolding chipPair_chips itemPair_def fst_conv snd_conv using w by (intro fieldOf_packItem; simp)+
  then show "encodeReference cfg inp out = encodeManchester cfg inp out"
    unfolding manchester encodeReference_chipPair Let_def kXor_bit [OF ok] by (simp add: n_def count_def)
  have "map (\<lambda>i. [packItem ?ord (take ?w (?cs i)), packItem ?ord (drop ?w (?cs i))]) [0..<n] =
      map (encodedPair ?k ?ord ?w) (take n inp)"
    using room(2) by (intro nth_equalityI) (simp_all add: encodedPair_def Let_def)
  then show "encodeManchester cfg inp out =
      concat (map (encodedPair ?k ?ord ?w) (take (count out inp) inp)) @ drop (2 * count out inp) out"
    unfolding manchester n_def [symmetric] using fold_update_pairs [OF room(1)] by simp
qed

subsection \<open>Every state the coder can be in\<close>

inductive coderRun :: "ManchesterConfig \<Rightarrow> bool" where
  configured: "configureManchester cfg conv w ord phase = Inr cfg' \<Longrightarrow> coderRun cfg'"
| decoded: "coderRun cfg \<Longrightarrow> decodeManchester cfg inp out viol = (cfg', out', viol') \<Longrightarrow> coderRun cfg'"
| realigned: "coderRun cfg \<Longrightarrow> realignManchester cfg chip = (cfg', dropped) \<Longrightarrow> coderRun cfg'"

lemma coderRun_ok: "coderRun cfg \<Longrightarrow> coderState cfg \<and> tableOk cfg"
proof (induction rule: coderRun.induct)
  case (configured cfg conv w ord phase cfg')
  then have "phase = 0 \<or> phase = 1" "1 \<le> w" "w \<le> 8" and cfg': "cfg' = resetManchester (cfg\<lparr>
      chipTable := map (\<lambda>v. chipPairItems (of_nat v) w (ucast (conventionXor conv)) ord) [0..<256],
      convention := conv, bitsPerItem := w, order := ord, chipPhase := of_nat phase, kXor := conventionXor conv\<rparr>)"
    by (auto simp: configureManchester_def Let_def le_Suc_eq split: if_splits)
  then show ?case
    by (auto simp: resetManchester_def coderState_def tableOk_def conventionXor_def)
next
  case (decoded cfg inp out viol cfg' out' viol')
  let ?chips = "fieldStream (order cfg) (bitsPerItem cfg) (take (2 * min (length inp div 2) (min (length out) (length viol))) inp)"
  have "even (length ?chips)" by simp
  moreover have "cfg' = cfg\<lparr>carry := of_bool (unpaired cfg ?chips = Some True), hasCarry := unpaired cfg ?chips \<noteq> None,
      nOrphanItems := nOrphanItems cfg + of_bool (?chips \<noteq> [] \<and> owesOrphan cfg)\<rparr>"
    using decoded decodeReference_stream(1) [of cfg inp out viol] decode_forms_agree [of cfg inp out viol] by simp
  ultimately show ?case
    using decoded.IH small_word [of "gridParity cfg"] fresh_decodedPairs(3) [of cfg ?chips]
    by (auto simp: coderState_def tableOk_def)
next
  case (realigned cfg chip cfg' dropped)
  have "(ucast (chip AND 1) :: u8) = 0 \<or> (ucast (chip AND 1) :: u8) = 1"
    by (cases "even chip") (simp_all add: and_one_eq mod2_eq_if)
  with realigned show ?case
    by (auto simp: realignManchester_def Let_def coderState_def tableOk_def split: if_splits)
qed


subsection \<open>Properties\<close>

text \<open>The chip pairs behind decoded bits and flags.\<close>

definition expandPairs :: "bool \<Rightarrow> (bool \<times> bool) list \<Rightarrow> bool list" where
  "expandPairs k ps = concat (map (\<lambda>(b, flag). [b \<noteq> k, (b \<noteq> k) = flag]) ps)"

lemma expandPairs_simps [simp]:
  "expandPairs k [] = []" "expandPairs k ((b, flag) # ps) = (b \<noteq> k) # ((b \<noteq> k) = flag) # expandPairs k ps"
  by (simp_all add: expandPairs_def)

lemma expand_readPairs:
  "expandPairs k (readPairs k chips) @ (if even (length chips) then [] else [last chips]) = chips"
  by (induction k chips rule: readPairs.induct) auto

lemma fieldStream_packedItems:
  assumes "0 < w" "w \<le> 8" "length bs = n * w"
  shows "fieldStream ord w (packedItems ord w bs) = bs"
  using assms(3)
proof (induction n arbitrary: bs rule: nat.induct)
  case zero
  then show ?case by (simp add: packedItems_def fieldStream_def)
next
  case (Suc n)
  let ?xs = "take (n * w) bs" and ?ys = "drop (n * w) bs"
  have len: "length ?xs = n * w" "length ?ys = w" using Suc.prems by simp_all
  then have "packedItems ord w (?xs @ ?ys) = packedItems ord w ?xs @ [packItem ord ?ys]"
    using packedItems_append [of w ?xs ?ys ord] assms(1) by simp
  then have "packedItems ord w bs = packedItems ord w ?xs @ [packItem ord ?ys]" by simp
  moreover have "itemBits ord w (packItem ord ?ys :: u8) = ?ys" using len(2) assms(2) by simp
  ultimately show ?case
    using Suc.IH [OF len(1)] by (simp add: fieldStream_append) (simp add: fieldStream_itemBits)
qed

text \<open>C29. In every reachable state the bit-parallel decoder path leaves the same items, flags and state
  as the chip-at-a-time definition, and the table-driven encoder writes what the separately written
  bit-at-a-time definition writes.\<close>

theorem manchester_forms_agree:
  assumes "coderRun cfg"
  shows "decodeManchester cfg inp out viol = decodeReference cfg inp out viol \<and>
    encodeManchester cfg inp chipItems = encodeReference cfg inp chipItems"
  using coderRun_ok [OF assms] decode_forms_agree [of cfg inp out viol] encode_list(2) [of cfg inp chipItems] by simp

text \<open>C8. From any state the coder can reach, a decode call consumes the chip stream behind its held chip
  (or behind the one flagged orphan its grid owes) and the decoded bits with the violation flags and
  the chip left held reconstruct that chip stream exactly: nothing is dropped, corrected or
  invented, for any input, item width, order and span lengths.\<close>

theorem manchester_decode_lossless:
  assumes "coderRun cfg" "decodeManchester cfg inp out viol = (cfg', out', viol')"
    and "n = min (length inp div 2) (min (length out) (length viol))"
    and "chips = fieldStream (order cfg) (bitsPerItem cfg) (take (2 * n) inp)"
    and "ps = zip (fieldStream (order cfg) (bitsPerItem cfg) (take n out')) (fieldStream (order cfg) (bitsPerItem cfg) (take n viol'))"
  shows "length ps = n * bitsPerItem cfg \<and> drop n out' = drop n out \<and> drop n viol' = drop n viol \<and>
    (if chips \<noteq> [] \<and> owesOrphan cfg
     then hd ps = (hd chips \<noteq> (kXor cfg \<noteq> 0), True) \<and> expandPairs (kXor cfg \<noteq> 0) (tl ps) @ grid cfg' = tl chips \<and>
       nOrphanItems cfg' = nOrphanItems cfg + 1
     else expandPairs (kXor cfg \<noteq> 0) ps @ grid cfg' = grid cfg @ chips \<and> nOrphanItems cfg' = nOrphanItems cfg)"
proof -
  let ?w = "bitsPerItem cfg" and ?ord = "order cfg" and ?k = "kXor cfg \<noteq> 0"
  have ok: "coderState cfg" using coderRun_ok [OF assms(1)] by simp
  then have w: "0 < ?w" "?w \<le> 8" by (simp_all add: coderState_def)
  have run: "decodeReference cfg inp out viol = (cfg', out', viol')" using assms(2) decode_forms_agree [OF ok] by simp
  note stream = decodeReference_stream [OF ok, of inp out viol, folded assms(3), folded assms(4)]
  have len: "length (decodedPairs cfg chips) = n * ?w" by (rule stream(2))
  have cfg': "cfg' = cfg\<lparr>carry := of_bool (unpaired cfg chips = Some True), hasCarry := unpaired cfg chips \<noteq> None,
         nOrphanItems := nOrphanItems cfg + of_bool (chips \<noteq> [] \<and> owesOrphan cfg)\<rparr>"
    and out': "out' = packedItems ?ord ?w (map fst (decodedPairs cfg chips)) @ drop n out"
    and viol': "viol' = packedItems ?ord ?w (map snd (decodedPairs cfg chips)) @ drop n viol"
    using run unfolding stream(1) by simp_all
  have grid: "grid cfg' = (case unpaired cfg chips of None \<Rightarrow> [] | Some c \<Rightarrow> [c])"
    by (auto simp: grid_def cfg' split: option.splits)
  have items: "length (packedItems ?ord ?w (map f (decodedPairs cfg chips))) = n" for f :: "bool \<times> bool \<Rightarrow> bool"
    using len w by simp
  have "fieldStream ?ord ?w (packedItems ?ord ?w (map f (decodedPairs cfg chips))) = map f (decodedPairs cfg chips)"
    for f :: "bool \<times> bool \<Rightarrow> bool"
    by (rule fieldStream_packedItems [OF w, where n = n]) (simp add: len)
  then have ps: "ps = decodedPairs cfg chips"
    unfolding assms(5) out' viol' using items by (simp add: zip_map_fst_snd)
  have tails: "drop n out' = drop n out" "drop n viol' = drop n viol"
    unfolding out' viol' using items by (simp_all add: drop_append del: length_packedItems)
  have orphans: "nOrphanItems cfg' = nOrphanItems cfg + of_bool (chips \<noteq> [] \<and> owesOrphan cfg)"
    by (simp add: cfg')
  have count: "length ps = n * ?w" unfolding ps by (rule len)
  have expand: "expandPairs ?k (readPairs ?k cs) @ (case (if even (length cs) then None else Some (last cs)) of None \<Rightarrow> [] | Some c \<Rightarrow> [c]) = cs"
    for cs using expand_readPairs [of ?k cs] by (simp split: if_splits)
  show ?thesis
  proof (cases "chips \<noteq> [] \<and> owesOrphan cfg")
    case True
    then have "ps = (hd chips \<noteq> ?k, True) # readPairs ?k (tl chips)"
      "unpaired cfg chips = (if even (length (tl chips)) then None else Some (last (tl chips)))"
      by (simp_all add: ps decodedPairs_def unpaired_def Let_def)
    then show ?thesis
      using True expand [of "tl chips"] tails orphans count by (simp add: grid)
  next
    case False
    then have "ps = readPairs ?k (grid cfg @ chips)"
      "unpaired cfg chips = (if even (length (grid cfg @ chips)) then None else Some (last (grid cfg @ chips)))"
      by (auto simp: ps decodedPairs_def unpaired_def Let_def)
    then show ?thesis
      using False expand [of "grid cfg @ chips"] tails orphans count unfolding if_not_P [OF False] grid by auto
  qed
qed


lemma packedItems_fieldStream:
  assumes "0 < w"
  shows "packedItems ord w (fieldStream ord w xs) = map (take_bit w) (xs :: u8 list)"
proof (induction xs rule: rev_induct)
  case Nil
  then show ?case by (simp add: packedItems_def fieldStream_def)
next
  case (snoc x xs)
  have "packedItems ord w (fieldStream ord w xs @ itemBits ord w x) = packedItems ord w (fieldStream ord w xs) @ [packItem ord (itemBits ord w x)]"
    by (rule packedItems_append) (use assms in simp_all)
  then show ?case using snoc.IH by (simp add: fieldStream_itemBits packItem_itemBits)
qed

lemma packedItems_constant: "0 < w \<Longrightarrow> packedItems ord w (replicate (n * w) False) = (replicate n 0 :: u8 list)"
proof -
  assume w: "0 < w"
  have "fieldStream ord w (replicate n 0) = replicate (n * w) False"
    by (rule nth_equalityI) (simp_all add: fieldStream_nth less_mult_imp_div_less)
  then show ?thesis using packedItems_fieldStream [OF w, of ord "replicate n 0"] by simp
qed

text \<open>The item read under the wrong convention: its complement within the field.\<close>

definition seenUnder :: "ManchesterConvention \<Rightarrow> ManchesterConvention \<Rightarrow> nat \<Rightarrow> u8 \<Rightarrow> u8" where
  "seenUnder sent read w item = (if sent = read then take_bit w item else take_bit w (NOT item))"

text \<open>The pairs a decoder on the off grid forms behind the first chip: the tail of one bit and the head of the next.\<close>

lemma readPairs_off_grid:
  "readPairs k' ((b = k) # chipsOf k bs) =
    zip (map (\<lambda>b. b = (k \<noteq> k')) (butlast (b # bs))) (map2 (\<noteq>) (butlast (b # bs)) bs)"
proof (induction bs arbitrary: b)
  case (Cons c bs)
  have pair: "((b = k) \<noteq> k', (b = k) = (c \<noteq> k)) = (b = (k \<noteq> k'), b \<noteq> c)" by auto
  have "readPairs k' ((b = k) # chipsOf k (c # bs)) = ((b = k) \<noteq> k', (b = k) = (c \<noteq> k)) # readPairs k' ((c = k) # chipsOf k bs)"
    by (simp only: chipsOf_simps readPairs.simps)
  moreover have "butlast (b # c # bs) = b # butlast (c # bs)" by simp
  ultimately show ?case unfolding pair Cons.IH by (simp only: list.map zip_Cons_Cons prod.case)
qed simp

text \<open>C30. What one coder encodes, whatever its chip phase, a decoder on chip phase 0 decodes to the
  significant bits of the items with no violation and an unchanged state, and to exactly their
  complement, also with no violation, when it is on the other convention. A decoder on chip phase 1
  yields the first bit as the one flagged orphan and then every bit but the last complemented, one
  place late, a violation flagged exactly where neighbouring bits differ, with the last chip held.\<close>

theorem manchester_roundtrip:
  assumes "configureManchester cfg0 sent w ord p = Inr sender" "configureManchester cfg1 read w ord q = Inr receiver"
    and "length chipItems = 2 * length items" "length out = length items" "length viol = length items"
    and "bs = fieldStream ord w items"
  shows "case decodeManchester receiver (encodeManchester sender items chipItems) out viol of (receiver', out', viol') \<Rightarrow>
    (if q = 0 \<or> items = []
     then receiver' = receiver \<and> out' = map (seenUnder sent read w) items \<and> viol' = replicate (length items) 0
     else fieldStream ord w out' = (hd bs \<noteq> (sent \<noteq> read)) # map (\<lambda>b. b = (sent \<noteq> read)) (butlast bs) \<and>
       fieldStream ord w viol' = True # map2 (\<noteq>) (butlast bs) (tl bs) \<and>
       hasCarry receiver' \<and> nOrphanItems receiver' = nOrphanItems receiver + 1)"
proof -
  let ?n = "length items" and ?ks = "sent = Ieee8023" and ?kr = "read = Ieee8023"
  have sender: "coderState sender \<and> tableOk sender" and receiver: "coderState receiver \<and> tableOk receiver"
    using assms(1,2) by (auto intro!: coderRun_ok coderRun.configured)
  have settings: "bitsPerItem sender = w" "order sender = ord" "kXor sender \<noteq> 0 \<longleftrightarrow> ?ks"
    "bitsPerItem receiver = w" "order receiver = ord" "kXor receiver \<noteq> 0 \<longleftrightarrow> ?kr"
    "\<not> hasCarry receiver" "gridParity receiver = of_nat q" "carry receiver = 0" "q \<le> 1"
    using assms(1,2)
    by (auto simp: configureManchester_def resetManchester_def conventionXor_def Let_def split: if_splits)
  have w: "0 < w" "w \<le> 8" using sender settings by (simp_all add: coderState_def)
  have conv: "(sent \<noteq> read) = (?ks \<noteq> ?kr)" by (cases sent; cases read) simp_all
  let ?wire = "concat (map (encodedPair ?ks ord w) items)"
  have len: "length ?wire = 2 * ?n" by (induction items) (simp_all add: encodedPair_def Let_def)
  have wire: "encodeManchester sender items chipItems = ?wire"
    using encode_list(1) [of sender items chipItems] sender assms(3) by (simp add: settings)
  have chips: "fieldStream ord w ?wire = chipsOf ?ks bs" unfolding assms(6) by (rule fieldStream_encoded [OF w(2)])
  have bits: "length bs = ?n * w" by (simp add: assms(6))
  have count: "min (length ?wire div 2) (min (length out) (length viol)) = ?n" using assms(4,5) len by simp
  let ?ps = "decodedPairs receiver (chipsOf ?ks bs)" and ?rest = "unpaired receiver (chipsOf ?ks bs)"
  note stream = decodeReference_stream [of receiver ?wire out viol, unfolded settings(4,5) count]
  have "take (2 * ?n) ?wire = ?wire" using len by simp
  then have run: "decodeManchester receiver (encodeManchester sender items chipItems) out viol =
      (receiver\<lparr>carry := of_bool (?rest = Some True), hasCarry := ?rest \<noteq> None,
         nOrphanItems := nOrphanItems receiver + of_bool (chipsOf ?ks bs \<noteq> [] \<and> owesOrphan receiver)\<rparr>,
       packedItems ord w (map fst ?ps), packedItems ord w (map snd ?ps))"
    and pairs: "length ?ps = ?n * w"
    using stream receiver assms(4,5) decode_forms_agree [of receiver ?wire out viol] by (simp_all add: wire chips)
  show ?thesis
  proof (cases "q = 0 \<or> items = []")
    case True
    have "cfg\<lparr>carry := carry cfg, hasCarry := hasCarry cfg\<rparr> = cfg" for cfg :: ManchesterConfig by simp
    then have same: "receiver\<lparr>carry := 0, hasCarry := False\<rparr> = receiver" using settings(7,9) by (metis (full_types))
    have ps: "?ps = map (\<lambda>b. (b \<noteq> (?ks \<noteq> ?kr), False)) bs" "?rest = None" "chipsOf ?ks bs \<noteq> [] \<longrightarrow> \<not> owesOrphan receiver"
    proof (atomize (full), cases "items = []")
      case True
      then have "chipsOf ?ks bs = []" "bs = []" using bits by simp_all
      then show "?ps = map (\<lambda>b. (b \<noteq> (?ks \<noteq> ?kr), False)) bs \<and> ?rest = None \<and> (chipsOf ?ks bs \<noteq> [] \<longrightarrow> \<not> owesOrphan receiver)"
        using settings(7) by (simp add: decodedPairs_def unpaired_def grid_def)
    next
      case False
      then have grid: "gridParity receiver = 0" using True settings(8) by simp
      note fresh = fresh_decodedPairs [OF settings(7) grid]
      show "?ps = map (\<lambda>b. (b \<noteq> (?ks \<noteq> ?kr), False)) bs \<and> ?rest = None \<and> (chipsOf ?ks bs \<noteq> [] \<longrightarrow> \<not> owesOrphan receiver)"
        using fresh settings(6) by (simp add: readPairs_chipsOf)
    qed
    have "map (\<lambda>b. b \<noteq> (?ks \<noteq> ?kr)) bs = fieldStream ord w (map (\<lambda>x. if ?ks = ?kr then x else NOT x) items)"
      unfolding assms(6)
      by (rule nth_equalityI)
        (use w in \<open>auto simp: fieldStream_nth less_mult_imp_div_less bit_not_iff fieldPosition_less
           intro!: less_le_trans [OF fieldPosition_less]\<close>)
    moreover have "map (\<lambda>b. False) bs = replicate (?n * w) False" by (simp add: map_replicate_const bits)
    ultimately show ?thesis
      using True same ps(3) conv unfolding run ps(1,2)
      by (auto simp: packedItems_fieldStream [OF w(1)] packedItems_constant [OF w(1)] seenUnder_def o_def)
  next
    case False
    then have "q = 1" using settings(10) by simp
    then have owes: "owesOrphan receiver" using settings(7,8) by (simp add: owesOrphan_def)
    obtain b rest where bs: "bs = b # rest" using False bits w(1) by (cases bs) auto
    have ps: "?ps = (b \<noteq> (?ks \<noteq> ?kr), True) # zip (map (\<lambda>b. b = (?ks \<noteq> ?kr)) (butlast bs)) (map2 (\<noteq>) (butlast bs) (tl bs))"
      unfolding decodedPairs_def using owes settings(6) readPairs_off_grid [of ?kr b ?ks rest] by (auto simp: bs)
    have streams: "fieldStream ord w (packedItems ord w (map f ?ps)) = map f ?ps" for f :: "bool \<times> bool \<Rightarrow> bool"
      by (rule fieldStream_packedItems [OF w, where n = ?n]) (simp add: pairs)
    have "odd (length (tl (chipsOf ?ks bs)))" by (simp add: bs)
    then have "?rest \<noteq> None" using owes by (simp add: unpaired_def bs)
    moreover have "chipsOf ?ks bs \<noteq> []" by (simp add: bs)
    ultimately show ?thesis
      unfolding run prod.case streams using False owes conv ps by (simp add: bs)
  qed
qed


subsection \<open>The worked examples\<close>

text \<open>
  The preamble octet and delimiter of IEEE 802.3, a decoder moved to the odd grid, and a stream read under
  the wrong convention.
\<close>

definition exampleCoder :: "ManchesterConvention \<Rightarrow> BitOrder \<Rightarrow> ManchesterConfig" where
  "exampleCoder conv ord = (case configureManchester defaultManchester conv 8 ord 0 of Inr cfg \<Rightarrow> cfg)"

lemma exampleCoder: "configureManchester defaultManchester conv 8 ord 0 = Inr (exampleCoder conv ord)"
  by (simp add: exampleCoder_def configureManchester_def Let_def)

lemma exampleCoder_fields:
  "gridParity (exampleCoder conv ord) = 0" "hasCarry (exampleCoder conv ord) = False"
  "nOrphanItems (exampleCoder conv ord) = 0" "bitsPerItem (exampleCoder conv ord) = 8" "order (exampleCoder conv ord) = ord"
  by (simp_all add: exampleCoder_def configureManchester_def resetManchester_def defaultManchester_def Let_def)

lemma manchester_forms_agree_witness:
  "decodeManchester (exampleCoder ethernet LsbFirst) [0x66, 0xA6] [0] [0] =
     decodeReference (exampleCoder ethernet LsbFirst) [0x66, 0xA6] [0] [0] \<and>
   encodeManchester (exampleCoder ethernet LsbFirst) [0x55, 0xD5] [0, 0, 0, 0] =
     encodeReference (exampleCoder ethernet LsbFirst) [0x55, 0xD5] [0, 0, 0, 0]"
  using manchester_forms_agree [OF coderRun.configured [OF exampleCoder], where inp = "[0x66, 0xA6]" and out = "[0]" and viol = "[0]"]
    manchester_forms_agree [OF coderRun.configured [OF exampleCoder], where inp = "[0x55, 0xD5]" and chipItems = "[0, 0, 0, 0]"]
  by simp

lemma manchester_decode_lossless_witness:
  "(case decodeManchester (fst (realignManchester (exampleCoder mil1553 MsbFirst) 1)) [0xB2, 0x4D] [0] [0] of
      (cfg', out', viol') \<Rightarrow> nOrphanItems cfg' = 1 \<and> drop 1 out' = [])"
proof -
  let ?cfg = "fst (realignManchester (exampleCoder mil1553 MsbFirst) 1)"
  obtain dropped where "realignManchester (exampleCoder mil1553 MsbFirst) 1 = (?cfg, dropped)" by (metis prod.collapse)
  then have run: "coderRun ?cfg" using coderRun.configured [OF exampleCoder] by (rule coderRun.realigned [rotated])
  have fields: "owesOrphan ?cfg" "bitsPerItem ?cfg = 8" "order ?cfg = MsbFirst" "nOrphanItems ?cfg = 0"
    by (simp_all add: realignManchester_def Let_def exampleCoder_fields owesOrphan_def)
  obtain cfg' out' viol' where result: "decodeManchester ?cfg [0xB2, 0x4D] [0] [0] = (cfg', out', viol')"
    by (metis prod.collapse)
  have "fieldStream MsbFirst 8 [0xB2, 0x4D] \<noteq> []" by (simp add: fieldStream_def)
  then show ?thesis
    using manchester_decode_lossless [OF run result, OF _ refl refl, of 1] fields by (simp add: result)
qed

text \<open>A stream read under the wrong convention, and one read on the off grid: the preamble bits complement and all flagged.\<close>

lemma manchester_roundtrip_witness:
  "decodeManchester (exampleCoder mil1553 LsbFirst) (encodeManchester (exampleCoder ethernet LsbFirst) [0x55, 0xD5] [0, 0, 0, 0]) [0, 0] [0, 0] =
     (exampleCoder mil1553 LsbFirst, [0xAA, 0x2A], [0, 0]) \<and>
   (\<exists>receiver receiver' out' viol'. configureManchester defaultManchester ethernet 8 MsbFirst 1 = Inr receiver \<and>
     decodeManchester receiver (encodeManchester (exampleCoder ethernet MsbFirst) [0x55] [0, 0]) [0] [0] = (receiver', out', viol') \<and>
     fieldStream MsbFirst 8 viol' = replicate 8 True \<and> hasCarry receiver')"
proof
  have "map (seenUnder ethernet mil1553 8) [0x55, 0xD5] = [0xAA, 0x2A]" by code_simp
  then show "decodeManchester (exampleCoder mil1553 LsbFirst) (encodeManchester (exampleCoder ethernet LsbFirst) [0x55, 0xD5] [0, 0, 0, 0]) [0, 0] [0, 0] =
      (exampleCoder mil1553 LsbFirst, [0xAA, 0x2A], [0, 0])"
    using manchester_roundtrip [OF exampleCoder exampleCoder _ _ _ refl, of "[0, 0, 0, 0]" "[0x55, 0xD5]" "[0, 0]" "[0, 0]" mil1553 LsbFirst ethernet]
    by (simp split: prod.splits)
  obtain receiver where receiver: "configureManchester defaultManchester ethernet 8 MsbFirst 1 = Inr receiver"
    by (simp add: configureManchester_def Let_def)
  obtain receiver' out' viol' where run:
    "decodeManchester receiver (encodeManchester (exampleCoder ethernet MsbFirst) [0x55] [0, 0]) [0] [0] = (receiver', out', viol')"
    by (metis prod_cases3)
  have bits: "fieldStream MsbFirst 8 [0x55 :: u8] = [False, True, False, True, False, True, False, True]" by code_simp
  have "fieldStream MsbFirst 8 viol' = replicate 8 True \<and> hasCarry receiver'"
  proof -
    have "replicate 8 True = [True, True, True, True, True, True, True, True]" by code_simp
    then show ?thesis
      using manchester_roundtrip [OF exampleCoder receiver _ _ _ refl, of "[0, 0]" "[0x55]" "[0]" "[0]" ethernet] run by (simp add: bits)
  qed
  then show "\<exists>receiver receiver' out' viol'. configureManchester defaultManchester ethernet 8 MsbFirst 1 = Inr receiver \<and>
      decodeManchester receiver (encodeManchester (exampleCoder ethernet MsbFirst) [0x55] [0, 0]) [0] [0] = (receiver', out', viol') \<and>
      fieldStream MsbFirst 8 viol' = replicate 8 True \<and> hasCarry receiver'"
    using receiver run by blast
qed

end
