(* ===== verification/Convolutional.thy ===== *)
theory Convolutional
  imports Prelude
begin

section \<open>Convolutional codes and the Viterbi decoder\<close>

text \<open>
  \<^verbatim>\<open>fec/Convolutional.hpp\<close>: the code and its validation, the terminated encoder, the whole-frame Viterbi decoder with
  its working storage, and the named conventions.  Registers, polynomials and branch outputs are 32-bit words, bit
  items 8-bit words, and sizes natural numbers (a span in memory is far below the wrap-around of \<^verbatim>\<open>std::size_t\<close>).

  Path metrics are \<^verbatim>\<open>float\<close> in the code.  The model keeps what the decoder relies on: a metric is either
  \<open>Unreachable\<close>, the constant \<^verbatim>\<open>1.0e30F\<close> that absorbs every branch metric added to it, or a reached value
  of an ordered group.  For the hard decoder the group is the integers, which \<^verbatim>\<open>float\<close> represents exactly up
  to \<open>2 ^ 24\<close>, that is for every frame of at most four million steps; for the soft decoder it is whatever ordered
  group the samples live in, so rounding of the correlation sum is not modelled.
\<close>

subsection \<open>The code\<close>

definition kConvMinConstraintLength :: nat where "kConvMinConstraintLength = 3"
definition kConvMaxConstraintLength :: nat where "kConvMaxConstraintLength = 9"
definition kConvMinPolynomials :: nat where "kConvMinPolynomials = 2"
definition kConvMaxPolynomials :: nat where "kConvMaxPolynomials = 4"

record ConvolutionalCode =
  constraintLength :: nat
  polynomialCount :: nat
  polynomials :: "u32 list"
  outputInversion :: u32

definition noCode :: ConvolutionalCode where
  "noCode = \<lparr>constraintLength = 0, polynomialCount = 0, polynomials = replicate kConvMaxPolynomials 0, outputInversion = 0\<rparr>"

text \<open>The generators are acceptable when each is nonzero, fits the register, and differs from all before it.\<close>

definition generatorsAccepted :: "nat \<Rightarrow> u32 list \<Rightarrow> bool" where
  "generatorsAccepted len generators \<longleftrightarrow>
     list_all (\<lambda>i. generators ! i \<noteq> 0 \<and> \<not> generators ! i \<ge> push_bit len 1 \<and>
       list_all (\<lambda>j. generators ! i \<noteq> generators ! j) [0..<i]) [0..<length generators]"

definition configureCode :: "nat \<Rightarrow> u32 list \<Rightarrow> u32 \<Rightarrow> ConvolutionalCode \<times> bool" where
  "configureCode len generators inversion =
     (if len < kConvMinConstraintLength \<or> len > kConvMaxConstraintLength then (noCode, False)
      else if length generators < kConvMinPolynomials \<or> length generators > kConvMaxPolynomials then (noCode, False)
      else if \<not> generatorsAccepted len generators then (noCode, False)
      else if drop_bit (length generators) inversion \<noteq> 0 then (noCode, False)
      else (\<lparr>constraintLength = len, polynomialCount = length generators,
             polynomials = generators @ drop (length generators) (polynomials noCode),
             outputInversion = inversion\<rparr>, True))"

definition codeConfigured :: "ConvolutionalCode \<Rightarrow> bool" where
  "codeConfigured code \<longleftrightarrow> constraintLength code \<noteq> 0"

definition states :: "ConvolutionalCode \<Rightarrow> nat" where
  "states code = (if codeConfigured code then 2 ^ (constraintLength code - 1) else 0)"

definition convolutionalBranch :: "ConvolutionalCode \<Rightarrow> u32 \<Rightarrow> u32 \<Rightarrow> u32" where
  "convolutionalBranch code state input =
     (let window = push_bit 1 state OR (input AND 1);
          coded = fold (\<lambda>j coded. coded OR push_bit j (word_of_nat (popcount (polynomials code ! j AND window)) AND 1))
            [0..<polynomialCount code] 0
      in coded XOR (outputInversion code AND (push_bit (polynomialCount code) 1 - 1)))"

definition convolutionalNextState :: "ConvolutionalCode \<Rightarrow> u32 \<Rightarrow> u32 \<Rightarrow> u32" where
  "convolutionalNextState code state input =
     (push_bit 1 state OR (input AND 1)) AND word_of_nat (states code - 1)"

definition convolutionalEncodedBits :: "ConvolutionalCode \<Rightarrow> nat \<Rightarrow> nat" where
  "convolutionalEncodedBits code infoBits =
     (if codeConfigured code then (infoBits + constraintLength code - 1) * polynomialCount code else 0)"

datatype ConvTermination = Terminated | Open

definition convolutionalInfoBits :: "ConvolutionalCode \<Rightarrow> nat \<Rightarrow> ConvTermination \<Rightarrow> nat" where
  "convolutionalInfoBits code codedBits termination =
     (if \<not> codeConfigured code \<or> codedBits = 0 \<or> codedBits mod polynomialCount code \<noteq> 0 then 0
      else
        let steps = codedBits div polynomialCount code
        in if termination = Open then steps
           else if steps < constraintLength code then 0 else steps - (constraintLength code - 1))"

definition convolutionalInfoBitsTerminated :: "ConvolutionalCode \<Rightarrow> nat \<Rightarrow> nat" where
  "convolutionalInfoBitsTerminated code codedBits = convolutionalInfoBits code codedBits Terminated"

subsection \<open>The encoder\<close>

definition encodeStep :: "ConvolutionalCode \<Rightarrow> u8 list \<Rightarrow> nat \<Rightarrow> u32 \<times> u8 list \<Rightarrow> u32 \<times> u8 list" where
  "encodeStep code info t st =
     (let input = (if t < length info then ucast (info ! t AND 1) else 0);
          word = convolutionalBranch code (fst st) input;
          out = fold (\<lambda>j out. out[t * polynomialCount code + j := ucast (drop_bit j word AND 1)])
            [0..<polynomialCount code] (snd st)
      in (convolutionalNextState code (fst st) input, out))"

definition convolutionalEncode :: "ConvolutionalCode \<Rightarrow> u8 list \<Rightarrow> u8 list \<Rightarrow> nat \<times> u8 list" where
  "convolutionalEncode code info out =
     (let coded = convolutionalEncodedBits code (length info)
      in if coded = 0 \<or> length out < coded then (0, out)
         else
           let steps = length info + constraintLength code - 1
           in (coded, snd (fold (encodeStep code info) [0..<steps] (0, out))))"

subsection \<open>Path metrics\<close>

datatype 'm PathMetric = Reached 'm | Unreachable

fun addCost :: "'m::linordered_ab_group_add PathMetric \<Rightarrow> 'm \<Rightarrow> 'm PathMetric" where
  "addCost (Reached a) c = Reached (a + c)"
| "addCost Unreachable c = Unreachable"

fun better :: "'m::linordered_ab_group_add PathMetric \<Rightarrow> 'm PathMetric \<Rightarrow> bool" where
  "better (Reached a) (Reached b) \<longleftrightarrow> a < b"
| "better (Reached a) Unreachable \<longleftrightarrow> True"
| "better Unreachable b \<longleftrightarrow> False"

subsection \<open>The decoder\<close>

record 'm ViterbiResult =
  distance :: nat
  resultMetric :: "'m PathMetric"

definition noResult :: "'m::linordered_ab_group_add ViterbiResult" where
  "noResult = \<lparr>distance = 0, resultMetric = Reached 0\<rparr>"

record 'm ViterbiDecoder =
  vcode :: ConvolutionalCode
  vstates :: nat
  vhalf :: nat
  vtermination :: ConvTermination
  vinitial :: "u32 option"
  voutputs :: "u32 list"
  vmetric :: "'m PathMetric list"
  vnext :: "'m PathMetric list"
  vtraceback :: "u8 list"
  vwords :: "u32 list"

definition defaultDecoder :: "'m::linordered_ab_group_add ViterbiDecoder" where
  "defaultDecoder = \<lparr>vcode = noCode, vstates = 0, vhalf = 0, vtermination = Terminated, vinitial = None,
     voutputs = [], vmetric = [], vnext = [], vtraceback = [], vwords = []\<rparr>"

definition configureDecoder ::
    "'m::linordered_ab_group_add ViterbiDecoder \<Rightarrow> ConvolutionalCode \<Rightarrow> ConvTermination \<Rightarrow> u32 option \<Rightarrow> 'm ViterbiDecoder \<times> bool" where
  "configureDecoder d code termination initial =
     (let d = d\<lparr>vcode := noCode, vstates := 0, vhalf := 0, vtermination := Terminated, vinitial := None,
                vtraceback := [], vwords := []\<rparr>
      in if \<not> codeConfigured code then (d, False)
         else if (case initial of None \<Rightarrow> False | Some s \<Rightarrow> unat s \<ge> states code) then (d, False)
         else
           (d\<lparr>vcode := code, vstates := states code, vhalf := states code div 2, vtermination := termination,
              vinitial := (if termination = Open then initial else None),
              voutputs := map (\<lambda>i. convolutionalBranch code (of_nat (i div 2)) (of_nat (i mod 2))) [0..<2 * states code],
              vmetric := replicate (states code) (Reached 0), vnext := replicate (states code) (Reached 0)\<rparr>, True))"

definition grown :: "nat \<Rightarrow> 'a::zero list \<Rightarrow> 'a list" where
  "grown n xs = (if length xs < n then xs @ replicate (n - length xs) 0 else xs)"

definition prepare :: "'m::linordered_ab_group_add ViterbiDecoder \<Rightarrow> nat \<Rightarrow> nat \<Rightarrow> 'm ViterbiDecoder \<times> nat" where
  "prepare d codedBits infoBits =
     (let carried = convolutionalInfoBits (vcode d) codedBits (vtermination d)
      in if carried = 0 \<or> carried \<noteq> infoBits then (d, 0)
         else
           let steps = codedBits div polynomialCount (vcode d)
           in (d\<lparr>vwords := grown steps (vwords d), vtraceback := grown (steps * vstates d) (vtraceback d)\<rparr>, steps))"

text \<open>One state of one step: its two predecessors differ only in the oldest bit.\<close>

definition trellisState :: "'m::linordered_ab_group_add list \<Rightarrow> nat \<Rightarrow> nat \<Rightarrow> 'm ViterbiDecoder \<Rightarrow> 'm ViterbiDecoder" where
  "trellisState cost base state d =
     (let input = state mod 2;
          lower = state div 2;
          upper = lower OR vhalf d;
          from0 = addCost (vmetric d ! lower) (cost ! unat (voutputs d ! (2 * lower + input)));
          from1 = addCost (vmetric d ! upper) (cost ! unat (voutputs d ! (2 * upper + input)));
          survivor = better from1 from0
      in d\<lparr>vnext := (vnext d)[state := if survivor then from1 else from0],
           vtraceback := (vtraceback d)[base + state := if survivor then 1 else 0]\<rparr>)"

definition trellisStep :: "(nat \<Rightarrow> 'm::linordered_ab_group_add list) \<Rightarrow> nat \<Rightarrow> 'm ViterbiDecoder \<Rightarrow> 'm ViterbiDecoder" where
  "trellisStep stepCosts t d =
     (let d = fold (trellisState (stepCosts t) (t * vstates d)) [0..<vstates d] d
      in d\<lparr>vmetric := vnext d, vnext := vmetric d\<rparr>)"

definition startMetrics :: "'m::linordered_ab_group_add ViterbiDecoder \<Rightarrow> 'm PathMetric list" where
  "startMetrics d =
     (if vtermination d = Terminated then (replicate (length (vmetric d)) Unreachable)[0 := Reached 0]
      else case vinitial d of
             Some s \<Rightarrow> (replicate (length (vmetric d)) Unreachable)[unat s := Reached 0]
           | None \<Rightarrow> replicate (length (vmetric d)) (Reached 0))"

text \<open>\<^verbatim>\<open>std::min_element\<close>: the first position no later entry is better than.\<close>

definition minElement :: "'m::linordered_ab_group_add PathMetric list \<Rightarrow> nat" where
  "minElement xs = fold (\<lambda>i best. if better (xs ! i) (xs ! best) then i else best) [1..<length xs] 0"

definition winningState :: "'m::linordered_ab_group_add ViterbiDecoder \<Rightarrow> nat" where
  "winningState d = (if vtermination d = Terminated then 0 else minElement (vmetric d))"

definition runTrellis ::
    "nat \<Rightarrow> (nat \<Rightarrow> 'm::linordered_ab_group_add list) \<Rightarrow> 'm ViterbiDecoder \<Rightarrow> 'm ViterbiDecoder \<times> 'm PathMetric" where
  "runTrellis steps stepCosts d =
     (let d = fold (trellisStep stepCosts) [0..<steps] (d\<lparr>vmetric := startMetrics d\<rparr>)
      in (d, vmetric d ! winningState d))"

definition tracebackStep ::
    "'m::linordered_ab_group_add ViterbiDecoder \<Rightarrow> nat \<Rightarrow> nat \<times> nat \<times> u8 list \<Rightarrow> nat \<times> nat \<times> u8 list" where
  "tracebackStep d t s =
     (let (state, dist, info) = s;
          input = state mod 2;
          previous = state div 2 OR (if vtraceback d ! (t * vstates d + state) \<noteq> 0 then vhalf d else 0);
          emitted = voutputs d ! (2 * previous + input);
          dist = dist + popcount (emitted XOR vwords d ! t);
          info = (if t < length info then info[t := of_nat input] else info)
      in (previous, dist, info))"

definition traceback :: "'m::linordered_ab_group_add ViterbiDecoder \<Rightarrow> nat \<Rightarrow> u8 list \<Rightarrow> nat \<times> u8 list" where
  "traceback d steps info = snd (fold (tracebackStep d) (rev [0..<steps]) (winningState d, 0, info))"

text \<open>The received word of a step, hard and sign-sliced, and the branch metrics of the two decoders.\<close>

definition hardWord :: "nat \<Rightarrow> u8 list \<Rightarrow> nat \<Rightarrow> u32" where
  "hardWord n received t =
     fold (\<lambda>j word. word OR push_bit j (ucast (received ! (t * n + j) AND 1))) [0..<n] 0"

definition softWord :: "nat \<Rightarrow> 'm::linordered_ab_group_add list \<Rightarrow> nat \<Rightarrow> u32" where
  "softWord n received t =
     fold (\<lambda>j word. if received ! (t * n + j) > 0 then word OR push_bit j 1 else word) [0..<n] 0"

definition hardCosts :: "nat \<Rightarrow> u32 \<Rightarrow> int list" where
  "hardCosts n word = map (\<lambda>pattern. int (popcount (of_nat pattern XOR word))) [0..<2 ^ n]"

definition softCosts :: "nat \<Rightarrow> 'm::linordered_ab_group_add list \<Rightarrow> nat \<Rightarrow> 'm list" where
  "softCosts n received t =
     map (\<lambda>pattern. - fold (\<lambda>j s. s + (if bit pattern j then received ! (t * n + j) else - (received ! (t * n + j))))
       [0..<n] 0) [0..<2 ^ n]"

definition decodeHard :: "int ViterbiDecoder \<Rightarrow> u8 list \<Rightarrow> u8 list \<Rightarrow> int ViterbiDecoder \<times> int ViterbiResult \<times> u8 list" where
  "decodeHard d received info =
     (let (d, steps) = prepare d (length received) (length info)
      in if steps = 0 then (d, noResult, info)
         else
           let n = polynomialCount (vcode d);
               d = d\<lparr>vwords := fold (\<lambda>t words. words[t := hardWord n received t]) [0..<steps] (vwords d)\<rparr>;
               words = vwords d;
               (d, metric) = runTrellis steps (\<lambda>t. hardCosts n (words ! t)) d;
               (dist, info) = traceback d steps info
           in (d, \<lparr>distance = dist, resultMetric = metric\<rparr>, info))"

definition negated :: "'m::linordered_ab_group_add PathMetric \<Rightarrow> 'm PathMetric" where
  "negated m = (case m of Reached a \<Rightarrow> Reached (- a) | Unreachable \<Rightarrow> Unreachable)"

definition decodeSoft ::
    "'m::linordered_ab_group_add ViterbiDecoder \<Rightarrow> 'm list \<Rightarrow> u8 list \<Rightarrow> 'm ViterbiDecoder \<times> 'm ViterbiResult \<times> u8 list" where
  "decodeSoft d received info =
     (let (d, steps) = prepare d (length received) (length info)
      in if steps = 0 then (d, noResult, info)
         else
           let n = polynomialCount (vcode d);
               d = d\<lparr>vwords := fold (\<lambda>t words. words[t := softWord n received t]) [0..<steps] (vwords d)\<rparr>;
               (d, metric) = runTrellis steps (softCosts n received) d;
               (dist, info) = traceback d steps info
           in (d, \<lparr>distance = dist, resultMetric = negated metric\<rparr>, info))"

subsection \<open>Named conventions\<close>

record ConvolutionalConvention =
  conventionLabel :: string
  conventionLength :: nat
  conventionCount :: nat
  conventionPolynomials :: "u32 list"
  conventionInversion :: u32

definition kConvConventions :: "ConvolutionalConvention list" where
  "kConvConventions =
    [\<lparr>conventionLabel = ''ccsds'', conventionLength = 7, conventionCount = 2,
       conventionPolynomials = [0x4F, 0x6D, 0, 0], conventionInversion = 2\<rparr>,
     \<lparr>conventionLabel = ''ccsds_uninverted'', conventionLength = 7, conventionCount = 2,
       conventionPolynomials = [0x4F, 0x6D, 0, 0], conventionInversion = 0\<rparr>,
     \<lparr>conventionLabel = ''nasa_dsn'', conventionLength = 7, conventionCount = 2,
       conventionPolynomials = [0x6D, 0x4F, 0, 0], conventionInversion = 1\<rparr>,
     \<lparr>conventionLabel = ''nasa_dsn_uninverted'', conventionLength = 7, conventionCount = 2,
       conventionPolynomials = [0x6D, 0x4F, 0, 0], conventionInversion = 0\<rparr>]"

definition conventionByName :: "string \<Rightarrow> ConvolutionalConvention option" where
  "conventionByName name = find (\<lambda>entry. conventionLabel entry = name) kConvConventions"

definition configureConvention :: "string \<Rightarrow> ConvolutionalCode \<times> bool" where
  "configureConvention name =
     (case conventionByName name of
        None \<Rightarrow> (noCode, False)
      | Some entry \<Rightarrow> configureCode (conventionLength entry)
          (take (conventionCount entry) (conventionPolynomials entry)) (conventionInversion entry))"

end
