(* ===== verification/ConvolutionalProperties.thy ===== *)
theory ConvolutionalProperties
  imports Convolutional
begin

section \<open>What the Viterbi decoder promises\<close>

text \<open>
  The trellis as paths of input bits from a starting state, the survivors as optimal paths by induction over
  the steps, the traceback as the path the survivors name, and from these the maximum-likelihood property of the
  hard decoder over encoded frames and the recovery of a message.
\<close>

subsection \<open>Metrics are linearly ordered\<close>

instantiation PathMetric :: (linordered_ab_group_add) linorder
begin

definition "x \<le> y \<longleftrightarrow> \<not> better y (x :: 'a PathMetric)"
definition "x < y \<longleftrightarrow> better x (y :: 'a PathMetric)"

instance
proof
  fix x y z :: "'a PathMetric"
  show "(x < y) = (x \<le> y \<and> \<not> y \<le> x)" "x \<le> x" "x \<le> y \<or> y \<le> x"
    by (cases x; cases y; auto simp: less_eq_PathMetric_def less_PathMetric_def)+
  show "x \<le> y \<Longrightarrow> y \<le> z \<Longrightarrow> x \<le> z"
    by (cases x; cases y; cases z; auto simp: less_eq_PathMetric_def)
  show "x \<le> y \<Longrightarrow> y \<le> x \<Longrightarrow> x = y"
    by (cases x; cases y; auto simp: less_eq_PathMetric_def)
qed

end

lemma addCost_mono: "x \<le> y \<Longrightarrow> addCost x c \<le> addCost y c"
  by (cases x; cases y) (auto simp: less_eq_PathMetric_def)

lemma addCost_add [simp]: "addCost (addCost x a) b = addCost x (a + b)"
  by (cases x) (simp_all add: add.assoc)

lemma Reached_le [simp]: "Reached a \<le> Reached b \<longleftrightarrow> a \<le> b"
  by (auto simp: less_eq_PathMetric_def)

lemma Reached_le_Unreachable [simp]: "Reached a \<le> Unreachable" "\<not> Unreachable \<le> Reached a"
  by (simp_all add: less_eq_PathMetric_def)

lemma addCost_0 [simp]: "addCost x 0 = x"
  by (cases x) simp_all

subsection \<open>Codes and branches\<close>

definition codeOk :: "ConvolutionalCode \<Rightarrow> bool" where
  "codeOk code \<longleftrightarrow> 3 \<le> constraintLength code \<and> constraintLength code \<le> 9 \<and>
     2 \<le> polynomialCount code \<and> polynomialCount code \<le> 4 \<and> polynomialCount code \<le> length (polynomials code) \<and>
     (\<forall>j<polynomialCount code. polynomials code ! j \<noteq> 0 \<and>
       (\<forall>i. bit (polynomials code ! j) i \<longrightarrow> i < constraintLength code))"

lemma configureCode_ok:
  assumes "configureCode len generators inversion = (code, True)"
  shows "codeOk code" "constraintLength code = len" "polynomialCount code = length generators"
proof -
  have range: "3 \<le> len" "len \<le> 9" "2 \<le> length generators" "length generators \<le> 4" "generatorsAccepted len generators"
    and code: "code = \<lparr>constraintLength = len, polynomialCount = length generators,
        polynomials = generators @ drop (length generators) (polynomials noCode), outputInversion = inversion\<rparr>"
    using assms
    by (auto simp: configureCode_def kConvMinConstraintLength_def kConvMaxConstraintLength_def kConvMinPolynomials_def
        kConvMaxPolynomials_def not_less split: if_splits)
  have "generators ! j \<noteq> 0 \<and> (\<forall>i. bit (generators ! j) i \<longrightarrow> i < len)" if "j < length generators" for j
  proof -
    have "generators ! j \<noteq> 0" "\<not> generators ! j \<ge> push_bit len 1"
      using range(5) that by (auto simp: generatorsAccepted_def list_all_iff)
    moreover have "(2 :: nat) ^ len < 2 ^ 32" using range(2) by (intro power_strict_increasing) simp_all
    then have "unat (push_bit len 1 :: u32) = 2 ^ len"
      using range(2) unfolding unsigned_push_bit_eq by (simp add: push_bit_of_1 take_bit_nat_eq_self)
    then have "unat (generators ! j) < 2 ^ len"
      using calculation(2) unfolding not_le word_less_nat_alt by simp
    ultimately show ?thesis using bits_below [of "generators ! j" len] by blast
  qed
  then show "codeOk code" using range unfolding codeOk_def code by (simp add: nth_append)
  show "constraintLength code = len" "polynomialCount code = length generators" unfolding code by simp_all
qed

lemma states_eq: "codeOk code \<Longrightarrow> states code = 2 ^ (constraintLength code - 1)"
  by (auto simp: codeOk_def states_def codeConfigured_def)

lemma states_half:
  assumes "codeOk code"
  shows "states code = 2 * 2 ^ (constraintLength code - 2)" "states code div 2 = 2 ^ (constraintLength code - 2)"
    "states code \<le> 256"
proof -
  have "3 \<le> constraintLength code" using assms by (simp add: codeOk_def)
  then have "constraintLength code - 1 = Suc (constraintLength code - 2)" by simp
  then show eq: "states code = 2 * 2 ^ (constraintLength code - 2)" using states_eq [OF assms] by simp
  then show "states code div 2 = 2 ^ (constraintLength code - 2)" by simp
  have "constraintLength code \<le> 9" using assms by (simp add: codeOk_def)
  then have "(2::nat) ^ (constraintLength code - 1) \<le> 2 ^ 8" by (intro power_increasing) simp_all
  then show "states code \<le> 256" using states_eq [OF assms] by simp
qed

lemma bit_branch:
  assumes "codeOk code"
  shows "bit (convolutionalBranch code state input) j \<longleftrightarrow> j < polynomialCount code \<and>
    (odd (popcount (polynomials code ! j AND (push_bit 1 state OR (input AND 1)))) \<noteq> bit (outputInversion code) j)"
proof -
  let ?w = "push_bit 1 state OR (input AND 1)"
  have n: "polynomialCount code \<le> 4" using assms by (simp add: codeOk_def)
  have one: "word_of_nat m AND 1 = (of_bool (odd m) :: u32)" for m :: nat
    by (simp add: and_one_eq flip: of_nat_mod)  (simp add: mod2_eq_if)
  have fold: "bit (fold (\<lambda>j coded. coded OR push_bit j (word_of_nat (popcount (polynomials code ! j AND ?w)) AND 1)) [0..<n] (0 :: u32)) i
      \<longleftrightarrow> i < n \<and> odd (popcount (polynomials code ! i AND ?w))" if "n \<le> 32" for n i
    using that
  proof (induction n)
    case (Suc n)
    have "bit (push_bit n (of_bool b) :: u32) i \<longleftrightarrow> i = n \<and> b" for b
      using Suc.prems by (auto simp: bit_push_bit_iff of_bool_def bit_1_iff)
    then show ?case using Suc by (auto simp: bit_or_iff one less_Suc_eq)
  qed simp
  have "bit (push_bit (polynomialCount code) 1 - 1 :: u32) j \<longleftrightarrow> j < polynomialCount code"
    using n unfolding bit_mask_word by auto
  then show ?thesis
    using n fold [of "polynomialCount code" j] unfolding convolutionalBranch_def Let_def bit_xor_iff bit_and_iff by auto
qed

lemma branch_bound: "codeOk code \<Longrightarrow> unat (convolutionalBranch code state input) < 2 ^ polynomialCount code"
proof -
  assume ok: "codeOk code"
  have "take_bit (polynomialCount code) (convolutionalBranch code state input) = convolutionalBranch code state input"
    by (rule bit_word_eqI) (auto simp: bit_take_bit_iff bit_branch [OF ok])
  then show ?thesis
    using take_bit_nat_less_exp [of "polynomialCount code" "unat (convolutionalBranch code state input)"]
    by (metis unsigned_take_bit_eq)
qed

subsection \<open>Paths through the trellis\<close>

definition pathState :: "ConvolutionalCode \<Rightarrow> nat \<Rightarrow> nat list \<Rightarrow> nat" where
  "pathState code s us = foldl (\<lambda>s u. (2 * s + u) mod states code) s us"

definition branchWord :: "ConvolutionalCode \<Rightarrow> nat \<Rightarrow> nat \<Rightarrow> u32" where
  "branchWord code s u = convolutionalBranch code (of_nat s) (of_nat u)"

text \<open>The branch word a path emits at step \<open>i\<close>, and its cost under a metric per step and word.\<close>

definition pathWord :: "ConvolutionalCode \<Rightarrow> nat \<Rightarrow> nat list \<Rightarrow> nat \<Rightarrow> u32" where
  "pathWord code s us i = branchWord code (pathState code s (take i us)) (us ! i)"

definition pathCost :: "(nat \<Rightarrow> u32 \<Rightarrow> 'm::linordered_ab_group_add) \<Rightarrow> ConvolutionalCode \<Rightarrow> nat \<Rightarrow> nat list \<Rightarrow> 'm" where
  "pathCost c code s us = (\<Sum>i<length us. c i (pathWord code s us i))"

lemma pathState_simps [simp]:
  "pathState code s [] = s" "pathState code s (us @ [u]) = (2 * pathState code s us + u) mod states code"
  by (simp_all add: pathState_def)

lemma pathWord_snoc:
  "i < length us \<Longrightarrow> pathWord code s (us @ [u]) i = pathWord code s us i"
  "pathWord code s (us @ [u]) (length us) = branchWord code (pathState code s us) u"
  by (simp_all add: pathWord_def nth_append)

lemma pathCost_snoc:
  "pathCost c code s (us @ [u]) = pathCost c code s us + c (length us) (branchWord code (pathState code s us) u)"
  by (simp add: pathCost_def pathWord_snoc)

lemma pathCost_Nil [simp]: "pathCost c code s [] = 0"
  by (simp add: pathCost_def)

lemma pathState_less: "codeOk code \<Longrightarrow> s < states code \<Longrightarrow> pathState code s us < states code"
  by (cases us rule: rev_cases) (simp_all add: states_eq)

text \<open>The two predecessors of a state, and the input that leads from either of them to it.\<close>

lemma predecessors:
  assumes "codeOk code" "s < states code"
  shows "s div 2 < states code" "(s div 2 OR (states code div 2)) = s div 2 + states code div 2"
    "s div 2 + states code div 2 < states code"
    "(2 * (s div 2) + s mod 2) mod states code = s" "(2 * (s div 2 + states code div 2) + s mod 2) mod states code = s"
proof -
  let ?h = "(2::nat) ^ (constraintLength code - 2)"
  note S = states_half(1,2) [OF assms(1)]
  have lower: "s div 2 < ?h" using assms(2) S by simp
  show "s div 2 < states code" "s div 2 + states code div 2 < states code" using lower S by simp_all
  have "s div 2 OR ?h = s div 2 + ?h"
  proof (rule disjunctive_add [symmetric])
    fix i
    have "\<not> bit (s div 2) (constraintLength code - 2)" using lower by (simp add: bit_iff_odd)
    then show "\<not> bit (s div 2) i \<or> \<not> bit ?h i" by (auto simp: bit_exp_iff)
  qed
  then show "(s div 2 OR (states code div 2)) = s div 2 + states code div 2" using S by simp
  have "2 * (s div 2) + s mod 2 = s" by simp
  then show "(2 * (s div 2) + s mod 2) mod states code = s" using assms(2) by simp
  have "2 * (s div 2 + states code div 2) + s mod 2 = s + states code" using S by simp
  then show "(2 * (s div 2 + states code div 2) + s mod 2) mod states code = s" using assms(2) by simp
qed

lemma successor_unique:
  assumes "codeOk code" "p < states code" "u < 2" "(2 * p + u) mod states code = s"
  shows "u = s mod 2" "p = s div 2 \<or> p = s div 2 + states code div 2"
proof -
  let ?h = "states code div 2"
  have S: "states code = 2 * ?h" using states_half(1,2) [OF assms(1)] by simp
  have "2 * p + u < 2 * states code" using assms(2,3) by simp
  then consider "2 * p + u < states code" "s = 2 * p + u" | "states code \<le> 2 * p + u" "s + states code = 2 * p + u"
    using assms(4) by (metis le_mod_geq mod_less not_less add.commute le_add_diff_inverse less_diff_conv2 mult_2)
  then show "u = s mod 2" "p = s div 2 \<or> p = s div 2 + ?h"
  proof (atomize (full), cases)
    case 1
    then show "u = s mod 2 \<and> (p = s div 2 \<or> p = s div 2 + ?h)" using assms(3) by auto
  next
    case 2
    then have "s = 2 * (p - ?h) + u" "?h \<le> p" using S assms(3) by linarith+
    then show "u = s mod 2 \<and> (p = s div 2 \<or> p = s div 2 + ?h)" using assms(3) by auto
  qed
qed


subsection \<open>One step of the trellis\<close>

text \<open>A configured decoder, whatever it has decoded before.\<close>

definition ready :: "'m::linordered_ab_group_add ViterbiDecoder \<Rightarrow> bool" where
  "ready d \<longleftrightarrow> codeOk (vcode d) \<and> vstates d = states (vcode d) \<and> vhalf d = states (vcode d) div 2 \<and>
     voutputs d = map (\<lambda>i. branchWord (vcode d) (i div 2) (i mod 2)) [0..<2 * states (vcode d)] \<and>
     length (vmetric d) = states (vcode d) \<and> length (vnext d) = states (vcode d) \<and>
     (\<forall>s. vinitial d = Some s \<longrightarrow> unat s < states (vcode d))"

lemma configureDecoder_ready:
  assumes "configureDecoder d0 code termination initial = (d, True)" "codeOk code"
  shows "ready d" "vcode d = code" "vtermination d = termination"
  using assms
  by (auto simp: configureDecoder_def ready_def branchWord_def Let_def not_le split: if_splits option.splits)

lemma voutputs_nth: "ready d \<Longrightarrow> s < states (vcode d) \<Longrightarrow> u < 2 \<Longrightarrow> voutputs d ! (2 * s + u) = branchWord (vcode d) s u"
  by (auto simp: ready_def less_2_cases_iff)

definition fromLower :: "'m::linordered_ab_group_add ViterbiDecoder \<Rightarrow> 'm list \<Rightarrow> nat \<Rightarrow> 'm PathMetric" where
  "fromLower d cost s = addCost (vmetric d ! (s div 2)) (cost ! unat (branchWord (vcode d) (s div 2) (s mod 2)))"

definition fromUpper :: "'m::linordered_ab_group_add ViterbiDecoder \<Rightarrow> 'm list \<Rightarrow> nat \<Rightarrow> 'm PathMetric" where
  "fromUpper d cost s =
     addCost (vmetric d ! (s div 2 + vhalf d)) (cost ! unat (branchWord (vcode d) (s div 2 + vhalf d) (s mod 2)))"

lemma survivor:
  fixes a b :: "'m::linordered_ab_group_add PathMetric"
  shows "(if better a b then a else b) = min a b" "(if better a b then 1 else 0) = (of_bool (a < b) :: u8)"
  by (auto simp: min_def simp flip: less_PathMetric_def)

lemma trellisState_ready:
  assumes "ready d" "s < states (vcode d)"
  shows "trellisState cost base s d =
    d\<lparr>vnext := (vnext d)[s := min (fromUpper d cost s) (fromLower d cost s)],
      vtraceback := (vtraceback d)[base + s := of_bool (fromUpper d cost s < fromLower d cost s)]\<rparr>"
proof -
  have ok: "codeOk (vcode d)" and half: "vhalf d = states (vcode d) div 2" using assms(1) by (simp_all add: ready_def)
  note pre = predecessors [OF ok assms(2)]
  have upper: "s div 2 OR vhalf d = s div 2 + vhalf d" using pre(2) half by simp
  have "voutputs d ! (2 * (s div 2) + s mod 2) = branchWord (vcode d) (s div 2) (s mod 2)"
    "voutputs d ! (2 * (s div 2 + vhalf d) + s mod 2) = branchWord (vcode d) (s div 2 + vhalf d) (s mod 2)"
    using voutputs_nth [OF assms(1) pre(1), of "s mod 2"] voutputs_nth [OF assms(1), of "s div 2 + vhalf d" "s mod 2"] pre(3) half
    by simp_all
  note outputs = this
  show ?thesis
    unfolding trellisState_def Let_def upper outputs fromUpper_def fromLower_def survivor ..
qed

lemma trellisStates:
  assumes "ready d" "m \<le> states (vcode d)"
  shows "fold (trellisState cost base) [0..<m] d =
    d\<lparr>vnext := fold (\<lambda>s xs. xs[s := min (fromUpper d cost s) (fromLower d cost s)]) [0..<m] (vnext d),
      vtraceback := fold (\<lambda>s xs. xs[base + s := of_bool (fromUpper d cost s < fromLower d cost s)]) [0..<m] (vtraceback d)\<rparr>"
  using assms(2)
proof (induction m)
  case (Suc m)
  let ?d = "d\<lparr>vnext := fold (\<lambda>s xs. xs[s := min (fromUpper d cost s) (fromLower d cost s)]) [0..<m] (vnext d),
      vtraceback := fold (\<lambda>s xs. xs[base + s := of_bool (fromUpper d cost s < fromLower d cost s)]) [0..<m] (vtraceback d)\<rparr>"
  have "ready ?d"
    using assms(1) length_fold_update [of 0 "\<lambda>s. min (fromUpper d cost s) (fromLower d cost s)" "[0..<m]" "vnext d"]
    by (simp add: ready_def)
  then have "trellisState cost base m ?d =
      ?d\<lparr>vnext := (vnext ?d)[m := min (fromUpper d cost m) (fromLower d cost m)],
         vtraceback := (vtraceback ?d)[base + m := of_bool (fromUpper d cost m < fromLower d cost m)]\<rparr>"
    using trellisState_ready [of ?d m cost base] Suc.prems by (simp add: fromUpper_def fromLower_def)
  then show ?case using Suc by simp
qed simp

text \<open>After a step every state holds the better of its two candidates and the flag of the one taken.\<close>

lemma trellisStep_ready:
  fixes costs :: "nat \<Rightarrow> 'm::linordered_ab_group_add list"
  assumes "ready d" "vstates d * Suc t \<le> length (vtraceback d)"
  defines "d' \<equiv> trellisStep costs t d"
  shows "ready d'" "vcode d' = vcode d" "vtermination d' = vtermination d" "vinitial d' = vinitial d" "vwords d' = vwords d"
    "length (vtraceback d') = length (vtraceback d)" "voutputs d' = voutputs d" "vhalf d' = vhalf d" "vstates d' = vstates d"
    "\<And>s. s < states (vcode d) \<Longrightarrow> vmetric d' ! s = min (fromUpper d (costs t) s) (fromLower d (costs t) s)"
    "\<And>s. s < states (vcode d) \<Longrightarrow>
      vtraceback d' ! (t * vstates d + s) = of_bool (fromUpper d (costs t) s < fromLower d (costs t) s)"
    "\<And>k. k < t * vstates d \<Longrightarrow> vtraceback d' ! k = vtraceback d ! k"
proof -
  let ?f = "\<lambda>s. min (fromUpper d (costs t) s) (fromLower d (costs t) s)"
  let ?g = "\<lambda>s. of_bool (fromUpper d (costs t) s < fromLower d (costs t) s) :: u8"
  have S: "vstates d = states (vcode d)" "length (vnext d) = states (vcode d)" using assms(1) by (simp_all add: ready_def)
  have d': "d' = d\<lparr>vmetric := fold (\<lambda>s xs. xs[s := ?f s]) [0..<states (vcode d)] (vnext d), vnext := vmetric d,
      vtraceback := fold (\<lambda>s xs. xs[t * vstates d + s := ?g s]) [0..<states (vcode d)] (vtraceback d)\<rparr>"
    unfolding d'_def trellisStep_def Let_def using trellisStates [OF assms(1), of "states (vcode d)" "costs t" "t * vstates d"] S
    by simp
  have len: "length (fold (\<lambda>s xs. xs[s := ?f s]) [0..<states (vcode d)] (vnext d)) = states (vcode d)"
    using length_fold_update [of 0 ?f "[0..<states (vcode d)]" "vnext d"] S by simp
  show "ready d'" using assms(1) len unfolding d' by (simp add: ready_def)
  show "vcode d' = vcode d" "vtermination d' = vtermination d" "vinitial d' = vinitial d" "vwords d' = vwords d"
    "length (vtraceback d') = length (vtraceback d)" "voutputs d' = voutputs d" "vhalf d' = vhalf d" "vstates d' = vstates d"
    unfolding d' by simp_all
  show "vmetric d' ! s = ?f s" if "s < states (vcode d)" for s
    unfolding d' using that S fold_update_nth_0 [of s "vnext d" ?f "states (vcode d)"] by simp
  show "vtraceback d' ! (t * vstates d + s) = ?g s" if "s < states (vcode d)" for s
    unfolding d' using that S assms(2) fold_update_nth [of "t * vstates d + s" "vtraceback d" "t * vstates d" ?g "states (vcode d)"]
    by (simp add: mult.commute)
  show "vtraceback d' ! k = vtraceback d ! k" if "k < t * vstates d" for k
    unfolding d' using that assms(2) fold_update_nth [of k "vtraceback d" "t * vstates d" ?g "states (vcode d)"]
    by (simp add: mult.commute)
qed


subsection \<open>The survivors are optimal paths\<close>

fun tracePath :: "nat \<Rightarrow> nat \<Rightarrow> u8 list \<Rightarrow> nat \<Rightarrow> nat \<Rightarrow> nat \<times> nat list" where
  "tracePath S h tb 0 s = (s, [])"
| "tracePath S h tb (Suc t) s =
     (let (s0, us) = tracePath S h tb t (s div 2 + (if tb ! (t * S + s) \<noteq> 0 then h else 0)) in (s0, us @ [s mod 2]))"

lemma tracePath_cong:
  assumes "\<And>k. k < t * S \<Longrightarrow> tb ! k = tb' ! k" "s < S" "\<And>s. s < S \<Longrightarrow> s div 2 + h < S"
  shows "tracePath S h tb t s = tracePath S h tb' t s"
  using assms(1,2)
proof (induction t arbitrary: s)
  case (Suc t)
  have "t * S + s < Suc t * S" using Suc.prems(2) by simp
  then have flag: "tb ! (t * S + s) = tb' ! (t * S + s)" by (rule Suc.prems(1))
  have "s div 2 + (if tb' ! (t * S + s) \<noteq> 0 then h else 0) < S" using assms(3) [OF Suc.prems(2)] Suc.prems(2) by auto
  moreover have "tb ! k = tb' ! k" if "k < t * S" for k using Suc.prems(1) [of k] that by simp
  ultimately show ?case using Suc.IH flag by simp
qed simp

definition trellis ::
    "(nat \<Rightarrow> 'm::linordered_ab_group_add list) \<Rightarrow> 'm ViterbiDecoder \<Rightarrow> nat \<Rightarrow> 'm ViterbiDecoder" where
  "trellis costs d t = fold (trellisStep costs) [0..<t] (d\<lparr>vmetric := startMetrics d\<rparr>)"

lemma trellis_simps:
  "trellis costs d 0 = d\<lparr>vmetric := startMetrics d\<rparr>" "trellis costs d (Suc t) = trellisStep costs t (trellis costs d t)"
  by (simp_all add: trellis_def)

abbreviation wordCost :: "(nat \<Rightarrow> 'm list) \<Rightarrow> nat \<Rightarrow> u32 \<Rightarrow> 'm" where
  "wordCost costs \<equiv> \<lambda>i w. costs i ! unat w"

definition bitPath :: "nat \<Rightarrow> nat list \<Rightarrow> bool" where
  "bitPath t us \<longleftrightarrow> length us = t \<and> set us \<subseteq> {0, 1}"

lemma bitPath_snoc: "bitPath (Suc t) us \<longleftrightarrow> (\<exists>vs u. us = vs @ [u] \<and> bitPath t vs \<and> u < 2)"
  by (cases us rule: rev_cases) (auto simp: bitPath_def less_2_cases_iff)

lemma trellis_fields:
  fixes costs :: "nat \<Rightarrow> 'm::linordered_ab_group_add list"
  assumes "ready d" "vstates d * t \<le> length (vtraceback d)"
  shows "ready (trellis costs d t) \<and> vcode (trellis costs d t) = vcode d \<and> vtermination (trellis costs d t) = vtermination d \<and>
    vinitial (trellis costs d t) = vinitial d \<and> vwords (trellis costs d t) = vwords d \<and> voutputs (trellis costs d t) = voutputs d \<and>
    vhalf (trellis costs d t) = vhalf d \<and> vstates (trellis costs d t) = vstates d \<and>
    length (vtraceback (trellis costs d t)) = length (vtraceback d)"
  using assms(2)
proof (induction t)
  case 0
  then show ?case using assms(1) by (auto simp: trellis_simps ready_def startMetrics_def split: option.splits)
next
  case (Suc t)
  then have IH: "ready (trellis costs d t)" "vstates (trellis costs d t) * Suc t \<le> length (vtraceback (trellis costs d t))"
    "vcode (trellis costs d t) = vcode d" "vtermination (trellis costs d t) = vtermination d"
    "vinitial (trellis costs d t) = vinitial d" "vwords (trellis costs d t) = vwords d" "voutputs (trellis costs d t) = voutputs d"
    "vhalf (trellis costs d t) = vhalf d" "vstates (trellis costs d t) = vstates d"
    "length (vtraceback (trellis costs d t)) = length (vtraceback d)"
    by simp_all
  show ?case using trellisStep_ready(1-9) [OF IH(1,2), of costs] IH unfolding trellis_simps by simp
qed

lemma trellis_optimal:
  fixes costs :: "nat \<Rightarrow> 'm::linordered_ab_group_add list"
  assumes d: "ready d" and room: "vstates d * t \<le> length (vtraceback d)"
  defines "S \<equiv> states (vcode d)"
  shows "s < S \<Longrightarrow> s0 < S \<Longrightarrow> bitPath t us \<Longrightarrow> pathState (vcode d) s0 us = s \<Longrightarrow>
      vmetric (trellis costs d t) ! s \<le> addCost (startMetrics d ! s0) (pathCost (wordCost costs) (vcode d) s0 us)"
    and "s < S \<Longrightarrow> tracePath S (vhalf d) (vtraceback (trellis costs d t)) t s = (p0, ps) \<Longrightarrow>
      p0 < S \<and> bitPath t ps \<and> pathState (vcode d) p0 ps = s \<and>
      vmetric (trellis costs d t) ! s = addCost (startMetrics d ! p0) (pathCost (wordCost costs) (vcode d) p0 ps)"
  using room
proof (induction t arbitrary: s us p0 ps)
  case 0
  {
    case 1
    then show ?case by (simp add: bitPath_def trellis_simps)
  next
    case 2
    then show ?case by (simp add: bitPath_def trellis_simps)
  }
next
  case (Suc t)
  have ok: "codeOk (vcode d)" and half: "vhalf d = S div 2" "vstates d = S" using d by (simp_all add: ready_def S_def)
  let ?D = "trellis costs d t" and ?D' = "trellis costs d (Suc t)"
  have room: "vstates d * t \<le> length (vtraceback d)" if "vstates d * Suc t \<le> length (vtraceback d)" using that by simp
  {
    case 1
    obtain vs u where us: "us = vs @ [u]" "bitPath t vs" "u < 2" using 1(3) unfolding bitPath_snoc by blast
    let ?p = "pathState (vcode d) s0 vs"
    have p: "?p < S" using pathState_less [OF ok] 1(2) by (simp add: S_def)
    have step: "(2 * ?p + u) mod S = s" using 1(4) us(1) by (simp add: S_def)
    have IH: "vmetric ?D ! ?p \<le> addCost (startMetrics d ! s0) (pathCost (wordCost costs) (vcode d) s0 vs)"
      using Suc.IH(1) [OF p 1(2) us(2) refl room [OF 1(5)]] .
    note fields = trellis_fields [OF d room [OF 1(5)], of costs]
    have new: "vmetric ?D' ! s = min (fromUpper ?D (costs t) s) (fromLower ?D (costs t) s)"
      using trellisStep_ready(10) [of ?D t s costs] fields 1(1,5) unfolding trellis_simps S_def by simp
    have "u = s mod 2" "?p = s div 2 \<or> ?p = s div 2 + S div 2"
      using successor_unique [OF ok _ us(3)] p step unfolding S_def by blast+
    then have "vmetric ?D' ! s \<le> addCost (vmetric ?D ! ?p) (costs t ! unat (branchWord (vcode d) ?p u))"
      unfolding new using fields half by (auto simp: fromUpper_def fromLower_def)
    also have "\<dots> \<le> addCost (addCost (startMetrics d ! s0) (pathCost (wordCost costs) (vcode d) s0 vs))
        (costs t ! unat (branchWord (vcode d) ?p u))"
      by (rule addCost_mono [OF IH])
    also have "\<dots> = addCost (startMetrics d ! s0) (pathCost (wordCost costs) (vcode d) s0 us)"
      using us(2) unfolding us(1) pathCost_snoc by (simp add: bitPath_def)
    finally show ?case .
  next
    case 2
    note fields = trellis_fields [OF d room [OF 2(3)], of costs]
    have ready: "ready ?D" "vstates ?D * Suc t \<le> length (vtraceback ?D)" using fields 2(3) by simp_all
    have S: "s < states (vcode ?D)" using 2(1) fields by (simp add: S_def)
    note step = trellisStep_ready [OF ready, where costs = costs, folded trellis_simps]
    let ?up = "fromUpper ?D (costs t) s" and ?lo = "fromLower ?D (costs t) s"
    define p where "p = s div 2 + (if ?up < ?lo then S div 2 else 0)"
    have flag: "vtraceback ?D' ! (t * S + s) = of_bool (?up < ?lo)" using step(11) [OF S] fields half by simp
    obtain q0 qs where q: "tracePath S (vhalf d) (vtraceback ?D') t p = (q0, qs)" by (cases "tracePath S (vhalf d) (vtraceback ?D') t p")
    have ps: "p0 = q0" "ps = qs @ [s mod 2]"
      using 2(2) q flag half unfolding p_def by (auto split: if_splits)
    note pre = predecessors [OF ok 2(1) [unfolded S_def]]
    have p: "p < S" using pre(1,3) by (simp add: p_def S_def)
    have "tracePath S (vhalf d) (vtraceback ?D) t p = tracePath S (vhalf d) (vtraceback ?D') t p"
      by (rule tracePath_cong [OF _ p])
        (use step(12) fields half predecessors(3) [OF ok] in \<open>auto simp: S_def\<close>)
    then have "tracePath S (vhalf d) (vtraceback ?D) t p = (q0, qs)" using q by simp
    note IH = Suc.IH(2) [OF p this room [OF 2(3)]]
    have state: "(2 * p + s mod 2) mod S = s" using pre(4,5) by (simp add: p_def S_def)
    have "vmetric ?D' ! s = min ?up ?lo" by (rule step(10) [OF S])
    also have "\<dots> = addCost (vmetric ?D ! p) (costs t ! unat (branchWord (vcode d) p (s mod 2)))"
      using fields half by (auto simp: p_def fromUpper_def fromLower_def min_def)
    finally show ?case
      using IH ps state unfolding S_def by (auto simp: bitPath_def pathCost_snoc)
  }
qed


subsection \<open>The traceback reads the survivor\<close>

lemma tracePath_path:
  assumes "codeOk code"
  shows "s < states code \<Longrightarrow> tracePath (states code) (states code div 2) tb t s = (p0, us) \<Longrightarrow>
    p0 < states code \<and> bitPath t us \<and> pathState code p0 us = s"
proof (induction t arbitrary: s p0 us)
  case 0
  then show ?case by (simp add: bitPath_def)
next
  case (Suc t)
  note pre = predecessors [OF assms Suc.prems(1)]
  define p where "p = s div 2 + (if tb ! (t * states code + s) \<noteq> 0 then states code div 2 else 0)"
  have p: "p < states code" "(2 * p + s mod 2) mod states code = s" using pre by (auto simp: p_def)
  obtain q0 qs where q: "tracePath (states code) (states code div 2) tb t p = (q0, qs)"
    by (cases "tracePath (states code) (states code div 2) tb t p")
  then have "p0 = q0" "us = qs @ [s mod 2]" using Suc.prems(2) by (simp_all add: p_def)
  then show ?case using Suc.IH [OF p(1) q] p(2) by (auto simp: bitPath_def)
qed

definition wordDistance :: "ConvolutionalCode \<Rightarrow> u32 list \<Rightarrow> nat \<Rightarrow> nat list \<Rightarrow> nat" where
  "wordDistance code words s us = (\<Sum>i<length us. popcount (pathWord code s us i XOR words ! i))"

lemma wordDistance_snoc:
  "wordDistance code words s (us @ [u]) =
     wordDistance code words s us + popcount (branchWord code (pathState code s us) u XOR words ! length us)"
  by (simp add: wordDistance_def pathWord_snoc)

lemma traceback_fold:
  assumes d: "ready d"
  shows "s < states (vcode d) \<Longrightarrow> tracePath (states (vcode d)) (vhalf d) (vtraceback d) t s = (p0, us) \<Longrightarrow>
    fold (tracebackStep d) (rev [0..<t]) (s, dist, info) =
      (p0, dist + wordDistance (vcode d) (vwords d) p0 us,
       map (\<lambda>i. if i < t then of_nat (us ! i) else info ! i) [0..<length info])"
proof (induction t arbitrary: s p0 us dist info)
  case 0
  then show ?case by (simp add: wordDistance_def map_nth)
next
  case (Suc t)
  let ?code = "vcode d" and ?S = "states (vcode d)"
  have ok: "codeOk ?code" and half: "vhalf d = ?S div 2" "vstates d = ?S" using d by (simp_all add: ready_def)
  note pre = predecessors [OF ok Suc.prems(1)]
  define p where "p = s div 2 + (if vtraceback d ! (t * ?S + s) \<noteq> 0 then vhalf d else 0)"
  have p: "p < ?S" using pre half by (auto simp: p_def)
  obtain q0 qs where q: "tracePath ?S (vhalf d) (vtraceback d) t p = (q0, qs)"
    by (cases "tracePath ?S (vhalf d) (vtraceback d) t p")
  then have us: "p0 = q0" "us = qs @ [s mod 2]" using Suc.prems(2) by (simp_all add: p_def)
  have path: "bitPath t qs" "pathState ?code q0 qs = p" using tracePath_path [OF ok p q [unfolded half(1)]] by simp_all
  have previous: "s div 2 OR (if vtraceback d ! (t * vstates d + s) \<noteq> 0 then vhalf d else 0) = p"
    using pre(2) half by (simp add: p_def)
  let ?info = "if t < length info then info[t := of_nat (s mod 2)] else info"
  have "tracebackStep d t (s, dist, info) = (p, dist + popcount (branchWord ?code p (s mod 2) XOR vwords d ! t), ?info)"
    using voutputs_nth [OF d p, of "s mod 2"] unfolding tracebackStep_def Let_def prod.case previous by simp
  then have "fold (tracebackStep d) (rev [0..<Suc t]) (s, dist, info) =
      (q0, dist + popcount (branchWord ?code p (s mod 2) XOR vwords d ! t) + wordDistance ?code (vwords d) q0 qs,
       map (\<lambda>i. if i < t then of_nat (qs ! i) else ?info ! i) [0..<length info])"
    using Suc.IH [OF p q] by simp
  moreover have "map (\<lambda>i. if i < t then of_nat (qs ! i) else ?info ! i) [0..<length info] =
      (map (\<lambda>i. if i < Suc t then of_nat (us ! i) else info ! i) [0..<length info] :: u8 list)"
    using path(1) by (intro map_cong refl) (auto simp: us(2) bitPath_def nth_append less_Suc_eq)
  moreover have "length qs = t" using path(1) by (simp add: bitPath_def)
  ultimately show ?case by (simp add: us wordDistance_snoc path(2) del: upt_Suc)
qed

subsection \<open>The hard decoder\<close>

lemma hardCosts_nth:
  "unat w < 2 ^ n \<Longrightarrow> n \<le> 4 \<Longrightarrow> hardCosts n word ! unat w = int (popcount (w XOR word))"
  by (simp add: hardCosts_def)

lemma grown_length [simp]: "length (grown n xs) = max n (length xs)"
  by (auto simp: grown_def)

lemma hardCost_distance:
  assumes "codeOk code" "bitPath t us" "t \<le> length words"
  shows "pathCost (wordCost (\<lambda>i. hardCosts (polynomialCount code) (words ! i))) code s us = int (wordDistance code words s us)"
proof -
  have n: "polynomialCount code \<le> 4" using assms(1) by (simp add: codeOk_def)
  show ?thesis
    unfolding pathCost_def wordDistance_def of_nat_sum
    by (rule sum.cong [OF refl]) (simp add: hardCosts_nth n branch_bound [OF assms(1)] pathWord_def branchWord_def)
qed

lemma minElement_least:
  assumes "xs \<noteq> []"
  shows "minElement xs < length xs" "\<And>i. i < length xs \<Longrightarrow> xs ! minElement xs \<le> xs ! i"
proof -
  have "fold (\<lambda>i best. if better (xs ! i) (xs ! best) then i else best) [1..<m] 0 < m \<and>
      (\<forall>i<m. xs ! fold (\<lambda>i best. if better (xs ! i) (xs ! best) then i else best) [1..<m] 0 \<le> xs ! i)"
    if "1 \<le> m" "m \<le> length xs" for m
    using that
  proof (induction m rule: nat_induct_at_least)
    case (Suc m)
    let ?b = "fold (\<lambda>i best. if better (xs ! i) (xs ! best) then i else best) [1..<m] 0"
    have "?b < m" "\<forall>i<m. xs ! ?b \<le> xs ! i" using Suc by simp_all
    then show ?case using Suc.hyps by (auto simp: less_Suc_eq simp flip: less_PathMetric_def)
  qed simp
  from this [of "length xs"] show "minElement xs < length xs" "\<And>i. i < length xs \<Longrightarrow> xs ! minElement xs \<le> xs ! i"
    using assms by (simp_all add: minElement_def Suc_le_eq)
qed


definition startsAt :: "'m::linordered_ab_group_add ViterbiDecoder \<Rightarrow> nat \<Rightarrow> bool" where
  "startsAt d s \<longleftrightarrow> s < states (vcode d) \<and>
     (if vtermination d = Terminated then s = 0 else (\<forall>s'. vinitial d = Some s' \<longrightarrow> s = unat s'))"

lemma startMetrics_nth:
  assumes "ready d" "s < states (vcode d)"
  shows "startMetrics d ! s = (if startsAt d s then Reached 0 else Unreachable)"
  using assms by (auto simp: startMetrics_def startsAt_def ready_def nth_list_update split: option.splits)

lemma startsAt_some: "ready d \<Longrightarrow> \<exists>s. startsAt d s"
  by (rule exI [of _ "if vtermination d = Terminated then 0 else (case vinitial d of None \<Rightarrow> 0 | Some s \<Rightarrow> unat s)"])
    (auto simp: startsAt_def ready_def states_eq split: option.splits)

lemma zeros_path:
  "codeOk code \<Longrightarrow> bitPath t (replicate t 0) \<and> pathState code 0 (replicate t 0) = 0"
proof (induction t)
  case (Suc t)
  then show ?case by (simp add: bitPath_def replicate_append_same [symmetric] del: replicate_Suc) (simp add: replicate_append_same [symmetric])
qed (simp add: bitPath_def)

text \<open>
  Which paths the transmitter can have taken, and what a run of the trellis followed by the traceback
  answers, for any branch metric.
\<close>

definition admissible :: "'m::linordered_ab_group_add ViterbiDecoder \<Rightarrow> nat \<Rightarrow> nat \<Rightarrow> nat list \<Rightarrow> bool" where
  "admissible d t s us \<longleftrightarrow> startsAt d s \<and> bitPath t us \<and> (vtermination d = Terminated \<longrightarrow> pathState (vcode d) s us = 0)"

lemma runTrellis_optimal:
  fixes costs :: "nat \<Rightarrow> 'm::linordered_ab_group_add list"
  assumes d: "ready d" and room: "vstates d * t \<le> length (vtraceback d)"
    and run: "runTrellis t costs d = (d', metric)"
  obtains p0 ps where "admissible d t p0 ps"
    "metric = Reached (pathCost (wordCost costs) (vcode d) p0 ps)"
    "\<forall>s us. admissible d t s us \<longrightarrow> pathCost (wordCost costs) (vcode d) p0 ps \<le> pathCost (wordCost costs) (vcode d) s us"
    "traceback d' t info = (wordDistance (vcode d) (vwords d) p0 ps, map (\<lambda>i. if i < t then of_nat (ps ! i) else info ! i) [0..<length info])"
    "ready d'" "vcode d' = vcode d" "vtermination d' = vtermination d" "vinitial d' = vinitial d"
proof -
  have ok: "codeOk (vcode d)" and half: "vhalf d = states (vcode d) div 2" "vstates d = states (vcode d)"
    using d by (simp_all add: ready_def)
  have d': "d' = trellis costs d t" and metric: "metric = vmetric d' ! winningState d'"
    using run by (auto simp: runTrellis_def trellis_def Let_def)
  note fields = trellis_fields [OF d room, of costs, folded d']
  let ?w = "winningState d'" and ?cost = "pathCost (wordCost costs) (vcode d)"
  have len: "length (vmetric d') = states (vcode d)" using fields by (simp add: ready_def)
  have pos: "0 < states (vcode d)" using states_eq [OF ok] by simp
  have nonempty: "vmetric d' \<noteq> []" using len pos by auto
  have w: "?w < states (vcode d)"
    using minElement_least(1) [OF nonempty] len pos by (auto simp: winningState_def)
  obtain p0 ps where trace: "tracePath (states (vcode d)) (vhalf d) (vtraceback d') t ?w = (p0, ps)"
    by (cases "tracePath (states (vcode d)) (vhalf d) (vtraceback d') t ?w")
  have traced: "p0 < states (vcode d) \<and> bitPath t ps \<and> pathState (vcode d) p0 ps = ?w \<and>
      vmetric d' ! ?w = addCost (startMetrics d ! p0) (?cost p0 ps)"
    using trellis_optimal(2) [OF d room w, of costs p0 ps] trace by (simp only: d')
  have least: "metric \<le> addCost (startMetrics d ! s) (?cost s us)" if "admissible d t s us" for s us
  proof -
    have s: "s < states (vcode d)" "bitPath t us" using that by (auto simp: admissible_def startsAt_def)
    let ?e = "pathState (vcode d) s us"
    have e: "?e < states (vcode d)" by (rule pathState_less [OF ok s(1)])
    have "metric \<le> vmetric d' ! ?e"
    proof (cases "vtermination d = Terminated")
      case True
      then show ?thesis using that fields by (simp add: metric winningState_def admissible_def)
    next
      case False
      then show ?thesis
        using minElement_least(2) [OF nonempty, of ?e] len e pos fields by (auto simp: metric winningState_def)
    qed
    also have "\<dots> \<le> addCost (startMetrics d ! s) (?cost s us)"
      using trellis_optimal(1) [OF d room e s refl, of costs] by (simp add: d')
    finally show ?thesis .
  qed
  obtain s where s: "startsAt d s" using startsAt_some [OF d] by blast
  have "vtermination d = Terminated \<Longrightarrow> s = 0" using s by (simp add: startsAt_def)
  then have zeros: "admissible d t s (replicate t 0)"
    using s zeros_path [OF ok, of t] by (auto simp: admissible_def)
  have reached: "startMetrics d ! s = Reached 0" if "startsAt d s" for s
    using startMetrics_nth [OF d, of s] that by (simp add: startsAt_def)
  have "metric \<noteq> Unreachable" using least [OF zeros] reached [OF s] by auto
  moreover have attained: "metric = addCost (startMetrics d ! p0) (?cost p0 ps)" using traced by (simp add: metric)
  ultimately have p0: "startsAt d p0" using startMetrics_nth [OF d, of p0] traced by (auto split: if_splits)
  have metric_val: "metric = Reached (?cost p0 ps)" using attained reached [OF p0] by simp
  have "pathState (vcode d) p0 ps = 0" if "vtermination d = Terminated"
    using traced fields that by (simp add: winningState_def)
  then have adm: "admissible d t p0 ps" using traced p0 by (simp add: admissible_def)
  have smallest: "\<forall>s us. admissible d t s us \<longrightarrow> ?cost p0 ps \<le> ?cost s us"
    using least reached by (simp add: metric_val admissible_def)
  have traced_back: "traceback d' t info = (wordDistance (vcode d) (vwords d) p0 ps,
      map (\<lambda>i. if i < t then of_nat (ps ! i) else info ! i) [0..<length info])"
    unfolding traceback_def
    using traceback_fold [of d' ?w t p0 ps 0 info] w trace fields by simp
  show thesis using that [OF adm metric_val smallest traced_back] fields by simp
qed


lemma wordDistance_cong:
  "(\<And>i. i < length us \<Longrightarrow> ws ! i = ws' ! i) \<Longrightarrow> wordDistance code ws s us = wordDistance code ws' s us"
  by (simp add: wordDistance_def)

lemma ready_words [simp]:
  "ready (d\<lparr>vwords := ws\<rparr>) = ready d" "ready (d\<lparr>vtraceback := tb\<rparr>) = ready d"
  "admissible (d\<lparr>vwords := ws\<rparr>) = admissible d" "admissible (d\<lparr>vtraceback := tb\<rparr>) = admissible d"
  by (simp_all add: ready_def admissible_def startsAt_def fun_eq_iff)

text \<open>The words of a received frame, and the decode as the nearest admissible path.\<close>

definition receivedWords :: "ConvolutionalCode \<Rightarrow> u8 list \<Rightarrow> u32 list" where
  "receivedWords code received =
     map (hardWord (polynomialCount code) received) [0..<length received div polynomialCount code]"

lemma carried_steps:
  assumes "codeOk code" "convolutionalInfoBits code codedBits term = k" "k \<noteq> 0"
  shows "k \<le> codedBits div polynomialCount code" "codedBits div polynomialCount code * polynomialCount code = codedBits"
    "term = Terminated \<Longrightarrow> codedBits div polynomialCount code = k + (constraintLength code - 1)"
    "0 < codedBits div polynomialCount code"
proof -
  have n: "0 < polynomialCount code" using assms(1) by (simp add: codeOk_def)
  have multiple: "codedBits \<noteq> 0" "codedBits mod polynomialCount code = 0"
    using assms(2,3) by (auto simp: convolutionalInfoBits_def Let_def split: if_splits)
  then show whole: "codedBits div polynomialCount code * polynomialCount code = codedBits" by auto
  then show pos: "0 < codedBits div polynomialCount code" using multiple by (metis gr0I mult_0)
  show "k \<le> codedBits div polynomialCount code" using assms(2,3) by (auto simp: convolutionalInfoBits_def Let_def split: if_splits)
  show "codedBits div polynomialCount code = k + (constraintLength code - 1)" if "term = Terminated"
    using assms(2,3) that by (auto simp: convolutionalInfoBits_def Let_def split: if_splits)
qed

lemma decodeHard_nearest:
  assumes d: "ready d" and frame: "convolutionalInfoBits (vcode d) (length received) (vtermination d) = length info" "length info \<noteq> 0"
    and decode: "decodeHard d received info = (d', r, info')"
  defines "t \<equiv> length received div polynomialCount (vcode d)"
    and "dist \<equiv> wordDistance (vcode d) (receivedWords (vcode d) received)"
  obtains p0 ps where "admissible d t p0 ps" "distance r = dist p0 ps" "resultMetric r = Reached (int (dist p0 ps))"
    "\<forall>s us. admissible d t s us \<longrightarrow> dist p0 ps \<le> dist s us"
    "info' = map (\<lambda>i. of_nat (ps ! i)) [0..<length info]"
    "ready d'" "vcode d' = vcode d" "vtermination d' = vtermination d" "vinitial d' = vinitial d"
proof -
  let ?code = "vcode d" and ?n = "polynomialCount (vcode d)"
  have ok: "codeOk ?code" using d by (simp add: ready_def)
  note steps = carried_steps [OF ok frame, folded t_def]
  let ?w0 = "grown t (vwords d)"
  define ws where "ws = fold (\<lambda>i words. words[i := hardWord ?n received i]) [0..<t] ?w0"
  define d1 where "d1 = d\<lparr>vtraceback := grown (t * vstates d) (vtraceback d), vwords := ws\<rparr>"
  have ws: "ws ! i = receivedWords ?code received ! i" if "i < t" for i
    using that fold_update_nth_0 [of i ?w0 "hardWord ?n received" t] unfolding ws_def t_def receivedWords_def by simp
  have len: "t \<le> length ws"
    using length_fold_update [of 0 "hardWord ?n received" "[0..<t]" ?w0] unfolding ws_def by simp
  have prepared: "prepare d (length received) (length info) =
      (d\<lparr>vwords := ?w0, vtraceback := grown (t * vstates d) (vtraceback d)\<rparr>, t)"
    using frame by (simp add: prepare_def Let_def t_def)
  obtain d2 metric where run: "runTrellis t (\<lambda>i. hardCosts ?n (ws ! i)) d1 = (d2, metric)"
    by (cases "runTrellis t (\<lambda>i. hardCosts ?n (ws ! i)) d1")
  obtain v out where traced_back: "traceback d2 t info = (v, out)" by (cases "traceback d2 t info")
  have result: "d' = d2" "distance r = v" "resultMetric r = metric" "info' = out"
    using decode run traced_back steps(4) unfolding decodeHard_def prepared
    by (auto simp: Let_def ws_def d1_def)
  have d1: "ready d1" "vstates d1 * t \<le> length (vtraceback d1)" "vcode d1 = ?code"
    "vtermination d1 = vtermination d" "vinitial d1 = vinitial d" "vwords d1 = ws" "admissible d1 = admissible d"
    using d by (simp_all add: d1_def mult.commute)
  obtain p0 ps where opt: "admissible d1 t p0 ps"
    "metric = Reached (pathCost (wordCost (\<lambda>i. hardCosts ?n (ws ! i))) (vcode d1) p0 ps)"
    "\<forall>s us. admissible d1 t s us \<longrightarrow> pathCost (wordCost (\<lambda>i. hardCosts ?n (ws ! i))) (vcode d1) p0 ps \<le>
      pathCost (wordCost (\<lambda>i. hardCosts ?n (ws ! i))) (vcode d1) s us"
    "traceback d2 t info = (wordDistance (vcode d1) (vwords d1) p0 ps,
      map (\<lambda>i. if i < t then of_nat (ps ! i) else info ! i) [0..<length info])"
    "ready d2" "vcode d2 = vcode d1" "vtermination d2 = vtermination d1" "vinitial d2 = vinitial d1"
    by (rule runTrellis_optimal [OF d1(1,2) run, of info])
  have cost: "pathCost (wordCost (\<lambda>i. hardCosts ?n (ws ! i))) ?code s us = int (dist s us)" if "admissible d t s us" for s us
  proof -
    have us: "bitPath t us" using that by (simp add: admissible_def)
    have "wordDistance ?code ws s us = dist s us"
      unfolding dist_def by (rule wordDistance_cong) (use us ws in \<open>simp add: bitPath_def\<close>)
    then show ?thesis using hardCost_distance [OF ok us len] by simp
  qed
  have adm: "admissible d t p0 ps" using opt(1) d1(7) by simp
  have words: "wordDistance ?code ws p0 ps = dist p0 ps"
    unfolding dist_def by (rule wordDistance_cong) (use adm ws in \<open>simp add: bitPath_def admissible_def\<close>)
  have nearest: "\<forall>s us. admissible d t s us \<longrightarrow> dist p0 ps \<le> dist s us"
    using opt(3) cost cost [OF adm] d1(3,7) by auto
  have bits_of_path: "info' = map (\<lambda>i. of_nat (ps ! i)) [0..<length info]"
    using opt(4) traced_back result(4) steps(1) by simp
  have r: "distance r = dist p0 ps" "resultMetric r = Reached (int (dist p0 ps))"
    using opt(2,4) traced_back result(2,3) words d1(3,6) cost [OF adm] by simp_all
  show thesis
    by (rule that [OF adm r nearest bits_of_path]) (use opt(5-8) d1(3-5) result(1) in simp_all)
qed

end
