(* ===== verification/ViterbiProperties.thy ===== *)
theory ViterbiProperties
  imports ConvolutionalProperties
begin

section \<open>Encoded frames and the Viterbi decoder\<close>

text \<open>
  The frame the encoder of \<^verbatim>\<open>fec/Convolutional.hpp\<close> writes, as the branch words of the path its message drives
  through the trellis, the distance between two frames as the distance between two paths, and from the optimality of
  the survivors the two promises of the hard decoder: the message it returns is a nearest one, and a frame received
  without errors returns its message.
\<close>

subsection \<open>The state is the last input bits\<close>

lemma odd_sum_bit: "u < 2 \<Longrightarrow> bit (2 * p + u) (Suc m) \<longleftrightarrow> bit p m" for p u :: nat
  by (simp add: bit_Suc)

lemma bit_pathState:
  assumes "codeOk code"
  shows "set us \<subseteq> {0, 1} \<Longrightarrow> bit (pathState code 0 us) m \<longleftrightarrow>
    m < constraintLength code - 1 \<and> m < length us \<and> us ! (length us - 1 - m) = 1"
proof (induction us arbitrary: m rule: rev_induct)
  case (snoc u us)
  have u: "u < 2" "u = 0 \<or> u = 1" using snoc.prems by auto
  have IH: "bit (pathState code 0 us) m \<longleftrightarrow>
      m < constraintLength code - 1 \<and> m < length us \<and> us ! (length us - 1 - m) = 1" for m
    using snoc by simp
  have "bit (pathState code 0 (us @ [u])) m \<longleftrightarrow> m < constraintLength code - 1 \<and> bit (2 * pathState code 0 us + u) m"
    using states_eq [OF assms] by (simp add: bit_take_bit_iff flip: take_bit_eq_mod)
  also have "\<dots> \<longleftrightarrow> m < constraintLength code - 1 \<and> m < length (us @ [u]) \<and> (us @ [u]) ! (length (us @ [u]) - 1 - m) = 1"
  proof (cases m)
    case 0
    then show ?thesis using u by (auto simp: bit_0)
  next
    case (Suc m')
    then show ?thesis using odd_sum_bit [OF u(1), of "pathState code 0 us" m'] IH [of m'] by (auto simp: nth_append)
  qed
  finally show ?case .
qed simp

lemma pathState_0_less: "codeOk code \<Longrightarrow> pathState code 0 us < states code"
  by (rule pathState_less) (simp_all add: states_eq)

text \<open>The branch window of a step holds the input and the inputs of the steps before it.\<close>

definition window :: "nat list \<Rightarrow> nat \<Rightarrow> nat \<Rightarrow> bool" where
  "window us t i \<longleftrightarrow> i \<le> t \<and> us ! (t - i) = 1"

lemma bit_shifted: "bit (push_bit 1 w OR (v AND 1) :: u32) i \<longleftrightarrow> (if i = 0 then bit v 0 else i < 32 \<and> bit w (i - 1))"
  unfolding bit_or_iff bit_push_bit_iff bit_and_iff bit_1_iff by auto

lemma bit_window:
  assumes "codeOk code" "set us \<subseteq> {0, 1}" "t < length us" "i < constraintLength code"
  shows "bit (push_bit 1 (of_nat (pathState code 0 (take t us))) OR (of_nat (us ! t) AND 1) :: u32) i = window us t i"
proof -
  have K: "constraintLength code \<le> 9" using assms(1) by (simp add: codeOk_def)
  have ut: "us ! t = 0 \<or> us ! t = 1" using assms(2,3) by (metis insert_iff nth_mem singletonD subsetD)
  have before: "set (take t us) \<subseteq> {0, 1}" using assms(2) set_take_subset by fast
  show ?thesis
  proof (cases i)
    case 0
    then show ?thesis using ut unfolding bit_shifted by (auto simp: window_def)
  next
    case (Suc m)
    have "bit (push_bit 1 (of_nat (pathState code 0 (take t us))) OR (of_nat (us ! t) AND 1) :: u32) i
        \<longleftrightarrow> bit (pathState code 0 (take t us)) m"
      using K assms(4) unfolding bit_shifted by (simp add: Suc bit_simps)
    also have "\<dots> \<longleftrightarrow> m < t \<and> us ! (t - Suc m) = 1"
      unfolding bit_pathState [OF assms(1) before] using assms(3,4) Suc by auto
    also have "\<dots> \<longleftrightarrow> window us t i" by (auto simp: window_def Suc)
    finally show ?thesis .
  qed
qed

subsection \<open>Terminated messages\<close>

definition messagePath :: "ConvolutionalCode \<Rightarrow> u8 list \<Rightarrow> nat list" where
  "messagePath code info = map (\<lambda>b. of_bool (bit b 0)) info @ replicate (constraintLength code - 1) 0"

lemma messagePath_bits [simp]:
  "set (messagePath code info) \<subseteq> {0, 1}" "length (messagePath code info) = length info + (constraintLength code - 1)"
  by (auto simp: messagePath_def)

lemma messagePath_nth:
  "t < length info + (constraintLength code - 1) \<Longrightarrow>
    messagePath code info ! t = (if t < length info then of_bool (bit (info ! t) 0) else 0)"
  by (simp add: messagePath_def nth_append)

lemma terminated_zero:
  assumes "codeOk code" "set us \<subseteq> {0, 1}"
  shows "pathState code 0 us = 0 \<longleftrightarrow> (\<forall>m < constraintLength code - 1. m < length us \<longrightarrow> us ! (length us - 1 - m) = 0)"
    (is "?state \<longleftrightarrow> ?tail")
proof
  assume ?state
  show ?tail
  proof (intro allI impI)
    fix m assume m: "m < constraintLength code - 1" "m < length us"
    have "\<not> bit (pathState code 0 us) m" using \<open>?state\<close> by simp
    then have "us ! (length us - 1 - m) \<noteq> 1" unfolding bit_pathState [OF assms] using m by simp
    moreover have "us ! (length us - 1 - m) \<in> {0, 1}" using m assms(2) by (intro subsetD [OF assms(2)] nth_mem) simp
    ultimately show "us ! (length us - 1 - m) = 0" by simp
  qed
next
  assume ?tail
  then show ?state by (intro bit_eqI) (auto simp: bit_pathState [OF assms])
qed

lemma messagePath_terminates: "codeOk code \<Longrightarrow> pathState code 0 (messagePath code info) = 0"
  using terminated_zero [OF _ messagePath_bits(1), of code code info] by (simp add: messagePath_nth)

lemma terminated_message:
  assumes "codeOk code" "bitPath (k + (constraintLength code - 1)) us" "pathState code 0 us = 0"
  shows "us = messagePath code (map (\<lambda>i. of_nat (us ! i)) [0..<k])"
proof (rule nth_equalityI)
  let ?K = "constraintLength code - 1"
  have len: "length us = k + ?K" and bits: "set us \<subseteq> {0, 1}" using assms(2) by (simp_all add: bitPath_def)
  then show "length us = length (messagePath code (map (\<lambda>i. of_nat (us ! i)) [0..<k]))" by simp
  fix i assume i: "i < length us"
  show "us ! i = messagePath code (map (\<lambda>i. of_nat (us ! i)) [0..<k]) ! i"
  proof (cases "i < k")
    case True
    have "us ! i \<in> {0, 1}" using i bits by (metis nth_mem subsetD)
    then show ?thesis using True len i by (subst messagePath_nth) auto
  next
    case False
    have "length us - 1 - (length us - 1 - i) = i" using i by simp
    moreover have "us ! (length us - 1 - (length us - 1 - i)) = 0"
      using assms(3) False len i unfolding terminated_zero [OF assms(1) bits] by auto
    ultimately have "us ! i = 0" by simp
    then show ?thesis using False len i by (subst messagePath_nth) auto
  qed
qed

subsection \<open>The encoder writes the branch words of the path of its message\<close>

definition codedBit :: "ConvolutionalCode \<Rightarrow> nat list \<Rightarrow> nat \<Rightarrow> bool" where
  "codedBit code us i = bit (pathWord code 0 us (i div polynomialCount code)) (i mod polynomialCount code)"

lemma nextState_of_nat:
  assumes "codeOk code" "s < states code" "u < 2"
  shows "convolutionalNextState code (of_nat s) (of_nat u) = of_nat ((2 * s + u) mod states code)"
proof -
  let ?K = "constraintLength code - 1"
  have K: "?K \<le> 8" using assms(1) by (auto simp: codeOk_def)
  have S: "states code = 2 ^ ?K" by (rule states_eq [OF assms(1)])
  have "word_of_nat (states code - 1) = (mask ?K :: u32)" by (simp add: S mask_eq_exp_minus_1)
  moreover have "push_bit 1 (of_nat s) OR (of_nat u AND 1) = (of_nat (2 * s + u) :: u32)"
  proof (rule bit_word_eqI)
    fix i assume i: "i < LENGTH(32)"
    show "bit (push_bit 1 (of_nat s) OR (of_nat u AND 1) :: u32) i = bit (of_nat (2 * s + u) :: u32) i"
      unfolding bit_shifted using i odd_sum_bit [OF assms(3), of s "i - 1"]
      by (cases i) (simp_all add: bit_of_nat_iff bit_0 del: of_nat_add of_nat_mult)
  qed
  ultimately show ?thesis
    unfolding convolutionalNextState_def
    by (simp add: S take_bit_of_nat del: of_nat_add of_nat_mult flip: take_bit_eq_mask take_bit_eq_mod)
qed

lemma encodeStep_path:
  assumes ok: "codeOk code" and "t < length info + (constraintLength code - 1)"
  defines "us \<equiv> messagePath code info" and "n \<equiv> polynomialCount code"
  shows "encodeStep code info t (of_nat (pathState code 0 (take t us)), out) =
    (of_nat (pathState code 0 (take (Suc t) us)),
     fold (\<lambda>j out. out[t * n + j := of_bool (codedBit code us (t * n + j))]) [0..<n] out)"
proof -
  have t: "t < length us" using assms(2) by (simp add: us_def)
  have input: "(if t < length info then ucast (info ! t AND 1) else 0) = (of_nat (us ! t) :: u32)"
    using assms(2) by (auto simp: us_def messagePath_nth and_one_eq bit_0 mod2_eq_if)
  have u: "us ! t < 2" using assms(2) by (simp add: us_def messagePath_nth)
  have next_state: "pathState code 0 (take (Suc t) us) = (2 * pathState code 0 (take t us) + us ! t) mod states code"
    using t by (simp add: take_Suc_conv_app_nth)
  have n: "0 < n" "n \<le> 4" using ok by (simp_all add: codeOk_def n_def)
  have slice: "ucast (drop_bit j w AND 1) = (of_bool (bit w j) :: u8)" for j and w :: u32
    by (rule bit_word_eqI) (auto simp: bit_ucast_iff bit_and_iff bit_1_iff bit_drop_bit_eq bit_of_bool_iff)
  have word: "convolutionalBranch code (of_nat (pathState code 0 (take t us))) (of_nat (us ! t)) = pathWord code 0 us t"
    by (simp add: pathWord_def branchWord_def)
  have "fold (\<lambda>j out. out[t * n + j := ucast (drop_bit j (pathWord code 0 us t) AND 1)]) [0..<n] out =
      fold (\<lambda>j out. out[t * n + j := of_bool (codedBit code us (t * n + j))]) [0..<n] out"
    unfolding slice using n by (intro fold_cong refl) (auto simp: codedBit_def fun_eq_iff simp flip: n_def)
  then show ?thesis
    unfolding encodeStep_def input Let_def fst_conv snd_conv word n_def [symmetric] next_state
      nextState_of_nat [OF ok pathState_0_less [OF ok] u] by (simp only:)
qed

lemma encode_fold:
  fixes info :: "u8 list"
  assumes ok: "codeOk code"
  defines "us \<equiv> messagePath code info" and "n \<equiv> polynomialCount code"
  assumes "m \<le> length us" "length us * n \<le> length out"
  shows "\<exists>out'. fold (encodeStep code info) [0..<m] (0, out) = (of_nat (pathState code 0 (take m us)), out') \<and>
    length out' = length out \<and> (\<forall>i<length out. out' ! i = (if i < m * n then of_bool (codedBit code us i) else out ! i))"
  using assms(4)
proof (induction m)
  case (Suc m)
  then obtain out' where IH: "fold (encodeStep code info) [0..<m] (0, out) = (of_nat (pathState code 0 (take m us)), out')"
    "length out' = length out" "\<forall>i<length out. out' ! i = (if i < m * n then of_bool (codedBit code us i) else out ! i)"
    by auto
  let ?out = "fold (\<lambda>j out. out[m * n + j := of_bool (codedBit code us (m * n + j))]) [0..<n] out'"
  have step: "fold (encodeStep code info) [0..<Suc m] (0, out) = (of_nat (pathState code 0 (take (Suc m) us)), ?out)"
    using encodeStep_path [OF ok, of m info out'] Suc.prems IH(1) by (simp add: us_def n_def)
  have "?out ! i = (if i < Suc m * n then of_bool (codedBit code us i) else out ! i)" if "i < length out" for i
    using that IH(2,3) fold_update_nth [of i out' "m * n" "\<lambda>j. of_bool (codedBit code us (m * n + j))" n] by auto
  then show ?case using step IH(2) by auto
qed simp

lemma encode_path:
  assumes "codeOk code" "convolutionalEncodedBits code (length info) \<le> length out"
  shows "convolutionalEncode code info out = (convolutionalEncodedBits code (length info),
    map (\<lambda>i. if i < convolutionalEncodedBits code (length info) then of_bool (codedBit code (messagePath code info) i) else out ! i)
      [0..<length out])"
proof -
  let ?us = "messagePath code info" and ?n = "polynomialCount code"
  have K: "3 \<le> constraintLength code" "0 < ?n" using assms(1) by (simp_all add: codeOk_def)
  have total: "convolutionalEncodedBits code (length info) = length ?us * ?n"
    using K by (simp add: convolutionalEncodedBits_def codeConfigured_def)
  obtain out' where run: "fold (encodeStep code info) [0..<length ?us] (0, out) = (of_nat (pathState code 0 (take (length ?us) ?us)), out')"
    "length out' = length out" "\<forall>i<length out. out' ! i = (if i < length ?us * ?n then of_bool (codedBit code ?us i) else out ! i)"
    using encode_fold [OF assms(1) order.refl, of info out] assms(2) total by auto
  have steps: "length info + constraintLength code - 1 = length ?us" using K by simp
  have "out' = map (\<lambda>i. if i < length ?us * ?n then of_bool (codedBit code ?us i) else out ! i) [0..<length out]"
    using run(2,3) by (intro nth_equalityI) simp_all
  moreover have "\<not> (length ?us * ?n = 0 \<or> length out < length ?us * ?n)" using K assms(2) total by simp
  ultimately show ?thesis unfolding convolutionalEncode_def Let_def total steps run(1) by (simp only: if_False snd_conv)
qed

subsection \<open>Frame distance is path distance\<close>

definition bitDistance :: "u8 list \<Rightarrow> u8 list \<Rightarrow> nat" where
  "bitDistance xs ys = length (filter (\<lambda>i. bit (xs ! i) 0 \<noteq> bit (ys ! i) 0) [0..<length xs])"

lemma bitDistance_sum: "bitDistance xs ys = (\<Sum>i<length xs. of_bool (bit (xs ! i) 0 \<noteq> bit (ys ! i) 0))"
proof -
  have "length (filter P [0..<n]) = (\<Sum>i<n. of_bool (P i))" for P and n :: nat
    by (induction n) simp_all
  then show ?thesis by (simp add: bitDistance_def)
qed

lemma bit_hardWord: "n \<le> 4 \<Longrightarrow> bit (hardWord n received t) j \<longleftrightarrow> j < n \<and> bit (received ! (t * n + j)) 0"
proof -
  have one: "bit (push_bit m (ucast (w AND 1)) :: u32) j \<longleftrightarrow> m < 32 \<and> j = m \<and> bit w 0" for m j and w :: u8
    by (auto simp: bit_push_bit_iff bit_ucast_iff bit_and_iff bit_1_iff)
  have "n \<le> 4 \<Longrightarrow> bit (fold (\<lambda>j word. word OR push_bit j (ucast (received ! (b + j) AND 1))) [0..<n] (0 :: u32)) j \<longleftrightarrow>
      j < n \<and> bit (received ! (b + j)) 0" for b
    by (induction n) (auto simp: bit_or_iff one less_Suc_eq)
  then show "n \<le> 4 \<Longrightarrow> ?thesis" unfolding hardWord_def by blast
qed

lemma popcount_bits_below:
  assumes "\<And>j. bit w j \<Longrightarrow> j < n"
  shows "popcount w = (\<Sum>j<n. of_bool (bit w j))"
proof -
  have "{j. bit w j} = {j \<in> {..<n}. bit w j}" using assms by auto
  then show ?thesis by (simp add: popcount_card sum.If_cases of_bool_def Int_def)
qed

lemma wordDistance_frame:
  assumes "codeOk code" "length received = length us * polynomialCount code"
  shows "wordDistance code (receivedWords code received) 0 us =
    (\<Sum>i<length received. of_bool (bit (received ! i) 0 \<noteq> codedBit code us i))"
proof -
  let ?n = "polynomialCount code"
  let ?f = "\<lambda>i. of_bool (bit (received ! i) 0 \<noteq> codedBit code us i) :: nat"
  have n: "0 < ?n" "?n \<le> 4" using assms(1) by (simp_all add: codeOk_def)
  have "popcount (pathWord code 0 us t XOR receivedWords code received ! t) = sum ?f {t * ?n ..< t * ?n + ?n}"
    if "t < length us" for t
  proof -
    let ?w = "pathWord code 0 us t XOR hardWord ?n received t"
    have bits: "bit ?w j \<longleftrightarrow> j < ?n \<and> codedBit code us (t * ?n + j) \<noteq> bit (received ! (t * ?n + j)) 0" for j
      using n bit_branch [OF assms(1)]
      by (auto simp: bit_xor_iff bit_hardWord codedBit_def pathWord_def branchWord_def)
    have "popcount ?w = (\<Sum>j<?n. of_bool (bit ?w j))" by (rule popcount_bits_below) (simp add: bits)
    also have "\<dots> = (\<Sum>j<?n. ?f (j + t * ?n))"
      by (rule sum.cong [OF refl]) (auto simp: bits add.commute)
    also have "\<dots> = sum ?f {t * ?n ..< t * ?n + ?n}"
      using sum.shift_bounds_nat_ivl [of ?f 0 "t * ?n" ?n] by (simp add: atLeast0LessThan add.commute)
    finally show ?thesis using that n assms(2) by (simp add: receivedWords_def)
  qed
  then have "wordDistance code (receivedWords code received) 0 us = (\<Sum>t<length us. sum ?f {t * ?n ..< t * ?n + ?n})"
    unfolding wordDistance_def by (intro sum.cong) simp_all
  also have "\<dots> = sum ?f {..<length us * ?n}" by (rule sum.nat_group)
  finally show ?thesis by (simp add: assms(2))
qed

subsection \<open>Frames of encoded messages\<close>

definition encodedFrame :: "ConvolutionalCode \<Rightarrow> u8 list \<Rightarrow> u8 list" where
  "encodedFrame code info = snd (convolutionalEncode code info (replicate (convolutionalEncodedBits code (length info)) 0))"

lemma frame_length: "codeOk code \<Longrightarrow> convolutionalEncodedBits code k = (k + (constraintLength code - 1)) * polynomialCount code"
  by (auto simp: codeOk_def convolutionalEncodedBits_def codeConfigured_def)

lemma encodedFrame_bits:
  assumes "codeOk code"
  shows "length (encodedFrame code info) = convolutionalEncodedBits code (length info)"
    "i < convolutionalEncodedBits code (length info) \<Longrightarrow> bit (encodedFrame code info ! i) 0 = codedBit code (messagePath code info) i"
  unfolding encodedFrame_def by (simp_all add: encode_path [OF assms])

lemma wordDistance_message:
  assumes "codeOk code" "length received = convolutionalEncodedBits code (length info)"
  shows "wordDistance code (receivedWords code received) 0 (messagePath code info) = bitDistance received (encodedFrame code info)"
proof -
  have "length received = length (messagePath code info) * polynomialCount code"
    using assms by (simp add: frame_length)
  from wordDistance_frame [OF assms(1) this] show ?thesis
    unfolding bitDistance_sum using assms encodedFrame_bits(2) [OF assms(1)] by simp
qed

lemma message_admissible:
  assumes "ready d" "vtermination d = Terminated"
  shows "admissible d (length info + (constraintLength (vcode d) - 1)) 0 (messagePath (vcode d) info)"
  using assms states_eq [of "vcode d"] messagePath_bits(1) [of "vcode d" info]
  by (simp add: admissible_def startsAt_def bitPath_def messagePath_terminates ready_def)

text \<open>The decoder over a whole frame: it returns a message whose encoding is nearest to what was received.\<close>

lemma decodeHard_message:
  assumes d: "ready d" "vtermination d = Terminated" and k: "length info \<noteq> 0"
    and frame: "length received = convolutionalEncodedBits (vcode d) (length info)"
    and decode: "decodeHard d received info = (d', r, info')"
  shows "length info' = length info" "set info' \<subseteq> {0, 1}"
    "distance r = bitDistance received (encodedFrame (vcode d) info')" "resultMetric r = Reached (int (distance r))"
    "length message = length info \<Longrightarrow> distance r \<le> bitDistance received (encodedFrame (vcode d) message)"
    "ready d'" "vcode d' = vcode d" "vtermination d' = Terminated"
proof -
  let ?code = "vcode d" and ?K = "constraintLength (vcode d) - 1"
  have ok: "codeOk ?code" using d by (simp add: ready_def)
  have n: "0 < polynomialCount ?code" "3 \<le> constraintLength ?code" using ok by (simp_all add: codeOk_def)
  have steps: "length received div polynomialCount ?code = length info + ?K"
    using n by (simp add: frame frame_length [OF ok])
  have carried: "convolutionalInfoBits ?code (length received) (vtermination d) = length info"
  proof -
    have "\<not> length info + ?K < constraintLength ?code" using n k by (cases info) auto
    then show ?thesis
      using n k steps d(2) by (simp add: convolutionalInfoBits_def codeConfigured_def Let_def frame frame_length [OF ok])
  qed
  obtain p0 ps where win: "admissible d (length received div polynomialCount ?code) p0 ps"
    "distance r = wordDistance ?code (receivedWords ?code received) p0 ps"
    "resultMetric r = Reached (int (wordDistance ?code (receivedWords ?code received) p0 ps))"
    "\<forall>s us. admissible d (length received div polynomialCount ?code) s us \<longrightarrow>
      wordDistance ?code (receivedWords ?code received) p0 ps \<le> wordDistance ?code (receivedWords ?code received) s us"
    "info' = map (\<lambda>i. of_nat (ps ! i)) [0..<length info]"
    "ready d'" "vcode d' = ?code" "vtermination d' = vtermination d" "vinitial d' = vinitial d"
    by (rule decodeHard_nearest [OF d(1) carried k decode])
  have p0: "p0 = 0" "bitPath (length info + ?K) ps" "pathState ?code 0 ps = 0"
    using win(1) d(2) steps by (auto simp: admissible_def startsAt_def)
  have ps: "ps = messagePath ?code info'" using terminated_message [OF ok p0(2,3)] win(5) by simp
  show len: "length info' = length info" using win(5) by simp
  have "ps ! i \<in> {0, 1}" if "i < length info" for i
  proof (rule subsetD)
    show "ps ! i \<in> set ps" "set ps \<subseteq> {0, 1}" using p0(2) that by (simp_all add: bitPath_def)
  qed
  then have "(of_nat (ps ! i) :: u8) \<in> {0, 1}" if "i < length info" for i using that by fastforce
  then show "set info' \<subseteq> {0, 1}" unfolding win(5) set_map set_upt by (intro image_subsetI) simp
  show dist: "distance r = bitDistance received (encodedFrame ?code info')"
    using win(2) wordDistance_message [OF ok, of received info'] frame len by (simp add: p0(1) ps)
  show "resultMetric r = Reached (int (distance r))" using win(2,3) by simp
  show "distance r \<le> bitDistance received (encodedFrame ?code message)" if "length message = length info"
  proof -
    have "admissible d (length received div polynomialCount ?code) 0 (messagePath ?code message)"
      using message_admissible [OF d, of message] unfolding steps that .
    then have "distance r \<le> wordDistance ?code (receivedWords ?code received) 0 (messagePath ?code message)"
      using win(2,4) by simp
    then show ?thesis using wordDistance_message [OF ok, of received message] frame that by simp
  qed
  show "ready d'" "vcode d' = vcode d" "vtermination d' = Terminated" using win(6-8) d(2) by simp_all
qed

subsection \<open>Different messages have different frames\<close>

text \<open>
  The lowest tap of a generator carries the first difference of two messages to a coded bit.
\<close>

lemma codedBit_window:
  assumes "codeOk code" "set us \<subseteq> {0, 1}" "t < length us" "j < polynomialCount code"
  shows "codedBit code us (t * polynomialCount code + j) \<longleftrightarrow>
    odd (popcount (polynomials code ! j AND
      (push_bit 1 (of_nat (pathState code 0 (take t us))) OR (of_nat (us ! t) AND 1)))) \<noteq> bit (outputInversion code) j"
  using assms(4) by (simp add: codedBit_def pathWord_def branchWord_def bit_branch [OF assms(1)])

lemma frames_differ:
  assumes ok: "codeOk code" and a: "set us \<subseteq> {0, 1}" "t0 + (constraintLength code - 1) < length us"
    and b: "set vs \<subseteq> {0, 1}" "length vs = length us"
    and first: "us ! t0 \<noteq> vs ! t0" "\<And>i. i < t0 \<Longrightarrow> us ! i = vs ! i"
  shows "\<exists>i < length us * polynomialCount code. codedBit code us i \<noteq> codedBit code vs i"
proof -
  let ?K = "constraintLength code" and ?p = "polynomials code ! 0" and ?n = "polynomialCount code"
  have "0 < ?n" "\<forall>j<?n. polynomials code ! j \<noteq> 0 \<and> (\<forall>i. bit (polynomials code ! j) i \<longrightarrow> i < ?K)"
    using ok by (simp_all add: codeOk_def)
  then have n: "0 < ?n" "?p \<noteq> 0" "\<And>i. bit ?p i \<Longrightarrow> i < ?K" by blast+
  obtain c where "bit ?p c" using n(2) by (metis bit_eqI bit_0_eq bot_apply bot_bool_def)
  define low where "low = (LEAST c. bit ?p c)"
  have low: "bit ?p low" "\<And>i. bit ?p i \<Longrightarrow> low \<le> i"
    using LeastI [of "bit ?p", OF \<open>bit ?p c\<close>] Least_le [of "bit ?p"] by (simp_all add: low_def)
  define t where "t = t0 + low"
  have t: "t < length us" using a(2) n(3) [OF low(1)] by (simp add: t_def)
  let ?win = "\<lambda>us. push_bit 1 (of_nat (pathState code 0 (take t us))) OR (of_nat (us ! t) AND 1) :: u32"
  have bits: "us ! i \<in> {0, 1} \<and> vs ! i \<in> {0, 1}" if "i < length us" for i
    using that a(1) b nth_mem [of i us] nth_mem [of i vs] by (metis subsetD)
  have "?p AND (?win us XOR ?win vs) = 2 ^ low"
  proof (rule bit_word_eqI)
    fix i assume "i < LENGTH(32)"
    show "bit (?p AND (?win us XOR ?win vs)) i = bit (2 ^ low :: u32) i"
    proof (cases "bit ?p i")
      case True
      have i: "i < ?K" "low \<le> i" using n(3) low(2) True by simp_all
      have "bit (?win us XOR ?win vs) i \<longleftrightarrow> window us t i \<noteq> window vs t i"
        using bit_window [OF ok a(1) t i(1)] bit_window [OF ok b(1) _ i(1), of t] t b(2) by (simp add: bit_xor_iff)
      also have "\<dots> \<longleftrightarrow> i = low"
      proof (cases "i = low")
        case True
        then show ?thesis using first(1) bits [of t0] t by (auto simp: window_def t_def)
      next
        case False
        then show ?thesis using i first(2) [of "t - i"] by (auto simp: window_def t_def)
      qed
      finally show ?thesis using True low(1) by (auto simp: bit_and_iff dest: bit_imp_le_length)
    next
      case False
      then show ?thesis using low(1) by (auto simp: bit_and_iff)
    qed
  qed
  moreover have "low < LENGTH(32)" using low(1) by (rule bit_imp_le_length)
  ultimately have "odd (popcount (?p AND (?win us XOR ?win vs)))" by simp
  then have "odd (popcount (?p AND ?win us)) \<noteq> odd (popcount (?p AND ?win vs))"
    unfolding and.commute [of ?p] xor_and_distrib even_popcount_xor by auto
  then have "codedBit code us (t * ?n + 0) \<noteq> codedBit code vs (t * ?n + 0)"
    using codedBit_window [OF ok a(1) t n(1)] codedBit_window [OF ok b(1) _ n(1), of t] t b(2) by auto
  moreover have "t * ?n + 0 < length us * ?n" using t n(1) by simp
  ultimately show ?thesis by blast
qed

lemma encodedFrame_inject:
  assumes ok: "codeOk code" and len: "length a = length b"
    and same: "bitDistance (encodedFrame code a) (encodedFrame code b) = 0"
  shows "map (\<lambda>w. bit w 0) a = map (\<lambda>w. bit w 0) b"
proof (rule ccontr)
  assume "map (\<lambda>w. bit w 0) a \<noteq> map (\<lambda>w. bit w 0) b"
  then have "\<exists>i. i < length a \<and> bit (a ! i) 0 \<noteq> bit (b ! i) 0" using len by (auto simp: list_eq_iff_nth_eq)
  then obtain t where t: "t < length a" "bit (a ! t) 0 \<noteq> bit (b ! t) 0"
    and least: "\<And>i. i < t \<Longrightarrow> \<not> (i < length a \<and> bit (a ! i) 0 \<noteq> bit (b ! i) 0)"
    using exists_least_iff [of "\<lambda>i. i < length a \<and> bit (a ! i) 0 \<noteq> bit (b ! i) 0"] by blast
  let ?a = "messagePath code a" and ?b = "messagePath code b"
  have K: "3 \<le> constraintLength code" using ok by (simp add: codeOk_def)
  have "\<exists>i < length ?a * polynomialCount code. codedBit code ?a i \<noteq> codedBit code ?b i"
    by (rule frames_differ [of code ?a t ?b, OF ok messagePath_bits(1) _ messagePath_bits(1)])
      (use t least len in \<open>auto simp: messagePath_nth\<close>)
  then obtain i where i: "i < convolutionalEncodedBits code (length a)" "codedBit code ?a i \<noteq> codedBit code ?b i"
    by (auto simp: frame_length [OF ok])
  then have "bit (encodedFrame code a ! i) 0 \<noteq> bit (encodedFrame code b ! i) 0" using encodedFrame_bits(2) [OF ok] len by simp
  then have "i \<in> set (filter (\<lambda>i. bit (encodedFrame code a ! i) 0 \<noteq> bit (encodedFrame code b ! i) 0) [0..<length (encodedFrame code a)])"
    using i(1) encodedFrame_bits(1) [OF ok, of a] by simp
  then show False using same unfolding bitDistance_def by (metis length_0_conv list.set(1) empty_iff)
qed

subsection \<open>Reachable decoders\<close>

text \<open>A decoder configured for a terminated code, after any number of frames, decoded or refused.\<close>

inductive viterbiRun :: "ConvolutionalCode \<Rightarrow> int ViterbiDecoder \<Rightarrow> bool" for code where
  configured: "configureDecoder d0 code Terminated initial = (d, True) \<Longrightarrow> viterbiRun code d"
| decoded: "viterbiRun code d \<Longrightarrow> decodeHard d received info = (d', r, info') \<Longrightarrow> viterbiRun code d'"

lemma decodeHard_refuses:
  assumes "convolutionalInfoBits (vcode d) (length received) (vtermination d) \<noteq> length info \<or> info = []"
  shows "decodeHard d received info = (d, noResult, info)"
proof -
  have "prepare d (length received) (length info) = (d, 0)" using assms by (auto simp: prepare_def Let_def)
  then show ?thesis by (simp add: decodeHard_def)
qed

lemma viterbiRun_ready:
  assumes "viterbiRun code d" "codeOk code"
  shows "ready d \<and> vcode d = code \<and> vtermination d = Terminated"
  using assms(1)
proof induction
  case (configured d0 initial d)
  then show ?case using configureDecoder_ready assms(2) by metis
next
  case (decoded d received info d' r info')
  then have d: "ready d" "vcode d = code" "vtermination d = Terminated" by simp_all
  show ?case
  proof (cases "convolutionalInfoBits (vcode d) (length received) (vtermination d) \<noteq> length info \<or> info = []")
    case True
    then show ?thesis using decodeHard_refuses decoded.hyps(2) d by simp
  next
    case False
    then have carried: "convolutionalInfoBits (vcode d) (length received) (vtermination d) = length info" "length info \<noteq> 0" by auto
    show ?thesis
      by (rule decodeHard_nearest [OF d(1) carried decoded.hyps(2)]) (use d in simp)
  qed
qed

subsection \<open>What the hard decoder promises\<close>

text \<open>C1. Over any accepted code, a decoder configured for terminated frames and reached through any
  sequence of decodes answers, for every received frame, a message whose encoding no other message
  of that length beats in distance to the frame; the distance and the metric it reports are that
  distance. Metrics are exact numbers, as the float metrics of the code are below 2^24 accumulated
  bits.\<close>

theorem viterbi_maximum_likelihood:
  assumes "configureCode len generators inversion = (code, True)" "viterbiRun code d"
    and "info \<noteq> []" "length received = convolutionalEncodedBits code (length info)"
    and "decodeHard d received info = (d', r, info')"
  shows "length info' = length info \<and> set info' \<subseteq> {0, 1} \<and>
    distance r = bitDistance received (encodedFrame code info') \<and> resultMetric r = Reached (int (distance r)) \<and>
    (\<forall>message. length message = length info \<longrightarrow> distance r \<le> bitDistance received (encodedFrame code message))"
proof -
  have d: "ready d" "vcode d = code" "vtermination d = Terminated"
    using viterbiRun_ready [OF assms(2) configureCode_ok(1) [OF assms(1)]] by simp_all
  have "length info \<noteq> 0" "length received = convolutionalEncodedBits (vcode d) (length info)" using assms(3,4) d by simp_all
  note result = decodeHard_message [OF d(1,3) this assms(5), unfolded d(2)]
  show ?thesis using result(1-5) by simp
qed

text \<open>C31. A frame received as the encoder wrote it decodes, in every reachable state of the decoder and
  for every accepted code, to the low bits of the message at distance zero.\<close>

theorem viterbi_roundtrip:
  assumes "configureCode len generators inversion = (code, True)" "viterbiRun code d"
    and "message \<noteq> []" "length info = length message"
    and "decodeHard d (encodedFrame code message) info = (d', r, info')"
  shows "info' = map (\<lambda>b. b AND 1) message \<and> distance r = 0"
proof -
  have ok: "codeOk code" by (rule configureCode_ok [OF assms(1)])
  have d: "ready d" "vcode d = code" "vtermination d = Terminated" using viterbiRun_ready [OF assms(2) ok] by simp_all
  have "length info \<noteq> 0" "length (encodedFrame code message) = convolutionalEncodedBits (vcode d) (length info)"
    using assms(3,4) d encodedFrame_bits(1) [OF ok] by simp_all
  note result = decodeHard_message [OF d(1,3) this assms(5), unfolded d(2)]
  have "bitDistance (encodedFrame code message) (encodedFrame code message) = 0" by (simp add: bitDistance_def)
  then have zero: "distance r = 0" using result(5) [of message] assms(4) by simp
  have len: "length info' = length message" using result(1) assms(4) by simp
  have "map (\<lambda>w. bit w 0) message = map (\<lambda>w. bit w 0) info'"
    by (rule encodedFrame_inject [OF ok]) (use result(3) zero len in simp_all)
  then have low: "bit (message ! i) 0 = bit (info' ! i) 0" if "i < length message" for i
    using that len by (metis nth_map)
  have "info' ! i = message ! i AND 1" if "i < length message" for i
  proof -
    have "info' ! i \<in> {0, 1}" using result(2) that len by (intro subsetD [OF result(2)] nth_mem) simp
    then show ?thesis using low [OF that] by (auto simp: and_one_eq bit_0 odd_iff_mod_2_eq_one)
  qed
  then show ?thesis using zero len by (auto intro!: nth_equalityI)
qed

subsection \<open>Both at the four-state code of the two octal generators 7 and 5\<close>

definition fourStateCode :: ConvolutionalCode where "fourStateCode = fst (configureCode 3 [7, 5] 0)"
definition fourStateDecoder :: "int ViterbiDecoder" where
  "fourStateDecoder = fst (configureDecoder defaultDecoder fourStateCode Terminated None)"

lemma fourState: "configureCode 3 [7, 5] 0 = (fourStateCode, True)" "viterbiRun fourStateCode fourStateDecoder"
proof -
  show "configureCode 3 [7, 5] 0 = (fourStateCode, True)" by code_simp
  have "snd (configureDecoder (defaultDecoder :: int ViterbiDecoder) fourStateCode Terminated None)" by code_simp
  then have "configureDecoder defaultDecoder fourStateCode Terminated None = (fourStateDecoder, True)"
    unfolding fourStateDecoder_def by (metis prod.collapse)
  then show "viterbiRun fourStateCode fourStateDecoder" by (rule viterbiRun.configured)
qed

lemma viterbi_maximum_likelihood_witness:
  "\<exists>d' r. decodeHard fourStateDecoder [0, 1, 1, 0, 1, 1] [0] = (d', r, [1]) \<and> distance r = 1 \<and>
    (\<forall>message. length message = 1 \<longrightarrow> 1 \<le> bitDistance [0, 1, 1, 0, 1, 1] (encodedFrame fourStateCode message))"
proof -
  obtain d' r info' where run: "decodeHard fourStateDecoder [0, 1, 1, 0, 1, 1] [0] = (d', r, info')"
    by (cases "decodeHard fourStateDecoder [0, 1, 1, 0, 1, 1] [0]")
  have "snd (decodeHard fourStateDecoder [0, 1, 1, 0, 1, 1] [0]) = (\<lparr>distance = 1, resultMetric = Reached 1\<rparr>, [1])" by code_simp
  then have "distance r = 1" "info' = [1]" using run by simp_all
  moreover have "[0 :: u8] \<noteq> []" by simp
  moreover have "length [0, 1, 1, 0, 1, 1 :: u8] = convolutionalEncodedBits fourStateCode (length [0 :: u8])" by code_simp
  ultimately have "distance r = 1" "info' = [1]"
    and "\<forall>message. length message = length [0 :: u8] \<longrightarrow>
      distance r \<le> bitDistance [0, 1, 1, 0, 1, 1] (encodedFrame fourStateCode message)"
    using viterbi_maximum_likelihood [OF fourState _ _ run] by blast+
  then show ?thesis using run by auto
qed

lemma viterbi_roundtrip_witness:
  "encodedFrame fourStateCode [1] = [1, 1, 1, 0, 1, 1] \<and>
    (\<exists>d' r. decodeHard fourStateDecoder [1, 1, 1, 0, 1, 1] [0] = (d', r, [1]) \<and> distance r = 0)"
proof -
  have frame: "encodedFrame fourStateCode [1] = [1, 1, 1, 0, 1, 1]" by code_simp
  obtain d' r info' where run: "decodeHard fourStateDecoder [1, 1, 1, 0, 1, 1] [0] = (d', r, info')"
    by (cases "decodeHard fourStateDecoder [1, 1, 1, 0, 1, 1] [0]")
  have "info' = [1] \<and> distance r = 0"
    using viterbi_roundtrip [OF fourState, of "[1]" "[0]" d' r info'] run frame by simp
  then show ?thesis using run frame by blast
qed

subsection \<open>Soft decisions\<close>

text \<open>
  The correlation of a received record with the coded bits of a path: a sample counts positively where the path emits
  a one.  The soft decoder minimizes its negative, over the paths its termination admits.
\<close>

definition stepCorrelation :: "nat \<Rightarrow> 'm::linordered_ab_group_add list \<Rightarrow> nat \<Rightarrow> u32 \<Rightarrow> 'm" where
  "stepCorrelation n received t w =
     fold (\<lambda>j s. s + (if bit w j then received ! (t * n + j) else - (received ! (t * n + j)))) [0..<n] 0"

definition correlation :: "ConvolutionalCode \<Rightarrow> 'm::linordered_ab_group_add list \<Rightarrow> nat \<Rightarrow> nat list \<Rightarrow> 'm" where
  "correlation code received s us =
     (\<Sum>t<length us. stepCorrelation (polynomialCount code) received t (pathWord code s us t))"

lemma softCosts_nth:
  assumes "n \<le> 4" "unat w < 2 ^ n"
  shows "softCosts n received t ! unat w = - stepCorrelation n received t w"
proof -
  have "bit (unat w) j = bit w j" for j by (simp add: bit_unsigned_iff)
  then show ?thesis using assms(2) by (simp add: softCosts_def stepCorrelation_def)
qed

lemma softCost_correlation:
  assumes "codeOk code"
  shows "pathCost (wordCost (softCosts (polynomialCount code) received)) code s us = - correlation code received s us"
proof -
  have "polynomialCount code \<le> 4" using assms by (simp add: codeOk_def)
  then show ?thesis
    unfolding pathCost_def correlation_def sum_negf [symmetric]
    by (intro sum.cong refl) (simp add: softCosts_nth branch_bound [OF assms] pathWord_def branchWord_def)
qed

lemma decodeSoft_best:
  fixes d :: "'m::linordered_ab_group_add ViterbiDecoder"
  assumes d: "ready d" and frame: "convolutionalInfoBits (vcode d) (length received) (vtermination d) = length info" "length info \<noteq> 0"
    and decode: "decodeSoft d received info = (d', r, info')"
  defines "t \<equiv> length received div polynomialCount (vcode d)"
  obtains p0 ps where "admissible d t p0 ps" "resultMetric r = Reached (correlation (vcode d) received p0 ps)"
    "\<forall>s us. admissible d t s us \<longrightarrow> correlation (vcode d) received s us \<le> correlation (vcode d) received p0 ps"
    "info' = map (\<lambda>i. of_nat (ps ! i)) [0..<length info]"
    "ready d'" "vcode d' = vcode d" "vtermination d' = vtermination d" "vinitial d' = vinitial d"
proof -
  let ?n = "polynomialCount (vcode d)"
  have ok: "codeOk (vcode d)" using d by (simp add: ready_def)
  note steps = carried_steps [OF ok frame, folded t_def]
  let ?w0 = "grown t (vwords d)"
  define d1 where "d1 = d\<lparr>vtraceback := grown (t * vstates d) (vtraceback d),
    vwords := fold (\<lambda>i words. words[i := softWord ?n received i]) [0..<t] ?w0\<rparr>"
  have prepared: "prepare d (length received) (length info) =
      (d\<lparr>vwords := ?w0, vtraceback := grown (t * vstates d) (vtraceback d)\<rparr>, t)"
    using frame by (simp add: prepare_def Let_def t_def)
  obtain d2 metric where run: "runTrellis t (softCosts ?n received) d1 = (d2, metric)"
    by (cases "runTrellis t (softCosts ?n received) d1")
  obtain v out where traced_back: "traceback d2 t info = (v, out)" by (cases "traceback d2 t info")
  have result: "d' = d2" "resultMetric r = negated metric" "info' = out"
    using decode run traced_back steps(4) unfolding decodeSoft_def prepared by (auto simp: Let_def d1_def)
  have d1: "ready d1" "vstates d1 * t \<le> length (vtraceback d1)" "vcode d1 = vcode d"
    "vtermination d1 = vtermination d" "vinitial d1 = vinitial d" "admissible d1 = admissible d"
    using d by (simp_all add: d1_def mult.commute)
  obtain p0 ps where opt: "admissible d1 t p0 ps"
    "metric = Reached (pathCost (wordCost (softCosts ?n received)) (vcode d1) p0 ps)"
    "\<forall>s us. admissible d1 t s us \<longrightarrow> pathCost (wordCost (softCosts ?n received)) (vcode d1) p0 ps \<le>
      pathCost (wordCost (softCosts ?n received)) (vcode d1) s us"
    "traceback d2 t info = (wordDistance (vcode d1) (vwords d1) p0 ps,
      map (\<lambda>i. if i < t then of_nat (ps ! i) else info ! i) [0..<length info])"
    "ready d2" "vcode d2 = vcode d1" "vtermination d2 = vtermination d1" "vinitial d2 = vinitial d1"
    by (rule runTrellis_optimal [OF d1(1,2) run, of info])
  note cost = softCost_correlation [OF ok, of received]
  have bits_of_path: "info' = map (\<lambda>i. of_nat (ps ! i)) [0..<length info]"
    using opt(4) traced_back result(3) steps(1) by simp
  have metric: "resultMetric r = Reached (correlation (vcode d) received p0 ps)"
    using opt(2) result(2) cost d1(3) by (simp add: negated_def)
  have best: "\<forall>s us. admissible d t s us \<longrightarrow> correlation (vcode d) received s us \<le> correlation (vcode d) received p0 ps"
    using opt(3) cost d1(3,6) by simp
  show thesis
    by (rule that [OF _ metric best bits_of_path]) (use opt(1,5,6,7,8) d1(3-6) result(1) in simp_all)
qed

text \<open>A decoder configured for either termination, after any number of records, decoded or refused.\<close>

inductive softRun :: "ConvolutionalCode \<Rightarrow> 'm::linordered_ab_group_add ViterbiDecoder \<Rightarrow> bool" for code where
  softConfigured: "configureDecoder d0 code termination initial = (d, True) \<Longrightarrow> softRun code d"
| softDecoded: "softRun code d \<Longrightarrow> decodeSoft d received info = (d', r, info') \<Longrightarrow> softRun code d'"

lemma softRun_ready:
  assumes "softRun code d" "codeOk code"
  shows "ready d \<and> vcode d = code"
  using assms(1)
proof induction
  case (softConfigured d0 ending initial d)
  then show ?case using configureDecoder_ready assms(2) by metis
next
  case (softDecoded d received info d' r info')
  then have d: "ready d" "vcode d = code" by simp_all
  show ?case
  proof (cases "convolutionalInfoBits (vcode d) (length received) (vtermination d) \<noteq> length info \<or> info = []")
    case True
    then have "prepare d (length received) (length info) = (d, 0)" by (auto simp: prepare_def Let_def)
    then show ?thesis using softDecoded.hyps(2) d by (simp add: decodeSoft_def)
  next
    case False
    then have carried: "convolutionalInfoBits (vcode d) (length received) (vtermination d) = length info" "length info \<noteq> 0" by auto
    show ?thesis by (rule decodeSoft_best [OF d(1) carried softDecoded.hyps(2)]) (use d in simp)
  qed
qed

text \<open>C34. A soft-decision frame, terminated or open, decodes to the low bits of an admissible path whose
  correlation with the samples is the reported metric, and no admissible path of that length
  correlates better; exact sample arithmetic is assumed.\<close>

theorem viterbi_soft_best_correlation:
  assumes "configureCode len generators inversion = (code, True)" "softRun code d" "info \<noteq> []"
    and "convolutionalInfoBits code (length received) (vtermination d) = length info"
    and "decodeSoft d received info = (d', r, info')"
  shows "\<exists>s us. admissible d (length received div polynomialCount code) s us \<and>
    info' = map (\<lambda>i. of_nat (us ! i)) [0..<length info] \<and> resultMetric r = Reached (correlation code received s us) \<and>
    (\<forall>s' us'. admissible d (length received div polynomialCount code) s' us' \<longrightarrow>
      correlation code received s' us' \<le> correlation code received s us)"
proof -
  have d: "ready d" "vcode d = code" using softRun_ready [OF assms(2) configureCode_ok(1) [OF assms(1)]] by simp_all
  have frame: "convolutionalInfoBits (vcode d) (length received) (vtermination d) = length info" "length info \<noteq> 0"
    using assms(3,4) d by simp_all
  show ?thesis by (rule decodeSoft_best [OF d(1) frame assms(5), unfolded d(2)]) blast
qed

text \<open>An open record of the four-state code, one sample erased.\<close>

lemma viterbi_soft_best_correlation_witness:
  "\<exists>d :: int ViterbiDecoder. \<exists>d' r. vtermination d = Open \<and> decodeSoft d [3, 3, 2, - 2, 0, 1] [0, 0, 0] = (d', r, [1, 0, 0]) \<and>
    resultMetric r = Reached 11 \<and>
    (\<forall>s us. admissible d 3 s us \<longrightarrow> correlation fourStateCode [3, 3, 2, - 2, 0, 1 :: int] s us \<le> 11)"
proof -
  let ?d = "fst (configureDecoder (defaultDecoder :: int ViterbiDecoder) fourStateCode Open (Some 0))"
  let ?received = "[3, 3, 2, - 2, 0, 1] :: int list"
  have "snd (configureDecoder (defaultDecoder :: int ViterbiDecoder) fourStateCode Open (Some 0))" by code_simp
  then have configured: "configureDecoder (defaultDecoder :: int ViterbiDecoder) fourStateCode Open (Some 0) = (?d, True)"
    by (metis prod.collapse)
  obtain d' r info' where run: "decodeSoft ?d ?received [0, 0, 0] = (d', r, info')"
    by (cases "decodeSoft ?d ?received [0, 0, 0]")
  have "snd (decodeSoft ?d ?received [0, 0, 0]) = (\<lparr>distance = 1, resultMetric = Reached 11\<rparr>, [1, 0, 0])" by code_simp
  then have result: "resultMetric r = Reached 11" "info' = [1, 0, 0]" using run by simp_all
  have open_end: "vtermination ?d = Open" by code_simp
  have carried: "convolutionalInfoBits fourStateCode (length ?received) (vtermination ?d) = length [0, 0, 0 :: u8]"
    unfolding open_end by code_simp
  have steps: "length ?received div polynomialCount fourStateCode = 3" by code_simp
  have "[0, 0, 0 :: u8] \<noteq> []" by simp
  from viterbi_soft_best_correlation [OF fourState(1) softConfigured [OF configured] this carried run, unfolded steps]
  obtain s us where "resultMetric r = Reached (correlation fourStateCode ?received s us)"
    and "\<forall>s' us'. admissible ?d 3 s' us' \<longrightarrow> correlation fourStateCode ?received s' us' \<le> correlation fourStateCode ?received s us"
    by blast
  then have "\<forall>s us. admissible ?d 3 s us \<longrightarrow> correlation fourStateCode ?received s us \<le> 11" using result(1) by simp
  then show ?thesis using run result open_end by (intro exI [of _ ?d] exI [of _ d'] exI [of _ r]) simp
qed

end
