(* ===== verification/ReedSolomon.thy ===== *)
theory ReedSolomon
  imports Prelude
begin

section \<open>Reed-Solomon codes\<close>

text \<open>
  \<^verbatim>\<open>fec/ReedSolomon.hpp\<close>: the logarithm tables of GF(2^M), the generator polynomial, the systematic encoder, the
  errors-and-erasures decoder (Berlekamp-Massey from the erasure locator, Chien search, Forney), the dual-basis recoding
  and the codeblock interleaving.  The template arguments of the code are the fields of a record; the tables the
  compiler builds once per field are built by the same loop.  Symbols and table entries are bytes.  Exponents are
  \<^verbatim>\<open>unsigned\<close>: they are computed as natural numbers, no subtraction in them goes below zero, and
  \<open>modExp\<close> takes them to a 32-bit word first, which is what the wrap-around of their sums and products amounts to.
\<close>

subsection \<open>Field tables\<close>

record GfTables =
  gfExp :: "u8 list"
  gfLog :: "u8 list"

text \<open>One step of the shift register: multiply by the primitive element.\<close>

definition gfStep :: "nat \<Rightarrow> u32 \<Rightarrow> u32 \<Rightarrow> u32" where
  "gfStep bits poly sr =
     (let sr = push_bit 1 sr;
          sr = (if bit sr bits then sr XOR poly else sr)
      in sr AND of_nat (2 ^ bits - 1))"

definition tableStep :: "nat \<Rightarrow> u32 \<Rightarrow> nat \<Rightarrow> u8 list \<times> u8 list \<times> u32 \<Rightarrow> u8 list \<times> u8 list \<times> u32" where
  "tableStep bits poly i t =
     (let (e, l, sr) = t in (e[i := ucast sr], l[unat sr := of_nat i], gfStep bits poly sr))"

definition buildGfTables :: "nat \<Rightarrow> u32 \<Rightarrow> GfTables" where
  "buildGfTables bits poly =
     (let nonzero = 2 ^ bits - 1;
          l = (replicate (2 ^ bits) 0)[0 := of_nat nonzero];
          e = (replicate (2 ^ bits) 0)[nonzero := 0];
          (e, l, sr) = fold (tableStep bits poly) [0..<nonzero] (e, l, 1)
      in \<lparr>gfExp = e, gfLog = l\<rparr>)"

definition expAt :: "GfTables \<Rightarrow> nat \<Rightarrow> u8" where "expAt gf i = gfExp gf ! i"
definition logOf :: "GfTables \<Rightarrow> u8 \<Rightarrow> nat" where "logOf gf x = unat (gfLog gf ! unat x)"

partial_function (option) greatestCommonDivisor :: "u32 \<Rightarrow> u32 \<Rightarrow> u32 option" where
  [code]: "greatestCommonDivisor a b = (if b = 0 then Some a else greatestCommonDivisor b (a mod b))"

definition gfMultiply :: "nat \<Rightarrow> u32 \<Rightarrow> u8 \<Rightarrow> u8 \<Rightarrow> u8" where
  "gfMultiply bits poly a b =
     (let gf = buildGfTables bits poly
      in if a = 0 \<or> b = 0 then 0 else expAt gf ((logOf gf a + logOf gf b) mod (2 ^ bits - 1)))"

subsection \<open>The code\<close>

record RsCode =
  symbolBits :: nat
  fieldPoly :: u32
  roots :: nat
  firstConsecutiveRoot :: nat
  primitiveStep :: nat

definition kBlock :: "RsCode \<Rightarrow> nat" where "kBlock rs = 2 ^ symbolBits rs - 1"

text \<open>The conditions a template instantiation asserts, and that its arguments are of the type \<^verbatim>\<open>unsigned\<close>.\<close>

definition rsCompiles :: "RsCode \<Rightarrow> bool" where
  "rsCompiles rs \<longleftrightarrow> 2 \<le> symbolBits rs \<and> symbolBits rs \<le> 8 \<and> drop_bit (symbolBits rs) (fieldPoly rs) = 1 \<and>
     1 \<le> primitiveStep rs \<and> unat (of_nat (primitiveStep rs) :: u32) = primitiveStep rs \<and>
     greatestCommonDivisor (of_nat (primitiveStep rs)) (of_nat (kBlock rs)) = Some 1 \<and>
     firstConsecutiveRoot rs < kBlock rs"

definition tables :: "RsCode \<Rightarrow> GfTables" where "tables rs = buildGfTables (symbolBits rs) (fieldPoly rs)"

definition modExp :: "RsCode \<Rightarrow> nat \<Rightarrow> nat" where "modExp rs x = unat (of_nat x :: u32) mod kBlock rs"

definition rootExponent :: "RsCode \<Rightarrow> nat \<Rightarrow> nat" where
  "rootExponent rs index = modExp rs (primitiveStep rs * (firstConsecutiveRoot rs + index))"

definition generatorStep :: "RsCode \<Rightarrow> GfTables \<Rightarrow> nat \<Rightarrow> u8 list \<Rightarrow> u8 list" where
  "generatorStep rs gf i g =
     (let root = rootExponent rs i;
          g = g[i + 1 := 1];
          g = fold (\<lambda>j g. if g ! j \<noteq> 0 then g[j := g ! (j - 1) XOR expAt gf (modExp rs (logOf gf (g ! j) + root))]
                       else g[j := g ! (j - 1)]) (rev [1..<i + 1]) g
      in g[0 := expAt gf (modExp rs (logOf gf (g ! 0) + root))])"

definition generator :: "RsCode \<Rightarrow> nat list" where
  "generator rs =
     (let gf = tables rs
      in map (logOf gf) (fold (generatorStep rs gf) [0..<roots rs] ((replicate (roots rs + 1) 0)[0 := 1])))"

subsection \<open>The encoder\<close>

definition parityStep :: "RsCode \<Rightarrow> GfTables \<Rightarrow> nat list \<Rightarrow> u8 \<Rightarrow> u8 list \<Rightarrow> u8 list" where
  "parityStep rs gf g symbol parity =
     (let feedback = logOf gf (symbol XOR parity ! 0);
          parity = (if feedback \<noteq> kBlock rs
                    then fold (\<lambda>j parity. parity[j := parity ! j XOR expAt gf (modExp rs (feedback + g ! (roots rs - j)))])
                      [1..<roots rs] parity
                    else parity);
          parity = fold (\<lambda>j parity. parity[j := parity ! (j + 1)]) [0..<roots rs - 1] parity
      in parity[roots rs - 1 := if feedback \<noteq> kBlock rs then expAt gf (modExp rs (feedback + g ! 0)) else 0])"

definition encodeBlock :: "RsCode \<Rightarrow> u8 list \<Rightarrow> nat \<Rightarrow> bool \<times> u8 list" where
  "encodeBlock rs block pad =
     (let gf = tables rs; g = generator rs
      in if symbolBits rs < 8 \<and> list_ex (\<lambda>i. unat (block ! i) > kBlock rs) [pad..<kBlock rs - roots rs] then (False, block)
         else
           let parity = fold (\<lambda>i. parityStep rs gf g (block ! i)) [pad..<kBlock rs - roots rs] (replicate (roots rs) 0)
           in (True, fold (\<lambda>j block. block[kBlock rs - roots rs + j := parity ! j]) [0..<roots rs] block))"

subsection \<open>The decoder\<close>

record RsResult =
  rsErrors :: nat
  rsValid :: bool
  rsPadCorrupted :: bool

definition noRsResult :: RsResult where "noRsResult = \<lparr>rsErrors = 0, rsValid = False, rsPadCorrupted = False\<rparr>"

definition syndromeAt :: "RsCode \<Rightarrow> GfTables \<Rightarrow> u8 list \<Rightarrow> nat \<Rightarrow> u8" where
  "syndromeAt rs gf block point =
     fold (\<lambda>j s. block ! j XOR (if s = 0 then 0 else expAt gf (modExp rs (logOf gf s + point)))) [1..<kBlock rs] (block ! 0)"

definition syndromes :: "RsCode \<Rightarrow> GfTables \<Rightarrow> u8 list \<Rightarrow> u8 list" where
  "syndromes rs gf block = map (\<lambda>i. syndromeAt rs gf block (rootExponent rs i)) [0..<roots rs]"

definition erasureLocator :: "RsCode \<Rightarrow> GfTables \<Rightarrow> nat list \<Rightarrow> u8 list" where
  "erasureLocator rs gf erasures =
     fold (\<lambda>k lam.
         let locator = modExp rs (primitiveStep rs * (kBlock rs - 1 - erasures ! k))
         in fold (\<lambda>j lam. if lam ! (j - 1) \<noteq> 0
               then lam[j := lam ! j XOR expAt gf (modExp rs (locator + logOf gf (lam ! (j - 1))))] else lam)
              (rev [1..<k + 2]) lam)
       [0..<length erasures] ((replicate (roots rs + 1) 0)[0 := 1])"

record BmState =
  bmLambda :: "u8 list"
  bmBack :: "nat list"
  bmLength :: nat

definition discrepancyAt :: "RsCode \<Rightarrow> GfTables \<Rightarrow> nat list \<Rightarrow> nat \<Rightarrow> u8 list \<Rightarrow> u8" where
  "discrepancyAt rs gf syndromeLog r lam =
     fold (\<lambda>i d. if lam ! i \<noteq> 0 \<and> syndromeLog ! (r - i - 1) \<noteq> kBlock rs
                then d XOR expAt gf (modExp rs (logOf gf (lam ! i) + syndromeLog ! (r - i - 1))) else d) [0..<r] 0"

text \<open>The logarithms of the auxiliary polynomial, moved up one power.\<close>

definition shiftBack :: "RsCode \<Rightarrow> nat list \<Rightarrow> nat list" where
  "shiftBack rs b = (fold (\<lambda>i b. b[i := b ! (i - 1)]) (rev [1..<roots rs + 1]) b)[0 := kBlock rs]"

definition bmStep :: "RsCode \<Rightarrow> GfTables \<Rightarrow> nat list \<Rightarrow> nat \<Rightarrow> nat \<Rightarrow> BmState \<Rightarrow> BmState" where
  "bmStep rs gf syndromeLog erased r st =
     (let lam = bmLambda st; d = logOf gf (discrepancyAt rs gf syndromeLog r lam)
      in if d = kBlock rs then st\<lparr>bmBack := shiftBack rs (bmBack st)\<rparr>
         else
           let next = fold (\<lambda>i next. next[i + 1 :=
                 if bmBack st ! i \<noteq> kBlock rs then lam ! (i + 1) XOR expAt gf (modExp rs (d + bmBack st ! i)) else lam ! (i + 1)])
                 [0..<roots rs] ((replicate (roots rs + 1) 0)[0 := lam ! 0])
           in if 2 * bmLength st \<le> r + erased - 1
              then \<lparr>bmLambda = next,
                     bmBack = map (\<lambda>x. if x = 0 then kBlock rs else modExp rs (logOf gf x + kBlock rs - d)) lam,
                     bmLength = r + erased - bmLength st\<rparr>
              else st\<lparr>bmLambda := next, bmBack := shiftBack rs (bmBack st)\<rparr>)"

definition berlekampMassey :: "RsCode \<Rightarrow> GfTables \<Rightarrow> nat list \<Rightarrow> nat list \<Rightarrow> u8 list" where
  "berlekampMassey rs gf syndromeLog erasures =
     (let lam = erasureLocator rs gf erasures; erased = length erasures
      in bmLambda (fold (bmStep rs gf syndromeLog erased) [erased + 1..<roots rs + 1]
           \<lparr>bmLambda = lam, bmBack = map (logOf gf) lam, bmLength = erased\<rparr>))"

definition locatorDegree :: "RsCode \<Rightarrow> nat list \<Rightarrow> nat" where
  "locatorDegree rs lambdaLog = fold (\<lambda>i d. if lambdaLog ! i \<noteq> kBlock rs then i else d) [0..<roots rs + 1] 0"

text \<open>The Chien search, from candidate \<open>i\<close> on: the roots' exponents and the locations, in the order found.\<close>

definition chienStep :: "RsCode \<Rightarrow> GfTables \<Rightarrow> nat \<Rightarrow> nat list \<Rightarrow> nat list \<times> u8" where
  "chienStep rs gf degree reg =
     fold (\<lambda>j (reg, q). if reg ! j \<noteq> kBlock rs
             then let e = modExp rs (reg ! j + j * primitiveStep rs) in (reg[j := e], q XOR expAt gf e)
             else (reg, q))
       (rev [1..<degree + 1]) (reg, 1)"

fun chienSearch :: "RsCode \<Rightarrow> GfTables \<Rightarrow> nat \<Rightarrow> nat list \<Rightarrow> nat list \<Rightarrow> (nat \<times> nat) list \<Rightarrow> (nat \<times> nat) list" where
  "chienSearch rs gf degree [] reg found = found"
| "chienSearch rs gf degree (i # is) reg found =
     (let (reg, q) = chienStep rs gf degree reg
      in if q \<noteq> 0 then chienSearch rs gf degree is reg found
         else
           let found = found @ [(modExp rs (primitiveStep rs * i), i - 1)]
           in if length found = degree then found else chienSearch rs gf degree is reg found)"

definition omegaLogs :: "RsCode \<Rightarrow> GfTables \<Rightarrow> nat list \<Rightarrow> nat list \<Rightarrow> nat \<Rightarrow> nat list" where
  "omegaLogs rs gf syndromeLog lambdaLog degree =
     map (\<lambda>i. logOf gf (fold (\<lambda>j acc. if syndromeLog ! (i - j) \<noteq> kBlock rs \<and> lambdaLog ! j \<noteq> kBlock rs
                then acc XOR expAt gf (modExp rs (syndromeLog ! (i - j) + lambdaLog ! j)) else acc)
              (rev [0..<(if degree < i then degree else i) + 1]) 0))
       [0..<degree]"

definition forneyNumerator :: "RsCode \<Rightarrow> GfTables \<Rightarrow> nat list \<Rightarrow> nat \<Rightarrow> nat \<Rightarrow> u8" where
  "forneyNumerator rs gf omegaLog degree root =
     fold (\<lambda>i acc. if omegaLog ! i \<noteq> kBlock rs then acc XOR expAt gf (modExp rs (omegaLog ! i + i * root)) else acc)
       (rev [0..<degree]) 0"

definition forneyDenominator :: "RsCode \<Rightarrow> GfTables \<Rightarrow> nat list \<Rightarrow> nat \<Rightarrow> nat \<Rightarrow> u8" where
  "forneyDenominator rs gf lambdaLog degree root =
     (let cap = (if degree < roots rs - 1 then degree else roots rs - 1)
      in fold (\<lambda>h acc. if lambdaLog ! (2 * h + 1) \<noteq> kBlock rs
               then acc XOR expAt gf (modExp rs (lambdaLog ! (2 * h + 1) + (2 * h) * root)) else acc)
           (rev [0..<cap div 2 + 1]) 0)"

definition forneyStep :: "RsCode \<Rightarrow> GfTables \<Rightarrow> nat list \<Rightarrow> nat list \<Rightarrow> nat \<Rightarrow> nat \<times> nat \<Rightarrow> u8 list \<times> RsResult \<Rightarrow> u8 list \<times> RsResult" where
  "forneyStep rs gf omegaLog lambdaLog degree place st =
     (let (root, location) = place;
          numerator = forneyNumerator rs gf omegaLog degree root;
          denominator = forneyDenominator rs gf lambdaLog degree root
      in if numerator = 0 \<or> denominator = 0 then st
         else
           let inverseExp = modExp rs (kBlock rs - root);
               factorExp = modExp rs (inverseExp * modExp rs (kBlock rs + 1 - firstConsecutiveRoot rs));
               magnitude = modExp rs (factorExp + logOf gf numerator + kBlock rs - logOf gf denominator)
           in ((fst st)[location := fst st ! location XOR expAt gf magnitude], (snd st)\<lparr>rsErrors := rsErrors (snd st) + 1\<rparr>))"

definition checkedResult :: "RsCode \<Rightarrow> GfTables \<Rightarrow> nat \<Rightarrow> u8 list \<times> RsResult \<Rightarrow> u8 list \<times> RsResult" where
  "checkedResult rs gf pad st =
     (let (block, result) = st;
          result = (if list_ex (\<lambda>i. block ! i \<noteq> 0) [0..<pad] then result\<lparr>rsPadCorrupted := True\<rparr> else result)
      in if list_ex (\<lambda>i. syndromeAt rs gf block (rootExponent rs i) \<noteq> 0) [0..<roots rs] then (block, result)
         else (block, result\<lparr>rsValid := \<not> rsPadCorrupted result\<rparr>))"

definition correct :: "RsCode \<Rightarrow> u8 list \<Rightarrow> nat list \<Rightarrow> nat \<Rightarrow> u8 list \<times> RsResult" where
  "correct rs block erasures pad =
     (let gf = tables rs
      in if symbolBits rs < 8 \<and> list_ex (\<lambda>symbol. unat symbol > kBlock rs) block then (block, noRsResult)
         else
           let syndrome = syndromes rs gf block
           in if list_all (\<lambda>s. s = 0) syndrome then (block, noRsResult\<lparr>rsValid := True\<rparr>)
              else
                let syndromeLog = map (logOf gf) syndrome;
                    lambdaLog = map (logOf gf) (berlekampMassey rs gf syndromeLog erasures);
                    degree = locatorDegree rs lambdaLog
                in if degree = 0 then (block, noRsResult)
                   else
                     let found = chienSearch rs gf degree [1..<kBlock rs + 1] (lambdaLog[0 := 0]) []
                     in if length found \<noteq> degree then (block, noRsResult)
                        else
                          let omegaLog = omegaLogs rs gf syndromeLog lambdaLog degree
                          in checkedResult rs gf pad
                               (fold (forneyStep rs gf omegaLog lambdaLog degree) (rev found) (block, noRsResult)))"

definition decodeBlock :: "RsCode \<Rightarrow> u8 list \<Rightarrow> nat \<Rightarrow> u8 list \<times> RsResult" where
  "decodeBlock rs block pad = correct rs block [] pad"

fun positionsAccepted :: "RsCode \<Rightarrow> nat \<Rightarrow> nat list \<Rightarrow> bool list \<Rightarrow> bool" where
  "positionsAccepted rs pad [] named = True"
| "positionsAccepted rs pad (position # positions) named =
     (if position < pad \<or> position \<ge> kBlock rs \<or> named ! position then False
      else positionsAccepted rs pad positions (named[position := True]))"

definition decodeWithErasures :: "RsCode \<Rightarrow> u8 list \<Rightarrow> nat list \<Rightarrow> nat \<Rightarrow> u8 list \<times> RsResult" where
  "decodeWithErasures rs block erasures pad =
     (if length erasures > roots rs then (block, noRsResult)
      else if \<not> positionsAccepted rs pad erasures (replicate (kBlock rs) False) then (block, noRsResult)
      else correct rs block erasures pad)"

subsection \<open>The named families\<close>

definition reedSolomon6 :: "nat \<Rightarrow> RsCode" where
  "reedSolomon6 r = \<lparr>symbolBits = 6, fieldPoly = 0x43, roots = r, firstConsecutiveRoot = 1, primitiveStep = 1\<rparr>"

definition reedSolomonCcsds :: "nat \<Rightarrow> nat \<Rightarrow> RsCode" where
  "reedSolomonCcsds r fcr = \<lparr>symbolBits = 8, fieldPoly = 0x187, roots = r, firstConsecutiveRoot = fcr, primitiveStep = 11\<rparr>"

definition reedSolomonCcsds255_223 :: RsCode where "reedSolomonCcsds255_223 = reedSolomonCcsds 32 112"
definition reedSolomonCcsds255_239 :: RsCode where "reedSolomonCcsds255_239 = reedSolomonCcsds 16 120"

subsection \<open>The dual basis\<close>

definition basisTrace :: "nat \<Rightarrow> u32 \<Rightarrow> u8 \<Rightarrow> u8" where
  "basisTrace bits poly z =
     fst (fold (\<lambda>k (sum, power). (sum XOR power, gfMultiply bits poly power power)) [0..<bits] (0, z))"

definition traceMatrix :: "nat \<Rightarrow> u32 \<Rightarrow> nat \<Rightarrow> u8 list" where
  "traceMatrix bits poly basisExponent =
     (let gf = buildGfTables bits poly; nonzero = 2 ^ bits - 1
      in map (\<lambda>j. let basis = (basisExponent * j) mod 2 ^ 32 mod nonzero
                  in fold (\<lambda>k row. row OR push_bit k (basisTrace bits poly (expAt gf ((basis + k) mod nonzero)))) [0..<bits] 0)
           [0..<bits])"

definition dualOf :: "nat \<Rightarrow> u8 list \<Rightarrow> nat \<Rightarrow> u8" where
  "dualOf bits rows v =
     fold (\<lambda>j dual. dual OR ucast (push_bit (bits - 1 - j) (of_nat (popcount (ucast (rows ! j) AND (of_nat v :: u32))) AND 1 :: u32)))
       [0..<bits] 0"

definition forwardTable :: "nat \<Rightarrow> u32 \<Rightarrow> nat \<Rightarrow> u8 list" where
  "forwardTable bits poly basisExponent =
     (let rows = traceMatrix bits poly basisExponent in map (dualOf bits rows) [0..<2 ^ bits])"

definition scatterTable :: "nat \<Rightarrow> u8 list \<Rightarrow> u8 list" where
  "scatterTable bits forward =
     (let (table, written) = fold (\<lambda>v (table, written :: u8 list).
            (table[unat (forward ! v) := of_nat v], written[unat (forward ! v) := written ! unat (forward ! v) + 1]))
            [0..<2 ^ bits] (replicate (2 ^ bits) 0, replicate (2 ^ bits) 0)
      in if list_ex (\<lambda>count. count \<noteq> 1) written then replicate (2 ^ bits) 0 else table)"

definition inverseTable :: "nat \<Rightarrow> u32 \<Rightarrow> nat \<Rightarrow> u8 list" where
  "inverseTable bits poly basisExponent = scatterTable bits (forwardTable bits poly basisExponent)"

definition toDual :: "nat \<Rightarrow> u32 \<Rightarrow> nat \<Rightarrow> u8 \<Rightarrow> u8" where
  "toDual bits poly basisExponent conventional = forwardTable bits poly basisExponent ! unat conventional"

definition fromDual :: "nat \<Rightarrow> u32 \<Rightarrow> nat \<Rightarrow> u8 \<Rightarrow> u8" where
  "fromDual bits poly basisExponent dual = inverseTable bits poly basisExponent ! unat dual"

definition isBijective :: "nat \<Rightarrow> u32 \<Rightarrow> nat \<Rightarrow> bool" where
  "isBijective bits poly basisExponent =
     (let forward = forwardTable bits poly basisExponent; inverse = scatterTable bits forward
      in list_all (\<lambda>v. inverse ! unat (forward ! v) = of_nat v \<and> forward ! unat (inverse ! v) = of_nat v) [0..<2 ^ bits])"

definition basisElement :: "nat \<Rightarrow> u32 \<Rightarrow> nat \<Rightarrow> nat \<Rightarrow> u8" where
  "basisElement bits poly basisExponent index =
     fromDual bits poly basisExponent (ucast (push_bit (bits - 1 - index) 1 :: u32))"

subsection \<open>Codeblock interleaving\<close>

definition ccsdsInterleaveDepthAllowed :: "nat \<Rightarrow> bool" where
  "ccsdsInterleaveDepthAllowed depth \<longleftrightarrow> depth = 1 \<or> depth = 2 \<or> depth = 3 \<or> depth = 4 \<or> depth = 5 \<or> depth = 8"

definition interleaveCodewords :: "u8 list \<Rightarrow> u8 list \<Rightarrow> nat \<Rightarrow> nat \<Rightarrow> u8 list" where
  "interleaveCodewords codewords codeblock rows depth =
     (let count = rows * depth
      in if length codewords < count \<or> length codeblock < count then codeblock
         else fold (\<lambda>s codeblock. codeblock[s := codewords ! ((s mod depth) * rows + s div depth)]) [0..<count] codeblock)"

definition deinterleaveCodewords :: "u8 list \<Rightarrow> u8 list \<Rightarrow> nat \<Rightarrow> nat \<Rightarrow> u8 list" where
  "deinterleaveCodewords codeblock codewords rows depth =
     (let count = rows * depth
      in if length codeblock < count \<or> length codewords < count then codewords
         else fold (\<lambda>s codewords. codewords[(s mod depth) * rows + s div depth := codeblock ! s]) [0..<count] codewords)"

end

