(* ===== verification/ReedSolomonField.thy ===== *)
theory ReedSolomonField
  imports ReedSolomon
begin

section \<open>The field behind the Reed-Solomon tables\<close>

text \<open>
  The shift register is linear, and where the field polynomial is primitive the tables it fills are a logarithm and
  an antilogarithm: looking a product up in them is stepping the register.  Polynomials over the field are evaluated by
  Horner's rule at a power of the primitive element, and the generator polynomial vanishes at its roots.
\<close>

subsection \<open>The shift register\<close>

lemma bit_gfStep:
  assumes "bits \<le> 8"
  shows "bit (gfStep bits poly sr) i \<longleftrightarrow> i < bits \<and> ((0 < i \<and> bit sr (i - 1)) \<noteq> (0 < bits \<and> bit sr (bits - 1) \<and> bit poly i))"
proof -
  have "word_of_nat (2 ^ bits - 1) = (mask bits :: u32)" by (simp add: mask_eq_exp_minus_1 of_nat_diff)
  then show ?thesis
    using assms unfolding gfStep_def Let_def
    by (auto simp: bit_and_iff bit_mask_iff bit_push_bit_iff bit_xor_iff simp del: push_bit_Suc)
qed

lemma gfStep_xor: "bits \<le> 8 \<Longrightarrow> gfStep bits poly (a XOR b) = gfStep bits poly a XOR gfStep bits poly b"
  by (rule bit_word_eqI) (auto simp: bit_gfStep bit_xor_iff)

lemma gfStep_0 [simp]: "bits \<le> 8 \<Longrightarrow> gfStep bits poly 0 = 0"
  by (rule bit_word_eqI) (auto simp: bit_gfStep)

abbreviation gfPow :: "nat \<Rightarrow> u32 \<Rightarrow> nat \<Rightarrow> u32 \<Rightarrow> u32" where
  "gfPow bits poly r \<equiv> gfStep bits poly ^^ r"

lemma gfPow_xor: "bits \<le> 8 \<Longrightarrow> gfPow bits poly r (a XOR b) = gfPow bits poly r a XOR gfPow bits poly r b"
  by (induction r) (simp_all add: gfStep_xor)

lemma gfPow_0 [simp]: "bits \<le> 8 \<Longrightarrow> gfPow bits poly r 0 = 0"
  by (induction r) simp_all

definition inField :: "nat \<Rightarrow> 'a::len word \<Rightarrow> bool" where
  "inField bits x \<longleftrightarrow> (\<forall>i. bit x i \<longrightarrow> i < bits)"

lemma inField_simps [simp]:
  "inField bits 0" "inField bits a \<Longrightarrow> inField bits b \<Longrightarrow> inField bits (a XOR b)"
  "0 < bits \<Longrightarrow> inField bits 1"
  by (auto simp: inField_def bit_xor_iff bit_1_iff)

lemma inField_unat: "inField bits x \<longleftrightarrow> unat x < 2 ^ bits" for x :: "'a::len word"
proof
  assume "inField bits x"
  then have "take_bit bits x = x" by (intro bit_word_eqI) (auto simp: inField_def bit_take_bit_iff)
  then show "unat x < 2 ^ bits" by (metis take_bit_nat_less_exp unsigned_take_bit_eq)
qed (auto simp: inField_def intro: bits_below)

lemma inField_ucast [simp]: "inField bits x \<Longrightarrow> inField bits (ucast x)"
  by (auto simp: inField_def bit_ucast_iff)

lemma inField_step [simp]: "bits \<le> 8 \<Longrightarrow> inField bits (gfStep bits poly x)"
  by (auto simp: inField_def bit_gfStep)

lemma inField_pow: "bits \<le> 8 \<Longrightarrow> inField bits x \<Longrightarrow> inField bits (gfPow bits poly r x)"
  by (cases r) simp_all

text \<open>The polynomial is primitive: the register runs through \<open>2 ^ bits - 1\<close> values before it repeats.\<close>

definition primitiveField :: "nat \<Rightarrow> u32 \<Rightarrow> bool" where
  "primitiveField bits poly \<longleftrightarrow> 2 \<le> bits \<and> bits \<le> 8 \<and> gfPow bits poly (2 ^ bits - 1) 1 = 1 \<and>
     (\<forall>i. 0 < i \<longrightarrow> i < 2 ^ bits - 1 \<longrightarrow> gfPow bits poly i 1 \<noteq> 1)"

lemma primitiveFieldD:
  assumes "primitiveField bits poly"
  shows "2 \<le> bits" "bits \<le> 8" "gfPow bits poly (2 ^ bits - 1) 1 = 1"
    "\<And>i. 0 < i \<Longrightarrow> i < 2 ^ bits - 1 \<Longrightarrow> gfPow bits poly i 1 \<noteq> 1" "3 \<le> (2 ^ bits - 1 :: nat)" "(2 ^ bits :: nat) \<le> 256"
proof -
  show bits: "2 \<le> bits" "bits \<le> 8" and "gfPow bits poly (2 ^ bits - 1) 1 = 1"
    and "\<And>i. 0 < i \<Longrightarrow> i < 2 ^ bits - 1 \<Longrightarrow> gfPow bits poly i 1 \<noteq> 1"
    using assms unfolding primitiveField_def by blast+
  have "(2 :: nat) ^ 2 \<le> 2 ^ bits" "(2 :: nat) ^ bits \<le> 2 ^ 8" using bits by (intro power_increasing; simp)+
  then show "3 \<le> (2 ^ bits - 1 :: nat)" "(2 ^ bits :: nat) \<le> 256" by simp_all
qed

lemma inField_gfPow: "primitiveField bits poly \<Longrightarrow> inField bits (gfPow bits poly r 1)"
  using primitiveFieldD(1,2) [of bits poly] by (intro inField_pow) simp_all

lemma gfPow_add: "gfPow bits poly (a + b) x = gfPow bits poly a (gfPow bits poly b x)"
  by (simp add: funpow_add)

lemma gfPow_period:
  assumes "primitiveField bits poly"
  shows "gfPow bits poly (r mod (2 ^ bits - 1)) 1 = gfPow bits poly r 1"
proof -
  let ?N = "2 ^ bits - 1 :: nat"
  note once = primitiveFieldD(3) [OF assms]
  have "gfPow bits poly (s + ?N * q) 1 = gfPow bits poly s 1" for q s
  proof (induction q)
    case (Suc q)
    have "s + ?N * Suc q = (s + ?N * q) + ?N" by (metis add.assoc add.commute mult_Suc_right)
    then show ?case using Suc once by (simp only: gfPow_add)
  qed simp
  from this [of "r mod ?N" "r div ?N"] show ?thesis by simp
qed

lemma gfPow_inject:
  assumes "primitiveField bits poly" "i < 2 ^ bits - 1" "j < 2 ^ bits - 1" "gfPow bits poly i 1 = gfPow bits poly j 1"
  shows "i = j"
proof (rule ccontr)
  have wrong: False if "i < j" "j < 2 ^ bits - 1" "gfPow bits poly i 1 = gfPow bits poly j 1" for i j
  proof -
    let ?N = "2 ^ bits - 1 :: nat"
    have "gfPow bits poly (?N - j + i) 1 = gfPow bits poly (?N - j + j) 1" unfolding gfPow_add that(3) ..
    also have "?N - j + j = ?N" using that(2) by simp
    also note primitiveFieldD(3) [OF assms(1)]
    finally have "gfPow bits poly (?N - j + i) 1 = 1" .
    moreover have "0 < ?N - j + i" "?N - j + i < ?N" using that(1,2) by linarith+
    ultimately show False using primitiveFieldD(4) [OF assms(1), of "?N - j + i"] by simp
  qed
  assume "i \<noteq> j"
  then show False using wrong [of i j] wrong [of j i] assms by (cases "i < j") auto
qed

lemma gfPow_nonzero:
  assumes "primitiveField bits poly"
  shows "gfPow bits poly r 1 \<noteq> 0"
proof
  assume zero: "gfPow bits poly r 1 = 0"
  note bits = primitiveFieldD(2,5) [OF assms]
  define s where "s = (2 ^ bits - 1) * Suc r - r"
  have "1 * Suc r \<le> (2 ^ bits - 1) * Suc r" using bits(2) by (intro mult_le_mono1) linarith
  then have s: "s + r = (2 ^ bits - 1) * Suc r" by (simp add: s_def)
  have "gfPow bits poly ((2 ^ bits - 1) * Suc r) 1 = gfPow bits poly 0 1"
    by (subst gfPow_period [OF assms, symmetric]) (simp only: mod_mult_self1_is_0)
  moreover have "gfPow bits poly (s + r) 1 = 0" using zero bits unfolding gfPow_add by simp
  ultimately show False unfolding s by simp
qed

text \<open>Every nonzero field element is a power of the primitive element.\<close>

lemma gfPow_surj:
  assumes "primitiveField bits poly" "inField bits x" "x \<noteq> 0"
  obtains i where "i < 2 ^ bits - 1" "x = gfPow bits poly i 1"
proof -
  let ?N = "2 ^ bits - 1 :: nat" and ?f = "\<lambda>i. unat (gfPow bits poly i 1)"
  note bits = primitiveFieldD(1,2) [OF assms(1)]
  have inj: "inj_on ?f {..<?N}"
    by (rule inj_onI) (use gfPow_inject [OF assms(1)] in \<open>simp add: word_unat_eq_iff\<close>)
  have "?f ` {..<?N} \<subseteq> {1..<2 ^ bits}"
  proof (rule image_subsetI)
    fix i
    show "?f i \<in> {1..<2 ^ bits}" using gfPow_nonzero [OF assms(1), of i] inField_gfPow [OF assms(1), of i] by (simp add: inField_unat unat_gt_0 Suc_le_eq)
  qed
  moreover have "card (?f ` {..<?N}) = card {1..<2 ^ bits :: nat}" using card_image [OF inj] by simp
  ultimately have "?f ` {..<?N} = {1..<2 ^ bits}" by (intro card_subset_eq) simp_all
  moreover have "unat x \<in> {1..<2 ^ bits}" using assms(2,3) by (simp add: inField_unat unat_gt_0 Suc_le_eq)
  ultimately have "unat x \<in> ?f ` {..<?N}" by simp
  then obtain i where "unat x = ?f i" "i \<in> {..<?N}" by (rule imageE)
  then show thesis using that [of i] by (simp add: word_unat_eq_iff)
qed

subsection \<open>The tables\<close>

lemma ucast_byte: "inField bits (x :: u32) \<Longrightarrow> bits \<le> 8 \<Longrightarrow> ucast (ucast x :: u8) = x"
  by (rule bit_word_eqI) (auto simp: inField_def bit_ucast_iff)

lemma unat_ucast_byte: "inField bits (x :: u32) \<Longrightarrow> bits \<le> 8 \<Longrightarrow> unat (ucast x :: u8) = unat x"
proof -
  assume x: "inField bits x" "bits \<le> 8"
  have "unat x < 2 ^ bits" using x by (simp add: inField_unat)
  also have "(2 :: nat) ^ bits \<le> 2 ^ 8" using x(2) by (intro power_increasing) simp_all
  finally show ?thesis by (simp add: unsigned_ucast_eq take_bit_nat_eq_self)
qed

lemma ucast_byte_back [simp]: "ucast (ucast x :: u32) = (x :: u8)"
  by (rule bit_word_eqI) (auto simp: bit_ucast_iff)

lemma table_fold:
  assumes prim: "primitiveField bits poly" and n: "n \<le> 2 ^ bits - 1" and len: "length e0 = 2 ^ bits" "length l0 = 2 ^ bits"
  shows "\<exists>e l. fold (tableStep bits poly) [0..<n] (e0, l0, 1) = (e, l, gfPow bits poly n 1) \<and>
    length e = 2 ^ bits \<and> length l = 2 ^ bits \<and> l ! 0 = l0 ! 0 \<and>
    (\<forall>i<n. e ! i = ucast (gfPow bits poly i 1) \<and> l ! unat (gfPow bits poly i 1) = of_nat i)"
  using n
proof (induction n)
  case (Suc n)
  note bits = primitiveFieldD(1,2) [OF prim]
  obtain e l where IH: "fold (tableStep bits poly) [0..<n] (e0, l0, 1) = (e, l, gfPow bits poly n 1)"
    "length e = 2 ^ bits" "length l = 2 ^ bits" "l ! 0 = l0 ! 0"
    "\<forall>i<n. e ! i = ucast (gfPow bits poly i 1) \<and> l ! unat (gfPow bits poly i 1) = of_nat i"
    using Suc by auto
  let ?sr = "gfPow bits poly n 1"
  have sr: "unat ?sr < 2 ^ bits" "unat ?sr \<noteq> 0"
    using inField_gfPow [OF prim, of n] gfPow_nonzero [OF prim, of n] by (simp_all add: inField_unat unat_eq_0)
  let ?e = "e[n := ucast ?sr]" and ?l = "l[unat ?sr := of_nat n]"
  have other: "unat (gfPow bits poly i 1) \<noteq> unat ?sr" if "i < n" for i
    using gfPow_inject [OF prim, of i n] that Suc.prems by (auto simp: word_unat_eq_iff)
  have "fold (tableStep bits poly) [0..<Suc n] (e0, l0, 1) = (?e, ?l, gfPow bits poly (Suc n) 1)"
    using IH(1) by (simp add: tableStep_def)
  moreover have "length ?e = 2 ^ bits" "length ?l = 2 ^ bits" "?l ! 0 = l0 ! 0" using IH(2-4) sr by simp_all
  moreover have "?e ! i = ucast (gfPow bits poly i 1) \<and> ?l ! unat (gfPow bits poly i 1) = of_nat i" if "i < Suc n" for i
  proof (cases "i = n")
    case True
    then show ?thesis using IH(2,3) sr Suc.prems by simp
  next
    case False
    then show ?thesis using IH(5) other [of i] that by simp
  qed
  ultimately show ?case by blast
qed (use len in simp)

lemma gfTables:
  assumes prim: "primitiveField bits poly"
  shows "i < 2 ^ bits - 1 \<Longrightarrow> expAt (buildGfTables bits poly) i = ucast (gfPow bits poly i 1)"
    "i < 2 ^ bits - 1 \<Longrightarrow> logOf (buildGfTables bits poly) (ucast (gfPow bits poly i 1)) = i"
    "logOf (buildGfTables bits poly) 0 = 2 ^ bits - 1"
proof -
  let ?N = "2 ^ bits - 1 :: nat"
  note bits = primitiveFieldD(1,2) [OF prim]
  note N = primitiveFieldD(6) [OF prim]
  let ?e = "(replicate (2 ^ bits) 0)[?N := 0] :: u8 list" and ?l = "(replicate (2 ^ bits) 0)[0 := of_nat ?N] :: u8 list"
  obtain e l where run: "fold (tableStep bits poly) [0..<?N] (?e, ?l, 1) = (e, l, gfPow bits poly ?N 1)"
    "length e = 2 ^ bits" "length l = 2 ^ bits" "l ! 0 = ?l ! 0"
    "\<forall>i<?N. e ! i = ucast (gfPow bits poly i 1) \<and> l ! unat (gfPow bits poly i 1) = of_nat i"
    using table_fold [OF prim order.refl, of ?e ?l] by auto
  have gf: "buildGfTables bits poly = \<lparr>gfExp = e, gfLog = l\<rparr>" unfolding buildGfTables_def Let_def run(1) by simp
  show "expAt (buildGfTables bits poly) i = ucast (gfPow bits poly i 1)" if "i < ?N"
    using run(5) that unfolding gf expAt_def by simp
  have small: "unat (of_nat i :: u8) = i" if "i \<le> ?N" for i
  proof -
    have "i < 256" using that N by linarith
    then show ?thesis by (simp add: unat_of_nat)
  qed
  show "logOf (buildGfTables bits poly) (ucast (gfPow bits poly i 1)) = i" if "i < ?N"
  proof -
    have "unat (ucast (gfPow bits poly i 1) :: u8) = unat (gfPow bits poly i 1)"
      by (rule unat_ucast_byte [OF inField_gfPow [OF prim] bits(2)])
    then show ?thesis using run(5) that small unfolding gf logOf_def by simp
  qed
  show "logOf (buildGfTables bits poly) 0 = ?N" using run(4) small [of ?N] bits unfolding gf logOf_def by simp
qed

subsection \<open>Multiplication by a power of the primitive element\<close>

definition timesAlpha :: "nat \<Rightarrow> u32 \<Rightarrow> nat \<Rightarrow> u8 \<Rightarrow> u8" where
  "timesAlpha bits poly r x = ucast (gfPow bits poly r (ucast x))"

lemma timesAlpha_linear:
  assumes "bits \<le> 8"
  shows "timesAlpha bits poly r (a XOR b) = timesAlpha bits poly r a XOR timesAlpha bits poly r b"
    "timesAlpha bits poly r 0 = 0" "inField bits a \<Longrightarrow> inField bits (timesAlpha bits poly r a)"
proof -
  have cast: "ucast (x XOR y) = (ucast x XOR ucast y :: u32)" for x y :: u8
    by (rule bit_word_eqI) (auto simp: bit_ucast_iff bit_xor_iff)
  have cast': "ucast (x XOR y) = (ucast x XOR ucast y :: u8)" for x y :: u32
    by (rule bit_word_eqI) (auto simp: bit_ucast_iff bit_xor_iff)
  show "timesAlpha bits poly r (a XOR b) = timesAlpha bits poly r a XOR timesAlpha bits poly r b"
    by (simp add: timesAlpha_def cast cast' gfPow_xor [OF assms])
  show "timesAlpha bits poly r 0 = 0" by (simp add: timesAlpha_def assms)
  show "inField bits a \<Longrightarrow> inField bits (timesAlpha bits poly r a)"
    by (simp add: timesAlpha_def inField_pow [OF assms])
qed

lemma timesAlpha_add:
  assumes "bits \<le> 8" "inField bits x"
  shows "timesAlpha bits poly a (timesAlpha bits poly b x) = timesAlpha bits poly (a + b) x"
  using assms by (simp add: timesAlpha_def ucast_byte [OF inField_pow] gfPow_add)

lemma timesAlpha_zero_power [simp]: "timesAlpha bits poly 0 x = x"
  by (simp add: timesAlpha_def)

text \<open>A field element and its logarithm.\<close>

lemma field_log:
  assumes "primitiveField bits poly" "inField bits x" "x \<noteq> 0"
  shows "logOf (buildGfTables bits poly) x < 2 ^ bits - 1" "x = timesAlpha bits poly (logOf (buildGfTables bits poly) x) 1"
proof -
  have "inField bits (ucast x :: u32)" using assms(2) by simp
  moreover have "(ucast x :: u32) \<noteq> 0" using assms(3) by (metis ucast_byte_back unsigned_0)
  ultimately obtain i where i: "i < 2 ^ bits - 1" "ucast x = gfPow bits poly i 1" by (rule gfPow_surj [OF assms(1)])
  then have x: "x = ucast (gfPow bits poly i 1)" by (metis ucast_byte_back)
  then have "logOf (buildGfTables bits poly) x = i" using gfTables(2) [OF assms(1) i(1)] by simp
  then show "logOf (buildGfTables bits poly) x < 2 ^ bits - 1" "x = timesAlpha bits poly (logOf (buildGfTables bits poly) x) 1"
    using i(1) x by (simp_all add: timesAlpha_def)
qed

lemma log_zero_iff:
  assumes "primitiveField bits poly" "inField bits x"
  shows "logOf (buildGfTables bits poly) x = 2 ^ bits - 1 \<longleftrightarrow> x = 0"
  using field_log(1) [OF assms] gfTables(3) [OF assms(1)] by (metis less_irrefl)

lemma timesAlpha_period:
  assumes "primitiveField bits poly" "inField bits x"
  shows "timesAlpha bits poly (r mod (2 ^ bits - 1)) x = timesAlpha bits poly r x"
proof (cases "x = 0")
  case True
  then show ?thesis using primitiveFieldD(2) [OF assms(1)] by (simp add: timesAlpha_linear)
next
  case False
  note bits = primitiveFieldD(2) [OF assms(1)]
  let ?N = "2 ^ bits - 1 :: nat" and ?l = "logOf (buildGfTables bits poly) x"
  note x = field_log(2) [OF assms False]
  have one: "inField bits (1 :: u8)" using primitiveFieldD(1) [OF assms(1)] by simp
  have step: "timesAlpha bits poly s x = ucast (gfPow bits poly (s + ?l) 1)" for s
    by (subst x) (simp add: timesAlpha_add [OF bits one], simp add: timesAlpha_def)
  have "gfPow bits poly (r mod ?N + ?l) 1 = gfPow bits poly (r + ?l) 1"
    using gfPow_period [OF assms(1), of "r mod ?N + ?l"] gfPow_period [OF assms(1), of "r + ?l"] by (simp add: mod_add_left_eq)
  then show ?thesis by (simp add: step)
qed

text \<open>What the tables multiply.\<close>

lemma table_product:
  assumes "primitiveField bits poly" "inField bits x" "x \<noteq> 0"
  shows "expAt (buildGfTables bits poly) ((logOf (buildGfTables bits poly) x + r) mod (2 ^ bits - 1)) = timesAlpha bits poly r x"
proof -
  note bits = primitiveFieldD(2,5) [OF assms(1)]
  let ?N = "2 ^ bits - 1 :: nat" and ?l = "logOf (buildGfTables bits poly) x"
  have one: "inField bits (1 :: u8)" using primitiveFieldD(1) [OF assms(1)] by simp
  have "(?l + r) mod ?N < ?N" using bits(2) by (intro mod_less_divisor) linarith
  then have "expAt (buildGfTables bits poly) ((?l + r) mod ?N) = timesAlpha bits poly ((r + ?l) mod ?N) 1"
    using gfTables(1) [OF assms(1)] by (simp add: timesAlpha_def add.commute)
  also have "\<dots> = timesAlpha bits poly r (timesAlpha bits poly ?l 1)"
    unfolding timesAlpha_period [OF assms(1) one] timesAlpha_add [OF bits(1) one] ..
  also have "timesAlpha bits poly ?l 1 = x" using field_log(2) [OF assms] by simp
  finally show ?thesis .
qed

lemma timesAlpha_eq_0:
  assumes "primitiveField bits poly" "inField bits x"
  shows "timesAlpha bits poly r x = 0 \<longleftrightarrow> x = 0"
proof
  note bits = primitiveFieldD(1,2) [OF assms(1)]
  have one: "inField bits (1 :: u8)" using bits by simp
  assume zero: "timesAlpha bits poly r x = 0"
  show "x = 0"
  proof (rule ccontr)
    assume "x \<noteq> 0"
    note x = field_log(2) [OF assms this]
    let ?l = "logOf (buildGfTables bits poly) x"
    have "timesAlpha bits poly (r + ?l) 1 = 0" using zero x timesAlpha_add [OF bits(2) one, of poly r ?l] by simp
    then have "ucast (gfPow bits poly (r + ?l) 1) = (0 :: u8)" by (simp add: timesAlpha_def)
    then have "gfPow bits poly (r + ?l) 1 = 0"
      using ucast_byte [OF inField_gfPow [OF assms(1)] bits(2)] by (metis unsigned_0)
    then show False using gfPow_nonzero [OF assms(1)] by blast
  qed
qed (use primitiveFieldD(2) [OF assms(1)] in \<open>simp add: timesAlpha_linear\<close>)

subsection \<open>Polynomials and Horner's rule\<close>

definition rsField :: "RsCode \<Rightarrow> bool" where
  "rsField rs \<longleftrightarrow> primitiveField (symbolBits rs) (fieldPoly rs) \<and> 1 \<le> roots rs \<and> roots rs < kBlock rs"

abbreviation scale :: "RsCode \<Rightarrow> nat \<Rightarrow> u8 \<Rightarrow> u8" where "scale rs \<equiv> timesAlpha (symbolBits rs) (fieldPoly rs)"
abbreviation symbol :: "RsCode \<Rightarrow> u8 \<Rightarrow> bool" where "symbol rs \<equiv> inField (symbolBits rs)"
abbreviation symbols :: "RsCode \<Rightarrow> u8 list \<Rightarrow> bool" where "symbols rs \<equiv> list_all (symbol rs)"

lemma rsFieldD:
  assumes "rsField rs"
  shows "primitiveField (symbolBits rs) (fieldPoly rs)" "symbolBits rs \<le> 8" "1 \<le> roots rs" "roots rs < kBlock rs"
    "kBlock rs = 2 ^ symbolBits rs - 1" "3 \<le> kBlock rs" "kBlock rs \<le> 255" "symbol rs 1"
  using assms primitiveFieldD [of "symbolBits rs" "fieldPoly rs"] unfolding rsField_def kBlock_def by auto

lemma scale_simps [simp]:
  assumes "rsField rs"
  shows "scale rs r (a XOR b) = scale rs r a XOR scale rs r b" "scale rs r 0 = 0"
    "symbol rs a \<Longrightarrow> symbol rs (scale rs r a)"
    "symbol rs a \<Longrightarrow> scale rs r (scale rs s a) = scale rs (r + s) a"
    "symbol rs a \<Longrightarrow> scale rs r a = 0 \<longleftrightarrow> a = 0"
  using rsFieldD(1,2) [OF assms] by (simp_all add: timesAlpha_linear timesAlpha_add timesAlpha_eq_0)

lemma modExp_small: "x < 2 ^ 32 \<Longrightarrow> modExp rs x = x mod kBlock rs"
  by (simp add: modExp_def unat_of_nat)

lemma modExp_less: "rsField rs \<Longrightarrow> modExp rs x < kBlock rs"
  using rsFieldD(6) [of rs] by (simp add: modExp_def)

lemma log_range:
  assumes "rsField rs" "symbol rs x"
  shows "logOf (tables rs) x \<le> kBlock rs" "logOf (tables rs) x = kBlock rs \<longleftrightarrow> x = 0"
    "x \<noteq> 0 \<Longrightarrow> x = scale rs (logOf (tables rs) x) 1"
  using field_log [OF rsFieldD(1) [OF assms(1)] assms(2)] log_zero_iff [OF rsFieldD(1) [OF assms(1)] assms(2)]
    gfTables(3) [OF rsFieldD(1) [OF assms(1)]]
  unfolding tables_def kBlock_def by (cases "x = 0"; simp)+

lemma product:
  assumes "rsField rs" "symbol rs x" "x \<noteq> 0" "r < 2 ^ 31"
  shows "expAt (tables rs) (modExp rs (logOf (tables rs) x + r)) = scale rs r x"
proof -
  have "logOf (tables rs) x + r < 2 ^ 32" using log_range(1) [OF assms(1,2)] rsFieldD(7) [OF assms(1)] assms(4) by simp
  then show ?thesis
    using table_product [OF rsFieldD(1) [OF assms(1)] assms(2,3), of r] by (simp add: modExp_small tables_def kBlock_def)
qed

lemma exp_nonzero:
  assumes "rsField rs"
  shows "expAt (tables rs) (modExp rs x) = scale rs (modExp rs x) 1" "symbol rs (expAt (tables rs) (modExp rs x))"
    "expAt (tables rs) (modExp rs x) \<noteq> 0"
proof -
  show e: "expAt (tables rs) (modExp rs x) = scale rs (modExp rs x) 1"
    using gfTables(1) [OF rsFieldD(1) [OF assms]] modExp_less [OF assms, of x] rsFieldD(5) [OF assms]
    by (simp add: tables_def timesAlpha_def)
  show "symbol rs (expAt (tables rs) (modExp rs x))" "expAt (tables rs) (modExp rs x) \<noteq> 0"
    unfolding e using assms rsFieldD(8) [OF assms] by simp_all
qed

text \<open>Coefficients with the highest power first.\<close>

definition horner :: "RsCode \<Rightarrow> nat \<Rightarrow> u8 list \<Rightarrow> u8" where
  "horner rs p xs = fold (\<lambda>x s. x XOR scale rs p s) xs 0"

lemma horner_simps [simp]:
  "horner rs p [] = 0" "horner rs p (xs @ [x]) = x XOR scale rs p (horner rs p xs)"
  by (simp_all add: horner_def)

lemma horner_symbol [simp]: "rsField rs \<Longrightarrow> symbols rs xs \<Longrightarrow> symbol rs (horner rs p xs)"
  by (induction xs rule: rev_induct) simp_all

lemma horner_append:
  assumes "rsField rs" "symbols rs xs" "symbols rs ys"
  shows "horner rs p (xs @ ys) = scale rs (p * length ys) (horner rs p xs) XOR horner rs p ys"
  using assms(3)
proof (induction ys rule: rev_induct)
  case Nil
  then show ?case by simp
next
  case (snoc y ys)
  have "horner rs p (xs @ ys @ [y]) = y XOR scale rs p (horner rs p (xs @ ys))"
    using horner_simps(2) [of rs p "xs @ ys" y] by simp
  then show ?case using snoc assms(1,2) by (simp add: ac_simps)
qed

lemma horner_zeros [simp]: "rsField rs \<Longrightarrow> horner rs p (replicate n 0) = 0"
  by (induction n) (simp_all add: replicate_append_same [symmetric])

lemma horner_xor:
  "rsField rs \<Longrightarrow> length xs = length ys \<Longrightarrow> horner rs p (map2 (XOR) xs ys) = horner rs p xs XOR horner rs p ys"
proof (induction xs arbitrary: ys rule: rev_induct)
  case (snoc x xs)
  then obtain ys' y where ys: "ys = ys' @ [y]" by (cases ys rule: rev_cases) auto
  then show ?case using snoc by (simp add: ac_simps)
qed simp

lemma horner_map:
  assumes "rsField rs" "symbols rs xs" "\<And>a b. f (a XOR b) = f a XOR f b" "f 0 = 0"
    "\<And>a. symbol rs a \<Longrightarrow> f (scale rs p a) = scale rs p (f a)"
  shows "horner rs p (map f xs) = f (horner rs p xs)"
  using assms(2) by (induction xs rule: rev_induct) (simp_all add: assms)

lemma fold_map_nth: "fold (\<lambda>j s. f (xs ! j) s) is s = fold f (map ((!) xs) is) s"
  by (simp add: fold_map comp_def)

lemma syndromeAt_horner:
  assumes rs: "rsField rs" and block: "length block = kBlock rs" "symbols rs block" and p: "p < 2 ^ 31"
  shows "syndromeAt rs (tables rs) block p = horner rs p block"
proof -
  obtain x xs where b: "block = x # xs" using block(1) rsFieldD(6) [OF rs] by (cases block) auto
  let ?f = "\<lambda>x s. x XOR (if s = 0 then 0 else expAt (tables rs) (modExp rs (logOf (tables rs) s + p)))"
  have "map ((!) block) [1..<length block] = xs" by (rule nth_equalityI) (simp_all add: b del: upt_Suc)
  then have "syndromeAt rs (tables rs) block p = fold ?f xs x"
    unfolding syndromeAt_def block(1) [symmetric] fold_map_nth [where f = ?f] by (simp add: b del: upt_Suc)
  also have "\<dots> = fold (\<lambda>x s. x XOR scale rs p s) xs x"
    using b block(2)
  proof -
    have "symbol rs s \<Longrightarrow> symbols rs ys \<Longrightarrow> fold ?f ys s = fold (\<lambda>x s. x XOR scale rs p s) ys s" for ys s
      using product [OF rs _ _ p] rs by (induction ys arbitrary: s) simp_all
    then show ?thesis using b block(2) by simp
  qed
  finally show ?thesis using rs by (simp add: b horner_def)
qed

end
