(* ===== verification/ReedSolomonProperties.thy ===== *)
theory ReedSolomonProperties
  imports ReedSolomonField
begin

section \<open>What the Reed-Solomon encoder and decoder promise\<close>

text \<open>
  The generator polynomial the code builds vanishes at every root, the encoder's register leaves the remainder of the
  message by it, so an encoded block has no syndrome; the decoder changes exactly as many symbols as it reports, keeps
  every symbol in the field, and calls a block valid only when it is a word of the shortened code.
\<close>

subsection \<open>The generator polynomial\<close>

lemma fold_descending:
  assumes "i < length g"
  shows "length (fold (\<lambda>j g. g[j := F (g ! (j - 1)) (g ! j)]) (rev [1..<i + 1]) g) = length g"
    "k < length g \<Longrightarrow> fold (\<lambda>j g. g[j := F (g ! (j - 1)) (g ! j)]) (rev [1..<i + 1]) g ! k =
      (if 1 \<le> k \<and> k \<le> i then F (g ! (k - 1)) (g ! k) else g ! k)"
  using assms
proof (induction i arbitrary: g)
  case (Suc i)
  {
    case 1
    then show ?case using Suc(1) [of "g[Suc i := F (g ! i) (g ! Suc i)]"] by simp
  next
    case 2
    then show ?case using Suc(2) [of "g[Suc i := F (g ! i) (g ! Suc i)]"] by (auto simp: nth_list_update)
  }
qed auto

text \<open>The generator after some steps, before its logarithms are taken.\<close>

definition generatorCoefficients :: "RsCode \<Rightarrow> nat \<Rightarrow> u8 list" where
  "generatorCoefficients rs n = fold (generatorStep rs (tables rs)) [0..<n] ((replicate (roots rs + 1) 0)[0 := 1])"

lemma modExp_small_value: "rsField rs \<Longrightarrow> modExp rs x < 2 ^ 31"
  using modExp_less [of rs x] rsFieldD(7) [of rs] by simp

lemma rootExponent_small: "rsField rs \<Longrightarrow> rootExponent rs i < 2 ^ 31"
  unfolding rootExponent_def by (rule modExp_small_value)

lemma generatorStep_coefficients:
  assumes rs: "rsField rs" and g: "length g = roots rs + 1" "symbols rs g" "g ! 0 \<noteq> 0" "\<forall>j > n. j \<le> roots rs \<longrightarrow> g ! j = 0"
      "g ! n = 1" and n: "n < roots rs"
  shows "generatorStep rs (tables rs) n g = map2 (XOR) (0 # butlast g) (map (scale rs (rootExponent rs n)) g)" (is "?l = ?r")
proof (rule nth_equalityI)
  let ?root = "rootExponent rs n"
  let ?F = "\<lambda>a b. if b \<noteq> 0 then a XOR expAt (tables rs) (modExp rs (logOf (tables rs) b + ?root)) else a"
  let ?g = "g[n + 1 := 1]"
  define h where "h = fold (\<lambda>j g. g[j := ?F (g ! (j - 1)) (g ! j)]) (rev [1..<n + 1]) ?g"
  have step: "generatorStep rs (tables rs) n g = h[0 := expAt (tables rs) (modExp rs (logOf (tables rs) (h ! 0) + ?root))]"
    unfolding generatorStep_def Let_def h_def by (simp only: if_distrib)
  have len: "length h = length g"
    and inner: "k < length g \<Longrightarrow> h ! k = (if 1 \<le> k \<and> k \<le> n then ?F (?g ! (k - 1)) (?g ! k) else ?g ! k)" for k
    using fold_descending [where i = n and g = ?g and F = ?F] n g(1) unfolding h_def by simp_all
  show "length ?l = length ?r" unfolding step using len g(1) by simp
  fix k assume "k < length ?l"
  then have k: "k < length g" unfolding step using len by simp
  have gk: "symbol rs (g ! k)" using g(2) k by (simp add: list_all_length)
  have mul: "g ! k \<noteq> 0 \<Longrightarrow> expAt (tables rs) (modExp rs (logOf (tables rs) (g ! k) + ?root)) = scale rs ?root (g ! k)"
    by (rule product [OF rs gk _ rootExponent_small [OF rs]])
  have right: "?r ! k = (if k = 0 then 0 else g ! (k - 1)) XOR scale rs ?root (g ! k)"
    using k g(1) by (cases k) (simp_all add: nth_butlast)
  have h0: "h ! 0 = g ! 0" using inner [of 0] g(1) by simp
  have left: "?l ! k = (if k = 0 then expAt (tables rs) (modExp rs (logOf (tables rs) (g ! 0) + ?root))
      else if k \<le> n then ?F (g ! (k - 1)) (g ! k) else if k = n + 1 then 1 else g ! k)"
  proof (cases k)
    case 0
    then show ?thesis unfolding step h0 using len g(1) by simp
  next
    case (Suc k')
    have "?l ! k = h ! k" unfolding step Suc by simp
    moreover have "?g ! k' = g ! k'" if "k \<le> n" using that by (simp add: Suc)
    moreover have "?g ! k = (if k = n + 1 then 1 else g ! k)" using k by simp
    ultimately show ?thesis using inner [OF k] Suc by simp
  qed
  show "?l ! k = ?r ! k"
  proof (cases "k = 0")
    case True
    then show ?thesis unfolding left right using mul g(3) by simp
  next
    case False
    then show ?thesis unfolding left right using mul g(4,5) k g(1) rs by (auto simp: not_le)
  qed
qed

lemma horner_shift:
  assumes "rsField rs" "symbols rs g" "g \<noteq> []" "last g = 0"
  shows "horner rs p (rev (0 # butlast g)) = scale rs p (horner rs p (rev g))"
proof -
  obtain h where "g = h @ [0]" using assms(3,4) by (metis append_butlast_last_id)
  moreover have "horner rs p (0 # rev h) = horner rs p (rev h)" using assms(1) by (simp add: horner_def)
  ultimately show ?thesis by simp
qed

lemma generator_vanishes:
  assumes rs: "rsField rs"
  shows "n \<le> roots rs \<Longrightarrow> length (generatorCoefficients rs n) = roots rs + 1 \<and> symbols rs (generatorCoefficients rs n) \<and>
    generatorCoefficients rs n ! 0 \<noteq> 0 \<and> (\<forall>j > n. j \<le> roots rs \<longrightarrow> generatorCoefficients rs n ! j = 0) \<and>
    generatorCoefficients rs n ! n = 1 \<and>
    (\<forall>i < n. horner rs (rootExponent rs i) (rev (generatorCoefficients rs n)) = 0)"
proof (induction n)
  case 0
  then show ?case using rsFieldD(8) [OF rs] by (auto simp: generatorCoefficients_def list_all_iff dest: subsetD [OF set_update_subset_insert])
next
  case (Suc n)
  let ?g = "generatorCoefficients rs n" and ?root = "rootExponent rs n"
  have g: "length ?g = roots rs + 1" "symbols rs ?g" "?g ! 0 \<noteq> 0" "\<forall>j > n. j \<le> roots rs \<longrightarrow> ?g ! j = 0" "?g ! n = 1"
    and roots: "\<forall>i < n. horner rs (rootExponent rs i) (rev ?g) = 0" and n: "n < roots rs"
    using Suc by simp_all
  have "generatorCoefficients rs (Suc n) = generatorStep rs (tables rs) n ?g" by (simp add: generatorCoefficients_def)
  then have new: "generatorCoefficients rs (Suc n) = map2 (XOR) (0 # butlast ?g) (map (scale rs ?root) ?g)"
    using generatorStep_coefficients [OF rs g n] by simp
  have nth: "generatorCoefficients rs (Suc n) ! k = (if k = 0 then 0 else ?g ! (k - 1)) XOR scale rs ?root (?g ! k)"
    if "k < roots rs + 1" for k
    unfolding new using that g(1) by (cases k) (simp_all add: nth_butlast)
  have sym: "symbol rs (?g ! k)" if "k < roots rs + 1" for k using g(1,2) that by (simp add: list_all_length)
  have len: "length (generatorCoefficients rs (Suc n)) = roots rs + 1" unfolding new using g(1) by simp
  have "symbols rs (generatorCoefficients rs (Suc n))"
    using nth sym rs by (auto simp: list_all_length len)
  moreover have "last ?g = 0" using g(1,4) n by (simp add: last_conv_nth flip: length_0_conv)
  then have "horner rs p (rev (generatorCoefficients rs (Suc n))) =
      scale rs p (horner rs p (rev ?g)) XOR scale rs ?root (horner rs p (rev ?g))" for p
  proof -
    have "rev (map2 (XOR) (0 # butlast ?g) (map (scale rs ?root) ?g)) =
        map2 (XOR) (rev (0 # butlast ?g)) (map (scale rs ?root) (rev ?g))"
      using g(1) by (simp add: rev_map zip_rev del: rev.simps flip: rev_map)
    moreover have "horner rs p (map (scale rs ?root) (rev ?g)) = scale rs ?root (horner rs p (rev ?g))"
      using rs g(2) by (intro horner_map) (simp_all add: ac_simps)
    moreover have "length (rev (0 # butlast ?g)) = length (map (scale rs ?root) (rev ?g))" using g(1) by simp
    moreover have "horner rs p (rev (0 # butlast ?g)) = scale rs p (horner rs p (rev ?g))"
      using g(1) \<open>last ?g = 0\<close> by (intro horner_shift [OF rs g(2)]) auto
    ultimately show ?thesis unfolding new using horner_xor [OF rs] by simp
  qed
  then have "\<forall>i < Suc n. horner rs (rootExponent rs i) (rev (generatorCoefficients rs (Suc n))) = 0"
    using roots rs by (auto simp: less_Suc_eq)
  ultimately show ?case
    using len nth g(3-5) n rs sym [of 0] rsFieldD(8) [OF rs] by auto
qed

subsection \<open>The minimum distance\<close>

text \<open>The exclusive-or of a function over a list of positions.\<close>

definition xorOver :: "(nat \<Rightarrow> u8) \<Rightarrow> nat list \<Rightarrow> u8" where "xorOver f ks = foldr (\<lambda>k s. f k XOR s) ks 0"

lemma xorOver_simps [simp]: "xorOver f [] = 0" "xorOver f (k # ks) = f k XOR xorOver f ks"
  by (simp_all add: xorOver_def)

lemma xorOver_scale:
  assumes "rsField rs" "\<And>k. k \<in> set ks \<Longrightarrow> symbol rs (f k)"
  shows "scale rs r (xorOver f ks) = xorOver (\<lambda>k. scale rs r (f k)) ks" "symbol rs (xorOver f ks)"
  using assms(2) by (induction ks) (simp_all add: assms(1))

lemma xorOver_xor: "xorOver f ks XOR xorOver g ks = xorOver (\<lambda>k. f k XOR g k) ks"
  by (induction ks) (simp_all add: ac_simps)

lemma xorOver_cong: "(\<And>k. k \<in> set ks \<Longrightarrow> f k = g k) \<Longrightarrow> xorOver f ks = xorOver g ks"
  by (induction ks) simp_all

lemma xorOver_zero: "(\<And>k. k \<in> set ks \<Longrightarrow> f k = 0) \<Longrightarrow> xorOver f ks = 0"
  by (induction ks) simp_all

lemma mod_cancel:
  fixes a b m :: nat
  shows "(a + l) mod m = (b + l) mod m \<Longrightarrow> a mod m = b mod m"
    and "coprime l m \<Longrightarrow> (l * a) mod m = (l * b) mod m \<Longrightarrow> a mod m = b mod m"
proof -
  have add: "a mod m = b mod m" if "(a + l) mod m = (b + l) mod m" "b \<le> a" for a b :: nat
    using that by (simp add: mod_eq_dvd_iff_nat)
  have mult: "a mod m = b mod m" if "coprime l m" "(l * a) mod m = (l * b) mod m" "b \<le> a" for a b :: nat
  proof -
    have "m dvd l * (a - b)" using that by (simp add: mod_eq_dvd_iff_nat diff_mult_distrib2)
    then have "m dvd a - b" using that(1) by (simp add: coprime_dvd_mult_right_iff coprime_commute)
    then show ?thesis using that(3) by (simp add: mod_eq_dvd_iff_nat)
  qed
  show "(a + l) mod m = (b + l) mod m \<Longrightarrow> a mod m = b mod m" using add [of a b] add [of b a] by (cases "b \<le> a") auto
  show "coprime l m \<Longrightarrow> (l * a) mod m = (l * b) mod m \<Longrightarrow> a mod m = b mod m"
    using mult [of a b] mult [of b a] by (cases "b \<le> a") auto
qed

text \<open>Powers of an element whose exponent is coprime to the order are distinct.\<close>

lemma scale_inject:
  assumes rs: "rsField rs" and x: "symbol rs x" "x \<noteq> 0" and same: "scale rs a x = scale rs b x"
  shows "a mod kBlock rs = b mod kBlock rs"
proof -
  let ?l = "logOf (tables rs) x" and ?b = "symbolBits rs" and ?p = "fieldPoly rs"
  note prim = rsFieldD(1) [OF rs] and one = rsFieldD(8) [OF rs]
  have "scale rs (a + ?l) 1 = scale rs (b + ?l) 1"
    using same log_range(3) [OF rs x] rs one by (metis scale_simps(4))
  then have "ucast (gfPow ?b ?p (a + ?l) 1) = (ucast (gfPow ?b ?p (b + ?l) 1) :: u8)" by (simp add: timesAlpha_def)
  then have "gfPow ?b ?p (a + ?l) 1 = gfPow ?b ?p (b + ?l) 1"
    using ucast_byte [OF inField_gfPow [OF prim] primitiveFieldD(2) [OF prim]] by metis
  then have "gfPow ?b ?p ((a + ?l) mod kBlock rs) 1 = gfPow ?b ?p ((b + ?l) mod kBlock rs) 1"
    unfolding kBlock_def gfPow_period [OF prim] .
  moreover have "(a + ?l) mod kBlock rs < 2 ^ ?b - 1" "(b + ?l) mod kBlock rs < 2 ^ ?b - 1"
    using rsFieldD(5,6) [OF rs] by (metis mod_less_divisor less_le_trans zero_less_numeral)+
  ultimately have "(a + ?l) mod kBlock rs = (b + ?l) mod kBlock rs" using gfPow_inject [OF prim] by blast
  then show ?thesis by (rule mod_cancel(1))
qed

text \<open>
  A word with no more nonzero symbols than consecutive roots it vanishes at is zero: eliminate one position
  at a time.
\<close>

lemma vandermonde:
  assumes rs: "rsField rs" and step: "coprime step (kBlock rs)"
  shows "distinct ks \<Longrightarrow> set ks \<subseteq> {..<kBlock rs} \<Longrightarrow> (\<And>k. k \<in> set ks \<Longrightarrow> symbol rs (c k)) \<Longrightarrow>
    (\<And>i. i < length ks \<Longrightarrow> xorOver (\<lambda>k. scale rs (step * (first + i) * k) (c k)) ks = 0) \<Longrightarrow> k \<in> set ks \<Longrightarrow> c k = 0"
proof (induction ks arbitrary: c k)
  case (Cons k0 ks)
  let ?c = "\<lambda>k. scale rs (step * k) (c k) XOR scale rs (step * k0) (c k)"
  have c: "symbol rs (c k)" if "k \<in> set (k0 # ks)" for k using Cons.prems(3) that by simp
  have zero: "c k = 0" if k: "k \<in> set ks" for k
  proof -
    have "?c k = 0"
    proof (rule Cons.IH)
      show "distinct ks" "set ks \<subseteq> {..<kBlock rs}" "k \<in> set ks" using Cons.prems(1,2) k by simp_all
      show "symbol rs (?c k)" if "k \<in> set ks" for k using rs c that by simp
      fix i assume i: "i < length ks"
      let ?e = "\<lambda>i k. scale rs (step * (first + i) * k) (c k)"
      have "xorOver (\<lambda>k. scale rs (step * (first + i) * k) (?c k)) (k0 # ks) =
          xorOver (\<lambda>k. ?e (i + 1) k XOR scale rs (step * k0) (?e i k)) (k0 # ks)"
        by (rule xorOver_cong) (use rs c in \<open>simp add: algebra_simps\<close>)
      also have "\<dots> = xorOver (?e (i + 1)) (k0 # ks) XOR xorOver (\<lambda>k. scale rs (step * k0) (?e i k)) (k0 # ks)"
        by (rule xorOver_xor [symmetric])
      also have "xorOver (\<lambda>k. scale rs (step * k0) (?e i k)) (k0 # ks) = scale rs (step * k0) (xorOver (?e i) (k0 # ks))"
        by (rule xorOver_scale(1) [OF rs, symmetric]) (use rs c in simp)
      also have "xorOver (?e i) (k0 # ks) = 0" by (rule Cons.prems(4)) (use i in simp)
      also have "xorOver (?e (i + 1)) (k0 # ks) = 0" by (rule Cons.prems(4)) (use i in simp)
      finally have "xorOver (\<lambda>k. scale rs (step * (first + i) * k) (?c k)) (k0 # ks) = 0" using rs by simp
      then show "xorOver (\<lambda>k. scale rs (step * (first + i) * k) (?c k)) ks = 0" using rs by simp
    qed
    then have same: "scale rs (step * k) (c k) = scale rs (step * k0) (c k)" by simp
    show "c k = 0"
    proof (rule ccontr)
      assume "c k \<noteq> 0"
      then have "(step * k) mod kBlock rs = (step * k0) mod kBlock rs" using scale_inject [OF rs _ _ same] c k by simp
      then have "k mod kBlock rs = k0 mod kBlock rs"
        by (rule mod_cancel(2) [OF step])
      then have "k = k0" using Cons.prems(2) k by auto
      then show False using Cons.prems(1) k by simp
    qed
  qed
  have "xorOver (\<lambda>k. scale rs (step * first * k) (c k)) ks = 0" by (rule xorOver_zero) (use zero rs in simp)
  then have "scale rs (step * first * k0) (c k0) = 0" using Cons.prems(4) [of 0] by simp
  then have "c k0 = 0" using rs c by simp
  then show ?case using zero Cons.prems(5) by auto
qed simp

lemma horner_positions:
  assumes "rsField rs" "symbols rs ys"
  shows "horner rs p (rev ys) = xorOver (\<lambda>k. scale rs (p * k) (ys ! k)) [0..<length ys]"
  using assms(2)
proof (induction ys)
  case (Cons y ys)
  have sym: "\<And>k. k \<in> set [0..<length ys] \<Longrightarrow> symbol rs (ys ! k)"
    using Cons.prems nth_mem [of _ ys] by (simp add: list_all_iff)
  have upt: "[0..<length (y # ys)] = 0 # map Suc [0..<length ys]" by (simp add: upt_conv_Cons map_Suc_upt del: upt_Suc)
  have shift: "xorOver f (map Suc ks) = xorOver (\<lambda>k. f (Suc k)) ks" for f ks by (induction ks) simp_all
  have "horner rs p (rev (y # ys)) = y XOR scale rs p (xorOver (\<lambda>k. scale rs (p * k) (ys ! k)) [0..<length ys])"
    using Cons by simp
  also have "scale rs p (xorOver (\<lambda>k. scale rs (p * k) (ys ! k)) [0..<length ys]) =
      xorOver (\<lambda>k. scale rs p (scale rs (p * k) (ys ! k))) [0..<length ys]"
    by (rule xorOver_scale(1) [OF assms(1)]) (use sym assms(1) in simp)
  also have "\<dots> = xorOver (\<lambda>k. scale rs (p * Suc k) (ys ! k)) [0..<length ys]"
    by (rule xorOver_cong) (use sym assms(1) in simp)
  also have "\<dots> = xorOver (\<lambda>k. scale rs (p * k) ((y # ys) ! k)) (map Suc [0..<length ys])" by (simp only: shift) simp
  also have "y XOR \<dots> = xorOver (\<lambda>k. scale rs (p * k) ((y # ys) ! k)) [0..<length (y # ys)]"
    unfolding upt by simp
  finally show ?case .
qed simp

lemma xorOver_filter: "(\<And>k. k \<in> set ks \<Longrightarrow> \<not> P k \<Longrightarrow> f k = 0) \<Longrightarrow> xorOver f (filter P ks) = xorOver f ks"
  by (induction ks) auto

text \<open>The Euclidean loop returns, and what it returns is the greatest common divisor.\<close>

lemma gcd_loop: "greatestCommonDivisor a b = Some (of_nat (gcd (unat a) (unat b)))"
proof (induction "unat b" arbitrary: a b rule: less_induct)
  case less
  show ?case
  proof (cases "b = 0")
    case True
    then show ?thesis by (subst greatestCommonDivisor.simps) simp
  next
    case False
    then have "unat (a mod b) < unat b" by (simp add: unat_mod unat_gt_0)
    then have "greatestCommonDivisor b (a mod b) = Some (of_nat (gcd (unat b) (unat (a mod b))))" by (rule less)
    moreover have "gcd (unat b) (unat (a mod b)) = gcd (unat a) (unat b)"
      by (simp add: unat_mod gcd_red_nat [symmetric] gcd.commute)
    ultimately show ?thesis using False by (subst greatestCommonDivisor.simps) simp
  qed
qed

text \<open>An instantiation that compiles, over a primitive field, whose exponents do not wrap around.\<close>

definition rsCode :: "RsCode \<Rightarrow> bool" where
  "rsCode rs \<longleftrightarrow> rsCompiles rs \<and> rsField rs \<and> primitiveStep rs < 2 ^ 23"

lemma rsCodeD:
  assumes "rsCode rs"
  shows "rsField rs" "coprime (primitiveStep rs) (kBlock rs)" "i < roots rs \<Longrightarrow> rootExponent rs i =
    (primitiveStep rs * (firstConsecutiveRoot rs + i)) mod kBlock rs"
proof -
  show rs: "rsField rs" using assms by (simp add: rsCode_def)
  have step: "primitiveStep rs < 2 ^ 23" "firstConsecutiveRoot rs < kBlock rs"
    and unit: "greatestCommonDivisor (of_nat (primitiveStep rs)) (of_nat (kBlock rs)) = Some 1"
    using assms by (simp_all add: rsCode_def rsCompiles_def)
  have "unat (of_nat (primitiveStep rs) :: u32) = primitiveStep rs" "unat (of_nat (kBlock rs) :: u32) = kBlock rs"
    using step(1) rsFieldD(7) [OF rs] by (simp_all add: unat_of_nat)
  then have "of_nat (gcd (primitiveStep rs) (kBlock rs)) = (1 :: u32)" using unit unfolding gcd_loop by simp
  moreover have "gcd (primitiveStep rs) (kBlock rs) < 2 ^ 32"
  proof -
    have "gcd (primitiveStep rs) (kBlock rs) \<le> kBlock rs" using rsFieldD(6) [OF rs] by (intro gcd_le2_nat) simp
    also have "\<dots> < 2 ^ 32" using rsFieldD(7) [OF rs] by simp
    finally show ?thesis .
  qed
  then have "unat (of_nat (gcd (primitiveStep rs) (kBlock rs)) :: u32) = gcd (primitiveStep rs) (kBlock rs)"
    by (simp add: unat_of_nat)
  ultimately have "gcd (primitiveStep rs) (kBlock rs) = 1" by simp
  then show "coprime (primitiveStep rs) (kBlock rs)" by (simp add: coprime_iff_gcd_eq_1)
  assume i: "i < roots rs"
  have "primitiveStep rs * (firstConsecutiveRoot rs + i) \<le> 2 ^ 23 * 510"
    using step i rsFieldD(4,7) [OF rs] by (intro mult_le_mono) simp_all
  then show "rootExponent rs i = (primitiveStep rs * (firstConsecutiveRoot rs + i)) mod kBlock rs"
    unfolding rootExponent_def by (intro modExp_small) simp
qed

lemma few_symbols_vanish:
  assumes code: "rsCode rs" and ys: "symbols rs ys" "length ys \<le> kBlock rs"
    and roots: "\<forall>i < roots rs. horner rs (rootExponent rs i) (rev ys) = 0"
    and few: "card {k. k < length ys \<and> ys ! k \<noteq> 0} \<le> roots rs"
  shows "k < length ys \<Longrightarrow> ys ! k = 0"
proof (rule ccontr)
  note rs = rsCodeD(1) [OF code]
  define ks where "ks = filter (\<lambda>k. ys ! k \<noteq> 0) [0..<length ys]"
  have sym: "symbol rs (ys ! k)" if "k < length ys" for k using ys(1) that by (simp add: list_all_length)
  have set: "set ks = {k. k < length ys \<and> ys ! k \<noteq> 0}" unfolding ks_def set_filter set_upt by simp
  have dist: "distinct ks" unfolding ks_def by simp
  have len: "length ks \<le> roots rs" using few distinct_card [OF dist] set by simp
  assume k: "k < length ys" "ys ! k \<noteq> 0"
  have "ys ! k = 0"
  proof (rule vandermonde [OF rs rsCodeD(2) [OF code], of ks "\<lambda>k. ys ! k" "firstConsecutiveRoot rs"])
    show "distinct ks" by (rule dist)
    show "set ks \<subseteq> {..<kBlock rs}" unfolding set using ys(2) by (intro subsetI) simp
    show "k \<in> set ks" unfolding set using k by simp
    show "symbol rs (ys ! k)" if "k \<in> set ks" for k using that set sym by simp
    fix i assume i: "i < length ks"
    let ?e = "primitiveStep rs * (firstConsecutiveRoot rs + i)"
    have root: "rootExponent rs i = ?e mod kBlock rs" using rsCodeD(3) [OF code] i len by simp
    have "scale rs (?e * k) (ys ! k) = scale rs (rootExponent rs i * k) (ys ! k)" if "k < length ys" for k
    proof -
      note period = timesAlpha_period [OF rsFieldD(1) [OF rs] sym [OF that], folded kBlock_def]
      have "(rootExponent rs i * k) mod kBlock rs = (?e * k) mod kBlock rs" unfolding root by (rule mod_mult_left_eq)
      then show ?thesis using period [of "?e * k"] period [of "rootExponent rs i * k"] by simp
    qed
    then have "xorOver (\<lambda>k. scale rs (?e * k) (ys ! k)) [0..<length ys] = horner rs (rootExponent rs i) (rev ys)"
      unfolding horner_positions [OF rs ys(1)] by (intro xorOver_cong) simp
    also have "\<dots> = 0" using roots i len by simp
    finally show "xorOver (\<lambda>k. scale rs (?e * k) (ys ! k)) ks = 0"
      unfolding ks_def by (subst xorOver_filter) (use rs in simp_all)
  qed
  then show False using k(2) by simp
qed

lemma generator_full:
  assumes "rsCode rs" "j \<le> roots rs"
  shows "generatorCoefficients rs (roots rs) ! j \<noteq> 0"
proof
  note rs = rsCodeD(1) [OF assms(1)]
  let ?g = "generatorCoefficients rs (roots rs)"
  have g: "length ?g = roots rs + 1" "symbols rs ?g" "?g ! roots rs = 1"
    "\<forall>i < roots rs. horner rs (rootExponent rs i) (rev ?g) = 0"
    using generator_vanishes [OF rs, of "roots rs"] by simp_all
  assume zero: "?g ! j = 0"
  have "{k. k < length ?g \<and> ?g ! k \<noteq> 0} \<subseteq> {..<length ?g} - {j}" using zero by auto
  then have "card {k. k < length ?g \<and> ?g ! k \<noteq> 0} \<le> card ({..<length ?g} - {j})" by (intro card_mono) simp_all
  also have "\<dots> = roots rs" using g(1) assms(2) by simp
  finally have "?g ! roots rs = 0"
    using few_symbols_vanish [OF assms(1) g(2) _ g(4), of "roots rs"] g(1) rsFieldD(4) [OF rs] by simp
  then show False using g(3) by simp
qed

subsection \<open>Codewords\<close>

definition codeword :: "RsCode \<Rightarrow> u8 list \<Rightarrow> bool" where
  "codeword rs w \<longleftrightarrow> length w = kBlock rs \<and> symbols rs w \<and>
     list_all (\<lambda>i. syndromeAt rs (tables rs) w (rootExponent rs i) = 0) [0..<roots rs]"

lemma codeword_horner:
  assumes "rsField rs"
  shows "codeword rs w \<longleftrightarrow> length w = kBlock rs \<and> symbols rs w \<and> (\<forall>i < roots rs. horner rs (rootExponent rs i) w = 0)"
  using syndromeAt_horner [OF assms _ _ rootExponent_small [OF assms], of w] by (auto simp: codeword_def list_all_iff)

definition symbolDistance :: "u8 list \<Rightarrow> u8 list \<Rightarrow> nat" where
  "symbolDistance xs ys = length (filter (\<lambda>i. xs ! i \<noteq> ys ! i) [0..<length xs])"

lemma symbolDistance_card: "symbolDistance xs ys = card {i. i < length xs \<and> xs ! i \<noteq> ys ! i}"
  unfolding symbolDistance_def by (simp add: length_filter_conv_card cong: conj_cong)

lemma symbolDistance_triangle:
  assumes "length xs = length ys"
  shows "symbolDistance xs zs \<le> symbolDistance xs ys + symbolDistance ys zs"
proof -
  let ?D = "\<lambda>u v. {i. i < length u \<and> u ! i \<noteq> v ! i}"
  have "card (?D xs zs) \<le> card (?D xs ys \<union> ?D ys zs)" by (rule card_mono) (use assms in auto)
  also have "\<dots> \<le> card (?D xs ys) + card (?D ys zs)" by (rule card_Un_le)
  finally show ?thesis unfolding symbolDistance_card .
qed

lemma symbolDistance_commute: "length xs = length ys \<Longrightarrow> symbolDistance xs ys = symbolDistance ys xs"
  unfolding symbolDistance_card by (rule arg_cong [where f = card]) auto

lemma codewords_far:
  assumes code: "rsCode rs" and u: "codeword rs u" and v: "codeword rs v" and near: "symbolDistance u v \<le> roots rs"
  shows "u = v"
proof -
  note rs = rsCodeD(1) [OF code]
  let ?d = "rev (map2 (XOR) u v)"
  have len: "length u = kBlock rs" "length v = kBlock rs" and sym: "symbols rs u" "symbols rs v"
    using u v by (simp_all add: codeword_def)
  have nth: "?d ! k = u ! (kBlock rs - 1 - k) XOR v ! (kBlock rs - 1 - k)" if "k < kBlock rs" for k
    using that len by (simp add: rev_nth)
  have "symbol rs (?d ! k)" if "k < kBlock rs" for k
    unfolding nth [OF that] using sym len that by (simp add: list_all_length)
  then have "symbols rs ?d" using len by (simp add: list_all_length)
  moreover have "\<forall>i < roots rs. horner rs (rootExponent rs i) (rev ?d) = 0"
    using u v len unfolding codeword_horner [OF rs] by (simp add: horner_xor [OF rs])
  moreover have "card {k. k < length ?d \<and> ?d ! k \<noteq> 0} \<le> roots rs"
  proof -
    have "inj_on (\<lambda>k. kBlock rs - 1 - k) {k. k < length ?d \<and> ?d ! k \<noteq> 0}" using len by (auto intro!: inj_onI)
    moreover have "(\<lambda>k. kBlock rs - 1 - k) ` {k. k < length ?d \<and> ?d ! k \<noteq> 0} \<subseteq> {i. i < length u \<and> u ! i \<noteq> v ! i}"
      using nth len by (intro image_subsetI) auto
    moreover have "finite {i. i < length u \<and> u ! i \<noteq> v ! i}" by simp
    ultimately have "card {k. k < length ?d \<and> ?d ! k \<noteq> 0} \<le> card {i. i < length u \<and> u ! i \<noteq> v ! i}" by (rule card_inj_on_le)
    then show ?thesis using near unfolding symbolDistance_card by simp
  qed
  ultimately have zero: "?d ! k = 0" if "k < kBlock rs" for k
    using few_symbols_vanish [OF code, of ?d k] that len by simp
  show ?thesis
  proof (rule nth_equalityI)
    fix i assume "i < length u"
    then show "u ! i = v ! i" using zero [of "kBlock rs - 1 - i"] nth [of "kBlock rs - 1 - i"] len by simp
  qed (use len in simp)
qed

subsection \<open>The encoder\<close>

text \<open>One step of the register: shift, and add the feedback's multiple of the generator.\<close>

lemma fold_left_shift: "n < length xs \<Longrightarrow> length (fold (\<lambda>j xs. xs[j := xs ! (j + 1)]) [0..<n] xs) = length xs \<and>
    (\<forall>k < length xs. fold (\<lambda>j xs. xs[j := xs ! (j + 1)]) [0..<n] xs ! k = (if k < n then xs ! (k + 1) else xs ! k))"
proof (induction n)
  case (Suc n)
  then show ?case by (auto simp: nth_list_update less_Suc_eq)
qed simp

lemma fold_update_range:
  "k < length xs \<Longrightarrow> fold (\<lambda>j xs. xs[j := f j (xs ! j)]) [a..<n] xs ! k = (if a \<le> k \<and> k < n then f k (xs ! k) else xs ! k)"
  "length (fold (\<lambda>j xs. xs[j := f j (xs ! j)]) is xs) = length xs"
proof -
  show len: "length (fold (\<lambda>j xs. xs[j := f j (xs ! j)]) is xs) = length xs" for "is" xs
    by (induction "is" arbitrary: xs) simp_all
  show "k < length xs \<Longrightarrow> fold (\<lambda>j xs. xs[j := f j (xs ! j)]) [a..<n] xs ! k = (if a \<le> k \<and> k < n then f k (xs ! k) else xs ! k)"
    by (induction n) (auto simp: nth_list_update len less_Suc_eq)
qed

definition feedbackTerm :: "RsCode \<Rightarrow> u8 \<Rightarrow> u8 \<Rightarrow> u8" where
  "feedbackTerm rs fb c = (if fb = 0 then 0 else scale rs (logOf (tables rs) fb) c)"

lemma feedbackTerm_linear:
  assumes rs: "rsField rs" and fb: "symbol rs fb"
  shows "feedbackTerm rs fb (a XOR b) = feedbackTerm rs fb a XOR feedbackTerm rs fb b" "feedbackTerm rs fb 0 = 0"
    "symbol rs a \<Longrightarrow> feedbackTerm rs fb (scale rs p a) = scale rs p (feedbackTerm rs fb a)" "feedbackTerm rs fb 1 = fb"
    "symbol rs a \<Longrightarrow> symbol rs (feedbackTerm rs fb a)"
  using rs log_range(3) [OF rs fb] by (auto simp: feedbackTerm_def ac_simps)

lemma parityStep_terms:
  assumes code: "rsCode rs" and parity: "length parity = roots rs" "symbols rs parity" and s: "symbol rs s"
  shows "parityStep rs (tables rs) (generator rs) s parity =
    map2 (XOR) (tl parity @ [0]) (rev (map (feedbackTerm rs (s XOR parity ! 0)) (butlast (generatorCoefficients rs (roots rs)))))"
    (is "?l = ?r")
proof (rule nth_equalityI)
  note rs = rsCodeD(1) [OF code]
  note R = rsFieldD(3,4) [OF rs]
  let ?G = "generatorCoefficients rs (roots rs)" and ?fb = "s XOR parity ! 0"
  let ?F = "logOf (tables rs) ?fb"
  have G: "length ?G = roots rs + 1" "symbols rs ?G" using generator_vanishes [OF rs, of "roots rs"] by simp_all
  have gen: "generator rs ! j = logOf (tables rs) (?G ! j)" if "j \<le> roots rs" for j
    unfolding generator_def Let_def generatorCoefficients_def [symmetric] using that G(1) by simp
  have fb: "symbol rs ?fb" using s parity R by (simp add: list_all_length)
  have G_sym: "symbol rs (?G ! j)" if "j \<le> roots rs" for j using G that by (simp add: list_all_length)
  have mul: "expAt (tables rs) (modExp rs (?F + generator rs ! j)) = feedbackTerm rs ?fb (?G ! j)" if "j \<le> roots rs" "?fb \<noteq> 0" for j
  proof -
    have "?F < 2 ^ 31" using log_range(1) [OF rs fb] rsFieldD(7) [OF rs] by simp
    then show ?thesis
      using product [OF rs G_sym [OF that(1)] generator_full [OF code that(1)], of ?F] that(2)
      by (simp add: gen [OF that(1)] feedbackTerm_def add.commute)
  qed
  have zero: "?F = kBlock rs \<longleftrightarrow> ?fb = 0" by (rule log_range(2) [OF rs fb])
  let ?t = "\<lambda>j. feedbackTerm rs ?fb (?G ! j)"
  define p1 where "p1 = (if ?fb \<noteq> 0 then fold (\<lambda>j parity. parity[j := parity ! j XOR
      expAt (tables rs) (modExp rs (?F + generator rs ! (roots rs - j)))]) [1..<roots rs] parity else parity)"
  have p1: "length p1 = roots rs" unfolding p1_def using fold_update_range(2) [of "\<lambda>j x. x XOR
      expAt (tables rs) (modExp rs (?F + generator rs ! (roots rs - j)))"] parity(1) by simp
  have p1_nth: "p1 ! j = parity ! j XOR ?t (roots rs - j)" if "1 \<le> j" "j < roots rs" for j
    using that parity(1) mul [of "roots rs - j"]
      fold_update_range(1) [of j parity "\<lambda>j x. x XOR expAt (tables rs) (modExp rs (?F + generator rs ! (roots rs - j)))" 1 "roots rs"]
    by (simp add: p1_def feedbackTerm_def)
  let ?p2 = "fold (\<lambda>j parity. parity[j := parity ! (j + 1)]) [0..<roots rs - 1] p1"
  have step: "?l = ?p2[roots rs - 1 := if ?fb \<noteq> 0 then expAt (tables rs) (modExp rs (?F + generator rs ! 0)) else 0]"
    unfolding parityStep_def Let_def p1_def zero ..
  have p2: "length ?p2 = roots rs" "\<forall>k < roots rs. ?p2 ! k = (if k < roots rs - 1 then p1 ! (k + 1) else p1 ! k)"
    using fold_left_shift [of "roots rs - 1" p1] p1 R by simp_all
  show "length ?l = length ?r" unfolding step using p2(1) G(1) parity(1) R by simp
  fix k assume "k < length ?l"
  then have k: "k < roots rs" unfolding step using p2(1) by simp
  have right: "?r ! k = (if k < roots rs - 1 then parity ! (k + 1) else 0) XOR ?t (roots rs - 1 - k)"
    using k G(1) parity(1) by (simp add: nth_append nth_tl rev_nth nth_butlast)
  show "?l ! k = ?r ! k"
  proof (cases "k < roots rs - 1")
    case True
    then have "?l ! k = p1 ! (k + 1)" unfolding step using p2 k by simp
    then show ?thesis unfolding right using True p1_nth [of "k + 1"] by simp
  next
    case False
    then have "k = roots rs - 1" using k by simp
    moreover have "?l ! (roots rs - 1) = ?t 0" unfolding step using p2(1) mul [of 0] R by (simp add: feedbackTerm_def)
    ultimately show ?thesis unfolding right by simp
  qed
qed

text \<open>The register holds the remainder of what went through it, moved up by the number of roots.\<close>

lemma parity_register:
  assumes code: "rsCode rs" and ms: "symbols rs ms"
  shows "length (fold (parityStep rs (tables rs) (generator rs)) ms (replicate (roots rs) 0)) = roots rs \<and>
    symbols rs (fold (parityStep rs (tables rs) (generator rs)) ms (replicate (roots rs) 0)) \<and>
    (\<forall>i < roots rs. horner rs (rootExponent rs i) (fold (parityStep rs (tables rs) (generator rs)) ms (replicate (roots rs) 0)) =
      scale rs (rootExponent rs i * roots rs) (horner rs (rootExponent rs i) ms))"
  using ms
proof (induction ms rule: rev_induct)
  case Nil
  then show ?case using rsCodeD(1) [OF code] by (simp add: list_all_length)
next
  case (snoc s ms)
  note rs = rsCodeD(1) [OF code]
  note R = rsFieldD(3) [OF rs]
  let ?parity = "fold (parityStep rs (tables rs) (generator rs)) ms (replicate (roots rs) 0)"
  let ?G = "generatorCoefficients rs (roots rs)" and ?fb = "s XOR ?parity ! 0"
  have IH: "length ?parity = roots rs" "symbols rs ?parity"
    "\<forall>i < roots rs. horner rs (rootExponent rs i) ?parity = scale rs (rootExponent rs i * roots rs) (horner rs (rootExponent rs i) ms)"
    and s: "symbol rs s" and ms: "symbols rs ms" using snoc by simp_all
  note new = parityStep_terms [OF code IH(1,2) s]
  let ?M = "feedbackTerm rs ?fb"
  obtain x ps where split: "?parity = x # ps" using IH(1) R by (cases ?parity) auto
  have sym: "symbol rs x" "symbols rs ps" using IH(2) split by simp_all
  have fb: "symbol rs ?fb" using s sym split by simp
  have G: "length ?G = roots rs + 1" "symbols rs ?G" "?G ! roots rs = 1"
    "\<forall>i < roots rs. horner rs (rootExponent rs i) (rev ?G) = 0"
    using generator_vanishes [OF rs, of "roots rs"] by simp_all
  have "?G \<noteq> []" using G(1) by auto
  then have last: "?G = butlast ?G @ [1]" using G(1,3) append_butlast_last_id [of ?G] by (simp add: last_conv_nth)
  have front: "symbols rs (butlast ?G)" using G(2) last by (metis list_all_append)
  let ?T = "rev (map ?M (butlast ?G))"
  have T: "length ?T = roots rs" "symbols rs ?T"
    using G(1) front feedbackTerm_linear(5) [OF rs fb] by (simp_all add: list_all_iff)
  have "length (tl ?parity @ [0]) = length ?T" using T(1) IH(1) R by simp
  note sum = horner_xor [OF rs this]
  have "horner rs p (fold (parityStep rs (tables rs) (generator rs)) (ms @ [s]) (replicate (roots rs) 0)) =
      scale rs (p * roots rs) (horner rs p (ms @ [s]))" if i: "i < roots rs" and p: "p = rootExponent rs i" for i p
  proof -
    have "horner rs p (map ?M (rev ?G)) = ?M (horner rs p (rev ?G))"
      by (rule horner_map [OF rs]) (use G(2) feedbackTerm_linear [OF rs fb] in simp_all)
    also have "\<dots> = 0" using G(4) i p feedbackTerm_linear(2) [OF rs fb] by simp
    finally have "horner rs p (map ?M (rev ?G)) = 0" .
    moreover have "map ?M (rev ?G) = [?fb] @ ?T"
      using feedbackTerm_linear(4) [OF rs fb] by (subst last) (simp add: rev_map)
    ultimately have "horner rs p ([?fb] @ ?T) = 0" by simp
    moreover have "horner rs p [?fb] = ?fb" using rs by (simp add: horner_def)
    ultimately have terms: "horner rs p ?T = scale rs (p * roots rs) ?fb"
      using horner_append [OF rs _ T(2), of "[?fb]" p] T(1) fb by simp
    have "horner rs p ?parity = scale rs (p * length ps) x XOR horner rs p ps"
      using horner_append [OF rs _ sym(2), of "[x]" p] sym(1) rs split by (simp add: horner_def)
    moreover have "p + p * length ps = p * roots rs" using IH(1) split by (metis length_Cons mult_Suc_right)
    ultimately have "scale rs p (horner rs p ?parity) = scale rs (p * roots rs) x XOR scale rs p (horner rs p ps)"
      using rs sym by simp
    then have "horner rs p (map2 (XOR) (tl ?parity @ [0]) ?T) = scale rs p (horner rs p ?parity) XOR scale rs (p * roots rs) s"
      unfolding sum terms using rs split sym by (simp add: ac_simps)
    also have "scale rs p (horner rs p ?parity) = scale rs (p * roots rs) (scale rs p (horner rs p ms))"
      using IH(3) i p rs ms by (simp add: ac_simps)
    finally show ?thesis using rs by (simp add: new ac_simps)
  qed
  moreover have "symbols rs (map2 (XOR) (tl ?parity @ [0]) ?T)"
  proof -
    have "symbols rs (tl ?parity @ [0])" using sym split by simp
    then have "symbol rs ((tl ?parity @ [0]) ! k XOR ?T ! k)" if "k < roots rs" for k
      using T that \<open>length (tl ?parity @ [0]) = length ?T\<close> unfolding list_all_length by simp
    then show ?thesis using T(1) \<open>length (tl ?parity @ [0]) = length ?T\<close> by (simp add: list_all_length)
  qed
  ultimately show ?case using new T(1) IH(1) R by simp
qed

lemma symbol_fits: "rsField rs \<Longrightarrow> symbol rs x \<longleftrightarrow> unat x \<le> kBlock rs"
proof -
  assume rs: "rsField rs"
  have "(0 :: nat) < 2 ^ symbolBits rs" by simp
  then have "unat x < 2 ^ symbolBits rs \<longleftrightarrow> unat x \<le> kBlock rs" unfolding kBlock_def by linarith
  then show ?thesis by (simp add: inField_unat)
qed

lemma byte_field: "symbolBits rs \<ge> 8 \<Longrightarrow> symbol rs x" for x :: u8
  by (auto simp: inField_def dest: bit_imp_le_length)

lemma fold_write_tail:
  "length xs = n + r \<Longrightarrow> length ys = r \<Longrightarrow> fold (\<lambda>j xs. xs[n + j := ys ! j]) [0..<r] xs = take n xs @ ys"
  by (rule nth_equalityI) (auto simp: fold_update_nth nth_append)

lemma encode_codeword:
  assumes code: "rsCode rs" and block: "length block = kBlock rs" and pad: "pad \<le> kBlock rs - roots rs" "\<forall>i < pad. block ! i = 0"
    and fits: "\<forall>i \<in> {pad..<kBlock rs - roots rs}. unat (block ! i) \<le> kBlock rs"
  shows "\<exists>parity. encodeBlock rs block pad = (True, take (kBlock rs - roots rs) block @ parity) \<and>
    codeword rs (take (kBlock rs - roots rs) block @ parity)"
proof -
  note rs = rsCodeD(1) [OF code]
  note R = rsFieldD(3,4) [OF rs]
  let ?n = "kBlock rs - roots rs"
  let ?ms = "map ((!) block) [pad..<?n]"
  let ?parity = "fold (parityStep rs (tables rs) (generator rs)) ?ms (replicate (roots rs) 0)"
  have ms: "symbols rs ?ms" using fits by (simp add: list_all_iff symbol_fits [OF rs])
  have parity: "length ?parity = roots rs" "symbols rs ?parity"
    "\<forall>i < roots rs. horner rs (rootExponent rs i) ?parity = scale rs (rootExponent rs i * roots rs) (horner rs (rootExponent rs i) ?ms)"
    using parity_register [OF code ms] by simp_all
  have front: "take ?n block = replicate pad 0 @ ?ms"
    by (rule nth_equalityI) (use pad block in \<open>auto simp: nth_append\<close>)
  have "fold (\<lambda>j block. block[?n + j := ?parity ! j]) [0..<roots rs] block = take ?n block @ ?parity"
    by (rule fold_write_tail) (use block R parity(1) in simp_all)
  moreover have "\<not> list_ex (\<lambda>i. unat (block ! i) > kBlock rs) [pad..<?n]" using fits by (auto simp: list_ex_iff not_less)
  ultimately have result: "encodeBlock rs block pad = (True, take ?n block @ ?parity)"
    unfolding encodeBlock_def Let_def fold_map_nth by simp
  have zeros: "symbols rs (replicate pad 0)" by (simp add: list_all_iff)
  have "horner rs (rootExponent rs i) (take ?n block @ ?parity) = 0" if "i < roots rs" for i
  proof -
    have "horner rs (rootExponent rs i) (take ?n block) = horner rs (rootExponent rs i) ?ms"
      unfolding front horner_append [OF rs zeros ms] using rs by simp
    moreover have "symbols rs (take ?n block)" unfolding front using zeros ms by simp
    ultimately show ?thesis using horner_append [OF rs _ parity(2), of "take ?n block"] parity that by simp
  qed
  moreover have "symbols rs (take ?n block @ ?parity)" unfolding front using zeros ms parity(2) by simp
  moreover have "length (take ?n block @ ?parity) = kBlock rs" using block parity(1) R by simp
  ultimately have "codeword rs (take ?n block @ ?parity)" unfolding codeword_horner [OF rs] by blast
  then show ?thesis using result by blast
qed

subsection \<open>The decoder changes what it reports\<close>

lemma chienSearch_places:
  "distinct is \<Longrightarrow> \<exists>js. set js \<subseteq> set is \<and> distinct js \<and>
    chienSearch rs gf degree is reg found = found @ map (\<lambda>i. (modExp rs (primitiveStep rs * i), i - 1)) js"
proof (induction "is" arbitrary: reg found)
  case Nil
  then show ?case by (intro exI [of _ "[]"]) simp
next
  case (Cons i "is")
  obtain reg' q where step: "chienStep rs gf degree reg = (reg', q)" by (cases "chienStep rs gf degree reg")
  let ?p = "(modExp rs (primitiveStep rs * i), i - 1)"
  consider (skip) "chienSearch rs gf degree (i # is) reg found = chienSearch rs gf degree is reg' found"
    | (stop) "chienSearch rs gf degree (i # is) reg found = found @ [?p]"
    | (more) "chienSearch rs gf degree (i # is) reg found = chienSearch rs gf degree is reg' (found @ [?p])"
    by (cases "q = 0"; cases "length (found @ [?p]) = degree") (simp_all add: step Let_def)
  then show ?case
  proof cases
    case skip
    then show ?thesis using Cons.IH [of reg' found] Cons.prems by auto
  next
    case stop
    then show ?thesis by (intro exI [of _ "[i]"]) simp
  next
    case more
    obtain js where "set js \<subseteq> set is" "distinct js"
      "chienSearch rs gf degree is reg' (found @ [?p]) = (found @ [?p]) @ map (\<lambda>i. (modExp rs (primitiveStep rs * i), i - 1)) js"
      using Cons.IH [of reg' "found @ [?p]"] Cons.prems by auto
    then show ?thesis using more Cons.prems by (intro exI [of _ "i # js"]) auto
  qed
qed

lemma symbolDistance_update:
  assumes "length ys = length xs" "l < length xs" "xs ! l \<noteq> x" "ys ! l = x"
  shows "symbolDistance xs ys = Suc (symbolDistance (xs[l := x]) ys)"
proof -
  have "{i. i < length xs \<and> xs ! i \<noteq> ys ! i} = insert l {i. i < length (xs[l := x]) \<and> xs[l := x] ! i \<noteq> ys ! i}"
    using assms by (auto simp: nth_list_update)
  moreover have "l \<notin> {i. i < length (xs[l := x]) \<and> xs[l := x] ! i \<noteq> ys ! i}" using assms by simp
  ultimately show ?thesis unfolding symbolDistance_card by simp
qed

lemma forney_changes:
  assumes rs: "rsField rs"
  shows "distinct (map snd places) \<Longrightarrow> \<forall>p \<in> set places. snd p < length block \<Longrightarrow> symbols rs block \<Longrightarrow>
    fold (forneyStep rs (tables rs) omegaLog lambdaLog degree) places (block, r) = (block', r') \<Longrightarrow>
    length block' = length block \<and> symbols rs block' \<and> rsValid r' = rsValid r \<and> rsPadCorrupted r' = rsPadCorrupted r \<and>
    rsErrors r' = rsErrors r + symbolDistance block block' \<and> rsErrors r' \<le> rsErrors r + length places \<and>
    (\<forall>i. i \<notin> snd ` set places \<longrightarrow> block' ! i = block ! i)"
proof (induction places arbitrary: block r)
  case Nil
  then show ?case by (simp add: symbolDistance_def)
next
  case (Cons p places)
  let ?l = "snd p"
  have l: "?l < length block" using Cons.prems(2) by simp
  obtain b1 r1 where step: "forneyStep rs (tables rs) omegaLog lambdaLog degree p (block, r) = (b1, r1)"
    by (cases "forneyStep rs (tables rs) omegaLog lambdaLog degree p (block, r)")
  then have rest: "fold (forneyStep rs (tables rs) omegaLog lambdaLog degree) places (b1, r1) = (block', r')"
    using Cons.prems(4) by simp
  consider (same) "b1 = block" "r1 = r"
    | (changed) e where "b1 = block[?l := block ! ?l XOR e]" "r1 = r\<lparr>rsErrors := rsErrors r + 1\<rparr>" "e \<noteq> 0" "symbol rs e"
    using step exp_nonzero(2,3) [OF rs] by (auto simp: forneyStep_def Let_def split: if_splits prod.splits)
  then show ?case
  proof cases
    case same
    have "distinct (map snd places)" "\<forall>p \<in> set places. snd p < length block" using Cons.prems(1,2) by simp_all
    then show ?thesis using Cons.IH [OF _ _ Cons.prems(3) rest [unfolded same]] by auto
  next
    case changed
    have "distinct (map snd places)" "\<forall>p \<in> set places. snd p < length b1" using Cons.prems(1,2) changed(1) by simp_all
    moreover have "symbols rs b1" using Cons.prems(3) changed l by (auto simp: list_all_length nth_list_update)
    ultimately have IH: "length block' = length b1 \<and> symbols rs block' \<and> rsValid r' = rsValid r1 \<and>
        rsPadCorrupted r' = rsPadCorrupted r1 \<and> rsErrors r' = rsErrors r1 + symbolDistance b1 block' \<and>
        rsErrors r' \<le> rsErrors r1 + length places \<and> (\<forall>i. i \<notin> snd ` set places \<longrightarrow> block' ! i = b1 ! i)"
      using Cons.IH rest by blast
    have out: "?l \<notin> snd ` set places" using Cons.prems(1) by simp
    have "symbolDistance block block' = Suc (symbolDistance b1 block')"
      unfolding changed(1) by (rule symbolDistance_update) (use IH out changed(1,3) l in auto)
    then show ?thesis using IH changed(1,2) by auto
  qed
qed

lemma locatorDegree_le: "locatorDegree rs lambdaLog \<le> roots rs"
proof -
  have "fold (\<lambda>i d. if P i then i else d) [0..<n] 0 \<le> n - 1" for P and n :: nat
  proof (induction n)
    case (Suc n)
    then show ?case by (auto intro: order_trans)
  qed simp
  from this [of _ "roots rs + 1"] show ?thesis unfolding locatorDegree_def by (metis add_diff_cancel_right')
qed

lemma positionsAccepted_iff:
  "length named = kBlock rs \<Longrightarrow> positionsAccepted rs pad positions named \<longleftrightarrow>
    distinct positions \<and> (\<forall>p \<in> set positions. pad \<le> p \<and> p < kBlock rs \<and> \<not> named ! p)"
proof (induction positions arbitrary: named)
  case (Cons p positions)
  then show ?case
    by (cases "p < pad \<or> p \<ge> kBlock rs \<or> named ! p") (auto simp: nth_list_update)
qed simp

definition fieldBlock :: "RsCode \<Rightarrow> u8 list \<Rightarrow> bool" where
  "fieldBlock rs block \<longleftrightarrow> length block = kBlock rs \<and> list_all (\<lambda>x. unat x \<le> kBlock rs) block"

lemma fieldBlock_symbols: "rsField rs \<Longrightarrow> fieldBlock rs block \<longleftrightarrow> length block = kBlock rs \<and> symbols rs block"
  by (simp add: fieldBlock_def list_all_iff symbol_fits)

lemma codeword_valid:
  "fieldBlock rs block \<Longrightarrow> rsField rs \<Longrightarrow>
    codeword rs block \<longleftrightarrow> \<not> list_ex (\<lambda>i. syndromeAt rs (tables rs) block (rootExponent rs i) \<noteq> 0) [0..<roots rs]"
  by (auto simp: codeword_def fieldBlock_symbols list_all_iff list_ex_iff)

lemma correct_outcome:
  assumes rs: "rsField rs" and block: "length block = kBlock rs" and run: "correct rs block erasures pad = (block', r)"
  shows "length block' = kBlock rs" "rsErrors r = symbolDistance block block'" "rsErrors r \<le> roots rs"
    "\<not> fieldBlock rs block \<Longrightarrow> block' = block \<and> r = noRsResult"
    "fieldBlock rs block \<Longrightarrow> fieldBlock rs block'"
    "rsValid r \<Longrightarrow> codeword rs block' \<and> (\<forall>i < pad. block ! i = 0 \<or> block' \<noteq> block \<longrightarrow> block' ! i = 0)"
proof -
  let ?gf = "tables rs"
  have self: "symbolDistance block block = 0" by (simp add: symbolDistance_def)
  have refuse: "symbolBits rs < 8 \<and> list_ex (\<lambda>symbol. unat symbol > kBlock rs) block \<longleftrightarrow> \<not> fieldBlock rs block"
  proof (cases "symbolBits rs < 8")
    case True
    then show ?thesis using block by (auto simp: fieldBlock_def list_all_iff list_ex_iff not_le)
  next
    case False
    then show ?thesis using block byte_field [of rs] by (simp add: fieldBlock_symbols [OF rs] list_all_iff)
  qed
  consider (refused) "\<not> fieldBlock rs block" "block' = block" "r = noRsResult"
    | (clean) "fieldBlock rs block" "block' = block" "r = noRsResult\<lparr>rsValid := True\<rparr>" "list_all (\<lambda>s. s = 0) (syndromes rs ?gf block)"
    | (stuck) "fieldBlock rs block" "block' = block" "r = noRsResult"
    | (corrected) lambdaLog degree found omegaLog where "fieldBlock rs block" "degree \<le> roots rs" "length found = degree"
      "found = chienSearch rs ?gf degree [1..<kBlock rs + 1] (lambdaLog[0 := 0]) []"
      "(block', r) = checkedResult rs ?gf pad (fold (forneyStep rs ?gf omegaLog lambdaLog degree) (rev found) (block, noRsResult))"
  proof (cases "fieldBlock rs block")
    case False
    then show ?thesis using refused run refuse by (simp add: correct_def Let_def)
  next
    case True
    let ?log = "map (logOf ?gf) (syndromes rs ?gf block)"
    let ?lam = "map (logOf ?gf) (berlekampMassey rs ?gf ?log erasures)"
    let ?deg = "locatorDegree rs ?lam"
    let ?found = "chienSearch rs ?gf ?deg [1..<kBlock rs + 1] (?lam[0 := 0]) []"
    consider "list_all (\<lambda>s. s = 0) (syndromes rs ?gf block)"
      | "\<not> list_all (\<lambda>s. s = 0) (syndromes rs ?gf block)" "?deg = 0 \<or> length ?found \<noteq> ?deg"
      | "\<not> list_all (\<lambda>s. s = 0) (syndromes rs ?gf block)" "?deg \<noteq> 0" "length ?found = ?deg"
      by blast
    then show ?thesis
    proof cases
      case 1
      then show ?thesis using clean run True refuse by (simp add: correct_def Let_def)
    next
      case 2
      then show ?thesis using stuck run True refuse by (auto simp: correct_def Let_def simp del: upt_Suc split: if_splits)
    next
      case 3
      then have "correct rs block erasures pad = checkedResult rs ?gf pad
          (fold (forneyStep rs ?gf (omegaLogs rs ?gf ?log ?lam ?deg) ?lam ?deg) (rev ?found) (block, noRsResult))"
        using True unfolding correct_def Let_def refuse by (simp del: upt_Suc)
      then show ?thesis using corrected [OF True locatorDegree_le 3(3) refl] run by metis
    qed
  qed
  then have "length block' = kBlock rs \<and> rsErrors r = symbolDistance block block' \<and> rsErrors r \<le> roots rs \<and>
      (\<not> fieldBlock rs block \<longrightarrow> block' = block \<and> r = noRsResult) \<and> (fieldBlock rs block \<longrightarrow> fieldBlock rs block') \<and>
      (rsValid r \<longrightarrow> codeword rs block' \<and> (\<forall>i < pad. block ! i = 0 \<or> block' \<noteq> block \<longrightarrow> block' ! i = 0))"
  proof cases
    case refused
    then show ?thesis using block self by (simp add: noRsResult_def)
  next
    case clean
    then have "codeword rs block" unfolding codeword_valid [OF clean(1) rs] by (auto simp: syndromes_def list_all_iff list_ex_iff)
    then show ?thesis using clean block self by (simp add: noRsResult_def)
  next
    case stuck
    then show ?thesis using block self by (simp add: noRsResult_def)
  next
    case (corrected lambdaLog degree found omegaLog)
    have sym: "symbols rs block" using corrected(1) by (simp add: fieldBlock_symbols [OF rs])
    obtain b q where fold: "fold (forneyStep rs ?gf omegaLog lambdaLog degree) (rev found) (block, noRsResult) = (b, q)"
      by (cases "fold (forneyStep rs ?gf omegaLog lambdaLog degree) (rev found) (block, noRsResult)")
    obtain js where js: "set js \<subseteq> set [1..<kBlock rs + 1]" "distinct js"
      "found = map (\<lambda>i. (modExp rs (primitiveStep rs * i), i - 1)) js"
      using chienSearch_places [OF distinct_upt, of 1 "kBlock rs + 1" rs ?gf degree "lambdaLog[0 := 0]" "[]"]
      unfolding corrected(4) append_Nil by blast
    have range: "\<forall>i \<in> set js. 1 \<le> i \<and> i \<le> kBlock rs" using js(1) by auto
    then have "inj_on (\<lambda>i. i - 1) (set js)" by (metis (no_types, lifting) inj_onI le_add_diff_inverse)
    then have "distinct (map snd (rev found))" using js(2,3) by (simp add: comp_def distinct_map flip: rev_map)
    moreover have "\<forall>p \<in> set (rev found). snd p < length block" using js(3) range block by fastforce
    ultimately have b: "length b = length block" "symbols rs b" "\<not> rsValid q" "\<not> rsPadCorrupted q"
      "rsErrors q = symbolDistance block b" "rsErrors q \<le> length found"
      using forney_changes [OF rs _ _ sym fold] by (simp_all add: noRsResult_def)
    have bf: "fieldBlock rs b" using b(1,2) block by (simp add: fieldBlock_symbols [OF rs])
    have "(block', r) = checkedResult rs ?gf pad (b, q)" using corrected(5) fold by simp
    then have "block' = b" "rsErrors r = rsErrors q" "rsValid r \<longrightarrow> codeword rs b \<and> (\<forall>i < pad. b ! i = 0)"
      using b(3,4) by (auto simp: checkedResult_def Let_def codeword_valid [OF bf rs] list_ex_iff split: if_splits)
    then show ?thesis using b bf block corrected(1-3) by (auto simp: fieldBlock_def)
  qed
  then show "length block' = kBlock rs" "rsErrors r = symbolDistance block block'" "rsErrors r \<le> roots rs"
    "\<not> fieldBlock rs block \<Longrightarrow> block' = block \<and> r = noRsResult"
    "fieldBlock rs block \<Longrightarrow> fieldBlock rs block'"
    "rsValid r \<Longrightarrow> codeword rs block' \<and> (\<forall>i < pad. block ! i = 0 \<or> block' \<noteq> block \<longrightarrow> block' ! i = 0)"
    by blast+
qed

subsection \<open>The named fields are primitive\<close>

lemma gfPow_fold: "gfPow bits poly n x = fold (\<lambda>_. gfStep bits poly) [0..<n] x"
  by (induction n) simp_all

lemma gfPow_gcd: "gfPow bits poly a 1 = 1 \<Longrightarrow> gfPow bits poly b 1 = 1 \<Longrightarrow> gfPow bits poly (gcd a b) 1 = 1"
proof (induction a b rule: gcd_nat_induct)
  case (step a b)
  let ?r = "a mod b"
  have "gfPow bits poly (?r + b * q) 1 = gfPow bits poly ?r 1" for q
  proof (induction q)
    case (Suc q)
    have "?r + b * Suc q = (?r + b * q) + b" by simp
    then show ?case using Suc step.prems(2) by (simp only: gfPow_add)
  qed simp
  from this [of "a div b"] have "gfPow bits poly ?r 1 = 1" using step.prems(1) by simp
  then show ?case using step by (simp add: gcd_red_nat [symmetric])
qed simp

lemma primitiveFieldI:
  assumes "2 \<le> bits" "bits \<le> 8" "fold (\<lambda>_. gfStep bits poly) [0..<2 ^ bits - 1] 1 = 1"
    and "list_all (\<lambda>d. fold (\<lambda>_. gfStep bits poly) [0..<d] 1 \<noteq> 1) (filter (\<lambda>d. (2 ^ bits - 1) mod d = 0) [1..<2 ^ bits - 1])"
  shows "primitiveField bits poly"
  unfolding primitiveField_def
proof (intro conjI allI impI)
  let ?N = "2 ^ bits - 1 :: nat"
  show once: "gfPow bits poly ?N 1 = 1" using assms(3) by (simp add: gfPow_fold)
  fix i assume i: "0 < i" "i < ?N"
  show "gfPow bits poly i 1 \<noteq> 1"
  proof
    assume "gfPow bits poly i 1 = 1"
    then have "gfPow bits poly (gcd i ?N) 1 = 1" using gfPow_gcd once by blast
    have "gcd i ?N \<noteq> 0" "gcd i ?N \<le> i" using i(1) by (simp_all add: gcd_le1_nat)
    then have "gcd i ?N \<in> {1..<?N}" unfolding atLeastLessThan_iff using i(2) by linarith
    then have "gcd i ?N \<in> set (filter (\<lambda>d. ?N mod d = 0) [1..<?N])" unfolding set_filter set_upt by simp
    then have "fold (\<lambda>_. gfStep bits poly) [0..<gcd i ?N] 1 \<noteq> 1" using assms(4) unfolding list_all_iff by blast
    then show False using \<open>gfPow bits poly (gcd i ?N) 1 = 1\<close> by (simp add: gfPow_fold)
  qed
qed (use assms in simp_all)

lemma named_fields: "primitiveField 6 0x43" "primitiveField 8 0x187"
  by (rule primitiveFieldI; (simp; fail | code_simp))+

lemma named_codes:
  "1 \<le> r \<Longrightarrow> r < 63 \<Longrightarrow> rsCode (reedSolomon6 r)" "rsCode reedSolomonCcsds255_223" "rsCode reedSolomonCcsds255_239"
proof -
  have six: "rsCompiles (reedSolomon6 r)" by (simp add: rsCompiles_def reedSolomon6_def kBlock_def gcd_loop)
  show "rsCode (reedSolomon6 r)" if "1 \<le> r" "r < 63"
    using six that named_fields(1) by (simp add: rsCode_def rsField_def) (simp add: reedSolomon6_def kBlock_def)
  have "rsCompiles reedSolomonCcsds255_223" "rsCompiles reedSolomonCcsds255_239"
    unfolding reedSolomonCcsds255_223_def reedSolomonCcsds255_239_def by code_simp+
  then show "rsCode reedSolomonCcsds255_223" "rsCode reedSolomonCcsds255_239"
    using named_fields(2)
    by (simp_all add: rsCode_def rsField_def reedSolomonCcsds255_223_def reedSolomonCcsds255_239_def reedSolomonCcsds_def kBlock_def)
qed

subsection \<open>What the code promises\<close>

text \<open>C10. For every code over a primitive field, of any width, root count and first root and any step
  below 2^23, encode of a block with clean padding refuses exactly the blocks with an information
  symbol outside the field and leaves them untouched; otherwise it keeps the information symbols and
  writes parity that makes the block a codeword, every generator root a root of it, which the
  decoder accepts unchanged.\<close>

theorem rs_encode_codeword:
  assumes "rsCode rs" "length block = kBlock rs" "pad \<le> kBlock rs - roots rs" "\<forall>i < pad. block ! i = 0"
    and "encodeBlock rs block pad = (ok, block')"
  shows "ok = (\<forall>i \<in> {pad..<kBlock rs - roots rs}. unat (block ! i) \<le> kBlock rs) \<and>
    (\<not> ok \<longrightarrow> block' = block) \<and>
    (ok \<longrightarrow> take (kBlock rs - roots rs) block' = take (kBlock rs - roots rs) block \<and> codeword rs block' \<and>
      decodeBlock rs block' pad = (block', \<lparr>rsErrors = 0, rsValid = True, rsPadCorrupted = False\<rparr>))"
proof (cases "\<forall>i \<in> {pad..<kBlock rs - roots rs}. unat (block ! i) \<le> kBlock rs")
  case True
  note rs = rsCodeD(1) [OF assms(1)]
  obtain parity where run: "encodeBlock rs block pad = (True, take (kBlock rs - roots rs) block @ parity)"
    and word: "codeword rs (take (kBlock rs - roots rs) block @ parity)"
    using encode_codeword [OF assms(1-4) True] by blast
  have "decodeBlock rs block' pad = (block', \<lparr>rsErrors = 0, rsValid = True, rsPadCorrupted = False\<rparr>)"
  proof -
    have w: "codeword rs block'" using word run assms(5) by simp
    then have fit: "\<not> list_ex (\<lambda>symbol. unat symbol > kBlock rs) block'"
      by (auto simp: codeword_def list_all_iff list_ex_iff symbol_fits [OF rs] not_less)
    have "list_all (\<lambda>s. s = 0) (syndromes rs (tables rs) block')"
      using w by (simp add: codeword_def syndromes_def list_all_iff)
    then show ?thesis unfolding decodeBlock_def correct_def Let_def using fit by (simp add: noRsResult_def)
  qed
  then show ?thesis using True run word assms(2,5) by auto
next
  case False
  have "symbolBits rs < 8"
  proof (rule ccontr)
    assume "\<not> symbolBits rs < 8"
    then show False using False byte_field [of rs] symbol_fits [OF rsCodeD(1) [OF assms(1)]] by auto
  qed
  moreover have "list_ex (\<lambda>i. unat (block ! i) > kBlock rs) [pad..<kBlock rs - roots rs]"
    using False by (auto simp: list_ex_iff not_le)
  ultimately have "encodeBlock rs block pad = (False, block)" by (simp add: encodeBlock_def Let_def)
  then show ?thesis using False assms(5) by auto
qed

text \<open>C2. Whatever was received and whatever was marked erased, the decoder changes exactly as many
  symbols as it reports, at most one per root, and calls the block valid only when it is a codeword
  with clean padding, and then no other codeword lies within the root count less the reported errors
  of what was received.\<close>

theorem rs_decode_sound:
  assumes "rsCode rs" "length block = kBlock rs" "\<forall>i < pad. block ! i = 0"
    and "decodeWithErasures rs block erasures pad = (block', r)"
  shows "length block' = kBlock rs \<and> rsErrors r = symbolDistance block block' \<and> rsErrors r \<le> roots rs \<and>
    (rsValid r \<longrightarrow> codeword rs block' \<and> (\<forall>i < pad. block' ! i = 0) \<and>
      (\<forall>w. codeword rs w \<and> symbolDistance block w + rsErrors r \<le> roots rs \<longrightarrow> w = block'))"
proof -
  note rs = rsCodeD(1) [OF assms(1)]
  have outcome: "length block' = kBlock rs \<and> rsErrors r = symbolDistance block block' \<and> rsErrors r \<le> roots rs \<and>
      (rsValid r \<longrightarrow> codeword rs block' \<and> (\<forall>i < pad. block' ! i = 0))"
  proof (cases "decodeWithErasures rs block erasures pad = correct rs block erasures pad")
    case True
    then have "correct rs block erasures pad = (block', r)" using assms(4) by simp
    note result = correct_outcome [OF rs assms(2) this]
    show ?thesis using result(1-3,6) assms(3) by blast
  next
    case False
    then have "block' = block" "r = noRsResult" using assms(4) by (auto simp: decodeWithErasures_def split: if_splits)
    then show ?thesis using assms(2) by (simp add: noRsResult_def symbolDistance_def)
  qed
  have "w = block'" if "rsValid r" "codeword rs w" "symbolDistance block w + rsErrors r \<le> roots rs" for w
  proof (rule codewords_far [OF assms(1) that(2)])
    show "codeword rs block'" using outcome that(1) by blast
    have "symbolDistance w block' \<le> symbolDistance w block + symbolDistance block block'"
      using that(2) assms(2) by (intro symbolDistance_triangle) (simp add: codeword_def)
    also have "symbolDistance w block = symbolDistance block w"
      using that(2) assms(2) by (intro symbolDistance_commute) (simp add: codeword_def)
    finally show "symbolDistance w block' \<le> roots rs" using that(3) outcome by simp
  qed
  then show ?thesis using outcome by blast
qed

text \<open>C32. Too many erasures, a position named twice or outside the unpadded block, or a symbol outside
  the field is refused: the block is untouched and the result not valid, with no error counted.\<close>

theorem rs_decode_refuses:
  assumes "rsCode rs" "length block = kBlock rs"
    and "length erasures > roots rs \<or> \<not> distinct erasures \<or> (\<exists>p \<in> set erasures. p < pad \<or> kBlock rs \<le> p) \<or>
      (\<exists>x \<in> set block. unat x > kBlock rs)"
  shows "decodeWithErasures rs block erasures pad = (block, \<lparr>rsErrors = 0, rsValid = False, rsPadCorrupted = False\<rparr>)"
proof (cases "length erasures > roots rs \<or> \<not> positionsAccepted rs pad erasures (replicate (kBlock rs) False)")
  case True
  then show ?thesis by (auto simp: decodeWithErasures_def noRsResult_def)
next
  case False
  then have positions: "positionsAccepted rs pad erasures (replicate (kBlock rs) False)" "\<not> length erasures > roots rs" by simp_all
  then have "distinct erasures" "\<forall>p \<in> set erasures. pad \<le> p \<and> p < kBlock rs" by (simp_all add: positionsAccepted_iff)
  then have "\<exists>x \<in> set block. unat x > kBlock rs" using assms(3) positions(2) by (meson not_le)
  then have out: "\<not> fieldBlock rs block" by (auto simp: fieldBlock_def list_all_iff not_le intro: bexI)
  have "correct rs block erasures pad = (block, noRsResult)"
    using correct_outcome(4) [OF rsCodeD(1) [OF assms(1)] assms(2) _ out] by (metis surj_pair)
  then show ?thesis using positions by (simp add: decodeWithErasures_def noRsResult_def)
qed

text \<open>C33. The Euclidean loop behind the coprimality assertion returns for every pair of 32-bit arguments,
  also with a zero among them, and returns their greatest common divisor.\<close>

theorem greatestCommonDivisor_returns:
  "\<exists>r. greatestCommonDivisor a b = Some r \<and> unat r = gcd (unat a) (unat b)"
proof -
  have "gcd (unat a) (unat b) < 2 ^ 32"
  proof (cases "b = 0")
    case True
    then show ?thesis using unsigned_less [of a, where ?'a = nat] by simp
  next
    case False
    then have "gcd (unat a) (unat b) \<le> unat b" by (intro gcd_le2_nat) (simp add: unat_eq_0)
    then show ?thesis using unsigned_less [of b, where ?'a = nat] by simp
  qed
  then show ?thesis by (simp add: gcd_loop unat_of_nat)
qed

subsection \<open>All of them at the code of four roots over GF(8)\<close>

definition smallCode :: RsCode where
  "smallCode = \<lparr>symbolBits = 3, fieldPoly = 11, roots = 4, firstConsecutiveRoot = 1, primitiveStep = 1\<rparr>"

lemma smallCode: "rsCode smallCode" "kBlock smallCode = 7" "roots smallCode = 4"
proof -
  have "primitiveField 3 11" by (rule primitiveFieldI; (simp; fail | code_simp))
  moreover have "rsCompiles smallCode" by code_simp
  ultimately show "rsCode smallCode" "kBlock smallCode = 7" "roots smallCode = 4"
    by (simp_all add: rsCode_def rsField_def smallCode_def kBlock_def)
qed

lemma rs_encode_codeword_witness:
  "encodeBlock smallCode [0, 2, 3, 0, 0, 0, 0] 1 = (True, [0, 2, 3, 6, 1, 7, 4]) \<and> codeword smallCode [0, 2, 3, 6, 1, 7, 4]"
proof -
  have run: "encodeBlock smallCode [0, 2, 3, 0, 0, 0, 0] 1 = (True, [0, 2, 3, 6, 1, 7, 4])" by code_simp
  have "codeword smallCode [0, 2, 3, 6, 1, 7, 4]"
    using rs_encode_codeword [OF smallCode(1) _ _ _ run] by (simp add: smallCode(2,3))
  then show ?thesis using run by simp
qed

lemma rs_decode_sound_witness:
  "\<exists>r. decodeWithErasures smallCode [1, 7, 3, 0, 0, 0, 3] [] 0 = ([1, 2, 3, 0, 0, 1, 3], r) \<and> rsErrors r = 2 \<and> rsValid r \<and>
    (\<forall>w. codeword smallCode w \<and> symbolDistance [1, 7, 3, 0, 0, 0, 3] w \<le> 2 \<longrightarrow> w = [1, 2, 3, 0, 0, 1, 3])"
proof -
  have run: "decodeWithErasures smallCode [1, 7, 3, 0, 0, 0, 3] [] 0 =
      ([1, 2, 3, 0, 0, 1, 3], \<lparr>rsErrors = 2, rsValid = True, rsPadCorrupted = False\<rparr>)" by code_simp
  show ?thesis using rs_decode_sound [OF smallCode(1) _ _ run] run by (auto simp: smallCode(2,3))
qed

lemma rs_decode_refuses_witness:
  "decodeWithErasures smallCode [1, 7, 3, 0, 0, 0, 3] [5, 5] 0 =
    ([1, 7, 3, 0, 0, 0, 3], \<lparr>rsErrors = 0, rsValid = False, rsPadCorrupted = False\<rparr>)"
  by (rule rs_decode_refuses [OF smallCode(1)]) (simp_all add: smallCode(2,3))

end
