(* ===== verification/Codeblock.thy ===== *)
theory Codeblock
  imports ReedSolomon Interleaver
begin

section \<open>Codeblock interleaving is the block interleaver\<close>

text \<open>
  The two free functions of \<^verbatim>\<open>fec/ReedSolomon.hpp\<close> that lay codewords out on the wire against the \<open>block\<close> kind of
  \<^verbatim>\<open>fec/Interleaver.hpp\<close>: the header writes the index map out so as not to depend on the interleaver, and the two agree.
\<close>

text \<open>A position of the codewords, and the position of the codeblock it travels in.\<close>

lemma transposed_position:
  fixes k rows depth :: nat
  assumes "k < rows * depth"
  defines "s \<equiv> (k mod rows) * depth + k div rows"
  shows "s < rows * depth" "s mod depth * rows + s div depth = k"
proof -
  have rows: "0 < rows" using assms(1) by (cases rows) simp_all
  have d: "k div rows < depth" using assms(1) by (simp add: less_mult_imp_div_less mult.commute)
  then have "s mod depth = k div rows" "s div depth = k mod rows" by (simp_all add: s_def)
  then show "s mod depth * rows + s div depth = k" by (simp only: div_mult_mod_eq)
  show "s < rows * depth" unfolding s_def using readout_inj(2) [OF rows _ assms(1)] d by simp
qed

lemma length_interleaveCodewords [simp]: "length (interleaveCodewords xs out rows depth) = length out"
  using length_fold_update [of 0] by (simp add: interleaveCodewords_def Let_def)

lemma length_deinterleaveCodewords [simp]: "length (deinterleaveCodewords xs out rows depth) = length out"
  by (simp add: deinterleaveCodewords_def Let_def)

lemma interleaveCodewords_nth:
  assumes "rows * depth \<le> length codewords" "length out = rows * depth" "s < rows * depth"
  shows "interleaveCodewords codewords out rows depth ! s = codewords ! (s mod depth * rows + s div depth)"
  using assms by (simp add: interleaveCodewords_def Let_def fold_update_nth_0)

lemma deinterleaveCodewords_nth:
  assumes "rows * depth \<le> length codeblock" "length out = rows * depth" "k < rows * depth"
  shows "deinterleaveCodewords codeblock out rows depth ! k = codeblock ! (k mod rows * depth + k div rows)"
proof -
  let ?g = "\<lambda>s. s mod depth * rows + s div depth"
  let ?s = "k mod rows * depth + k div rows"
  have pos: "0 < depth" "0 < rows" using assms(3) by (auto intro: gr0I)
  have "inj_on ?g (set [0..<rows * depth])"
  proof (rule inj_onI)
    fix x y assume "x \<in> set [0..<rows * depth]" "y \<in> set [0..<rows * depth]" "?g x = ?g y"
    then show "x = y" using readout_inj(1) [OF pos] by (auto simp: inj_on_def mult.commute)
  qed
  moreover have "?s \<in> set [0..<rows * depth]" using transposed_position(1) [OF assms(3)] by simp
  ultimately have "fold (\<lambda>s words. words[?g s := codeblock ! s]) [0..<rows * depth] out ! ?g ?s = codeblock ! ?s"
    by (intro fold_scatter_nth) (simp_all only: transposed_position(2) [OF assms(3)] assms(2,3))
  then show ?thesis
    using assms(1,2) unfolding transposed_position(2) [OF assms(3)] by (simp add: deinterleaveCodewords_def Let_def)
qed

text \<open>C40. The two codeblock functions of the Reed-Solomon header are the block interleaver of as many
  rows as a codeword has symbols and one column per codeword: its interleave takes a codeblock to
  codewords as deinterleaveCodewords does, its deinterleave goes back as interleaveCodewords does,
  and the two functions invert each other.\<close>

theorem codeblock_is_block_interleaver:
  assumes il: "block rows depth fill = Inr il"
    and len: "length codewords = rows * depth" "length codeblock = rows * depth" "length out = rows * depth"
  shows "interleave il codeblock out = (rows * depth, deinterleaveCodewords codeblock out rows depth, il) \<and>
    deinterleave il codewords out = (rows * depth, interleaveCodewords codewords out rows depth, il) \<and>
    deinterleaveCodewords (interleaveCodewords codewords codeblock rows depth) out rows depth = codewords \<and>
    interleaveCodewords (deinterleaveCodewords codeblock codewords rows depth) out rows depth = codeblock"
proof (intro conjI)
  note wf = blockWindow_wellFramed [OF il [unfolded block_def]]
  have frame: "length (il_map il) = rows * depth" "il_frameSize il = rows * depth" by (simp_all add: wf)
  have at: "il_map il ! k = k mod rows * depth + k div rows" if "k < rows * depth" for k using that by (simp add: wf(8))
  note fwd = interleave_framed [OF wf(1), of codeblock 1 out, unfolded frame]
  have "fst (snd (interleave il codeblock out)) = deinterleaveCodewords codeblock out rows depth"
  proof (rule nth_equalityI)
    show "length (fst (snd (interleave il codeblock out))) = length (deinterleaveCodewords codeblock out rows depth)"
      using fwd(3) len by simp
    fix k assume "k < length (fst (snd (interleave il codeblock out)))"
    then have k: "k < rows * depth" using fwd(3) len by simp
    then show "fst (snd (interleave il codeblock out)) ! k = deinterleaveCodewords codeblock out rows depth ! k"
      using fwd(4) [of 0 k] len at [OF k] by (simp add: deinterleaveCodewords_nth)
  qed
  then show "interleave il codeblock out = (rows * depth, deinterleaveCodewords codeblock out rows depth, il)"
    using fwd(1,2) len by (intro prod_eqI) simp_all
  note bwd = deinterleave_framed [OF wf(1), of codewords 1 out, unfolded frame]
  have "fst (snd (deinterleave il codewords out)) = interleaveCodewords codewords out rows depth"
  proof (rule nth_equalityI)
    show "length (fst (snd (deinterleave il codewords out))) = length (interleaveCodewords codewords out rows depth)"
      using bwd(3) len by simp
    fix s assume "s < length (fst (snd (deinterleave il codewords out)))"
    then have s: "s < rows * depth" using bwd(3) len by simp
    then have s': "s < depth * rows" by (simp add: mult.commute)
    let ?k = "s mod depth * rows + s div depth"
    note k = transposed_position [OF s']
    have "?k < rows * depth" using k(1) by (simp add: mult.commute)
    then have "fst (snd (deinterleave il codewords out)) ! s = codewords ! ?k"
      using bwd(4) [of 0 ?k] len at [of ?k] k(2) by simp
    then show "fst (snd (deinterleave il codewords out)) ! s = interleaveCodewords codewords out rows depth ! s"
      using len s by (simp add: interleaveCodewords_nth)
  qed
  then show "deinterleave il codewords out = (rows * depth, interleaveCodewords codewords out rows depth, il)"
    using bwd(1,2) len by (intro prod_eqI) simp_all
  show "deinterleaveCodewords (interleaveCodewords codewords codeblock rows depth) out rows depth = codewords"
    using len transposed_position [of _ rows depth]
    by (intro nth_equalityI) (simp_all add: deinterleaveCodewords_nth interleaveCodewords_nth)
  show "interleaveCodewords (deinterleaveCodewords codeblock codewords rows depth) out rows depth = codeblock"
    using len transposed_position [of _ depth rows]
    by (intro nth_equalityI) (simp_all add: deinterleaveCodewords_nth interleaveCodewords_nth mult.commute [of depth])
qed

lemma codeblock_is_block_interleaver_witness:
  "\<exists>il. block 3 2 (0 :: u8) = Inr il \<and> interleave il [1, 4, 2, 5, 3, 6] [0, 0, 0, 0, 0, 0] = (6, [1, 2, 3, 4, 5, 6], il)"
proof -
  obtain il where il: "block 3 2 (0 :: u8) = Inr il" by (simp add: block_def blockWindow_def kMaxFrame_def Let_def)
  moreover have "deinterleaveCodewords [1, 4, 2, 5, 3, 6] [0, 0, 0, 0, 0, 0] 3 2 = [1, 2, 3, 4, 5, 6]" by code_simp
  ultimately show ?thesis
    using codeblock_is_block_interleaver [OF il, of "[1, 2, 3, 4, 5, 6]" "[1, 4, 2, 5, 3, 6]" "[0, 0, 0, 0, 0, 0]"] by simp
qed

end
