(* ===== verification/SampleClock.thy ===== *)
theory SampleClock
  imports Prelude
begin

section \<open>The exact sample clock\<close>

text \<open>
  \<^verbatim>\<open>timing/SampleClock.hpp\<close>: the 128-bit magnitudes in two limbs with the operations the clock performs on them, and
  the clock itself: sample times, the index of a time, moving the anchor, changing the rate and the division-free walk
  over consecutive samples.  A \<^verbatim>\<open>std::int64_t\<close> is a 64-bit word read by \<open>sint\<close>.  Its sums and negations wrap in the
  model, while C++ leaves their overflow undefined: beside each operation that computes with signed values stands the
  predicate that says its evaluation overflows nowhere (\<open>offsetFromDefined\<close>, \<open>timeOfDefined\<close>, \<open>advanceDefined\<close>), and the
  properties say for which clocks and samples it holds.  The accessors that answer a \<^verbatim>\<open>double\<close> and
  \<^verbatim>\<open>clockForRateHz\<close>, which rounds one, are not modelled.
\<close>

subsection \<open>Two limbs\<close>

record U128 =
  limbHi :: u64
  limbLo :: u64

definition mul128 :: "u64 \<Rightarrow> u64 \<Rightarrow> U128" where
  "mul128 a b =
     (let kMask = 0xFFFFFFFF;
          aLo = a AND kMask; aHi = drop_bit 32 a;
          bLo = b AND kMask; bHi = drop_bit 32 b;
          ll = aLo * bLo; lh = aLo * bHi; hl = aHi * bLo; hh = aHi * bHi;
          middle = drop_bit 32 ll + (lh AND kMask) + (hl AND kMask)
      in \<lparr>limbHi = hh + drop_bit 32 lh + drop_bit 32 hl + drop_bit 32 middle,
          limbLo = push_bit 32 middle OR (ll AND kMask)\<rparr>)"

definition add128 :: "U128 \<Rightarrow> u64 \<Rightarrow> U128" where
  "add128 a b =
     (let lo = limbLo a + b in \<lparr>limbHi = limbHi a + (if lo < limbLo a then 1 else 0), limbLo = lo\<rparr>)"

definition sub128 :: "U128 \<Rightarrow> u64 \<Rightarrow> U128" where
  "sub128 a b = \<lparr>limbHi = limbHi a - (if limbLo a < b then 1 else 0), limbLo = limbLo a - b\<rparr>"

definition less128 :: "U128 \<Rightarrow> u64 \<Rightarrow> bool" where
  "less128 a b \<longleftrightarrow> limbHi a = 0 \<and> limbLo a < b"

record DivResult =
  divQuotient :: U128
  divRemainder :: u64

definition divideBit :: "u64 \<Rightarrow> u64 \<Rightarrow> nat \<Rightarrow> u64 \<times> u64 \<Rightarrow> u64 \<times> u64" where
  "divideBit lo d k s =
     (let (rest, quot) = s;
          rest = push_bit 1 rest OR (drop_bit k lo AND 1);
          quot = push_bit 1 quot
      in if rest \<ge> d then (rest - d, quot OR 1) else (rest, quot))"

definition divide128 :: "U128 \<Rightarrow> u64 \<Rightarrow> DivResult" where
  "divide128 a d =
     (let (qHi, rest) = (if limbHi a \<noteq> 0 then (limbHi a div d, limbHi a mod d) else (0, 0));
          (rest, quot) = fold (divideBit (limbLo a) d) (rev [0..<64]) (rest, 0)
      in \<lparr>divQuotient = \<lparr>limbHi = qHi, limbLo = quot\<rparr>, divRemainder = rest\<rparr>)"

subsection \<open>The clock\<close>

record IndexAt =
  atIndex :: u64
  atRemainderNum :: u64
  atRemainderDen :: u64

definition kNsPerSecond :: u64 where "kNsPerSecond = 1000000000"
definition kMaxRateNum :: u64 where "kMaxRateNum = push_bit 63 1 - 1"
definition kMaxRateDen :: u64 where "kMaxRateDen = kMaxRateNum div kNsPerSecond"

record SampleClock =
  anchorIndex :: u64
  anchorNs :: u64
  rateNum :: u64
  rateDen :: u64
  anchorRem :: u64

definition defaultClock :: SampleClock where
  "defaultClock = \<lparr>anchorIndex = 0, anchorNs = 0, rateNum = 1, rateDen = 1, anchorRem = 0\<rparr>"

datatype ClockError = ZeroTerm | RateOutsideDomain | RemainderTooLarge | PastLastSample | BeforeFirstSample

text \<open>The constructor; what it throws is on the left.\<close>

definition sampleClock :: "u64 \<Rightarrow> u64 \<Rightarrow> u64 \<Rightarrow> u64 \<Rightarrow> u64 \<Rightarrow> ClockError + SampleClock" where
  "sampleClock index ns num den rem =
     (if num = 0 \<or> den = 0 then Inl ZeroTerm
      else if num > kMaxRateNum \<or> den > kMaxRateDen then Inl RateOutsideDomain
      else if rem \<ge> num then Inl RemainderTooLarge
      else Inr \<lparr>anchorIndex = index, anchorNs = ns, rateNum = num, rateDen = den, anchorRem = rem\<rparr>)"

definition periodNsNum :: "SampleClock \<Rightarrow> u64" where "periodNsNum c = kNsPerSecond * rateDen c"

record NsSplit =
  splitWhole :: u64
  splitRem :: u64

definition offsetFrom :: "SampleClock \<Rightarrow> u64 \<Rightarrow> NsSplit" where
  "offsetFrom c index =
     (let period = periodNsNum c
      in if index \<ge> anchorIndex c
         then let split = divide128 (add128 (mul128 (index - anchorIndex c) period) (anchorRem c)) (rateNum c)
              in \<lparr>splitWhole = limbLo (divQuotient split), splitRem = divRemainder split\<rparr>
         else
           let product = mul128 (anchorIndex c - index) period
           in if less128 product (anchorRem c) then \<lparr>splitWhole = 0, splitRem = anchorRem c - limbLo product\<rparr>
              else
                let split = divide128 (sub128 product (anchorRem c)) (rateNum c)
                in if divRemainder split = 0 then \<lparr>splitWhole = - limbLo (divQuotient split), splitRem = 0\<rparr>
                   else \<lparr>splitWhole = - limbLo (divQuotient split) - 1, splitRem = rateNum c - divRemainder split\<rparr>)"

text \<open>Signed evaluations that stay on the 64-bit axis.\<close>

definition fitsInt64 :: "int \<Rightarrow> bool" where "fitsInt64 x \<longleftrightarrow> - (2 ^ 63) \<le> x \<and> x < 2 ^ 63"

definition sumDefined :: "u64 \<Rightarrow> u64 \<Rightarrow> bool" where "sumDefined a b \<longleftrightarrow> fitsInt64 (sint a + sint b)"

definition negationDefined :: "u64 \<Rightarrow> bool" where "negationDefined a \<longleftrightarrow> fitsInt64 (- sint a)"

definition offsetFromDefined :: "SampleClock \<Rightarrow> u64 \<Rightarrow> bool" where
  "offsetFromDefined c index \<longleftrightarrow>
     index \<ge> anchorIndex c \<or>
     (let product = mul128 (anchorIndex c - index) (periodNsNum c);
          split = divide128 (sub128 product (anchorRem c)) (rateNum c)
      in less128 product (anchorRem c) \<or>
         negationDefined (limbLo (divQuotient split)) \<and>
         (divRemainder split = 0 \<or> sumDefined (- limbLo (divQuotient split)) (- 1)))"

definition timeOf :: "SampleClock \<Rightarrow> u64 \<Rightarrow> u64" where
  "timeOf c index = anchorNs c + splitWhole (offsetFrom c index)"

definition timeOfDefined :: "SampleClock \<Rightarrow> u64 \<Rightarrow> bool" where
  "timeOfDefined c index \<longleftrightarrow> offsetFromDefined c index \<and> sumDefined (anchorNs c) (splitWhole (offsetFrom c index))"

definition indexOf :: "SampleClock \<Rightarrow> u64 \<Rightarrow> ClockError + IndexAt" where
  "indexOf c ns =
     (let period = periodNsNum c;
          after = sint ns \<ge> sint (anchorNs c);
          distance = (if after then ns - anchorNs c else anchorNs c - ns);
          (numerator, negative) =
            (if after then
               let scaled = mul128 distance (rateNum c)
               in if less128 scaled (anchorRem c) then (\<lparr>limbHi = 0, limbLo = anchorRem c - limbLo scaled\<rparr>, True)
                  else (sub128 scaled (anchorRem c), False)
             else (add128 (mul128 distance (rateNum c)) (anchorRem c), True));
          split = divide128 numerator period;
          quot = divQuotient split;
          partial = (divRemainder split \<noteq> 0)
      in if \<not> negative then
           if limbHi quot \<noteq> 0 \<or> limbLo quot > - 1 - anchorIndex c then Inl PastLastSample
           else Inr \<lparr>atIndex = anchorIndex c + limbLo quot, atRemainderNum = divRemainder split, atRemainderDen = period\<rparr>
         else if limbHi quot \<noteq> 0 \<or> limbLo quot > anchorIndex c \<or> partial \<and> limbLo quot = anchorIndex c
         then Inl BeforeFirstSample
         else if \<not> partial
         then Inr \<lparr>atIndex = anchorIndex c - limbLo quot, atRemainderNum = 0, atRemainderDen = period\<rparr>
         else Inr \<lparr>atIndex = anchorIndex c - limbLo quot - 1, atRemainderNum = period - divRemainder split, atRemainderDen = period\<rparr>)"

definition rebase :: "SampleClock \<Rightarrow> u64 \<Rightarrow> ClockError + SampleClock" where
  "rebase c index =
     (let at = offsetFrom c index
      in sampleClock index (anchorNs c + splitWhole at) (rateNum c) (rateDen c) (splitRem at))"

definition withRate :: "SampleClock \<Rightarrow> u64 \<Rightarrow> u64 \<Rightarrow> u64 \<Rightarrow> ClockError + SampleClock" where
  "withRate c num den index =
     (if num = 0 \<or> den = 0 then Inl ZeroTerm
      else if num > kMaxRateNum \<or> den > kMaxRateDen then Inl RateOutsideDomain
      else
        let at = offsetFrom c index;
            rescaled = limbLo (divQuotient (divide128 (mul128 (splitRem at) num) (rateNum c)))
        in sampleClock index (anchorNs c + splitWhole at) num den rescaled)"

subsection \<open>The walk\<close>

record NsWalk =
  walkNs :: u64
  walkRem :: u64
  walkWhole :: u64
  walkCarry :: u64
  walkModulus :: u64

definition advance :: "NsWalk \<Rightarrow> NsWalk" where
  "advance w =
     (let w = w\<lparr>walkNs := walkNs w + walkWhole w, walkRem := walkRem w + walkCarry w\<rparr>
      in if walkRem w \<ge> walkModulus w
         then w\<lparr>walkRem := walkRem w - walkModulus w, walkNs := walkNs w + 1\<rparr> else w)"

definition advanceDefined :: "NsWalk \<Rightarrow> bool" where
  "advanceDefined w \<longleftrightarrow> sumDefined (walkNs w) (walkWhole w) \<and>
     (walkRem w + walkCarry w \<ge> walkModulus w \<longrightarrow> sumDefined (walkNs w + walkWhole w) 1)"

definition walkFrom :: "SampleClock \<Rightarrow> u64 \<Rightarrow> NsWalk" where
  "walkFrom c index =
     (let at = offsetFrom c index; period = periodNsNum c
      in \<lparr>walkNs = anchorNs c + splitWhole at, walkRem = splitRem at, walkWhole = period div rateNum c,
          walkCarry = period mod rateNum c, walkModulus = rateNum c\<rparr>)"

end
