(* ===== verification/SampleClockProperties.thy ===== *)
theory SampleClockProperties
  imports SampleClock
begin

section \<open>The sample clock is exact\<close>

text \<open>
  The limb operations compute the natural numbers they stand for, and from them every conversion of a constructed clock
  is the integer floor of the exact rational map: in both directions, on both sides of the anchor, after the anchor moved,
  and along a walk.
\<close>

subsection \<open>Limbs as numbers\<close>

definition value128 :: "U128 \<Rightarrow> nat" where "value128 a = unat (limbHi a) * 2 ^ 64 + unat (limbLo a)"

lemma unat_half: "unat (a AND 0xFFFFFFFF) = unat a mod 2 ^ 32" "unat (drop_bit 32 a) = unat a div 2 ^ 32" for a :: u64
proof -
  have "a AND 0xFFFFFFFF = take_bit 32 a" by (simp add: take_bit_eq_mask mask_eq_exp_minus_1)
  then have "unat (a AND 0xFFFFFFFF) = take_bit 32 (unat a)" by (simp only: unsigned_take_bit_eq)
  then show "unat (a AND 0xFFFFFFFF) = unat a mod 2 ^ 32" by (simp only: take_bit_eq_mod)
  have "unat (drop_bit 32 a) = drop_bit 32 (unat a)" by (simp only: unat_drop_bit_eq)
  then show "unat (drop_bit 32 a) = unat a div 2 ^ 32" by (simp only: drop_bit_eq_div)
qed

lemma unat_u64: "unat (a :: u64) < 2 ^ 64"
  using unsigned_less [of a, where ?'a = nat] by simp

text \<open>The schoolbook product, in halves of any size.\<close>

lemma schoolbook:
  fixes a0 a1 b0 b1 h :: nat
  defines "m \<equiv> a0 * b0 div h + a0 * b1 mod h + a1 * b0 mod h"
  shows "(a1 * b1 + a0 * b1 div h + a1 * b0 div h + m div h) * (h * h) + (m mod h * h + a0 * b0 mod h) =
    (a1 * h + a0) * (b1 * h + b0)"
proof -
  define q0 q1 q2 qm where "q0 = a0 * b0 div h" and "q1 = a0 * b1 div h" and "q2 = a1 * b0 div h" and "qm = m div h"
  define r0 r1 r2 rm where "r0 = a0 * b0 mod h" and "r1 = a0 * b1 mod h" and "r2 = a1 * b0 mod h" and "rm = m mod h"
  have parts: "a0 * b0 = q0 * h + r0" "a0 * b1 = q1 * h + r1" "a1 * b0 = q2 * h + r2"
    unfolding q0_def q1_def q2_def r0_def r1_def r2_def by (simp_all only: div_mult_mod_eq)
  have "qm * h + rm = m" unfolding qm_def rm_def by (rule div_mult_mod_eq)
  then have m: "qm * h + rm = q0 + r1 + r2" unfolding m_def q0_def r1_def r2_def .
  have "(a1 * h + a0) * (b1 * h + b0) = a1 * b1 * (h * h) + (a0 * b1 + a1 * b0) * h + a0 * b0" by (simp add: algebra_simps)
  also have "\<dots> = (a1 * b1 + q1 + q2) * (h * h) + (q0 + r1 + r2) * h + r0" unfolding parts by (simp add: algebra_simps)
  also have "\<dots> = (a1 * b1 + q1 + q2 + qm) * (h * h) + (rm * h + r0)" unfolding m [symmetric] by (simp add: algebra_simps)
  finally show ?thesis unfolding q0_def q1_def q2_def qm_def r0_def rm_def ..
qed

lemma unat_plus: "unat a + unat b < 2 ^ 64 \<Longrightarrow> unat (a + b) = unat a + unat b" for a b :: u64
  by (rule unat_add_fits) simp

lemma unat_times: "unat a * unat b < 2 ^ 64 \<Longrightarrow> unat (a * b) = unat a * unat b" for a b :: u64
  by (rule unat_mult_fits) simp

lemma unat_joined:
  fixes a b :: u64
  assumes "unat b < 2 ^ 32"
  shows "unat (push_bit 32 a OR b) = unat a mod 2 ^ 32 * 2 ^ 32 + unat b"
proof -
  have low: "\<not> bit b i" if "32 \<le> i" for i using bits_below [OF assms, of i] that by linarith
  have "push_bit 32 a OR b = push_bit 32 a + b"
    by (rule disjunctive_add [symmetric]) (use low in \<open>auto simp: bit_push_bit_iff\<close>)
  moreover have "unat (push_bit 32 a) = unat a mod 2 ^ 32 * 2 ^ 32"
  proof -
    have "unat (push_bit 32 a) = take_bit 64 (push_bit 32 (unat a))" by (simp add: unsigned_push_bit_eq)
    also have "\<dots> = push_bit 32 (take_bit 32 (unat a))" by (simp add: take_bit_push_bit)
    finally show ?thesis by (simp add: take_bit_eq_mod push_bit_eq_mult)
  qed
  moreover have "unat a mod 2 ^ 32 * 2 ^ 32 + unat b < 2 ^ 64"
  proof -
    have "unat a mod 2 ^ 32 < 2 ^ 32" by simp
    then have "unat a mod 2 ^ 32 * 2 ^ 32 \<le> (2 ^ 32 - 1) * 2 ^ 32" by (intro mult_le_mono1) linarith
    then show ?thesis using assms by simp
  qed
  ultimately show ?thesis by (simp add: unat_plus)
qed

lemma mul128_value: "value128 (mul128 a b) = unat a * unat b"
proof -
  let ?h = "2 ^ 32 :: nat"
  let ?a0 = "unat a mod ?h" and ?a1 = "unat a div ?h" and ?b0 = "unat b mod ?h" and ?b1 = "unat b div ?h"
  have small: "?a0 < ?h" "?a1 < ?h" "?b0 < ?h" "?b1 < ?h"
    using unat_u64 [of a] unat_u64 [of b] by (simp_all add: less_mult_imp_div_less)
  have prod: "x * y < 2 ^ 64" if "x < ?h" "y < ?h" for x y :: nat
    using mult_strict_mono [OF that] by simp
  let ?m = "?a0 * ?b0 div ?h + ?a0 * ?b1 mod ?h + ?a1 * ?b0 mod ?h"
  have m: "?m < 2 ^ 64"
  proof -
    have "?a0 * ?b0 div ?h < ?h" using prod [OF small(1,3)] by (simp add: less_mult_imp_div_less)
    moreover have "?a0 * ?b1 mod ?h < ?h" "?a1 * ?b0 mod ?h < ?h" by simp_all
    ultimately have "?m < ?h + ?h + ?h" by (intro add_strict_mono)
    also have "\<dots> < 2 ^ 64" by simp
    finally show ?thesis .
  qed
  have total: "(?a1 * ?b1 + ?a0 * ?b1 div ?h + ?a1 * ?b0 div ?h + ?m div ?h) * 2 ^ 64 +
      (?m mod ?h * ?h + ?a0 * ?b0 mod ?h) = unat a * unat b"
  proof -
    have "?h * ?h = (2 ^ 64 :: nat)" by simp
    moreover have "?a1 * ?h + ?a0 = unat a" "?b1 * ?h + ?b0 = unat b" by (simp_all only: div_mult_mod_eq)
    ultimately show ?thesis using schoolbook [of ?a1 ?b1 ?a0 ?h ?b0] by (simp only:)
  qed
  let ?H = "?a1 * ?b1 + ?a0 * ?b1 div ?h + ?a1 * ?b0 div ?h + ?m div ?h"
  have "?H * 2 ^ 64 \<le> unat a * unat b" using total by linarith
  also have "unat a * unat b < 2 ^ 64 * 2 ^ 64" using unat_u64 [of a] unat_u64 [of b] by (intro mult_strict_mono) simp_all
  finally have H: "?H < 2 ^ 64" by (simp only: mult_less_cancel2)
  define ll lh hl hh where "ll = (a AND 0xFFFFFFFF) * (b AND 0xFFFFFFFF)" and "lh = (a AND 0xFFFFFFFF) * drop_bit 32 b"
    and "hl = drop_bit 32 a * (b AND 0xFFFFFFFF)" and "hh = drop_bit 32 a * drop_bit 32 b"
  have products: "unat ll = ?a0 * ?b0" "unat lh = ?a0 * ?b1" "unat hl = ?a1 * ?b0" "unat hh = ?a1 * ?b1"
    unfolding ll_def lh_def hl_def hh_def using small prod by (subst unat_times; simp only: unat_half)+
  define mid where "mid = drop_bit 32 ll + (lh AND 0xFFFFFFFF) + (hl AND 0xFFFFFFFF)"
  have mid: "unat mid = ?m"
    unfolding mid_def using m by (subst unat_plus; (subst unat_plus)?; simp only: unat_half products unat_plus)
  have hi: "unat (hh + drop_bit 32 lh + drop_bit 32 hl + drop_bit 32 mid) = ?H"
    using H by (simp only: unat_plus unat_half products mid)
  have "unat (ll AND 0xFFFFFFFF) < ?h" unfolding unat_half by simp
  from unat_joined [OF this, of mid]
  have lo: "unat (push_bit 32 mid OR (ll AND 0xFFFFFFFF)) = ?m mod ?h * ?h + ?a0 * ?b0 mod ?h"
    unfolding unat_half products mid .
  have "mul128 a b = \<lparr>limbHi = hh + drop_bit 32 lh + drop_bit 32 hl + drop_bit 32 mid,
      limbLo = push_bit 32 mid OR (ll AND 0xFFFFFFFF)\<rparr>"
    unfolding mul128_def Let_def mid_def ll_def lh_def hl_def hh_def ..
  then show ?thesis unfolding value128_def using total by (simp only: U128.simps hi lo)
qed

lemma add128_value:
  assumes "value128 a + unat b < 2 ^ 128"
  shows "value128 (add128 a b) = value128 a + unat b"
proof (cases "unat (limbLo a) + unat b < 2 ^ 64")
  case True
  then have lo: "unat (limbLo a + b) = unat (limbLo a) + unat b" by (rule unat_plus)
  then have "\<not> limbLo a + b < limbLo a" by (simp add: word_less_nat_alt)
  then show ?thesis using lo by (simp add: add128_def value128_def Let_def)
next
  case False
  have "unat (limbLo a + b) = (unat (limbLo a) + unat b) mod 2 ^ 64" by (simp add: unat_word_ariths)
  also have "\<dots> = (unat (limbLo a) + unat b - 2 ^ 64) mod 2 ^ 64" by (rule le_mod_geq) (use False in simp)
  also have "\<dots> = unat (limbLo a) + unat b - 2 ^ 64"
  proof (rule mod_less)
    show "unat (limbLo a) + unat b - 2 ^ 64 < 2 ^ 64" using unat_u64 [of "limbLo a"] unat_u64 [of b] by linarith
  qed
  finally have lo: "unat (limbLo a + b) = unat (limbLo a) + unat b - 2 ^ 64" .
  then have "unat (limbLo a + b) < unat (limbLo a)" using unat_u64 [of b] False by linarith
  then have carry: "limbLo a + b < limbLo a" by (simp add: word_less_nat_alt)
  have "unat (limbHi a) + 1 < 2 ^ 64"
  proof (rule ccontr)
    assume "\<not> ?thesis"
    then have "(2 ^ 64 - 1) * 2 ^ 64 \<le> unat (limbHi a) * 2 ^ 64" by (intro mult_le_mono1) linarith
    then show False using assms False unfolding value128_def by simp
  qed
  then have "unat (limbHi a + 1) = unat (limbHi a) + 1" using unat_plus [of "limbHi a" 1] by simp
  then show ?thesis using lo carry False unat_u64 [of b] by (simp add: add128_def value128_def Let_def algebra_simps)
qed

lemma sub128_value:
  assumes "unat b \<le> value128 a"
  shows "value128 (sub128 a b) = value128 a - unat b"
proof (cases "limbLo a < b")
  case False
  then have "unat (limbLo a - b) = unat (limbLo a) - unat b" by (simp add: unat_sub not_less word_le_nat_alt)
  then show ?thesis using False by (simp add: sub128_def value128_def word_less_nat_alt)
next
  case True
  then have lt: "unat (limbLo a) < unat b" by (simp add: word_less_nat_alt)
  have "limbHi a \<noteq> 0" using assms lt by (auto simp: value128_def)
  then have hi: "unat (limbHi a - 1) = unat (limbHi a) - 1" "0 < unat (limbHi a)"
    by (simp_all add: unat_minus_one unat_gt_0)
  have "unat (limbLo a - b) = 2 ^ 64 + unat (limbLo a) - unat b"
    using True lt by (simp add: unat_sub_if' not_le) 
  then show ?thesis using True hi lt unat_u64 [of b]
    by (cases "unat (limbHi a)") (simp_all add: sub128_def value128_def)
qed

lemma less128_value: "less128 a b \<longleftrightarrow> value128 a < unat b"
proof
  assume "less128 a b"
  then show "value128 a < unat b" by (simp add: less128_def value128_def word_less_nat_alt)
next
  assume lt: "value128 a < unat b"
  have "limbHi a = 0"
  proof (rule ccontr)
    assume "limbHi a \<noteq> 0"
    then have "1 * 2 ^ 64 \<le> unat (limbHi a) * 2 ^ 64" by (intro mult_le_mono1) (simp add: Suc_le_eq unat_gt_0)
    then show False using lt unat_u64 [of b] unfolding value128_def by linarith
  qed
  then show "less128 a b" using lt by (simp add: less128_def value128_def word_less_nat_alt)
qed

text \<open>Long division: one bit of the low limb per step, the remainder below the divisor throughout.\<close>

lemma divideBit_value:
  assumes r: "unat rest < unat d" "unat d < 2 ^ 63" and q: "unat quot < 2 ^ 63"
    and step: "divideBit lo d k (rest, quot) = (rest', quot')"
  shows "unat rest' < unat d"
    "unat quot' * unat d + unat rest' = 2 * (unat quot * unat d + unat rest) + of_bool (bit lo k)"
    "unat quot' \<le> 2 * unat quot + 1"
proof -
  have low: "drop_bit k lo AND 1 = of_bool (bit lo k)" by (simp add: and_one_eq bit_iff_odd_drop_bit mod2_eq_if)
  have even_or: "push_bit 1 x OR of_bool b = push_bit 1 x + of_bool b" for x :: u64 and b
    by (rule disjunctive_add [symmetric]) (simp only: bit_push_bit_iff bit_of_bool_iff, simp)
  have double: "unat (push_bit 1 x) = 2 * unat x" if "unat x < 2 ^ 63" for x :: u64
  proof -
    have "push_bit 1 x = x * 2" by (simp add: push_bit_eq_mult)
    then show ?thesis using that unat_times [of x 2] by simp
  qed
  let ?rest = "push_bit 1 rest OR of_bool (bit lo k) :: u64"
  have "unat rest < 2 ^ 63" using r by linarith
  then have r2: "unat ?rest = 2 * unat rest + of_bool (bit lo k)"
    unfolding even_or using double [of rest] by (subst unat_plus) (simp_all split: split_of_bool)
  have q2: "unat (push_bit 1 quot) = 2 * unat quot" by (rule double [OF q])
  have q3: "unat (push_bit 1 quot OR 1) = 2 * unat quot + 1"
    using even_or [of quot True] q2 q by (simp add: unat_plus)
  have def: "divideBit lo d k (rest, quot) = (if ?rest \<ge> d then (?rest - d, push_bit 1 quot OR 1) else (?rest, push_bit 1 quot))"
    unfolding divideBit_def Let_def prod.case low ..
  show "unat rest' < unat d"
    "unat quot' * unat d + unat rest' = 2 * (unat quot * unat d + unat rest) + of_bool (bit lo k)"
    "unat quot' \<le> 2 * unat quot + 1"
  proof (atomize (full), cases "?rest \<ge> d")
    case True
    then have le: "unat d \<le> 2 * unat rest + of_bool (bit lo k)" using r2 by (simp add: word_le_nat_alt)
    have "rest' = ?rest - d" "quot' = push_bit 1 quot OR 1" using step True unfolding def by auto
    then have "unat rest' = 2 * unat rest + of_bool (bit lo k) - unat d" "unat quot' = 2 * unat quot + 1"
      using unat_sub [OF True] r2 q3 by (simp_all only:)
    then show "unat rest' < unat d \<and> unat quot' * unat d + unat rest' = 2 * (unat quot * unat d + unat rest) + of_bool (bit lo k) \<and>
        unat quot' \<le> 2 * unat quot + 1"
      using r(1) le by (cases "bit lo k") (simp_all add: algebra_simps)
  next
    case False
    then have "unat ?rest < unat d" by (simp add: word_le_nat_alt)
    moreover have "rest' = ?rest" "quot' = push_bit 1 quot" using step False unfolding def by auto
    ultimately show "unat rest' < unat d \<and> unat quot' * unat d + unat rest' = 2 * (unat quot * unat d + unat rest) + of_bool (bit lo k) \<and>
        unat quot' \<le> 2 * unat quot + 1"
      using q2 r2 by (simp add: algebra_simps)
  qed
qed

lemma divide_loop:
  assumes d: "unat d < 2 ^ 63"
  shows "n \<le> 64 \<Longrightarrow> unat rest < unat d \<Longrightarrow> unat quot < 2 ^ (64 - n) \<Longrightarrow>
    fold (divideBit lo d) (rev [0..<n]) (rest, quot) = (rest', quot') \<Longrightarrow>
    unat rest' < unat d \<and> unat quot' * unat d + unat rest' = 2 ^ n * (unat quot * unat d + unat rest) + unat lo mod 2 ^ n"
proof (induction n arbitrary: rest quot)
  case (Suc n)
  obtain r1 q1 where step: "divideBit lo d n (rest, quot) = (r1, q1)" by (cases "divideBit lo d n (rest, quot)")
  have "64 - n = Suc (64 - Suc n)" using Suc.prems(1) by simp
  then have power: "(2 :: nat) ^ (64 - n) = 2 * 2 ^ (64 - Suc n)" by simp
  have "(2 :: nat) ^ (64 - Suc n) \<le> 2 ^ 63" by (intro power_increasing) simp_all
  then have "unat quot < 2 ^ 63" using Suc.prems(3) by linarith
  note one = divideBit_value [OF Suc.prems(2) d this step]
  have "unat q1 < 2 ^ (64 - n)" using one(3) Suc.prems(3) unfolding power by linarith
  moreover have "fold (divideBit lo d) (rev [0..<n]) (r1, q1) = (rest', quot')" using Suc.prems(4) step by simp
  ultimately have IH: "unat rest' < unat d \<and>
      unat quot' * unat d + unat rest' = 2 ^ n * (unat q1 * unat d + unat r1) + unat lo mod 2 ^ n"
    using Suc.IH [of r1 q1] Suc.prems(1) one(1) by simp
  have "unat lo mod 2 ^ Suc n = of_bool (bit lo n) * 2 ^ n + unat lo mod 2 ^ n"
  proof -
    have "unat lo mod 2 ^ Suc n = 2 ^ n * (unat lo div 2 ^ n mod 2) + unat lo mod 2 ^ n"
      using mod_mult2_eq [of "unat lo" "2 ^ n" 2] by (simp add: mult.commute)
    moreover have "bit lo n = odd (unat lo div 2 ^ n)"
      using bit_imp_le_length [of lo n] by (auto simp: bit_unsigned_iff simp flip: bit_iff_odd)
    then have "unat lo div 2 ^ n mod 2 = of_bool (bit lo n)" by (simp add: mod2_eq_if)
    ultimately show ?thesis by simp
  qed
  moreover have "2 ^ n * (unat q1 * unat d + unat r1) = 2 ^ Suc n * (unat quot * unat d + unat rest) + of_bool (bit lo n) * 2 ^ n"
    unfolding one(2) by (simp add: distrib_left)
  ultimately show ?case using IH by simp
qed simp

lemma divide128_value:
  assumes d: "0 < unat d" "unat d < 2 ^ 63"
  shows "value128 (divQuotient (divide128 a d)) = value128 a div unat d"
    "unat (divRemainder (divide128 a d)) = value128 a mod unat d"
proof -
  define r0 where "r0 = (if limbHi a \<noteq> 0 then limbHi a mod d else 0)"
  obtain rest quot where run: "fold (divideBit (limbLo a) d) (rev [0..<64]) (r0, 0) = (rest, quot)"
    by (cases "fold (divideBit (limbLo a) d) (rev [0..<64]) (r0, 0)")
  have r0: "unat r0 = unat (limbHi a) mod unat d" by (simp add: r0_def unat_mod)
  then have "unat r0 < unat d" using d(1) by simp
  then have loop: "unat rest < unat d" "unat quot * unat d + unat rest = 2 ^ 64 * unat r0 + unat (limbLo a)"
    using divide_loop [OF d(2) order.refl, of r0 0 "limbLo a" rest quot] run unat_u64 [of "limbLo a"] by simp_all
  have result: "divide128 a d = \<lparr>divQuotient = \<lparr>limbHi = (if limbHi a \<noteq> 0 then limbHi a div d else 0), limbLo = quot\<rparr>, divRemainder = rest\<rparr>"
    using run unfolding divide128_def Let_def r0_def by (simp split: if_splits)
  have hi: "unat (if limbHi a \<noteq> 0 then limbHi a div d else 0) = unat (limbHi a) div unat d" by (simp add: unat_div)
  have total: "value128 a = (unat (limbHi a) div unat d * 2 ^ 64 + unat quot) * unat d + unat rest"
  proof -
    have "value128 a = (unat (limbHi a) div unat d * unat d + unat (limbHi a) mod unat d) * 2 ^ 64 + unat (limbLo a)"
      unfolding value128_def by (simp only: div_mult_mod_eq)
    also have "\<dots> = unat (limbHi a) div unat d * 2 ^ 64 * unat d + (2 ^ 64 * (unat (limbHi a) mod unat d) + unat (limbLo a))"
      by (simp only: add_mult_distrib add_mult_distrib2 ac_simps)
    also have "\<dots> = unat (limbHi a) div unat d * 2 ^ 64 * unat d + (unat quot * unat d + unat rest)" using loop(2) unfolding r0 by simp
    finally show ?thesis by (simp only: add_mult_distrib add.assoc)
  qed
  show "value128 (divQuotient (divide128 a d)) = value128 a div unat d"
    unfolding result using loop(1) hi total by (simp add: value128_def div_mult_self3 del: mult_Suc)
  show "unat (divRemainder (divide128 a d)) = value128 a mod unat d"
    unfolding result using loop(1) total by simp
qed

lemma limbLo_value: "limbLo a = of_nat (value128 a)"
proof -
  have zero: "of_nat (x * 2 ^ 64) = (0 :: u64)" for x
    by (simp add: word_of_nat_eq_0_iff del: of_nat_mult)
  have "of_nat (value128 a) = of_nat (unat (limbHi a) * 2 ^ 64) + limbLo a" unfolding value128_def of_nat_add by simp
  then show ?thesis unfolding zero by simp
qed

subsection \<open>Constructed clocks\<close>

text \<open>What the constructor accepts, and what every clock the program holds satisfies.\<close>

definition constructed :: "SampleClock \<Rightarrow> bool" where
  "constructed c \<longleftrightarrow> sampleClock (anchorIndex c) (anchorNs c) (rateNum c) (rateDen c) (anchorRem c) = Inr c"

definition period :: "SampleClock \<Rightarrow> int" where "period c = 1000000000 * uint (rateDen c)"

lemma constructedD:
  assumes "constructed c"
  shows "0 < unat (rateNum c)" "unat (rateNum c) < 2 ^ 63" "unat (anchorRem c) < unat (rateNum c)"
    "unat (periodNsNum c) = 1000000000 * unat (rateDen c)" "0 < unat (periodNsNum c)" "unat (periodNsNum c) < 2 ^ 63"
    "int (unat (periodNsNum c)) = period c" "0 < period c"
proof -
  have parts: "rateNum c \<noteq> 0" "rateDen c \<noteq> 0" "rateNum c \<le> kMaxRateNum" "rateDen c \<le> kMaxRateDen" "anchorRem c < rateNum c"
    using assms by (auto simp: constructed_def sampleClock_def split: if_splits)
  have max: "unat kMaxRateNum = 2 ^ 63 - 1" "unat kMaxRateDen = 9223372036"
    unfolding kMaxRateDen_def unat_div by (simp_all add: kMaxRateNum_def kNsPerSecond_def)
  show num: "0 < unat (rateNum c)" "unat (rateNum c) < 2 ^ 63" "unat (anchorRem c) < unat (rateNum c)"
    using parts max(1) by (simp_all add: unat_gt_0 word_le_nat_alt word_less_nat_alt)
  have den: "0 < unat (rateDen c)" "unat (rateDen c) \<le> 9223372036" using parts max(2) by (simp_all add: unat_gt_0 word_le_nat_alt)
  have ns: "unat kNsPerSecond = 1000000000" by (simp add: kNsPerSecond_def)
  have "unat (kNsPerSecond * rateDen c) = unat kNsPerSecond * unat (rateDen c)"
    by (rule unat_times) (use den ns in simp)
  then show p: "unat (periodNsNum c) = 1000000000 * unat (rateDen c)" unfolding periodNsNum_def ns .
  show pos: "0 < unat (periodNsNum c)" "unat (periodNsNum c) < 2 ^ 63" unfolding p using den by simp_all
  show same: "int (unat (periodNsNum c)) = period c" unfolding p period_def by simp
  have "0 < int (unat (periodNsNum c))" using pos(1) by (simp only: of_nat_0_less_iff)
  then show "0 < period c" unfolding same .
qed

text \<open>
  The numerator, over the rate's, of the exact distance in nanoseconds from the anchor's nanosecond to a sample.
\<close>

definition exactOffset :: "SampleClock \<Rightarrow> u64 \<Rightarrow> int" where
  "exactOffset c index = (uint index - uint (anchorIndex c)) * period c + uint (anchorRem c)"

lemma product_bound: "unat (a :: u64) * unat (b :: u64) + unat (r :: u64) < 2 ^ 128"
proof -
  have "unat a \<le> 2 ^ 64 - 1" "unat b \<le> 2 ^ 64 - 1" using unat_u64 [of a] unat_u64 [of b] by linarith+
  then have "unat a * unat b \<le> (2 ^ 64 - 1) * (2 ^ 64 - 1)" by (rule mult_le_mono)
  then show ?thesis using unat_u64 [of r] by simp
qed

lemma of_int_of_nat_word: "of_nat n = (of_int (int n) :: u64)"
  by simp

lemma minus_div_mod:
  fixes a b :: int
  assumes "0 < b"
  shows "- a div b = (if a mod b = 0 then - (a div b) else - (a div b) - 1)" "- a mod b = (if a mod b = 0 then 0 else b - a mod b)"
  using assms by (simp_all add: zdiv_zminus1_eq_if zmod_zminus1_eq_if)

lemma offsetFrom_exact:
  assumes c: "constructed c"
  shows "splitWhole (offsetFrom c index) = of_int (exactOffset c index div uint (rateNum c))"
    "uint (splitRem (offsetFrom c index)) = exactOffset c index mod uint (rateNum c)"
proof -
  note C = constructedD [OF c]
  let ?n = "unat (rateNum c)" and ?p = "unat (periodNsNum c)" and ?r = "unat (anchorRem c)"
  have n0: "0 < int ?n" using C(1) by (simp only: of_nat_0_less_iff)
  have "splitWhole (offsetFrom c index) = of_int (exactOffset c index div int ?n) \<and>
      int (unat (splitRem (offsetFrom c index))) = exactOffset c index mod int ?n"
  proof (cases "index \<ge> anchorIndex c")
    case True
    let ?d = "unat (index - anchorIndex c)"
    let ?sum = "add128 (mul128 (index - anchorIndex c) (periodNsNum c)) (anchorRem c)"
    have d: "int ?d = uint index - uint (anchorIndex c)"
      using True unat_sub [OF True] by (simp add: word_le_nat_alt of_nat_diff)
    have "value128 ?sum = ?d * ?p + ?r"
      using product_bound [of "index - anchorIndex c" "periodNsNum c" "anchorRem c"]
      by (subst add128_value) (simp_all add: mul128_value)
    moreover have "exactOffset c index = int (?d * ?p + ?r)"
      unfolding exactOffset_def d [symmetric] C(7) [symmetric] by simp
    ultimately have exact: "exactOffset c index = int (value128 ?sum)" by simp
    have offset: "offsetFrom c index = \<lparr>splitWhole = limbLo (divQuotient (divide128 ?sum (rateNum c))),
        splitRem = divRemainder (divide128 ?sum (rateNum c))\<rparr>"
      using True by (simp add: offsetFrom_def Let_def)
    show ?thesis
      unfolding offset exact NsSplit.simps limbLo_value divide128_value [OF C(1,2)] zdiv_int [symmetric] zmod_int [symmetric]
      by (simp only: of_int_of_nat_eq)
  next
    case False
    let ?d = "unat (anchorIndex c - index)" and ?prod = "mul128 (anchorIndex c - index) (periodNsNum c)"
    have le: "index \<le> anchorIndex c" using False by simp
    have d: "int ?d = uint (anchorIndex c) - uint index"
      using unat_sub [OF le] le by (simp add: word_le_nat_alt of_nat_diff)
    have prod: "value128 ?prod = ?d * ?p" by (rule mul128_value)
    have "uint index - uint (anchorIndex c) = - int ?d" unfolding d by simp
    then have exact: "exactOffset c index = int ?r - int (value128 ?prod)"
      unfolding exactOffset_def C(7) [symmetric] prod by simp
    show ?thesis
    proof (cases "less128 ?prod (anchorRem c)")
      case True
      then have lt: "value128 ?prod < ?r" by (simp add: less128_value)
      have zero: "limbHi ?prod = 0" using True by (simp add: less128_def)
      then have lo: "unat (limbLo ?prod) = value128 ?prod" by (simp add: value128_def)
      then have "unat (anchorRem c - limbLo ?prod) = ?r - value128 ?prod"
        using lt by (simp add: unat_sub word_le_nat_alt)
      then have offset: "splitWhole (offsetFrom c index) = 0" "unat (splitRem (offsetFrom c index)) = ?r - value128 ?prod"
        using False True by (simp_all add: offsetFrom_def Let_def)
      have whole: "exactOffset c index = int (?r - value128 ?prod)" unfolding exact using lt by (simp only: of_nat_diff less_imp_le)
      have "?r - value128 ?prod < ?n" using C(3) by simp
      then show ?thesis
        unfolding offset whole zdiv_int [symmetric] zmod_int [symmetric] by (simp only: div_less mod_less) simp
    next
      case more: False
      then have ge: "?r \<le> value128 ?prod" by (simp add: less128_value)
      let ?N = "value128 (sub128 ?prod (anchorRem c))"
      have N: "exactOffset c index = - int ?N"
        unfolding exact using sub128_value [OF ge] ge by (simp add: of_nat_diff)
      note q = divide128_value [OF C(1,2), of "sub128 ?prod (anchorRem c)"]
      let ?split = "divide128 (sub128 ?prod (anchorRem c)) (rateNum c)"
      have lo: "limbLo (divQuotient ?split) = of_int (int ?N div int ?n)"
        unfolding limbLo_value q(1) zdiv_int [symmetric] by (simp only: of_int_of_nat_eq)
      have rem: "int (unat (divRemainder ?split)) = int ?N mod int ?n" unfolding q(2) by (rule zmod_int)
      show ?thesis
      proof (cases "divRemainder ?split = 0")
        case True
        then have "int ?N mod int ?n = 0" using rem by simp
        then have "exactOffset c index div int ?n = - (int ?N div int ?n)" "exactOffset c index mod int ?n = 0"
          unfolding N minus_div_mod [OF n0] by simp_all
        then show ?thesis using False more True lo unfolding offsetFrom_def Let_def by simp
      next
        case part: False
        then have "int (unat (divRemainder ?split)) \<noteq> 0" by (simp only: of_nat_eq_0_iff unat_eq_0 not_False_eq_True)
        then have ne: "int ?N mod int ?n \<noteq> 0" unfolding rem .
        have lt: "unat (divRemainder ?split) < ?n" using q(2) C(1) by simp
        then have "unat (rateNum c - divRemainder ?split) = ?n - unat (divRemainder ?split)"
          by (simp add: unat_sub word_le_nat_alt)
        moreover have "exactOffset c index div int ?n = - (int ?N div int ?n) - 1"
          "exactOffset c index mod int ?n = int ?n - int ?N mod int ?n"
          unfolding N minus_div_mod [OF n0] using ne by simp_all
        ultimately show ?thesis using False more part lo lt rem unfolding offsetFrom_def Let_def by (simp add: of_nat_diff)
      qed
    qed
  qed
  then show "splitWhole (offsetFrom c index) = of_int (exactOffset c index div uint (rateNum c))"
    "uint (splitRem (offsetFrom c index)) = exactOffset c index mod uint (rateNum c)"
    by (simp_all)
qed

subsection \<open>Sample times\<close>

lemma le_div_iff:
  fixes x e p :: int
  assumes "0 < p"
  shows "x \<le> e div p \<longleftrightarrow> x * p \<le> e"
proof
  assume "x \<le> e div p"
  then have "x * p \<le> e div p * p" using assms by simp
  also have "\<dots> \<le> e" using pos_mod_sign [OF assms, of e] div_mult_mod_eq [of e p] by linarith
  finally show "x * p \<le> e" .
next
  assume "x * p \<le> e"
  then have "x * p div p \<le> e div p" using assms by (rule zdiv_mono1)
  then show "x \<le> e div p" using assms by simp
qed

lemma rateNum_pos: "constructed c \<Longrightarrow> 0 < uint (rateNum c)"
  unfolding uint_nat of_nat_0_less_iff by (rule constructedD(1))

definition exactTime :: "SampleClock \<Rightarrow> u64 \<Rightarrow> int" where
  "exactTime c index = sint (anchorNs c) + exactOffset c index div uint (rateNum c)"

lemma sint_word_of_int_fits: "- (2 ^ 63) \<le> x \<Longrightarrow> x < 2 ^ 63 \<Longrightarrow> sint (of_int x :: u64) = x"
  unfolding sint_sbintrunc' by (simp add: signed_take_bit_int_eq_self)

lemma sint_of_int_fits: "fitsInt64 x \<Longrightarrow> sint (of_int x :: u64) = x"
  by (simp add: fitsInt64_def sint_word_of_int_fits)

lemma timeOf_word: "constructed c \<Longrightarrow> timeOf c index = of_int (exactTime c index)"
  by (simp add: timeOf_def exactTime_def offsetFrom_exact)

lemma timeOf_exact: "constructed c \<Longrightarrow> fitsInt64 (exactTime c index) \<Longrightarrow> sint (timeOf c index) = exactTime c index"
  by (simp add: timeOf_word sint_of_int_fits)

text \<open>
  No signed evaluation overflows where both the whole offset and the time fit the axis; the least offset is excluded,
  because it is formed by negating a magnitude.
\<close>

definition offsetOnAxis :: "SampleClock \<Rightarrow> u64 \<Rightarrow> bool" where
  "offsetOnAxis c index \<longleftrightarrow> \<bar>exactOffset c index div uint (rateNum c)\<bar> < 2 ^ 63"

lemma offset_defined:
  assumes c: "constructed c" and fits: "offsetOnAxis c index"
  shows "offsetFromDefined c index"
proof (cases "index \<ge> anchorIndex c \<or> less128 (mul128 (anchorIndex c - index) (periodNsNum c)) (anchorRem c)")
  case False
  note C = constructedD [OF c]
  let ?split = "divide128 (sub128 (mul128 (anchorIndex c - index) (periodNsNum c)) (anchorRem c)) (rateNum c)"
  let ?lo = "limbLo (divQuotient ?split)" and ?floor = "exactOffset c index div uint (rateNum c)"
  have whole: "splitWhole (offsetFrom c index) = (if divRemainder ?split = 0 then - ?lo else - ?lo - 1)"
    using False by (simp add: offsetFrom_def Let_def)
  have small: "- (2 ^ 63) < ?floor" "?floor < 2 ^ 63" using fits by (simp_all add: offsetOnAxis_def abs_less_iff)
  have floor: "sint (splitWhole (offsetFrom c index)) = ?floor"
    unfolding offsetFrom_exact(1) [OF c] using small by (intro sint_word_of_int_fits) simp_all
  have range: "- (2 ^ 63) \<le> sint ?lo" "sint ?lo < 2 ^ 63" using sint_ge [of ?lo] sint_lt [of ?lo] by simp_all
  have neg: "- ?lo = of_int (- sint ?lo)" by simp
  have ne: "sint ?lo \<noteq> - (2 ^ 63)"
  proof
    assume eq: "sint ?lo = - (2 ^ 63)"
    then have "- ?lo = of_int (2 ^ 63)" unfolding neg by simp
    then have least: "- ?lo = of_int (- (2 ^ 63))" by simp
    show False
    proof (cases "divRemainder ?split = 0")
      case True
      then have "sint (splitWhole (offsetFrom c index)) = sint (of_int (- (2 ^ 63)) :: u64)" unfolding whole least by simp
      then show False using floor small sint_word_of_int_fits [of "- (2 ^ 63)"] by simp
    next
      case part: False
      let ?N = "int (value128 (sub128 (mul128 (anchorIndex c - index) (periodNsNum c)) (anchorRem c)))"
      have "splitWhole (offsetFrom c index) = of_int (2 ^ 63 - 1)" using part unfolding whole least by simp
      then have "?floor = 2 ^ 63 - 1" using floor sint_word_of_int_fits [of "2 ^ 63 - 1"] by simp
      moreover have "exactOffset c index < uint (anchorRem c)"
      proof -
        have "uint index < uint (anchorIndex c)" using False by (simp add: word_le_def)
        then show ?thesis using C(8) by (simp add: exactOffset_def mult_less_0_iff)
      qed
      then have "exactOffset c index < uint (rateNum c)" using C(3) by (simp add: word_less_nat_alt [symmetric] word_less_def)
      then have "\<not> 1 \<le> ?floor" unfolding le_div_iff [OF rateNum_pos [OF c]] by simp
      ultimately show False by simp
    qed
  qed
  then have defined: "negationDefined ?lo" using range by (simp add: negationDefined_def fitsInt64_def)
  have sum: "sumDefined (- ?lo) (- 1)" if "divRemainder ?split \<noteq> 0"
  proof -
    have value': "sint (- ?lo) = - sint ?lo" unfolding neg using range ne by (intro sint_word_of_int_fits) simp_all
    have "- sint ?lo \<noteq> - (2 ^ 63)" using range by simp
    then have "- (2 ^ 63) \<le> - sint ?lo - 1" "- sint ?lo - 1 < 2 ^ 63" using range by simp_all
    then show ?thesis unfolding sumDefined_def fitsInt64_def value' by simp
  qed
  show ?thesis using defined sum unfolding offsetFromDefined_def Let_def by blast
qed (auto simp: offsetFromDefined_def Let_def)

lemma timeOf_defined:
  assumes "constructed c" "offsetOnAxis c index" "fitsInt64 (exactTime c index)"
  shows "timeOfDefined c index"
proof -
  have "sint (splitWhole (offsetFrom c index)) = exactOffset c index div uint (rateNum c)"
    unfolding offsetFrom_exact(1) [OF assms(1)] using assms(2)
    by (intro sint_word_of_int_fits) (simp_all add: offsetOnAxis_def abs_less_iff)
  then show ?thesis using assms offset_defined by (simp add: timeOfDefined_def sumDefined_def exactTime_def)
qed

subsection \<open>The index of a time\<close>

text \<open>The signed distance of two times, read from the unsigned difference of their words.\<close>

lemma unsigned_distance:
  assumes "sint b \<le> sint (a :: u64)"
  shows "int (unat (a - b)) = sint a - sint b"
proof -
  have "a - b = of_int (sint a - sint b)" by simp
  moreover have "sint a < 2 ^ 63" "- (2 ^ 63) \<le> sint b" using sint_lt [of a] sint_ge [of b] by simp_all
  then have "0 \<le> sint a - sint b" "sint a - sint b < 2 ^ 64" using assms by simp_all
  ultimately have "uint (a - b) = sint a - sint b" by (simp add: uint_word_of_int del: of_int_diff)
  then show ?thesis by (simp only: uint_nat)
qed

definition exactIndexNumerator :: "SampleClock \<Rightarrow> u64 \<Rightarrow> int" where
  "exactIndexNumerator c ns = (sint ns - sint (anchorNs c)) * uint (rateNum c) - uint (anchorRem c)"

text \<open>What the last two steps of the conversion make of a magnitude and its sign.\<close>

definition indexFrom :: "SampleClock \<Rightarrow> bool \<Rightarrow> U128 \<Rightarrow> ClockError + IndexAt" where
  "indexFrom c negative numerator =
     (let split = divide128 numerator (periodNsNum c);
          quot = divQuotient split;
          partial = (divRemainder split \<noteq> 0)
      in if \<not> negative then
           if limbHi quot \<noteq> 0 \<or> limbLo quot > - 1 - anchorIndex c then Inl PastLastSample
           else Inr \<lparr>atIndex = anchorIndex c + limbLo quot, atRemainderNum = divRemainder split, atRemainderDen = periodNsNum c\<rparr>
         else if limbHi quot \<noteq> 0 \<or> limbLo quot > anchorIndex c \<or> partial \<and> limbLo quot = anchorIndex c
         then Inl BeforeFirstSample
         else if \<not> partial
         then Inr \<lparr>atIndex = anchorIndex c - limbLo quot, atRemainderNum = 0, atRemainderDen = periodNsNum c\<rparr>
         else Inr \<lparr>atIndex = anchorIndex c - limbLo quot - 1, atRemainderNum = periodNsNum c - divRemainder split,
                   atRemainderDen = periodNsNum c\<rparr>)"

definition exactIndexAt :: "SampleClock \<Rightarrow> int \<Rightarrow> ClockError + IndexAt" where
  "exactIndexAt c e =
     (let i = uint (anchorIndex c) + e div period c
      in if i < 0 then Inl BeforeFirstSample else if i \<ge> 2 ^ 64 then Inl PastLastSample
         else Inr \<lparr>atIndex = of_int i, atRemainderNum = of_int (e mod period c), atRemainderDen = periodNsNum c\<rparr>)"

lemma limbHi_zero: "limbHi a = 0 \<longleftrightarrow> value128 a < 2 ^ 64"
proof
  assume "limbHi a = 0"
  then show "value128 a < 2 ^ 64" using unat_u64 [of "limbLo a"] by (simp add: value128_def)
next
  assume lt: "value128 a < 2 ^ 64"
  show "limbHi a = 0"
  proof (rule ccontr)
    assume "limbHi a \<noteq> 0"
    then have "1 * 2 ^ 64 \<le> unat (limbHi a) * 2 ^ 64" by (intro mult_le_mono1) (simp add: Suc_le_eq unat_gt_0)
    then show False using lt unfolding value128_def by linarith
  qed
qed

lemma indexFrom_exact:
  assumes c: "constructed c" and negative: "negative \<Longrightarrow> 0 < value128 numerator"
  shows "indexFrom c negative numerator = exactIndexAt c (if negative then - int (value128 numerator) else int (value128 numerator))"
proof -
  note C = constructedD [OF c]
  let ?N = "value128 numerator" and ?p = "unat (periodNsNum c)" and ?a = "anchorIndex c"
  define split where "split = divide128 numerator (periodNsNum c)"
  define quot where "quot = divQuotient split"
  have q: "value128 quot = ?N div ?p" "unat (divRemainder split) = ?N mod ?p"
    unfolding quot_def split_def by (rule divide128_value [OF C(5,6)])+
  have hi: "limbHi quot \<noteq> 0 \<longleftrightarrow> 2 ^ 64 \<le> ?N div ?p" using limbHi_zero [of quot] q(1) by linarith
  have lo: "unat (limbLo quot) = ?N div ?p" if "?N div ?p < 2 ^ 64"
    using that q(1) limbHi_zero [of quot] by (simp add: value128_def)
  have partial: "divRemainder split \<noteq> 0 \<longleftrightarrow> ?N mod ?p \<noteq> 0" using q(2) by (simp add: unat_eq_0 [symmetric])
  have p: "period c = int ?p" using C(7) by simp
  have p0: "0 < int ?p" using C(8) p by simp
  have a: "uint ?a = int (unat ?a)" by (rule uint_nat)
  have word: "of_nat (unat w) = w" for w :: u64 by simp
  have def: "indexFrom c negative numerator =
      (if \<not> negative then
         if limbHi quot \<noteq> 0 \<or> limbLo quot > - 1 - ?a then Inl PastLastSample
         else Inr \<lparr>atIndex = ?a + limbLo quot, atRemainderNum = divRemainder split, atRemainderDen = periodNsNum c\<rparr>
       else if limbHi quot \<noteq> 0 \<or> limbLo quot > ?a \<or> divRemainder split \<noteq> 0 \<and> limbLo quot = ?a then Inl BeforeFirstSample
       else if \<not> divRemainder split \<noteq> 0
       then Inr \<lparr>atIndex = ?a - limbLo quot, atRemainderNum = 0, atRemainderDen = periodNsNum c\<rparr>
       else Inr \<lparr>atIndex = ?a - limbLo quot - 1, atRemainderNum = periodNsNum c - divRemainder split, atRemainderDen = periodNsNum c\<rparr>)"
    unfolding indexFrom_def Let_def quot_def split_def ..
  have rest: "unat (- 1 - ?a) = 2 ^ 64 - 1 - unat ?a"
  proof -
    have "unat (- 1 - ?a) = unat (- 1 :: u64) - unat ?a" by (rule unat_sub) simp
    moreover have "unat (- 1 :: u64) = 2 ^ 64 - 1" by (simp add: unsigned_minus_1_eq_mask mask_eq_exp_minus_1)
    ultimately show ?thesis by simp
  qed
  show ?thesis
  proof (cases negative)
    case False
    define I M where "I = uint ?a + int ?N div period c" and "M = int ?N mod period c"
    have I: "I = int (unat ?a + ?N div ?p)" unfolding I_def p a zdiv_int [symmetric] by simp
    have M: "M = int (?N mod ?p)" unfolding M_def p by (rule zmod_int [symmetric])
    have I0: "\<not> I < 0" unfolding I by (simp only: not_less of_nat_0_le_iff)
    have I64: "2 ^ 64 \<le> I \<longleftrightarrow> 2 ^ 64 \<le> unat ?a + ?N div ?p"
    proof -
      have "2 ^ 64 \<le> I \<longleftrightarrow> int (2 ^ 64) \<le> int (unat ?a + ?N div ?p)" unfolding I by (simp only: of_nat_power of_nat_numeral)
      then show ?thesis by (simp only: of_nat_le_iff)
    qed
    have exact: "exactIndexAt c (int ?N) = (if 2 ^ 64 \<le> I then Inl PastLastSample
        else Inr \<lparr>atIndex = of_int I, atRemainderNum = of_int M, atRemainderDen = periodNsNum c\<rparr>)"
      using I0 unfolding exactIndexAt_def Let_def I_def [symmetric] M_def [symmetric] by simp
    show ?thesis
    proof (cases "2 ^ 64 \<le> I")
      case True
      have "limbHi quot \<noteq> 0 \<or> limbLo quot > - 1 - ?a"
      proof (cases "?N div ?p < 2 ^ 64")
        case small: True
        show ?thesis unfolding word_less_nat_alt rest lo [OF small] using True unat_u64 [of ?a] unfolding I64 by linarith
      qed (use hi in simp)
      then show ?thesis using False True unfolding def by (simp add: exact)
    next
      case fits: False
      then have small: "?N div ?p < 2 ^ 64" unfolding I64 by simp
      have "\<not> (limbHi quot \<noteq> 0 \<or> limbLo quot > - 1 - ?a)"
        unfolding hi word_less_nat_alt rest lo [OF small] using fits small unfolding I64 by linarith
      moreover have "?a + limbLo quot = of_int I"
        unfolding I lo [OF small, symmetric] by (simp only: of_int_of_nat_eq of_int_add of_nat_add word)
      moreover have "divRemainder split = of_int M" unfolding M q(2) [symmetric] by (simp only: of_int_of_nat_eq word)
      ultimately show ?thesis using False fits unfolding def by (simp add: exact)
    qed
  next
    case True
    have N: "0 < ?N" by (rule negative [OF True])
    have e: "- int ?N div period c = (if ?N mod ?p = 0 then - int (?N div ?p) else - int (?N div ?p) - 1)"
      "- int ?N mod period c = (if ?N mod ?p = 0 then 0 else int ?p - int (?N mod ?p))"
      unfolding p minus_div_mod [OF p0] zdiv_int [symmetric] zmod_int [symmetric] by simp_all
    let ?before = "limbHi quot \<noteq> 0 \<or> limbLo quot > ?a \<or> divRemainder split \<noteq> 0 \<and> limbLo quot = ?a"
    have before: "?before \<longleftrightarrow> unat ?a < ?N div ?p \<or> ?N mod ?p \<noteq> 0 \<and> unat ?a = ?N div ?p"
    proof (cases "?N div ?p < 2 ^ 64")
      case small: True
      have "limbLo quot = ?a \<longleftrightarrow> ?N div ?p = unat ?a" unfolding word_unat_eq_iff lo [OF small] ..
      then show ?thesis unfolding hi partial word_less_nat_alt lo [OF small] using small by auto
    next
      case False
      then show ?thesis using hi unat_u64 [of ?a] by auto
    qed
    define J K A Q R P where "J = uint ?a + - int ?N div period c" and "K = - int ?N mod period c"
      and "A = unat ?a" and "Q = ?N div ?p" and "R = ?N mod ?p" and "P = ?p"
    have J: "J = (if R = 0 then int A - int Q else int A - int Q - 1)"
      unfolding J_def e a A_def [symmetric] Q_def [symmetric] R_def [symmetric] by simp
    have K: "K = (if R = 0 then 0 else int P - int R)" unfolding K_def e R_def P_def ..
    have A: "A < 2 ^ 64" unfolding A_def by (rule unat_u64)
    have before: "?before \<longleftrightarrow> A < Q \<or> R \<noteq> 0 \<and> A = Q" using before unfolding A_def Q_def R_def .
    have i: "J < 0 \<longleftrightarrow> ?before" unfolding before J by auto
    have top: "\<not> 2 ^ 64 \<le> J" unfolding J using A by auto
    have exact: "exactIndexAt c (- int ?N) = (if J < 0 then Inl BeforeFirstSample
        else Inr \<lparr>atIndex = of_int J, atRemainderNum = of_int K, atRemainderDen = periodNsNum c\<rparr>)"
      using top unfolding exactIndexAt_def Let_def J_def [symmetric] K_def [symmetric] by simp
    show ?thesis
    proof (cases ?before)
      case b: True
      then have "J < 0" using i by blast
      then show ?thesis using True b unfolding def by (simp add: exact)
    next
      case b: False
      have nn: "\<not> J < 0" using b i by blast
      have small: "?N div ?p < 2 ^ 64" using b A unfolding before Q_def by linarith
      have words: "limbLo quot = of_int (int Q)" "?a = of_int (int A)" "divRemainder split = of_int (int R)"
        "periodNsNum c = of_int (int P)"
        unfolding Q_def A_def R_def P_def lo [OF small, symmetric] q(2) [symmetric] by (simp_all only: of_int_of_nat_eq word)
      have at: "of_int J = (if R = 0 then ?a - limbLo quot else ?a - limbLo quot - 1)"
        unfolding J words by (simp only: of_int_diff of_int_1 split: if_split) simp
      have k: "of_int K = (if R = 0 then 0 else periodNsNum c - divRemainder split)"
        unfolding K words by (simp only: of_int_diff of_int_0 split: if_split) simp
      have "indexFrom c negative numerator = Inr \<lparr>atIndex = of_int J, atRemainderNum = of_int K, atRemainderDen = periodNsNum c\<rparr>"
        using True b partial unfolding def at k R_def [symmetric] by (simp split: if_split)
      then show ?thesis using True nn exact by simp
    qed
  qed
qed


lemma indexOf_exact:
  assumes c: "constructed c"
  shows "indexOf c ns = exactIndexAt c (exactIndexNumerator c ns)"
proof -
  note C = constructedD [OF c]
  let ?n = "unat (rateNum c)" and ?r = "unat (anchorRem c)"
  have ints: "uint (rateNum c) = int ?n" "uint (anchorRem c) = int ?r" by (simp_all only: uint_nat)
  show ?thesis
  proof (cases "sint ns \<ge> sint (anchorNs c)")
    case True
    let ?d = "unat (ns - anchorNs c)" and ?scaled = "mul128 (ns - anchorNs c) (rateNum c)"
    have scaled: "value128 ?scaled = ?d * ?n" by (rule mul128_value)
    have e: "exactIndexNumerator c ns = int (?d * ?n) - int ?r"
      unfolding exactIndexNumerator_def ints unsigned_distance [OF True, symmetric] of_nat_mult ..
    show ?thesis
    proof (cases "less128 ?scaled (anchorRem c)")
      case less: True
      let ?numerator = "\<lparr>limbHi = 0, limbLo = anchorRem c - limbLo ?scaled\<rparr>"
      have lt: "?d * ?n < ?r" using less by (simp add: less128_value scaled)
      have "limbHi ?scaled = 0" using less by (simp add: less128_def)
      then have lo: "unat (limbLo ?scaled) = ?d * ?n" using scaled by (simp add: value128_def)
      then have "unat (anchorRem c - limbLo ?scaled) = ?r - ?d * ?n" using lt by (simp add: unat_sub word_le_nat_alt)
      then have val: "value128 ?numerator = ?r - ?d * ?n" by (simp add: value128_def)
      have "indexOf c ns = indexFrom c True ?numerator" using True less by (simp add: indexOf_def indexFrom_def Let_def)
      also have "\<dots> = exactIndexAt c (- int (?r - ?d * ?n))"
        using indexFrom_exact [OF c, of True ?numerator] lt unfolding val by simp
      also have "- int (?r - ?d * ?n) = exactIndexNumerator c ns" unfolding e using lt by (simp only: of_nat_diff less_imp_le minus_diff_eq)
      finally show ?thesis .
    next
      case more: False
      have ge: "?r \<le> ?d * ?n" using more by (simp add: less128_value scaled)
      then have val: "value128 (sub128 ?scaled (anchorRem c)) = ?d * ?n - ?r" using sub128_value scaled by metis
      have "indexOf c ns = indexFrom c False (sub128 ?scaled (anchorRem c))"
        using True more by (simp add: indexOf_def indexFrom_def Let_def)
      also have "\<dots> = exactIndexAt c (int (?d * ?n - ?r))"
        using indexFrom_exact [OF c, of False "sub128 ?scaled (anchorRem c)"] unfolding val by simp
      also have "int (?d * ?n - ?r) = exactIndexNumerator c ns" unfolding e using ge by (simp only: of_nat_diff)
      finally show ?thesis .
    qed
  next
    case False
    let ?d = "unat (anchorNs c - ns)" and ?numerator = "add128 (mul128 (anchorNs c - ns) (rateNum c)) (anchorRem c)"
    have le: "sint ns \<le> sint (anchorNs c)" using False by simp
    have val: "value128 ?numerator = ?d * ?n + ?r"
      using product_bound [of "anchorNs c - ns" "rateNum c" "anchorRem c"] by (subst add128_value) (simp_all add: mul128_value)
    have d: "int ?d = sint (anchorNs c) - sint ns" by (rule unsigned_distance [OF le])
    then have "0 < ?d" using False by linarith
    then have pos: "0 < ?d * ?n + ?r" using C(1) by simp
    have "(sint ns - sint (anchorNs c)) * int ?n = - (int ?d * int ?n)" unfolding d by (simp add: algebra_simps)
    then have e: "exactIndexNumerator c ns = - int (?d * ?n + ?r)"
      unfolding exactIndexNumerator_def ints by (simp only: of_nat_add of_nat_mult minus_add_distrib diff_conv_add_uminus)
    have "indexOf c ns = indexFrom c True ?numerator" using False by (simp add: indexOf_def indexFrom_def Let_def)
    also have "\<dots> = exactIndexAt c (- int (?d * ?n + ?r))"
      using indexFrom_exact [OF c, of True ?numerator] pos unfolding val by simp
    finally show ?thesis unfolding e .
  qed
qed

subsection \<open>Both conversions are floors of the exact map\<close>

text \<open>C35. For every clock the constructor accepts, on both sides of the anchor, timeOf is the exact
  integer floor of the rational map whenever that floor fits the signed 64-bit nanosecond axis: no
  limb of the 128-bit intermediate results ever wraps. Where the offset from the anchor is also
  below 2^63 in magnitude, no signed sum or negation on the way overflows.\<close>

theorem clock_time_floor:
  assumes "constructed c"
    and "exact = sint (anchorNs c) +
      ((uint k - uint (anchorIndex c)) * (1000000000 * uint (rateDen c)) + uint (anchorRem c)) div uint (rateNum c)"
    and "- (2 ^ 63) \<le> exact" and "exact < 2 ^ 63"
  shows "sint (timeOf c k) = exact \<and> (\<bar>exact - sint (anchorNs c)\<bar> < 2 ^ 63 \<longrightarrow> timeOfDefined c k)"
proof -
  have exact: "exactTime c k = exact" using assms(2) by (simp add: exactTime_def exactOffset_def period_def)
  then have fits: "fitsInt64 (exactTime c k)" using assms(3,4) by (simp add: fitsInt64_def)
  have "exact - sint (anchorNs c) = exactOffset c k div uint (rateNum c)" using exact by (simp add: exactTime_def)
  then show ?thesis
    using timeOf_exact [OF assms(1) fits] timeOf_defined [OF assms(1) _ fits] exact by (simp add: offsetOnAxis_def)
qed


lemma clock_time_floor_witness:
  "sint (timeOf \<lparr>anchorIndex = 1000, anchorNs = 5, rateNum = 3, rateDen = 1, anchorRem = 2\<rparr> 999) = - 333333328 \<and>
    timeOfDefined \<lparr>anchorIndex = 1000, anchorNs = 5, rateNum = 3, rateDen = 1, anchorRem = 2\<rparr> 999"
proof -
  let ?c = "\<lparr>anchorIndex = 1000, anchorNs = 5, rateNum = 3, rateDen = 1, anchorRem = 2\<rparr>"
  have "constructed ?c" by code_simp
  moreover have "- 333333328 = sint (anchorNs ?c) +
      ((uint (999 :: u64) - uint (anchorIndex ?c)) * (1000000000 * uint (rateDen ?c)) + uint (anchorRem ?c)) div uint (rateNum ?c)" by code_simp
  ultimately show ?thesis using clock_time_floor [of ?c "- 333333328" 999] by simp
qed

text \<open>Whether a sample is at or before a time, both measured exactly from the anchor.\<close>

definition atOrBefore :: "SampleClock \<Rightarrow> int \<Rightarrow> u64 \<Rightarrow> bool" where
  "atOrBefore c index ns \<longleftrightarrow>
     (index - uint (anchorIndex c)) * (1000000000 * uint (rateDen c)) + uint (anchorRem c) \<le>
       (sint ns - sint (anchorNs c)) * uint (rateNum c)"

lemma atOrBefore_div:
  assumes "constructed c"
  shows "atOrBefore c index ns \<longleftrightarrow> index \<le> uint (anchorIndex c) + exactIndexNumerator c ns div period c"
proof -
  have "atOrBefore c index ns \<longleftrightarrow> (index - uint (anchorIndex c)) * period c \<le> exactIndexNumerator c ns"
    unfolding atOrBefore_def exactIndexNumerator_def period_def by linarith
  then show ?thesis unfolding le_div_iff [OF constructedD(8) [OF assms], symmetric] by linarith
qed

text \<open>C9. indexOf answers the last sample at or before a time, for every 64-bit sample and every signed
  64-bit time, with the exact remainder of a sample beside it; it refuses exactly the times before
  sample 0 and past sample 2^64 - 1.\<close>

theorem index_of_exact:
  assumes "constructed c"
  shows "case indexOf c ns of
      Inr r \<Rightarrow> (\<forall>k. k \<le> atIndex r \<longleftrightarrow> atOrBefore c (uint k) ns) \<and>
        (uint (atIndex r) - uint (anchorIndex c)) * uint (atRemainderDen r) + uint (anchorRem c) + uint (atRemainderNum r) =
          (sint ns - sint (anchorNs c)) * uint (rateNum c) \<and>
        atRemainderNum r < atRemainderDen r \<and> uint (atRemainderDen r) = 1000000000 * uint (rateDen c)
    | Inl BeforeFirstSample \<Rightarrow> \<not> atOrBefore c 0 ns
    | Inl PastLastSample \<Rightarrow> atOrBefore c (2 ^ 64) ns
    | Inl other \<Rightarrow> False"
proof -
  note C = constructedD [OF assms]
  define e i where "e = exactIndexNumerator c ns" and "i = uint (anchorIndex c) + e div period c"
  have before: "atOrBefore c k ns \<longleftrightarrow> k \<le> i" for k using atOrBefore_div [OF assms] unfolding i_def e_def .
  have run: "indexOf c ns = (if i < 0 then Inl BeforeFirstSample else if i \<ge> 2 ^ 64 then Inl PastLastSample
      else Inr \<lparr>atIndex = of_int i, atRemainderNum = of_int (e mod period c), atRemainderDen = periodNsNum c\<rparr>)"
    unfolding indexOf_exact [OF assms] exactIndexAt_def Let_def i_def e_def ..
  show ?thesis
  proof (cases "0 \<le> i \<and> i < 2 ^ 64")
    case True
    have at: "uint (of_int i :: u64) = i" using True by (simp add: uint_word_of_int)
    have den: "uint (periodNsNum c) = period c" using C(7) by (simp only: uint_nat)
    have m: "0 \<le> e mod period c" "e mod period c < uint (periodNsNum c)" using C(8) den by simp_all
    then have rem: "uint (of_int (e mod period c) :: u64) = e mod period c"
      using uint_lt2p [of "periodNsNum c"] by (simp add: uint_word_of_int)
    have "e div period c * period c + e mod period c = e" by (rule div_mult_mod_eq)
    then have "(i - uint (anchorIndex c)) * period c + uint (anchorRem c) + e mod period c =
        (sint ns - sint (anchorNs c)) * uint (rateNum c)"
      unfolding i_def e_def exactIndexNumerator_def by simp
    moreover have "(\<forall>k. k \<le> (of_int i :: u64) \<longleftrightarrow> atOrBefore c (uint k) ns)" unfolding before word_le_def at by blast
    moreover have "(of_int (e mod period c) :: u64) < periodNsNum c" unfolding word_less_def rem by (rule m(2))
    ultimately show ?thesis using True at rem den unfolding run by (simp add: period_def)
  qed (auto simp: run before)
qed


lemma index_of_exact_witness:
  "\<forall>k. k \<le> (999 :: u64) \<longleftrightarrow> atOrBefore \<lparr>anchorIndex = 1000, anchorNs = 5, rateNum = 3, rateDen = 1, anchorRem = 2\<rparr> (uint k) (- 1)"
proof -
  let ?c = "\<lparr>anchorIndex = 1000, anchorNs = 5, rateNum = 3, rateDen = 1, anchorRem = 2\<rparr>"
  have "constructed ?c" by code_simp
  moreover have "indexOf ?c (- 1) = Inr \<lparr>atIndex = 999, atRemainderNum = 999999980, atRemainderDen = 1000000000\<rparr>" by code_simp
  ultimately show ?thesis using index_of_exact [of ?c "- 1"] by simp
qed

subsection \<open>Moving the anchor\<close>

lemma sampleClock_accepts:
  assumes "constructed c" and "rem < rateNum c"
  shows "sampleClock i ns (rateNum c) (rateDen c) rem =
    Inr \<lparr>anchorIndex = i, anchorNs = ns, rateNum = rateNum c, rateDen = rateDen c, anchorRem = rem\<rparr>"
  using assms by (auto simp: constructed_def sampleClock_def split: if_splits)

lemma sampleClock_constructed: "sampleClock i ns num den rem = Inr c \<Longrightarrow> constructed c"
  by (auto simp: constructed_def sampleClock_def split: if_splits)

lemma splitRem_less: "constructed c \<Longrightarrow> splitRem (offsetFrom c k) < rateNum c"
  using rateNum_pos [of c] by (simp add: word_less_def offsetFrom_exact(2))

lemma rebase_parts:
  assumes c: "constructed c"
  obtains c' where "rebase c k = Inr c'" "constructed c'" "anchorIndex c' = k" "anchorNs c' = timeOf c k"
    "rateNum c' = rateNum c" "rateDen c' = rateDen c" "uint (anchorRem c') = exactOffset c k mod uint (rateNum c)"
proof -
  note made = sampleClock_accepts [OF c splitRem_less [OF c]]
  show ?thesis
  proof (rule that)
    show "rebase c k = Inr \<lparr>anchorIndex = k, anchorNs = timeOf c k, rateNum = rateNum c, rateDen = rateDen c,
        anchorRem = splitRem (offsetFrom c k)\<rparr>"
      unfolding rebase_def Let_def made timeOf_def ..
    show "constructed \<lparr>anchorIndex = k, anchorNs = timeOf c k, rateNum = rateNum c, rateDen = rateDen c,
        anchorRem = splitRem (offsetFrom c k)\<rparr>" by (rule sampleClock_constructed [OF made])
  qed (simp_all add: offsetFrom_exact(2) [OF c])
qed

text \<open>C36. Moving the anchor to any sample whose time fits the axis never throws, gives a clock the
  constructor accepts at the same rate, and leaves the exact time of every sample and every answer
  of timeOf and indexOf, errors included, what they were; where the offset of the new anchor is
  below 2^63 in magnitude no signed evaluation overflows.\<close>

theorem rebase_preserves_map:
  assumes c: "constructed c" and fits: "fitsInt64 (exactTime c k)"
  shows "\<exists>c'. rebase c k = Inr c' \<and> constructed c' \<and> anchorIndex c' = k \<and> rateNum c' = rateNum c \<and> rateDen c' = rateDen c \<and>
    (\<forall>j. timeOf c' j = timeOf c j \<and> exactTime c' j = exactTime c j) \<and> (\<forall>ns. indexOf c' ns = indexOf c ns) \<and>
    (offsetOnAxis c k \<longrightarrow> timeOfDefined c k)"
proof -
  obtain c' where c': "rebase c k = Inr c'" "constructed c'" "anchorIndex c' = k" "anchorNs c' = timeOf c k"
    "rateNum c' = rateNum c" "rateDen c' = rateDen c" "uint (anchorRem c') = exactOffset c k mod uint (rateNum c)"
    by (rule rebase_parts [OF c])
  let ?n = "uint (rateNum c)"
  have n: "0 < ?n" by (rule rateNum_pos [OF c])
  have ns: "sint (anchorNs c') = sint (anchorNs c) + exactOffset c k div ?n"
    unfolding c'(4) timeOf_exact [OF c fits] exactTime_def ..
  have p: "period c' = period c" "periodNsNum c' = periodNsNum c" unfolding period_def periodNsNum_def c'(6) by simp_all
  have split: "exactOffset c k div ?n * ?n + exactOffset c k mod ?n = exactOffset c k" by (rule div_mult_mod_eq)
  have offset: "exactOffset c' j = exactOffset c j - exactOffset c k div ?n * ?n" for j
    using split unfolding exactOffset_def c'(3,7) p by (simp add: algebra_simps)
  have "(exactOffset c j - exactOffset c k div ?n * ?n) div ?n = exactOffset c j div ?n - exactOffset c k div ?n" for j
    using div_mult_self3 [of ?n "- (exactOffset c k div ?n)" "exactOffset c j"] n by (simp add: algebra_simps)
  then have exact: "exactTime c' j = exactTime c j" for j unfolding exactTime_def ns c'(5) offset by simp
  then have times: "timeOf c' j = timeOf c j" for j unfolding timeOf_word [OF c] timeOf_word [OF c'(2)] by simp
  have numerator: "exactIndexNumerator c' t = exactIndexNumerator c t - (uint k - uint (anchorIndex c)) * period c" for t
    using split unfolding exactIndexNumerator_def ns c'(5,7) exactOffset_def by (simp add: algebra_simps)
  have shift: "(e - d * period c) div period c = e div period c - d" "(e - d * period c) mod period c = e mod period c" for e d
    using div_mult_self3 [of "period c" "- d" e] mod_mult_self3 [of "- d" "period c" e] constructedD(8) [OF c]
    by (simp_all add: algebra_simps)
  have "indexOf c' t = indexOf c t" for t
    unfolding indexOf_exact [OF c] indexOf_exact [OF c'(2)] exactIndexAt_def p numerator shift c'(3) by (simp add: add.commute)
  then show ?thesis using c'(1-3,5,6) times exact timeOf_defined [OF c _ fits] by blast
qed

lemma rebase_preserves_map_witness:
  "\<exists>c'. rebase \<lparr>anchorIndex = 1000, anchorNs = 5, rateNum = 3, rateDen = 1, anchorRem = 2\<rparr> 7 = Inr c' \<and> anchorIndex c' = 7 \<and>
    timeOf c' 8 = timeOf \<lparr>anchorIndex = 1000, anchorNs = 5, rateNum = 3, rateDen = 1, anchorRem = 2\<rparr> 8"
proof -
  let ?c = "\<lparr>anchorIndex = 1000, anchorNs = 5, rateNum = 3, rateDen = 1, anchorRem = 2\<rparr>"
  have "constructed ?c" "fitsInt64 (exactTime ?c 7)" by code_simp+
  then show ?thesis using rebase_preserves_map by blast
qed


subsection \<open>Changing the rate\<close>

definition rateAccepted :: "u64 \<Rightarrow> u64 \<Rightarrow> bool" where
  "rateAccepted num den \<longleftrightarrow> 0 < num \<and> num \<le> kMaxRateNum \<and> 0 < den \<and> den \<le> kMaxRateDen"

text \<open>The anchor's remainder over the new numerator.\<close>

lemma rescaled_exact:
  fixes k :: u64
  assumes c: "constructed c" and num: "0 < num"
  defines "r \<equiv> unat (splitRem (offsetFrom c k))" and "rescaled \<equiv> limbLo (divQuotient (divide128 (mul128 (splitRem (offsetFrom c k)) num) (rateNum c)))"
  shows "unat rescaled = r * unat num div unat (rateNum c)" "rescaled < num"
proof -
  note C = constructedD [OF c]
  have pos: "0 < unat num" using num by (simp add: word_less_nat_alt)
  have "r < unat (rateNum c)" using splitRem_less [OF c, of k] unfolding r_def word_less_nat_alt .
  then have "r * unat num < unat num * unat (rateNum c)" using pos by (simp add: mult.commute)
  then have lt: "r * unat num div unat (rateNum c) < unat num" by (rule less_mult_imp_div_less)
  have "rescaled = of_nat (r * unat num div unat (rateNum c))"
    unfolding rescaled_def limbLo_value divide128_value [OF C(1,2)] mul128_value r_def ..
  then show at: "unat rescaled = r * unat num div unat (rateNum c)" using lt unat_u64 [of num] by (simp add: unat_of_nat)
  show "rescaled < num" unfolding word_less_nat_alt at by (rule lt)
qed

text \<open>C37. withRate refuses exactly the rates the constructor refuses and never throws; the new clock
  keeps the time of the change sample (the exact time, where it fits the axis), and its remainder
  over the new numerator is the old one truncated, so the anchor moves earlier by less than one unit
  of the new numerator.\<close>

theorem with_rate_exact:
  assumes c: "constructed c"
  shows "case withRate c num den k of
      Inl e \<Rightarrow> \<not> rateAccepted num den \<and> e \<noteq> RemainderTooLarge
    | Inr c' \<Rightarrow> rateAccepted num den \<and> constructed c' \<and> rateNum c' = num \<and> rateDen c' = den \<and> anchorIndex c' = k \<and>
        timeOf c' k = timeOf c k \<and> (fitsInt64 (exactTime c k) \<longrightarrow> exactTime c' k = exactTime c k) \<and>
        uint (anchorRem c') * uint (rateNum c) \<le> exactOffset c k mod uint (rateNum c) * uint num \<and>
        exactOffset c k mod uint (rateNum c) * uint num < (uint (anchorRem c') + 1) * uint (rateNum c)"
proof (cases "rateAccepted num den")
  case False
  then show ?thesis by (auto simp: withRate_def rateAccepted_def not_le word_gt_0)
next
  case True
  let ?rescaled = "limbLo (divQuotient (divide128 (mul128 (splitRem (offsetFrom c k)) num) (rateNum c)))"
  have num: "0 < num" using True by (simp add: rateAccepted_def)
  note exact = rescaled_exact [OF c num, of k]
  have made: "sampleClock k (timeOf c k) num den ?rescaled =
      Inr \<lparr>anchorIndex = k, anchorNs = timeOf c k, rateNum = num, rateDen = den, anchorRem = ?rescaled\<rparr>"
    using True exact(2) by (auto simp: sampleClock_def rateAccepted_def)
  have run: "withRate c num den k = sampleClock k (timeOf c k) num den ?rescaled"
    using True by (auto simp: withRate_def rateAccepted_def timeOf_def Let_def)
  let ?c' = "\<lparr>anchorIndex = k, anchorNs = timeOf c k, rateNum = num, rateDen = den, anchorRem = ?rescaled\<rparr>"
  have c': "constructed ?c'" by (rule sampleClock_constructed [OF made])
  have "uint ?rescaled < uint num" using exact(2) by (simp add: word_less_def)
  then have "exactOffset ?c' k div uint num = 0" by (simp add: exactOffset_def)
  then have time: "timeOf ?c' k = timeOf c k"
    using offsetFrom_exact(1) [OF c', of k] by (simp add: timeOf_def)
  have kept: "exactTime ?c' k = exactTime c k" if "fitsInt64 (exactTime c k)"
    using timeOf_exact [OF c that] \<open>exactOffset ?c' k div uint num = 0\<close> by (simp add: exactTime_def)
  let ?r = "exactOffset c k mod uint (rateNum c)" and ?n = "uint (rateNum c)"
  have q: "uint ?rescaled = ?r * uint num div ?n"
    unfolding uint_nat exact(1) zdiv_int of_nat_mult unfolding uint_nat [symmetric] offsetFrom_exact(2) [OF c] ..
  have "?r * uint num div ?n * ?n + ?r * uint num mod ?n = ?r * uint num" by (rule div_mult_mod_eq)
  moreover have "0 \<le> ?r * uint num mod ?n" "?r * uint num mod ?n < ?n" using rateNum_pos [OF c] by simp_all
  ultimately have "uint ?rescaled * ?n \<le> ?r * uint num" "?r * uint num < (uint ?rescaled + 1) * ?n"
    unfolding q by (simp_all only: distrib_right mult_1 le_add_same_cancel1)
  then show ?thesis using True c' time kept unfolding run made by simp
qed

lemma with_rate_exact_witness:
  "\<exists>c'. withRate \<lparr>anchorIndex = 1000, anchorNs = 5, rateNum = 3, rateDen = 1, anchorRem = 2\<rparr> 48000 1 1001 = Inr c' \<and>
    timeOf c' 1001 = timeOf \<lparr>anchorIndex = 1000, anchorNs = 5, rateNum = 3, rateDen = 1, anchorRem = 2\<rparr> 1001"
proof -
  let ?c = "\<lparr>anchorIndex = 1000, anchorNs = 5, rateNum = 3, rateDen = 1, anchorRem = 2\<rparr>"
  have "constructed ?c" "rateAccepted 48000 1" by code_simp+
  then show ?thesis using with_rate_exact [of ?c 48000 1 1001] by (auto split: sum.splits)
qed

subsection \<open>The walk\<close>

lemma uint_of_int_fits: "0 \<le> x \<Longrightarrow> x < 2 ^ 64 \<Longrightarrow> uint (of_int x :: u64) = x"
  by (simp add: uint_word_of_int)

lemma walk_step:
  assumes c: "constructed c" and k: "uint k + 1 < 2 ^ 64"
  shows "advance (walkFrom c k) = walkFrom c (k + 1)"
    "fitsInt64 (exactTime c k) \<Longrightarrow> fitsInt64 (exactTime c (k + 1)) \<Longrightarrow> advanceDefined (walkFrom c k)"
proof -
  note C = constructedD [OF c]
  let ?n = "uint (rateNum c)" and ?O = "exactOffset c k"
  define r carry where "r = ?O mod ?n" and "carry = period c mod ?n"
  have n: "0 < ?n" by (rule rateNum_pos [OF c])
  have k1: "uint (k + 1) = uint k + 1" using k by (simp add: uint_word_ariths)
  have next_offset: "exactOffset c (k + 1) = ?O + period c" unfolding exactOffset_def k1 by (simp add: algebra_simps)
  have p: "uint (periodNsNum c) = period c" using C(7) by (simp only: uint_nat)
  have parts: "uint (splitRem (offsetFrom c k)) = r" "uint (periodNsNum c mod rateNum c) = carry"
    "periodNsNum c div rateNum c = of_int (period c div ?n)"
    unfolding r_def carry_def offsetFrom_exact [OF c] uint_mod p by (simp_all add: word_div_def p)
  have bounds: "0 \<le> r" "r < ?n" "0 \<le> carry" "carry < ?n" using n by (simp_all add: r_def carry_def)
  have "int (unat (rateNum c)) < int (2 ^ 63)" using C(2) by (simp only: of_nat_less_iff)
  then have n63: "?n < 2 ^ 63" unfolding uint_nat by simp
  have sum: "uint (splitRem (offsetFrom c k) + periodNsNum c mod rateNum c) = r + carry"
    using bounds n63 parts by (simp add: uint_word_ariths)
  have split: "(?O + period c) div ?n = ?O div ?n + period c div ?n + (r + carry) div ?n" "(?O + period c) mod ?n = (r + carry) mod ?n"
    unfolding r_def carry_def by (rule div_add1_eq, rule mod_add_eq [symmetric])
  show "advance (walkFrom c k) = walkFrom c (k + 1)"
  proof (cases "r + carry < ?n")
    case True
    then have small: "(r + carry) div ?n = 0" "(r + carry) mod ?n = r + carry" using bounds by simp_all
    have "splitRem (offsetFrom c (k + 1)) = splitRem (offsetFrom c k) + periodNsNum c mod rateNum c"
      by (rule word_uint_eqI) (simp only: sum offsetFrom_exact(2) [OF c] next_offset split small)
    moreover have "splitWhole (offsetFrom c (k + 1)) = splitWhole (offsetFrom c k) + periodNsNum c div rateNum c"
      unfolding offsetFrom_exact [OF c] next_offset split small parts by simp
    moreover have "\<not> splitRem (offsetFrom c k) + periodNsNum c mod rateNum c \<ge> rateNum c"
      unfolding word_le_def sum using True by simp
    ultimately show ?thesis by (simp add: advance_def walkFrom_def Let_def)
  next
    case False
    then have ge: "?n \<le> r + carry" by simp
    have big: "(r + carry) div ?n = 1" "(r + carry) mod ?n = r + carry - ?n"
      using bounds ge by (simp_all only: div_pos_geq [OF n ge] mod_pos_geq [OF n ge] div_pos_pos_trivial mod_pos_pos_trivial)
    have le: "rateNum c \<le> splitRem (offsetFrom c k) + periodNsNum c mod rateNum c" unfolding word_le_def sum using ge .
    have "splitRem (offsetFrom c (k + 1)) = splitRem (offsetFrom c k) + periodNsNum c mod rateNum c - rateNum c"
      by (rule word_uint_eqI) (use le sum in \<open>simp only: uint_sub_if' word_le_def offsetFrom_exact(2) [OF c] next_offset split big if_True\<close>)
    moreover have "splitWhole (offsetFrom c (k + 1)) = splitWhole (offsetFrom c k) + periodNsNum c div rateNum c + 1"
      unfolding offsetFrom_exact [OF c] next_offset split big parts by simp
    ultimately show ?thesis using le by (simp add: advance_def walkFrom_def Let_def)
  qed
  assume fits: "fitsInt64 (exactTime c k)" "fitsInt64 (exactTime c (k + 1))"
  let ?whole = "period c div ?n"
  have later: "exactTime c (k + 1) = exactTime c k + ?whole + (r + carry) div ?n"
    unfolding exactTime_def next_offset split by simp
  have nonneg: "0 \<le> ?whole" "0 \<le> (r + carry) div ?n" using C(8) n bounds by (simp_all add: pos_imp_zdiv_nonneg_iff)
  have "period c < 2 ^ 63"
  proof -
    have "int (unat (periodNsNum c)) < int (2 ^ 63)" using C(6) by (simp only: of_nat_less_iff)
    then show ?thesis unfolding C(7) by simp
  qed
  moreover have "?whole \<le> period c"
  proof -
    have "?whole * 1 \<le> ?whole * ?n" using nonneg(1) n by (intro mult_left_mono) simp_all
    also have "\<dots> \<le> period c" using le_div_iff [OF n, of ?whole "period c"] by simp
    finally show ?thesis by simp
  qed
  ultimately have "?whole < 2 ^ 63" by linarith
  then have whole: "sint (walkWhole (walkFrom c k)) = ?whole"
    using nonneg(1) parts(3) by (simp add: walkFrom_def Let_def sint_word_of_int_fits)
  have ns: "sint (walkNs (walkFrom c k)) = exactTime c k"
    using timeOf_exact [OF c fits(1)] by (simp add: walkFrom_def timeOf_def Let_def)
  have first: "fitsInt64 (exactTime c k + ?whole)" using fits nonneg unfolding later fitsInt64_def by linarith
  have sum_ns: "sint (walkNs (walkFrom c k) + walkWhole (walkFrom c k)) = exactTime c k + ?whole"
  proof -
    have "walkNs (walkFrom c k) + walkWhole (walkFrom c k) = of_int (exactTime c k + ?whole)"
      unfolding ns [symmetric] whole [symmetric] by simp
    then show ?thesis using sint_of_int_fits [OF first] by simp
  qed
  show "advanceDefined (walkFrom c k)"
  proof (cases "r + carry < ?n")
    case True
    then have "\<not> walkRem (walkFrom c k) + walkCarry (walkFrom c k) \<ge> walkModulus (walkFrom c k)"
      by (simp add: walkFrom_def Let_def word_le_def sum)
    then show ?thesis using first by (simp add: advanceDefined_def sumDefined_def ns whole)
  next
    case False
    then have "(r + carry) div ?n = 1" using bounds by (simp add: div_pos_geq [OF n])
    then have "fitsInt64 (exactTime c k + ?whole + 1)" using fits(2) unfolding later by simp
    then show ?thesis using first by (simp add: advanceDefined_def sumDefined_def ns whole sum_ns)
  qed
qed

text \<open>C38. From any sample, any number of division-free steps short of the last index stands on exactly
  the time timeOf computes by division; where the times of the samples passed fit the axis it is
  their exact floor, and no step overflows a signed sum.\<close>

theorem walk_equals_timeOf:
  assumes c: "constructed c" and fits: "uint index + int m < 2 ^ 64"
  shows "walkNs ((advance ^^ m) (walkFrom c index)) = timeOf c (index + of_nat m) \<and>
    ((\<forall>j\<le>m. fitsInt64 (exactTime c (index + of_nat j))) \<longrightarrow>
      sint (walkNs ((advance ^^ m) (walkFrom c index))) = exactTime c (index + of_nat m) \<and>
      (\<forall>j<m. advanceDefined ((advance ^^ j) (walkFrom c index))))"
proof -
  have at: "uint (index + of_nat j) = uint index + int j" if "j \<le> m" for j
  proof -
    have "uint index + int j < 2 ^ 64" using that fits by linarith
    then show ?thesis using uint_of_int_fits [of "uint index + int j"] by simp
  qed
  have step: "advance (walkFrom c (index + of_nat j)) = walkFrom c (index + of_nat (Suc j))"
    "fitsInt64 (exactTime c (index + of_nat j)) \<Longrightarrow> fitsInt64 (exactTime c (index + of_nat (Suc j))) \<Longrightarrow>
      advanceDefined (walkFrom c (index + of_nat j))" if "j < m" for j
  proof -
    have "uint (index + of_nat j) + 1 < 2 ^ 64" using at [of j] that fits by simp
    note walk_step [OF c this]
    moreover have "index + of_nat j + 1 = index + of_nat (Suc j)" by (simp add: ac_simps)
    ultimately show "advance (walkFrom c (index + of_nat j)) = walkFrom c (index + of_nat (Suc j))"
      "fitsInt64 (exactTime c (index + of_nat j)) \<Longrightarrow> fitsInt64 (exactTime c (index + of_nat (Suc j))) \<Longrightarrow>
        advanceDefined (walkFrom c (index + of_nat j))" by simp_all
  qed
  have walk: "(advance ^^ j) (walkFrom c index) = walkFrom c (index + of_nat j)" if "j \<le> m" for j
    using that by (induction j) (simp_all add: step(1) del: of_nat_Suc)
  show ?thesis
    unfolding walk [OF order.refl] using step(2) walk timeOf_exact [OF c]
    by (auto simp: walkFrom_def timeOf_def Let_def simp del: of_nat_Suc)
qed

lemma walk_equals_timeOf_witness:
  "walkNs ((advance ^^ 3) (walkFrom \<lparr>anchorIndex = 1000, anchorNs = 5, rateNum = 3, rateDen = 1, anchorRem = 2\<rparr> 998)) =
    timeOf \<lparr>anchorIndex = 1000, anchorNs = 5, rateNum = 3, rateDen = 1, anchorRem = 2\<rparr> 1001"
proof -
  let ?c = "\<lparr>anchorIndex = 1000, anchorNs = 5, rateNum = 3, rateDen = 1, anchorRem = 2\<rparr>"
  have "constructed ?c" by code_simp
  then show ?thesis using walk_equals_timeOf [of ?c 998 3] by simp
qed

end
