(* ===== verification/Spec2Isabelle.thy ===== *)
theory Spec2Isabelle
  imports Hamming Golay Bch Crc BitPacking InterleaverStream ScramblerProperties DelimiterSafety HeaderProperties ManchesterProperties ViterbiProperties ReedSolomonProperties Codeblock SampleClockProperties
begin

text \<open>
  A verification library for the digital-communication core of the repository: the header-only algorithms under
  \<^verbatim>\<open>src/library/algorithm/include/gnuradio-4.0/algorithm/\<close>, directories \<^verbatim>\<open>fec/\<close> and \<^verbatim>\<open>digital/\<close>,
  with \<^verbatim>\<open>math/BitPacking.hpp\<close> and \<^verbatim>\<open>timing/SampleClock.hpp\<close>.  These headers hold the program's own bit-exact logic: the error-correcting
  codes, the interleavers, the checksums, the scramblers, the framing and header layers and the line coder that the
  blocks under \<^verbatim>\<open>src/blocks/\<close> wrap into a flow graph, and the clock that dates their samples.  A receiver composes them in the order clock and line
  decoding (Manchester), descrambling, delimiting, header parsing, deinterleaving, error correction, checksum and
  repacking; a transmitter composes them the other way round.  Each is a value type with a configuration step that
  validates and may refuse, an operation over whole spans, and a state carried from one call to the next.

  \<^bold>\<open>Conventions.\<close>  An 8, 16, 32 or 64-bit integer of the code is a word of that width, so that wrap-around,
  shifts and masks are the machine's; a \<^verbatim>\<open>std::size_t\<close> that only counts or indexes a span in memory is a
  natural number, and becomes a 64-bit word where overflow is reachable.  A struct is a record with the code's fields in
  the code's order, an enum a datatype, \<^verbatim>\<open>std::optional\<close> an option, \<^verbatim>\<open>std::expected\<close> a sum with the
  error on the left, an output span a list that is returned updated, and an operation on an object a function that
  returns the object updated.  A loop with a bound is a fold over its index range in the code's order, or a structural
  recursion; a loop whose end is not syntactic is a \<open>partial_function\<close> into option, where not returning is the
  value None, and its termination is proved where a property rests on it.

  \<^bold>\<open>Theories.\<close>

  \<^item> \<open>Prelude\<close> and \<open>BitStream\<close> hold what the components share: bits and weights of words, loops that
  update a list slot by slot, items as fields of a bit stream in either bit order.

  \<^item> \<open>Gf2\<close> (\<^verbatim>\<open>fec/Gf2Polynomial.hpp\<close>) is division of bit polynomials; \<open>LinearCode\<close> is the locale
  every linear block code instantiates: unique decoding within half the distance, from linearity and a distance bound.

  \<^item> \<open>Hamming\<close>, \<open>Golay\<close>, \<open>Bch\<close> (\<^verbatim>\<open>fec/Hamming.hpp\<close>, \<^verbatim>\<open>fec/Golay.hpp\<close>,
  \<^verbatim>\<open>fec/Bch.hpp\<close>): encoders, tables built by the code's own enumeration, and decoders.  The lemmas show that
  the tables are complete, that every error within the stated power is corrected and every heavier one within the
  detecting power refused, and that the BCH search implements nearest-codeword decoding.

  \<^item> \<open>Crc\<close> (\<^verbatim>\<open>digital/Crc.hpp\<close>): the direct, mirrored and bit-at-a-time table forms against one reference
  division.

  \<^item> \<open>BitPacking\<close> (\<^verbatim>\<open>math/BitPacking.hpp\<close>): repacking between item widths and bit orders over whole
  periods, the tail, and the offset map, with its 64-bit intermediate results.

  \<^item> \<open>Interleaver\<close>, \<open>InterleaverStream\<close> (\<^verbatim>\<open>fec/Interleaver.hpp\<close>): block, permutation and
  convolutional families; the delay lines as queues, whose delays over a stream add up to the latency.

  \<^item> \<open>Scrambler\<close>, \<open>ScramblerStream\<close>, \<open>ScramblerProperties\<close> (\<^verbatim>\<open>digital/Scrambler.hpp\<close>):
  the tap spellings and profiles, the three configurations, and the word-at-a-time sample path against the bit-at-a-time
  reference of the code, in every state a scrambler can reach.

  \<^item> \<open>Delimiter\<close>, \<open>DelimiterScan\<close>, \<open>DelimiterProperties\<close>, \<open>DelimiterSafety\<close>
  (\<^verbatim>\<open>digital/Delimiter.hpp\<close>): the frame encoder and the scanner's state machine, whose reachable states are
  an inductive relation over prepare, push, resynchronize, reset and seek.

  \<^item> \<open>HeaderFormat\<close>, \<open>HeaderProperties\<close> (\<^verbatim>\<open>digital/HeaderFormat.hpp\<close>): the five header layouts as
  one closed variant; each layout interprets the locale of a header layout, whose law is the round trip.

  \<^item> \<open>Manchester\<close>, \<open>ManchesterProperties\<close> (\<^verbatim>\<open>digital/Manchester.hpp\<close>): the line coder, its
  table-driven and bit-parallel forms against the chip-at-a-time definitions, and the chip stream as what a decode call
  keeps.

  \<^item> \<open>Convolutional\<close>, \<open>ConvolutionalProperties\<close>, \<open>ViterbiProperties\<close>
  (\<^verbatim>\<open>fec/Convolutional.hpp\<close>): the code, the terminated encoder and the Viterbi decoder; survivors are optimal
  paths by induction over the steps, the traceback reads one of them, and a frame's distance is its path's distance.

  \<^item> \<open>ReedSolomon\<close>, \<open>ReedSolomonField\<close>, \<open>ReedSolomonProperties\<close>
  (\<^verbatim>\<open>fec/ReedSolomon.hpp\<close>): tables, generator, encoder and the errors-and-erasures decoder over the template
  arguments; the tables as a field, the generator's roots, the minimum distance by elimination, and what the decoder
  reports against what it changes.  \<open>Codeblock\<close> shows the header's codeblock interleaving to be the block
  interleaver of \<^verbatim>\<open>fec/Interleaver.hpp\<close>.

  \<^item> \<open>SampleClock\<close>, \<open>SampleClockProperties\<close> (\<^verbatim>\<open>timing/SampleClock.hpp\<close>): the exact map
  between sample indices and nanoseconds over 128-bit limbs; the limb operations as natural numbers, and from them both
  conversions as floors of one rational map that rebasing keeps and the division-free walk follows.  Signed sums wrap
  in the model; predicates beside the operations say where the code's overflow, and the properties where they do not.

  \<^bold>\<open>Bounds and fuel.\<close>  No definition takes fuel.  Loops that end for an arithmetic reason are functions
  with a termination proof (the delay-list readers and the chunk loop of the scrambler) or, where the argument is part of
  what there is to show, partial functions into option (the BCH coset walk, the scrambler's field loops and phase wrap,
  the Euclidean loop of the Reed-Solomon header); each is shown to return wherever a property speaks of its result.  Where a property needs a size to stay below the wrap-around of
  \<^verbatim>\<open>std::size_t\<close> it says so as a hypothesis.

  \<^bold>\<open>Hypotheses on parameters.\<close>  The Reed-Solomon properties hold for every instantiation that compiles whose
  field polynomial is primitive and whose primitive step is below \<open>2 ^ 23\<close> (so that exponents do not wrap);
  \<open>named_codes\<close> discharges this for every GF(64) code on \<open>0x43\<close> and both CCSDS codes.

  \<^bold>\<open>Not modelled.\<close>  Floating point: Isabelle's library here has no IEEE arithmetic, so the clock's
  \<^verbatim>\<open>double\<close> accessors and \<^verbatim>\<open>clockForRateHz\<close>, the filters, Fourier
  transforms, resamplers, synchronization loops, channel models, measurements, constellations, pulse shapes and the soft
  sample variants of the scanner and header parser are left out; the path metrics of the Viterbi decoder are exact values of
  an ordered group instead of \<^verbatim>\<open>float\<close>, which is what the hard decoder computes for frames below sixteen
  million accumulated bits and an idealization of the soft one.  The blocks under \<^verbatim>\<open>src/blocks/\<close> are adapters
  whose base class, ports, tags and scheduler live in another repository; file, network, radio, audio and message-queue
  input and output is made of calls into operating-system and third-party interfaces; terminal plotting has no claim
  beyond its picture.  That the Reed-Solomon decoder finds every error pattern within its power (the completeness of
  Berlekamp-Massey and Forney) is not proved; that it never calls anything but the one nearby codeword valid is.
\<close>

end
